(* ===== verification/Prelude.thy ===== *)
theory Prelude
  imports Main "HOL-Library.Word"
begin

text \<open>
  Shared vocabulary of the development.

  \<^item> the machine integer types of the code and the facts that move a word
    expression (mask, shift, bitwise or of disjoint fields) to \<open>nat\<close>, collected
    in \<open>word_nat\<close>;
  \<^item> C strings: a \<open>char const *\<close> cursor is the list of the bytes from the
    cursor to the terminator, \<open>peek\<close> reads the byte under it (the terminator
    itself at the end of the list) and \<open>tl\<close> advances it;
  \<^item> the interface \<open>prefix_codec\<close>: an encoder and a decoder of the next item of
    a stream, the contract the text and wire formats of the program share.
\<close>

unbundle bit_operations_syntax

named_theorems word_nat \<open>move word expressions to natural numbers\<close>

type_synonym u8 = "8 word"
type_synonym u16 = "16 word"
type_synonym u32 = "32 word"
type_synonym u64 = "64 word"

section \<open>Characters and C strings\<close>

text \<open>\<open>ucode c\<close> is the value of \<open>(unsigned char) c\<close>.\<close>

definition ucode :: "char \<Rightarrow> nat" where
  "ucode c = of_char c"

text \<open>\<open>a <= c && c <= b\<close>\<close>

definition between :: "char \<Rightarrow> char \<Rightarrow> char \<Rightarrow> bool" where
  "between a c b \<longleftrightarrow> ucode a \<le> ucode c \<and> ucode c \<le> ucode b"

abbreviation NUL :: char where
  "NUL \<equiv> CHR 0x00"

fun peek :: "string \<Rightarrow> char" where
  "peek [] = NUL"
| "peek (c # s) = c"

text \<open>The byte stored by \<open>*o++ = w\<close> for an unsigned word \<open>w\<close>: its low eight bits.\<close>

definition low_byte :: "'a::len word \<Rightarrow> char" where
  "low_byte w = char_of (unat w)"

lemma ucode_less [simp]: "ucode c < 256"
  by (simp add: ucode_def)

lemma ucode_le [simp]: "ucode c \<le> 255"
  using ucode_less [of c] by linarith

lemma ucode_low_byte [word_nat]: "ucode (low_byte w) = unat w mod 256"
  by (simp add: ucode_def low_byte_def)

lemma char_eq_iff_ucode: "c = d \<longleftrightarrow> ucode c = ucode d"
  by (simp add: ucode_def)

lemma char_of_ucode [simp]: "char_of (ucode c) = c"
  by (simp add: ucode_def)

lemma ucode_char_of: "n < 256 \<Longrightarrow> ucode (char_of n) = n"
  by (simp add: ucode_def)

lemma peek_append: "peek (s @ r) = (if s = [] then peek r else peek s)"
  by (cases s) simp_all

lemma peek_Cons_iff: "peek s = c \<Longrightarrow> c \<noteq> NUL \<Longrightarrow> s = c # tl s"
  by (cases s) simp_all

section \<open>Masks, shifts and disjoint bit fields\<close>

lemma unat_shr: "unat (drop_bit n w) = unat (w::'a::len word) div 2 ^ n"
proof -
  have "unat (drop_bit n w) = drop_bit n (unat w)" by (rule unat_drop_bit_eq)
  then show ?thesis by (simp only: drop_bit_eq_div)
qed

lemma unat_and_mask: "unat (w AND mask n) = unat (w :: 'a::len word) mod 2 ^ n"
  by (simp only: take_bit_eq_mask [symmetric] unsigned_take_bit_eq
      take_bit_eq_mod [of n "unat w"])

lemma unat_shl:
  fixes x :: "'a::len word"
  assumes "unat x * 2 ^ n < 2 ^ LENGTH('a)"
  shows "unat (push_bit n x) = unat x * 2 ^ n"
proof -
  have "unat (push_bit n x) = take_bit LENGTH('a) (push_bit n (unat x))"
    by (rule unsigned_push_bit_eq)
  also have "\<dots> = unat x * 2 ^ n"
    using assms by (simp only: push_bit_eq_mult take_bit_nat_eq_self_iff)
  finally show ?thesis .
qed

lemma nat_shift_or:
  fixes a b :: nat
  assumes "b < 2 ^ n"
  shows "push_bit n a OR b = a * 2 ^ n + b"
proof -
  have b: "take_bit n b = b"
    using assms by (simp only: take_bit_nat_eq_self_iff)
  have "push_bit n a AND b = 0"
  proof (rule bit_eqI)
    fix k
    show "bit (push_bit n a AND b) k = bit 0 k"
      by (subst b [symmetric]) (auto simp: bit_and_iff bit_push_bit_iff bit_take_bit_iff)
  qed
  from disjunctive_add_eq_or [OF this] show ?thesis
    by (simp only: push_bit_eq_mult)
qed

text \<open>A field shifted above the bits of \<open>y\<close>: the bitwise or is the sum.\<close>

lemma unat_shl_or:
  fixes x y :: "'a::len word"
  assumes y: "unat y < 2 ^ n" and x: "unat x * 2 ^ n < 2 ^ LENGTH('a)"
  shows "unat (push_bit n x OR y) = unat x * 2 ^ n + unat y"
proof -
  have "unat (push_bit n x) = push_bit n (unat x)"
    using unat_shl [OF x] by (simp only: push_bit_eq_mult [of n "unat x"])
  then have "unat (push_bit n x OR y) = push_bit n (unat x) OR unat y"
    by (simp only: unsigned_or_eq)
  with nat_shift_or [OF y] show ?thesis by simp
qed

lemma unat_and_low [word_nat]:
  fixes w :: "'a::len word"
  shows "unat (w AND 0x3) = unat w mod 4" and "unat (w AND 0x7) = unat w mod 8"
    and "unat (w AND 0xF) = unat w mod 16" and "unat (w AND 0x1F) = unat w mod 32"
    and "unat (w AND 0x3F) = unat w mod 64" and "unat (w AND 0x3FF) = unat w mod 1024"
  using unat_and_mask [of w 2] unat_and_mask [of w 3] unat_and_mask [of w 4]
    unat_and_mask [of w 5] unat_and_mask [of w 6] unat_and_mask [of w 10]
  by (simp_all add: mask_eq_exp_minus_1)

declare unat_shr [word_nat]

section \<open>Decoders that consume a prefix\<close>

text \<open>
  Decoding \<open>n\<close> items one after the other, with the decoder of one item as a
  parameter: the shape of every counted sequence of the program.
\<close>

fun decode_n :: "('b list \<Rightarrow> ('a \<times> 'b list) option) \<Rightarrow> nat \<Rightarrow> 'b list \<Rightarrow> ('a list \<times> 'b list) option" where
  "decode_n dec 0 bs = Some ([], bs)"
| "decode_n dec (Suc n) bs =
     (case dec bs of
        None \<Rightarrow> None
      | Some (a, r) \<Rightarrow>
          (case decode_n dec n r of
             None \<Rightarrow> None
           | Some (as, r') \<Rightarrow> Some (a # as, r')))"

locale prefix_codec =
  fixes enc :: "'a \<Rightarrow> 'b list"
    and dec :: "'b list \<Rightarrow> ('a \<times> 'b list) option"
    and ok :: "'a \<Rightarrow> bool"
  assumes dec_enc: "ok a \<Longrightarrow> dec (enc a @ r) = Some (a, r)"
begin

lemma dec_enc_all: "ok a \<Longrightarrow> dec (enc a) = Some (a, [])"
  using dec_enc [of a "[]"] by simp

text \<open>Unique decodability: an encoding is never a prefix of another one.\<close>

lemma enc_prefix_free:
  assumes "ok a" and "ok b" and "enc a @ r = enc b @ s"
  shows "a = b \<and> r = s"
proof -
  from dec_enc [OF assms(1), of r] dec_enc [OF assms(2), of s]
  have "Some (a, r) = Some (b, s)" by (simp only: assms(3))
  then show ?thesis by simp
qed

lemma enc_inj: "ok a \<Longrightarrow> ok b \<Longrightarrow> enc a = enc b \<Longrightarrow> a = b"
  using enc_prefix_free [of a b "[]" "[]"] by simp

lemma decode_n_concat:
  "\<forall>a \<in> set as. ok a \<Longrightarrow> decode_n dec (length as) (concat (map enc as) @ r) = Some (as, r)"
  by (induction as) (simp_all add: dec_enc)

end

end
