(* ===== verification/Utf8.thy ===== *)
theory Utf8
  imports Prelude
begin

text \<open>
  The Unicode helpers of \<^verbatim>\<open>suil/json.cpp\<close>: validation, reading and writing of
  one UTF-8 character, and UTF-16 surrogate pairs.  Code points are \<open>uint32_t\<close>
  (\<open>u32\<close>), surrogates \<open>uint16_t\<close> (\<open>u16\<close>).  The main facts: what
  \<open>utf8_write_char\<close> writes is valid and read back unchanged, the validator accepts
  exactly the strings written that way, and surrogate pairs are a bijection
  onto the supplementary planes.
\<close>

datatype json_error =
    InvalidUtf8 | InvalidUnicode | NotArray | NotObject | NotNumber | NotString | InvalidJson nat

text \<open>\<open>((unsigned char) c & 0xC0) != 0x80\<close>\<close>

definition not_continuation :: "char \<Rightarrow> bool" where
  "not_continuation c \<longleftrightarrow> ((of_char c :: u8) AND 0xC0) \<noteq> 0x80"

definition utf8_validate_cz :: "string \<Rightarrow> nat" where
  "utf8_validate_cz s =
     (let c = ucode (peek s); s1 = tl s; s2 = tl s1; s3 = tl s2 in
      if c \<le> 0x7F then 1
      else if c \<le> 0xC1 then 0
      else if c \<le> 0xDF then
        (if not_continuation (peek s1) then 0 else 2)
      else if c \<le> 0xEF then
        (if c = 0xE0 \<and> ucode (peek s1) < 0xA0 then 0
         else if c = 0xED \<and> ucode (peek s1) > 0x9F then 0
         else if not_continuation (peek s1) then 0
         else if not_continuation (peek s2) then 0
         else 3)
      else if c \<le> 0xF4 then
        (if c = 0xF0 \<and> ucode (peek s1) < 0x90 then 0
         else if c = 0xF4 \<and> ucode (peek s1) > 0x8F then 0
         else if not_continuation (peek s1) then 0
         else if not_continuation (peek s2) then 0
         else if not_continuation (peek s3) then 0
         else 4)
      else 0)"

text \<open>The loop of \<open>utf8_validate\<close> advances by the length of each character.\<close>

function utf8_validate :: "string \<Rightarrow> bool" where
  "utf8_validate s =
     (if peek s = NUL then True
      else let len = utf8_validate_cz s
           in if len = 0 then False else utf8_validate (drop len s))"
  by pat_completeness auto
termination
proof (relation "measure length")
  fix s :: string and len
  assume "peek s \<noteq> NUL" and "len = utf8_validate_cz s" and "len \<noteq> 0"
  then show "(drop len s, s) \<in> measure length"
    by (cases s) simp_all
qed simp

declare utf8_validate.simps [simp del]

text \<open>\<open>(uchar_t) c\<close> of an unsigned byte\<close>

definition byte32 :: "char \<Rightarrow> u32" where
  "byte32 c = of_nat (ucode c)"

definition utf8_read_char :: "string \<Rightarrow> json_error + (nat \<times> u32)" where
  "utf8_read_char s =
     (let c0 = peek s; c1 = peek (tl s); c2 = peek (tl (tl s)); c3 = peek (tl (tl (tl s))) in
      if utf8_validate_cz s = 0 then Inl InvalidUtf8
      else if ucode c0 \<le> 0x7F then Inr (1, byte32 c0)
      else if ucode c0 \<le> 0xDF then
        Inr (2, push_bit 6 (byte32 c0 AND 0x1F) OR (byte32 c1 AND 0x3F))
      else if ucode c0 \<le> 0xEF then
        Inr (3, push_bit 12 (byte32 c0 AND 0xF) OR
                (push_bit 6 (byte32 c1 AND 0x3F) OR (byte32 c2 AND 0x3F)))
      else
        Inr (4, push_bit 18 (byte32 c0 AND 0x7) OR
                (push_bit 12 (byte32 c1 AND 0x3F) OR
                 (push_bit 6 (byte32 c2 AND 0x3F) OR (byte32 c3 AND 0x3F)))))"

definition utf8_write_char :: "u32 \<Rightarrow> json_error + string" where
  "utf8_write_char unicode =
     (if \<not> (unicode \<le> 0x10FFFF \<and> \<not> (unicode \<ge> 0xD800 \<and> unicode \<le> 0xDFFF)) then Inl InvalidUnicode
      else if unicode \<le> 0x7F then Inr [low_byte unicode]
      else if unicode \<le> 0x7FF then
        Inr [low_byte (0xC0 OR drop_bit 6 unicode),
             low_byte (0x80 OR (unicode AND 0x3F))]
      else if unicode \<le> 0xFFFF then
        Inr [low_byte (0xE0 OR drop_bit 12 unicode),
             low_byte (0x80 OR (drop_bit 6 unicode AND 0x3F)),
             low_byte (0x80 OR (unicode AND 0x3F))]
      else
        Inr [low_byte (0xF0 OR drop_bit 18 unicode),
             low_byte (0x80 OR (drop_bit 12 unicode AND 0x3F)),
             low_byte (0x80 OR (drop_bit 6 unicode AND 0x3F)),
             low_byte (0x80 OR (unicode AND 0x3F))])"

definition from_surrogate_pair :: "u16 \<Rightarrow> u16 \<Rightarrow> u32 option" where
  "from_surrogate_pair uc lc =
     (if uc \<ge> 0xD800 \<and> uc \<le> 0xDBFF \<and> lc \<ge> 0xDC00 \<and> lc \<le> 0xDFFF
      then Some (0x10000 + (push_bit 10 ((ucast uc :: u32) AND 0x3FF) OR ucast (lc AND 0x3FF)))
      else None)"

definition to_surrogate_pair :: "u32 \<Rightarrow> json_error + (u16 \<times> u16)" where
  "to_surrogate_pair unicode =
     (if \<not> (unicode \<ge> 0x10000 \<and> unicode \<le> 0x10FFFF) then Inl InvalidUnicode
      else let n = unicode - 0x10000
           in Inr (ucast ((drop_bit 10 n AND 0x3FF) OR 0xD800),
                   ucast ((n AND 0x3FF) OR 0xDC00)))"

lemma not_continuation_iff: "not_continuation c \<longleftrightarrow> \<not> (128 \<le> ucode c \<and> ucode c < 192)"
  by (cases c) (auto simp: not_continuation_def ucode_def of_char_def split: if_splits)

section \<open>The specification: code units of a scalar value\<close>

definition unicode_scalar :: "nat \<Rightarrow> bool" where
  "unicode_scalar n \<longleftrightarrow> n \<le> 0x10FFFF \<and> \<not> (0xD800 \<le> n \<and> n \<le> 0xDFFF)"

definition utf8_code_units :: "nat \<Rightarrow> nat list" where
  "utf8_code_units n =
     (if n < 128 then [n]
      else if n < 2048 then [192 + n div 64, 128 + n mod 64]
      else if n < 65536 then [224 + n div 4096, 128 + n div 64 mod 64, 128 + n mod 64]
      else [240 + n div 262144, 128 + n div 4096 mod 64, 128 + n div 64 mod 64, 128 + n mod 64])"

lemma u32_le_iff: "(u::u32) \<le> v \<longleftrightarrow> unat u \<le> unat v"
  by (simp add: word_le_nat_alt)

lemma cont_byte: "unat (0x80 OR (w AND 0x3F) :: u32) = 128 + unat w mod 64"
  using unat_shl_or [of "w AND 0x3F" 7 1] by (simp add: word_nat)
lemma lead2: "unat (u::u32) < 2048 \<Longrightarrow> unat (0xC0 OR drop_bit 6 u) = 192 + unat u div 64"
  using unat_shl_or [of "drop_bit 6 u" 6 3] by (simp add: word_nat unat_shr[of 6, simplified])
lemma lead3: "unat (u::u32) < 65536 \<Longrightarrow> unat (0xE0 OR drop_bit 12 u) = 224 + unat u div 4096"
  using unat_shl_or [of "drop_bit 12 u" 5 7] by (simp add: word_nat unat_shr[of 12, simplified])
lemma lead4: "unat (u::u32) \<le> 0x10FFFF \<Longrightarrow> unat (0xF0 OR drop_bit 18 u) = 240 + unat u div 262144"
  using unat_shl_or [of "drop_bit 18 u" 4 15] by (simp add: word_nat unat_shr[of 18, simplified])

lemma utf8_write_char_spec:
  "utf8_write_char u =
     (if unicode_scalar (unat u) then Inr (map char_of (utf8_code_units (unat u))) else Inl InvalidUnicode)"
  unfolding utf8_write_char_def utf8_code_units_def unicode_scalar_def u32_le_iff
  by (simp add: low_byte_def cont_byte lead2 lead3 lead4 unat_shr)

lemma ucode_char_of_mod [simp]: "ucode (char_of (n::nat)) = n mod 256"
  by (simp add: ucode_def)
lemma unat_byte32: "unat (byte32 c) = ucode c"
proof -
  have "ucode c < 2 ^ LENGTH(32)" by (rule less_le_trans [OF ucode_less]) simp
  then show ?thesis unfolding byte32_def by (simp only: unsigned_of_nat take_bit_nat_eq_self_iff [THEN iffD2] of_nat_id)
qed

lemma digits_base64:
  fixes n :: nat
  shows "n div 4096 * 4096 + n div 64 mod 64 * 64 + n mod 64 = n"
    and "n div 262144 * 262144 + n div 4096 mod 64 * 4096 + n div 64 mod 64 * 64 + n mod 64 = n"
proof -
  have a: "n div 4096 = n div 64 div 64" and b: "n div 262144 = n div 4096 div 64"
    by (simp_all add: div_mult2_eq [symmetric])
  show c: "n div 4096 * 4096 + n div 64 mod 64 * 64 + n mod 64 = n"
    using div_mult_mod_eq [of n 64] div_mult_mod_eq [of "n div 64" 64] unfolding a by linarith
  show "n div 262144 * 262144 + n div 4096 mod 64 * 4096 + n div 64 mod 64 * 64 + n mod 64 = n"
    using c div_mult_mod_eq [of "n div 4096" 64] unfolding b by linarith
qed

lemma utf8_code_units_four:
  "65536 \<le> n \<Longrightarrow> utf8_code_units n =
     [240 + n div 262144, 128 + n div 4096 mod 64, 128 + n div 64 mod 64, 128 + n mod 64]"
  by (simp add: utf8_code_units_def)

lemma length_code_units: "length (utf8_code_units n) =
   (if n < 128 then 1 else if n < 2048 then 2 else if n < 65536 then 3 else 4)"
  by (simp add: utf8_code_units_def)

lemma utf8_validate_code_units:
  assumes "unicode_scalar n"
  shows "utf8_validate_cz (map char_of (utf8_code_units n) @ r) = length (utf8_code_units n)"
proof -
  consider "n < 128" | "128 \<le> n" "n < 2048" | "2048 \<le> n" "n < 65536" | "65536 \<le> n" "n \<le> 0x10FFFF"
    using assms by (fastforce simp: unicode_scalar_def)
  then show ?thesis
  proof cases
    case 1 then show ?thesis by (simp add: utf8_validate_cz_def utf8_code_units_def)
  next
    case 2 
    then have "n div 64 < 32" "2 \<le> n div 64" by auto
    with 2 show ?thesis by (simp add: utf8_validate_cz_def utf8_code_units_def not_continuation_iff)
  next
    case 3 
    then have "n div 4096 < 16" "\<not> (n div 4096 = 0 \<and> n div 64 mod 64 < 32)" by auto
    moreover have "n div 4096 = 13 \<longrightarrow> \<not> 31 < n div 64 mod 64"
    proof
      assume that: "n div 4096 = 13"
      have "n < 57344" using that by linarith
      then have "n < 55296" using assms unfolding unicode_scalar_def by linarith
      moreover have "53248 \<le> n" using that by linarith
      ultimately have "n div 64 < 864" by linarith
      moreover have "n div 64 div 64 = 13" using that by (simp add: div_mult2_eq [symmetric])
      ultimately show "\<not> 31 < n div 64 mod 64" using div_mult_mod_eq [of "n div 64" 64] by linarith
    qed
    moreover note 3
    ultimately
    show ?thesis by (simp add: utf8_validate_cz_def Let_def utf8_code_units_def not_continuation_iff)
  next
    case 4 
    then have "n div 262144 \<le> 4" "\<not> (n div 262144 = 0 \<and> n div 4096 mod 64 < 16)" 
      by auto
    moreover have "n div 262144 = 4 \<longrightarrow> \<not> 15 < n div 4096 mod 64"
    proof
      assume that: "n div 262144 = 4"
      have "n div 4096 < 272" using 4 by linarith
      moreover have "n div 4096 div 64 = 4" using that by (simp add: div_mult2_eq [symmetric])
      ultimately show "\<not> 15 < n div 4096 mod 64" using div_mult_mod_eq [of "n div 4096" 64] by linarith
    qed
    moreover note 4
    ultimately
    show ?thesis by (simp add: utf8_validate_cz_def Let_def utf8_code_units_def not_continuation_iff)
  qed
qed

lemma read2: "unat (push_bit 6 (byte32 a AND 0x1F) OR (byte32 b AND 0x3F)) = (ucode a mod 32) * 64 + ucode b mod 64"
  using unat_shl_or [of "byte32 b AND 0x3F" 6 "byte32 a AND 0x1F"] by (simp add: word_nat unat_byte32)
lemma read3: "unat (push_bit 12 (byte32 a AND 0xF) OR (push_bit 6 (byte32 b AND 0x3F) OR (byte32 c AND 0x3F)))
  = (ucode a mod 16) * 4096 + (ucode b mod 64) * 64 + ucode c mod 64"
  using unat_shl_or [of "byte32 c AND 0x3F" 6 "byte32 b AND 0x3F"] 
    unat_shl_or [of "push_bit 6 (byte32 b AND 0x3F) OR (byte32 c AND 0x3F)" 12 "byte32 a AND 0xF"] 
  by (simp add: word_nat unat_byte32)
lemma read4: "unat (push_bit 18 (byte32 a AND 0x7) OR (push_bit 12 (byte32 b AND 0x3F) OR 
    (push_bit 6 (byte32 c AND 0x3F) OR (byte32 d AND 0x3F))))
  = (ucode a mod 8) * 262144 + (ucode b mod 64) * 4096 + (ucode c mod 64) * 64 + ucode d mod 64"
  using unat_shl_or [of "byte32 d AND 0x3F" 6 "byte32 c AND 0x3F"] 
    unat_shl_or [of "push_bit 6 (byte32 c AND 0x3F) OR (byte32 d AND 0x3F)" 12 "byte32 b AND 0x3F"] 
    unat_shl_or [of "push_bit 12 (byte32 b AND 0x3F) OR (push_bit 6 (byte32 c AND 0x3F) OR (byte32 d AND 0x3F))" 18 "byte32 a AND 0x7"] 
  by (simp add: word_nat unat_byte32)



lemma u32_eqI: "unat w = n \<Longrightarrow> w = of_nat n" for w :: u32
  by (metis word_unat_eq_iff of_nat_unat ucast_id)

lemma utf8_read_char_spec:
  "utf8_read_char s =
     (let c0 = ucode (peek s); c1 = ucode (peek (tl s)) mod 64; c2 = ucode (peek (tl (tl s))) mod 64;
          c3 = ucode (peek (tl (tl (tl s)))) mod 64 in
      if utf8_validate_cz s = 0 then Inl InvalidUtf8
      else if c0 \<le> 0x7F then Inr (1, of_nat c0)
      else if c0 \<le> 0xDF then Inr (2, of_nat (c0 mod 32 * 64 + c1))
      else if c0 \<le> 0xEF then Inr (3, of_nat (c0 mod 16 * 4096 + c1 * 64 + c2))
      else Inr (4, of_nat (c0 mod 8 * 262144 + c1 * 4096 + c2 * 64 + c3)))"
  unfolding utf8_read_char_def Let_def read2 [THEN u32_eqI] read3 [THEN u32_eqI] read4 [THEN u32_eqI]
  unfolding byte32_def ..

lemma mod_lead:
  fixes x :: nat
  shows "x < 32 \<Longrightarrow> (192 + x) mod 32 = x" and "x < 16 \<Longrightarrow> (224 + x) mod 16 = x"
    and "x < 8 \<Longrightarrow> (240 + x) mod 8 = x"
  using mod_mult_self3 [of 6 32 x] mod_mult_self3 [of 14 16 x] mod_mult_self3 [of 30 8 x]
  by simp_all

lemma mod_trail: "(128 + x mod 64) mod 64 = (x::nat) mod 64"
  using mod_mult_self3 [of 2 64 "x mod 64"] by simp

lemma utf8_read_char_code_units:
  assumes "unicode_scalar n"
  shows "utf8_read_char (map char_of (utf8_code_units n) @ r) = Inr (length (utf8_code_units n), of_nat n)"
proof -
  have v: "utf8_validate_cz (map char_of (utf8_code_units n) @ r) \<noteq> 0"
    using utf8_validate_code_units [OF assms, of r] by (simp add: length_code_units)
  consider "n < 128" | "128 \<le> n" "n < 2048" | "2048 \<le> n" "n < 65536" | "65536 \<le> n" "n \<le> 0x10FFFF"
    using assms by (fastforce simp: unicode_scalar_def)
  then show ?thesis
  proof cases
    case 1
    with v show ?thesis by (simp add: utf8_read_char_spec utf8_code_units_def)
  next
    case 2
    then have "n div 64 < 32" "2 \<le> n div 64" by auto
    with 2 v show ?thesis
      by (simp add: mod_trail mod_lead utf8_read_char_spec utf8_code_units_def del: of_nat_add of_nat_mult)
  next
    case 3
    then have "n div 4096 < 16" by auto
    with 3 v show ?thesis
      by (simp add: mod_trail mod_lead utf8_read_char_spec utf8_code_units_def digits_base64 del: of_nat_add of_nat_mult)
  next
    case 4
    then have "n div 262144 < 8" by auto
    with 4 v show ?thesis
      by (simp add: mod_trail mod_lead utf8_read_char_spec utf8_code_units_def digits_base64 del: of_nat_add of_nat_mult)
  qed
qed

text \<open>The shape of what the validator accepts.\<close>

lemma utf8_validate_cases:
  assumes "utf8_validate_cz s \<noteq> 0"
  obtains (one) "ucode (peek s) < 128" "utf8_validate_cz s = 1"
  | (two) a b t where "s = a # b # t" "194 \<le> ucode a" "ucode a < 224" "128 \<le> ucode b" "ucode b < 192"
      "utf8_validate_cz s = 2"
  | (three) a b c t where "s = a # b # c # t" "224 \<le> ucode a" "ucode a < 240" "128 \<le> ucode b" "ucode b < 192"
      "128 \<le> ucode c" "ucode c < 192" "ucode a = 224 \<Longrightarrow> 160 \<le> ucode b" "ucode a = 237 \<Longrightarrow> ucode b < 160"
      "utf8_validate_cz s = 3"
  | (four) a b c d t where "s = a # b # c # d # t" "240 \<le> ucode a" "ucode a \<le> 244" "128 \<le> ucode b" "ucode b < 192"
      "128 \<le> ucode c" "ucode c < 192" "128 \<le> ucode d" "ucode d < 192" 
      "ucode a = 240 \<Longrightarrow> 144 \<le> ucode b" "ucode a = 244 \<Longrightarrow> ucode b < 144"
      "utf8_validate_cz s = 4"
proof -
  have nul: "ucode NUL = 0" by (simp add: ucode_def)
  have ex: "\<exists>t. x = peek x # t" if "128 \<le> ucode (peek x)" for x
    using that by (cases x) (simp_all add: nul)
  show ?thesis
  proof (cases "ucode (peek s) < 128")
    case True then show ?thesis using one by (simp add: utf8_validate_cz_def)
  next
    case False
    then obtain a t where s: "s = a # t" using ex [of s] by auto
    from assms have "(if ucode a \<le> 127 then 1 else if ucode a \<le> 193 then 0
         else if ucode a \<le> 223 then if not_continuation (peek t) then 0 else 2
         else if ucode a \<le> 239 then
           if ucode a = 224 \<and> ucode (peek t) < 160 then 0
           else if ucode a = 237 \<and> 159 < ucode (peek t) then 0
           else if not_continuation (peek t) then 0
           else if not_continuation (peek (tl t)) then 0 else 3
         else if ucode a \<le> 244 then
           if ucode a = 240 \<and> ucode (peek t) < 144 then 0
           else if ucode a = 244 \<and> 143 < ucode (peek t) then 0
           else if not_continuation (peek t) then 0
           else if not_continuation (peek (tl t)) then 0
           else if not_continuation (peek (tl (tl t))) then 0 else 4
         else 0) \<noteq> (0::nat)"
      by (simp only: s utf8_validate_cz_def Let_def peek.simps list.sel simp_thms)
    note v = this [unfolded not_continuation_iff]
    consider "194 \<le> ucode a" "ucode a < 224" | "224 \<le> ucode a" "ucode a < 240" | "240 \<le> ucode a" "ucode a \<le> 244"
      using v False s by (auto split: if_splits)
    then show ?thesis
    proof cases
      case 1 
      with v have b: "128 \<le> ucode (peek t)" "ucode (peek t) < 192" by (auto split: if_splits)
      then obtain b u where "t = b # u" using ex [of t] by auto
      with 1 b s show ?thesis using two [of a b u] by (simp add: utf8_validate_cz_def Let_def not_continuation_iff)
    next
      case 2
      with v have b: "128 \<le> ucode (peek t)" "ucode (peek t) < 192" "128 \<le> ucode (peek (tl t))" "ucode (peek (tl t)) < 192"
         "ucode a = 224 \<longrightarrow> 160 \<le> ucode (peek t)" "ucode a = 237 \<longrightarrow> ucode (peek t) < 160"
        by (auto split: if_splits)
      then obtain b c u where "t = b # c # u" using ex [of t] ex [of "tl t"] by (metis list.sel(3))
      with s have e: "s = a # b # c # u" by simp
      show ?thesis
        by (rule three [OF e]) (use 2 b e \<open>t = b # c # u\<close> in \<open>auto simp: utf8_validate_cz_def Let_def not_continuation_iff\<close>)
    next
      case 3
      with v have b: "128 \<le> ucode (peek t)" "ucode (peek t) < 192" "128 \<le> ucode (peek (tl t))" "ucode (peek (tl t)) < 192"
         "128 \<le> ucode (peek (tl (tl t)))" "ucode (peek (tl (tl t))) < 192"
         "ucode a = 240 \<longrightarrow> 144 \<le> ucode (peek t)" "ucode a = 244 \<longrightarrow> ucode (peek t) < 144"
        by (auto split: if_splits)
      then obtain b c d u where "t = b # c # d # u" using ex [of t] ex [of "tl t"] ex [of "tl (tl t)"] by (metis list.sel(3))
      with s have e: "s = a # b # c # d # u" by simp
      show ?thesis
        by (rule four [OF e]) (use 3 b e \<open>t = b # c # d # u\<close> in \<open>auto simp: utf8_validate_cz_def Let_def not_continuation_iff\<close>)
    qed
  qed
qed

lemma utf8_write_read:
  assumes "utf8_write_char u = Inr s"
  shows "utf8_read_char (s @ r) = Inr (length s, u)" and "utf8_validate_cz (s @ r) = length s"
proof -
  from assms have n: "unicode_scalar (unat u)" and s: "s = map char_of (utf8_code_units (unat u))"
    by (simp_all add: utf8_write_char_spec split: if_splits)
  show "utf8_read_char (s @ r) = Inr (length s, u)"
    using utf8_read_char_code_units [OF n, of r] by (simp add: s)
  show "utf8_validate_cz (s @ r) = length s"
    using utf8_validate_code_units [OF n, of r] by (simp add: s)
qed

lemma ucode_eqI: "ucode c = n \<Longrightarrow> char_of n = c"
  by (auto simp: ucode_def)

lemma base64_digits:
  fixes A B C D :: nat
  assumes "B < 64" "C < 64" "D < 64"
  shows "(A * 64 + B) div 64 = A" and "(A * 64 + B) mod 64 = B"
    and "(A * 4096 + B * 64 + C) div 4096 = A" and "(A * 4096 + B * 64 + C) div 64 mod 64 = B"
    and "(A * 4096 + B * 64 + C) mod 64 = C"
    and "(A * 262144 + B * 4096 + C * 64 + D) div 262144 = A"
    and "(A * 262144 + B * 4096 + C * 64 + D) div 4096 mod 64 = B"
    and "(A * 262144 + B * 4096 + C * 64 + D) div 64 mod 64 = C"
    and "(A * 262144 + B * 4096 + C * 64 + D) mod 64 = D"
proof -
  have q: "(X * 64 + Y) div 64 = X" "(X * 64 + Y) mod 64 = Y" if "Y < 64" for X Y :: nat
    using that by simp_all
  have e3: "A * 4096 + B * 64 + C = (A * 64 + B) * 64 + C"
    and e4: "A * 262144 + B * 4096 + C * 64 + D = ((A * 64 + B) * 64 + C) * 64 + D" by simp_all
  have d2: "x div 4096 = x div 64 div 64" and d3: "x div 262144 = x div 64 div 64 div 64" for x :: nat
    by (simp_all add: div_mult2_eq [symmetric])
  show "(A * 64 + B) div 64 = A" "(A * 64 + B) mod 64 = B"
    by (rule q, fact)+
  show "(A * 4096 + B * 64 + C) div 4096 = A" "(A * 4096 + B * 64 + C) div 64 mod 64 = B"
    "(A * 4096 + B * 64 + C) mod 64 = C"
    unfolding e3 d2 using assms by (simp_all only: q)
  show "(A * 262144 + B * 4096 + C * 64 + D) div 262144 = A"
    "(A * 262144 + B * 4096 + C * 64 + D) div 4096 mod 64 = B"
    "(A * 262144 + B * 4096 + C * 64 + D) div 64 mod 64 = C"
    "(A * 262144 + B * 4096 + C * 64 + D) mod 64 = D"
    unfolding e4 d3 d2 using assms by (simp_all only: q)
qed

lemma utf8_valid_code_units:
  assumes v: "utf8_validate_cz s \<noteq> 0" and p: "peek s \<noteq> NUL"
  obtains n r where "unicode_scalar n" and "n \<noteq> 0" and "s = map char_of (utf8_code_units n) @ r"
proof -
  have nz: "ucode c \<noteq> 0" if "c \<noteq> NUL" for c
    using that by (simp add: char_eq_iff_ucode) (simp add: ucode_def)
  from v show thesis
  proof (cases rule: utf8_validate_cases)
    case one
    from p obtain a t where s: "s = a # t" by (cases s) auto
    show thesis
      by (rule that [of "ucode a" t]) (use one s p nz [of a] in \<open>simp_all add: unicode_scalar_def utf8_code_units_def\<close>)
  next
    case (two a b t)
    define A B where "A = ucode a - 192" and "B = ucode b - 128"
    with two have ab: "ucode a = 192 + A" "ucode b = 128 + B" "B < 64" "A < 32" "2 \<le> A" by auto
    have "utf8_code_units (A * 64 + B) = [ucode a, ucode b]"
      using ab base64_digits [of B 0 0 A] by (simp add: utf8_code_units_def)
    moreover have "unicode_scalar (A * 64 + B)" and "A * 64 + B \<noteq> 0"
      using ab by (auto simp: unicode_scalar_def)
    ultimately show thesis using two(1)
      by (intro that [of "A * 64 + B" t]) simp_all
  next
    case (three a b c t)
    define A B C where "A = ucode a - 224" and "B = ucode b - 128" and "C = ucode c - 128"
    with three have ab: "ucode a = 224 + A" "ucode b = 128 + B" "ucode c = 128 + C" 
      "B < 64" "C < 64" "A < 16" "A = 0 \<Longrightarrow> 32 \<le> B" by auto
    have mid: "B < 32" if "A = 13" using that ab three by simp
    have lo: "2048 \<le> A * 4096 + B * 64 + C" using ab by (cases A) auto
    have "utf8_code_units (A * 4096 + B * 64 + C) = [ucode a, ucode b, ucode c]"
      using ab lo base64_digits [of B C 0 A] by (simp add: utf8_code_units_def)
    moreover have "unicode_scalar (A * 4096 + B * 64 + C)"
    proof (cases "A < 13 \<or> 13 < A")
      case True with ab show ?thesis by (auto simp: unicode_scalar_def)
    next
      case False then have "A = 13" by simp
      with ab mid show ?thesis by (auto simp: unicode_scalar_def)
    qed
    ultimately show thesis using three lo
      by (intro that [of "A * 4096 + B * 64 + C" t]) auto
  next
    case (four a b c d t)
    define A B C D where "A = ucode a - 240" and "B = ucode b - 128" and "C = ucode c - 128" and "D = ucode d - 128"
    with four have ab: "ucode a = 240 + A" "ucode b = 128 + B" "ucode c = 128 + C" "ucode d = 128 + D"
      "B < 64" "C < 64" "D < 64" "A \<le> 4" "A = 0 \<Longrightarrow> 16 \<le> B" by auto
    have mid: "B < 16" if "A = 4" using that ab four by simp
    have lo: "65536 \<le> A * 262144 + B * 4096 + C * 64 + D" using ab by (cases A) auto
    have "utf8_code_units (A * 262144 + B * 4096 + C * 64 + D) = [ucode a, ucode b, ucode c, ucode d]"
      by (simp only: utf8_code_units_four [OF lo] base64_digits [OF ab(5-7)] ab(1-4))
    moreover have "unicode_scalar (A * 262144 + B * 4096 + C * 64 + D)"
    proof (cases "A < 4")
      case True with ab(5-8) lo show ?thesis unfolding unicode_scalar_def by linarith
    next
      case False with ab(8) have "A = 4" by simp
      with ab(5-8) lo mid show ?thesis unfolding unicode_scalar_def by simp
    qed
    ultimately show thesis using four lo
      by (intro that [of "A * 262144 + B * 4096 + C * 64 + D" t]) auto
  qed
qed

lemma utf8_read_write:
  assumes "utf8_read_char s = Inr (k, u)" and "peek s \<noteq> NUL"
  shows "utf8_write_char u = Inr (take k s)" and "k = utf8_validate_cz s" and "k \<le> length s"
proof -
  from assms(1) have "utf8_validate_cz s \<noteq> 0" by (auto simp: utf8_read_char_def Let_def split: if_splits)
  then obtain n r where n: "unicode_scalar n" and s: "s = map char_of (utf8_code_units n) @ r" 
    using utf8_valid_code_units assms(2) by metis
  have k: "k = length (utf8_code_units n)" and u: "u = of_nat n"
    using utf8_read_char_code_units [OF n, of r] assms(1) s by simp_all
  have "n < 2 ^ LENGTH(32)" using n by (simp add: unicode_scalar_def)
  then have "unat u = n" unfolding u by (simp only: unsigned_of_nat take_bit_nat_eq_self_iff [THEN iffD2] of_nat_id)
  then show "utf8_write_char u = Inr (take k s)" using n by (simp add: utf8_write_char_spec s k)
  show "k = utf8_validate_cz s" using utf8_validate_code_units [OF n, of r] by (simp add: s k)
  show "k \<le> length s" by (simp add: s k)
qed

lemma u16_le_iff: "(u::u16) \<le> v \<longleftrightarrow> unat u \<le> unat v"
  by (simp add: word_le_nat_alt)

lemma unat_ucast_up: "unat (ucast (x::u16) :: u32) = unat x"
proof -
  have "unat (ucast x :: u32) = take_bit LENGTH(32) (unat x)" by (rule unsigned_ucast_eq)
  moreover have "unat x < 2 ^ LENGTH(32)"
    by (rule less_trans [OF unsigned_less]) simp
  ultimately show ?thesis by (simp only: take_bit_nat_eq_self_iff [THEN iffD2])
qed

lemma unat_ucast_down: "unat (ucast (x::u32) :: u16) = unat x mod 65536"
proof -
  have "unat (ucast x :: u16) = take_bit LENGTH(16) (unat x)" by (rule unsigned_ucast_eq)
  then show ?thesis by (simp add: take_bit_eq_mod)
qed

lemma sur_hi: "unat ((drop_bit 10 n AND 0x3FF) OR 0xD800 :: u32) = 55296 + unat n div 1024 mod 1024"
  using unat_shl_or [of "drop_bit 10 n AND 0x3FF" 11 "27::u32"] by (simp add: word_nat unat_shr[of 10, simplified] or.commute)
lemma sur_lo: "unat ((n AND 0x3FF) OR 0xDC00 :: u32) = 56320 + unat n mod 1024"
  using unat_shl_or [of "n AND 0x3FF" 10 "55::u32"] by (simp add: word_nat or.commute)
lemma sur_from: "unat (push_bit 10 ((ucast (uc::u16) :: u32) AND 0x3FF) OR ucast ((lc::u16) AND 0x3FF)) = unat uc mod 1024 * 1024 + unat lc mod 1024"
  using unat_shl_or [of "ucast (lc AND 0x3FF) :: u32" 10 "ucast uc AND 0x3FF"] by (simp add: word_nat unat_ucast_up)

lemma from_surrogate_pair_nat:
  assumes "from_surrogate_pair uc lc = Some u"
  shows "unat u = 65536 + (unat uc - 55296) * 1024 + (unat lc - 56320)" and
    "55296 \<le> unat uc" "unat uc \<le> 56319" "56320 \<le> unat lc" "unat lc \<le> 57343"
proof -
  from assms show b: "55296 \<le> unat uc" "unat uc \<le> 56319" "56320 \<le> unat lc" "unat lc \<le> 57343"
    by (auto simp: from_surrogate_pair_def u16_le_iff split: if_splits)
  let ?x = "push_bit 10 ((ucast uc :: u32) AND 0x3FF) OR ucast (lc AND 0x3FF)"
  have m: "unat uc mod 1024 = unat uc - 55296" "unat lc mod 1024 = unat lc - 56320"
    using b mod_mult_self3 [of 54 1024 "unat uc - 55296"] mod_mult_self3 [of 55 1024 "unat lc - 56320"]
    by simp_all
  have x: "unat ?x = (unat uc - 55296) * 1024 + (unat lc - 56320)" unfolding sur_from m ..
  have "u = 0x10000 + ?x" using assms by (auto simp: from_surrogate_pair_def split: if_splits)
  then have "unat u = (65536 + unat ?x) mod 2 ^ 32" by (simp add: unat_word_ariths)
  with x b show "unat u = 65536 + (unat uc - 55296) * 1024 + (unat lc - 56320)" by simp
qed

lemma to_surrogate_pair_nat:
  assumes "to_surrogate_pair u = Inr (uc, lc)"
  shows "65536 \<le> unat u" and "unat u \<le> 0x10FFFF" and
   "unat uc = 55296 + (unat u - 65536) div 1024" and "unat lc = 56320 + (unat u - 65536) mod 1024"
proof -
  from assms show b: "65536 \<le> unat u" "unat u \<le> 0x10FFFF"
    by (auto simp: to_surrogate_pair_def u32_le_iff Let_def split: if_splits)
  have n: "unat (u - 0x10000) = unat u - 65536"
    using b by (simp add: unat_sub word_le_nat_alt)
  from assms have uc: "uc = ucast ((drop_bit 10 (u - 0x10000) AND 0x3FF) OR 0xD800)"
    and lc: "lc = ucast (((u - 0x10000) AND 0x3FF) OR 0xDC00)"
    by (auto simp: to_surrogate_pair_def Let_def split: if_splits)
  have q: "(unat u - 65536) div 1024 < 1024" using b(2) by linarith
  show "unat uc = 55296 + (unat u - 65536) div 1024"
    unfolding uc unat_ucast_down sur_hi n using q by simp
  show "unat lc = 56320 + (unat u - 65536) mod 1024"
    unfolding lc unat_ucast_down sur_lo n by simp
qed

lemma surrogate_pair_iff:
  "to_surrogate_pair u = Inr (uc, lc) \<longleftrightarrow> from_surrogate_pair uc lc = Some u"
proof
  assume a: "to_surrogate_pair u = Inr (uc, lc)"
  note nn = to_surrogate_pair_nat [OF a]
  then have r: "55296 \<le> unat uc" "unat uc \<le> 56319" "56320 \<le> unat lc" "unat lc \<le> 57343"
    by (linarith+)
  then obtain v where v: "from_surrogate_pair uc lc = Some v"
    by (simp add: from_surrogate_pair_def u16_le_iff)
  have "unat v = 65536 + (unat uc - 55296) * 1024 + (unat lc - 56320)"
    by (rule from_surrogate_pair_nat [OF v])
  also have "\<dots> = unat u" using nn div_mult_mod_eq [of "unat u - 65536" 1024] by linarith
  finally have "v = u" by (simp add: word_unat_eq_iff)
  with v show "from_surrogate_pair uc lc = Some u" by simp
next
  assume a: "from_surrogate_pair uc lc = Some u"
  note nn = from_surrogate_pair_nat [OF a]
  then have "65536 \<le> unat u" "unat u \<le> 0x10FFFF" by linarith+
  then obtain uc' lc' where v: "to_surrogate_pair u = Inr (uc', lc')"
    by (simp add: to_surrogate_pair_def u32_le_iff Let_def)
  note mm = to_surrogate_pair_nat [OF v]
  have "unat u - 65536 = (unat uc - 55296) * 1024 + (unat lc - 56320)" using nn by linarith
  moreover have "unat lc - 56320 < 1024" using nn by linarith
  ultimately have "(unat u - 65536) div 1024 = unat uc - 55296" "(unat u - 65536) mod 1024 = unat lc - 56320"
    by simp_all
  with mm nn have "unat uc' = unat uc" "unat lc' = unat lc" by linarith+
  then have "uc' = uc" "lc' = lc" by (simp_all add: word_unat_eq_iff)
  with v show "to_surrogate_pair u = Inr (uc, lc)" by simp
qed

lemma unat_scalar: "unicode_scalar n \<Longrightarrow> unat (of_nat n :: u32) = n"
  by (simp only: unsigned_of_nat take_bit_nat_eq_self_iff [THEN iffD2] of_nat_id unicode_scalar_def)
     (simp add: take_bit_nat_eq_self_iff)

definition utf8_encode :: "u32 \<Rightarrow> string" where
  "utf8_encode u = (case utf8_write_char u of Inl e \<Rightarrow> [] | Inr s \<Rightarrow> s)"

definition utf8_next :: "string \<Rightarrow> (u32 \<times> string) option" where
  "utf8_next s = (case utf8_read_char s of Inl e \<Rightarrow> None | Inr (k, u) \<Rightarrow> Some (u, drop k s))"

interpretation utf8_char: prefix_codec utf8_encode utf8_next "\<lambda>u. unicode_scalar (unat u)"
proof
  fix u :: u32 and r
  assume n: "unicode_scalar (unat u)"
  then obtain s where s: "utf8_write_char u = Inr s" by (simp add: utf8_write_char_spec)
  then show "utf8_next (utf8_encode u @ r) = Some (u, r)"
    using utf8_write_read(1) [OF s, of r] by (simp add: utf8_encode_def utf8_next_def)
qed

lemma utf8_encode_scalar:
  "unicode_scalar n \<Longrightarrow> utf8_encode (of_nat n) = map char_of (utf8_code_units n)"
  by (simp add: utf8_encode_def utf8_write_char_spec unat_scalar)

lemma utf8_units_prefix_free:
  assumes "unicode_scalar m" and "unicode_scalar n"
    and "map char_of (utf8_code_units m) @ r = (map char_of (utf8_code_units n) @ q :: string)"
  shows "m = n \<and> r = q"
proof -
  have "of_nat m = (of_nat n :: u32) \<and> r = q"
    by (rule utf8_char.enc_prefix_free)
       (use assms in \<open>simp_all add: unat_scalar utf8_encode_scalar\<close>)
  with assms show ?thesis using unat_scalar by metis
qed

lemma utf8_units_not_NUL:
  "n \<noteq> 0 \<Longrightarrow> unicode_scalar n \<Longrightarrow> c \<in> set (map char_of (utf8_code_units n)) \<Longrightarrow> c \<noteq> NUL"
proof -
  assume n: "n \<noteq> 0" "unicode_scalar n" and c: "c \<in> set (map char_of (utf8_code_units n))"
  have nul: "ucode NUL = 0" by (simp add: ucode_def)
  have d: "n div 262144 < 16" "n < 65536 \<longrightarrow> n div 4096 < 16" "n < 2048 \<longrightarrow> n div 64 < 32"
    using n by (auto simp: unicode_scalar_def)
  have "\<forall>k \<in> set (utf8_code_units n). 0 < k \<and> k < 256"
    using n d less_trans [OF mod_less_divisor [of 64]] by (auto simp: utf8_code_units_def)
  with c obtain k :: nat where "c = char_of k" "0 < k" "k < 256" by auto
  then show "c \<noteq> NUL" by (auto simp: char_eq_iff_ucode nul)
qed

definition utf8_text :: "nat list \<Rightarrow> string" where
  "utf8_text ns = concat (map (\<lambda>n. map char_of (utf8_code_units n)) ns)"

lemma utf8_text_simps [simp]:
  "utf8_text [] = []"
  "utf8_text (n # ns) = map char_of (utf8_code_units n) @ utf8_text ns"
  by (simp_all add: utf8_text_def)

lemma utf8_code_units_nonempty [simp]: "utf8_code_units n \<noteq> []"
  by (simp add: utf8_code_units_def)

lemma takeWhile_units:
  "unicode_scalar n \<Longrightarrow> n \<noteq> 0 \<Longrightarrow> takeWhile (\<lambda>c. c \<noteq> NUL) (map char_of (utf8_code_units n) @ r) =
     map char_of (utf8_code_units n) @ takeWhile (\<lambda>c. c \<noteq> NUL) r"
  using utf8_units_not_NUL [of n] by (intro takeWhile_append2) blast

lemma utf8_read_NUL [simp]: "utf8_read_char [] = Inr (1, 0)"
  by (simp add: utf8_read_char_def utf8_validate_cz_def byte32_def ucode_def)

lemma utf8_validate_scalars:
  "utf8_validate s \<longleftrightarrow>
     (\<exists>ns. list_all unicode_scalar ns \<and> takeWhile (\<lambda>c. c \<noteq> NUL) s = utf8_text ns)"
proof (induction s rule: utf8_validate.induct)
  case (1 s)
  let ?C = "takeWhile (\<lambda>c. c \<noteq> NUL)"
  show ?case
  proof (cases "peek s = NUL")
    case True
    then have "?C s = []" by (cases s) simp_all
    moreover have "utf8_validate s" using True by (subst utf8_validate.simps) simp
    ultimately show ?thesis by (auto intro: exI [of _ "[]"])
  next
    case p: False
    have nz: "utf8_validate_cz s \<noteq> 0" if ns: "list_all unicode_scalar ns" "?C s = utf8_text ns" for ns
    proof -
      from p ns obtain n ns' where e: "ns = n # ns'" by (cases ns; cases s) auto
      have "s = ?C s @ dropWhile (\<lambda>c. c \<noteq> NUL) s" by simp
      with ns e have "s = map char_of (utf8_code_units n) @ utf8_text ns' @ dropWhile (\<lambda>c. c \<noteq> NUL) s"
        by simp
      moreover have "unicode_scalar n" using ns e by simp
      ultimately show ?thesis using utf8_validate_code_units [of n] by (metis length_0_conv utf8_code_units_nonempty)
    qed
    show ?thesis
    proof (cases "utf8_validate_cz s = 0")
      case True
      with p have "\<not> utf8_validate s" by (subst utf8_validate.simps) simp
      with nz True show ?thesis by blast
    next
      case v: False
      obtain n r where n: "unicode_scalar n" "n \<noteq> 0" and s: "s = map char_of (utf8_code_units n) @ r"
        by (rule utf8_valid_code_units [OF v p])
      have len: "utf8_validate_cz s = length (utf8_code_units n)"
        by (simp add: s utf8_validate_code_units [OF n(1)])
      have step: "utf8_validate s = utf8_validate r"
        using p v by (subst utf8_validate.simps) (simp add: len, simp add: s)
      have IH: "utf8_validate r \<longleftrightarrow> (\<exists>ns. list_all unicode_scalar ns \<and> ?C r = utf8_text ns)"
        using 1 [OF p refl v] by (simp add: len) (simp add: s)
      have "(\<exists>ns. list_all unicode_scalar ns \<and> ?C s = utf8_text ns) \<longleftrightarrow>
            (\<exists>ns. list_all unicode_scalar ns \<and> ?C r = utf8_text ns)" (is "?L \<longleftrightarrow> ?R")
      proof
        assume ?L
        then obtain ns where ns: "list_all unicode_scalar ns" "?C s = utf8_text ns" by blast
        from p ns obtain m ms where e: "ns = m # ms" by (cases ns; cases s) auto
        with ns n s have "map char_of (utf8_code_units n) @ ?C r = map char_of (utf8_code_units m) @ utf8_text ms"
          by (simp add: takeWhile_units)
        then have "?C r = utf8_text ms" using utf8_units_prefix_free [of n m] n ns e by auto
        with ns e show ?R by auto
      next
        assume ?R
        then obtain ns where "list_all unicode_scalar ns" "?C r = utf8_text ns" by blast
        then show ?L using n s by (intro exI [of _ "n # ns"]) (simp add: takeWhile_units)
      qed
      with step IH show ?thesis by simp
    qed
  qed
qed

text \<open>The characters of a C string: scalar values other than NUL.\<close>

definition plain_char :: "nat \<Rightarrow> bool" where
  "plain_char n \<longleftrightarrow> unicode_scalar n \<and> n \<noteq> 0"

lemma plain_text_NUL: "list_all plain_char ns \<Longrightarrow> NUL \<notin> set (utf8_text ns)"
  using utf8_units_not_NUL by (induction ns) (auto simp: plain_char_def)

lemma scalars_plain: "list_all unicode_scalar ns \<Longrightarrow> NUL \<notin> set (utf8_text ns) \<Longrightarrow> list_all plain_char ns"
proof (induction ns)
  case (Cons n ns)
  have "map char_of (utf8_code_units 0) = [NUL]" by (simp add: utf8_code_units_def char_of_def)
  with Cons show ?case by (cases "n = 0") (auto simp: plain_char_def)
qed simp

lemma takeWhile_no_NUL: "NUL \<notin> set s \<Longrightarrow> takeWhile (\<lambda>c. c \<noteq> NUL) s = s"
  by (induction s) auto

lemma utf8_validate_plain:
  "utf8_validate s \<longleftrightarrow> (\<exists>ns. list_all plain_char ns \<and> takeWhile (\<lambda>c. c \<noteq> NUL) s = utf8_text ns)"
proof -
  have "NUL \<notin> set (takeWhile (\<lambda>c. c \<noteq> NUL) s)" by (auto dest: set_takeWhileD)
  moreover have "list_all plain_char ns \<Longrightarrow> list_all unicode_scalar ns" for ns
    by (simp add: list_all_iff plain_char_def)
  ultimately show ?thesis
    unfolding utf8_validate_scalars using scalars_plain by metis
qed

lemma utf8_validate_textE:
  assumes "utf8_validate s" and "NUL \<notin> set s"
  obtains ns where "list_all plain_char ns" and "s = utf8_text ns"
  using assms by (auto simp: utf8_validate_plain takeWhile_no_NUL)

lemma utf8_validate_text: "list_all plain_char ns \<Longrightarrow> utf8_validate (utf8_text ns)"
  using plain_text_NUL by (auto simp: utf8_validate_plain takeWhile_no_NUL)

lemma char_of_eq_iff: "m < 256 \<Longrightarrow> n < 256 \<Longrightarrow> char_of m = (char_of n :: char) \<longleftrightarrow> m = n" for m n :: nat
  by (simp add: char_eq_iff_ucode)

lemma code_units_ascii: "n < 128 \<Longrightarrow> utf8_code_units n = [n]"
  by (simp add: utf8_code_units_def)

lemma code_units_high: "128 \<le> n \<Longrightarrow> unicode_scalar n \<Longrightarrow> k \<in> set (utf8_code_units n) \<Longrightarrow> 128 \<le> k \<and> k < 256"
proof -
  assume n: "128 \<le> n" "unicode_scalar n" and k: "k \<in> set (utf8_code_units n)"
  have d: "n div 262144 < 16" "n < 65536 \<longrightarrow> n div 4096 < 16" "n < 2048 \<longrightarrow> n div 64 < 32"
    using n by (auto simp: unicode_scalar_def)
  then show ?thesis
    using n k less_trans [OF mod_less_divisor [of 64]] by (auto simp: utf8_code_units_def split: if_splits)
qed

lemma code_units_head:
  "128 \<le> n \<Longrightarrow> unicode_scalar n \<Longrightarrow> 128 \<le> hd (utf8_code_units n) \<and> hd (utf8_code_units n) < 256"
  using code_units_high [of n "hd (utf8_code_units n)"] by simp

text \<open>An ASCII byte of a text is one of its characters.\<close>

lemma ascii_in_text:
  assumes "list_all plain_char ns" and "m < 128"
  shows "char_of m \<in> set (utf8_text ns) \<longleftrightarrow> m \<in> set ns"
  using assms(1)
proof (induction ns)
  case (Cons n ns)
  have "char_of m \<in> set (map char_of (utf8_code_units n)) \<longleftrightarrow> m = n"
  proof (cases "n < 128")
    case True
    then have "char_of m = (char_of n :: char) \<longleftrightarrow> m = n"
      using assms(2) by (simp add: char_of_eq_iff)
    with True show ?thesis by (auto simp: code_units_ascii)
  next
    case False
    then have "128 \<le> k \<and> k < 256" if "k \<in> set (utf8_code_units n)" for k
      using code_units_high [of n k] Cons.prems that by (simp add: plain_char_def)
    moreover have "128 \<le> k \<Longrightarrow> k < 256 \<Longrightarrow> char_of m \<noteq> (char_of k :: char)" for k :: nat
      using assms(2) by (simp add: char_of_eq_iff)
    ultimately show ?thesis using False assms(2) by (fastforce simp: image_iff)
  qed
  with Cons show ?case by auto
qed simp

section \<open>Properties\<close>

text \<open>C36: the UTF-8 validator decides well-formedness exactly.  \<open>utf8_validate\<close>
  accepts a C string iff the bytes before its terminator are the concatenated
  encodings of Unicode scalar values: no overlong form, no surrogate, nothing
  above U+10FFFF, no truncated character is accepted, and none of the encodings
  of the standard is refused.\<close>

theorem utf8_validate_iff:
  "utf8_validate s \<longleftrightarrow>
     (\<exists>ns. list_all (\<lambda>n. unicode_scalar n \<and> n \<noteq> 0) ns \<and> takeWhile (\<lambda>c. c \<noteq> NUL) s = utf8_text ns)"
  using utf8_validate_plain [of s] by (simp add: plain_char_def [abs_def])

text \<open>writing and reading one character are mutually inverse.  What
  \<open>utf8_write_char\<close> writes is a character the validator measures with exactly
  its length and \<open>utf8_read_char\<close> reads back, whatever follows; and a character
  read from a string is written back as the very bytes read.\<close>

theorem utf8_char_roundtrip:
  "(utf8_write_char u = Inr s \<longrightarrow>
      utf8_read_char (s @ r) = Inr (length s, u) \<and> utf8_validate_cz (s @ r) = length s) \<and>
   (utf8_read_char (c # t) = Inr (k, v) \<and> c \<noteq> NUL \<longrightarrow>
      utf8_write_char v = Inr (take k (c # t)) \<and> k = utf8_validate_cz (c # t) \<and> k \<le> length (c # t))"
  using utf8_write_read [of u s r] utf8_read_write [of "c # t" k v] by simp

theorem utf8_char_roundtrip_witness:
  "utf8_read_char ([CHR 0xE2, CHR 0x82, CHR 0xAC] @ ''x'') = Inr (3, 0x20AC) \<and>
   utf8_write_char 0x20AC = Inr [CHR 0xE2, CHR 0x82, CHR 0xAC]"
proof -
  have w: "utf8_write_char 0x20AC = Inr [CHR 0xE2, CHR 0x82, CHR 0xAC]" by code_simp
  then show ?thesis
    using utf8_char_roundtrip [of "0x20AC" "[CHR 0xE2, CHR 0x82, CHR 0xAC]" "''x''"] by simp
qed

text \<open>surrogate pairs are a bijection between the pairs
  \<open>from_surrogate_pair\<close> accepts and the code points of the supplementary planes,
  with \<open>to_surrogate_pair\<close> as the inverse: each function returns exactly what
  the other one maps back.\<close>

theorem surrogate_pair_roundtrip:
  "(to_surrogate_pair u = Inr (uc, lc) \<longleftrightarrow> from_surrogate_pair uc lc = Some u) \<and>
   ((\<exists>p. to_surrogate_pair u = Inr p) \<longleftrightarrow> 0x10000 \<le> u \<and> u \<le> 0x10FFFF)"
  using surrogate_pair_iff [of u uc lc] by (simp add: to_surrogate_pair_def Let_def)

end
