(* ===== verification/JsonLex.thy ===== *)
theory JsonLex
  imports Utf8
begin

text \<open>
  The lexical layer of \<^verbatim>\<open>suil/json.cpp\<close>: white space, literals, numbers, four-digit
  hexadecimal escapes and string literals, both directions.

  A parser takes the C string at the cursor \<open>*sp\<close> and returns the value with the
  string at the advanced cursor, or \<open>Inl\<close> the way it failed.  The growing buffer
  \<open>SB\<close> that \<open>parse_string\<close> fills is modelled with its capacity, so that writing
  past it (\<open>Overrun\<close>) and a growth loop that never ends (\<open>NoReturn\<close>) are values
  of the model; the properties show that neither occurs.  \<open>strtod\<close> and the two
  renderings of a \<open>double\<close> (\<open>sprintf\<close> with \<^verbatim>\<open>%.16g\<close> and \<open>operator<<\<close>) belong to the
  C library and to the stream of the iod package: they are parameters over an abstract type of
  numbers.
\<close>

section \<open>Outcomes\<close>

datatype parse_fail =
    ReturnFalse            \<comment> \<open>the parser returns false\<close>
  | Throws json_error      \<comment> \<open>an exception leaves it\<close>
  | Overrun                \<comment> \<open>a write past the end of the buffer\<close>
  | NoReturn               \<comment> \<open>a loop that does not end\<close>

datatype emit_fail =
    Thrown json_error
  | Assertion              \<comment> \<open>\<open>assert\<close> fails\<close>

section \<open>The string buffer\<close>

record sb =
  sb_text :: string        \<comment> \<open>the bytes from \<open>start\<close> to \<open>cur\<close>\<close>
  sb_size :: nat           \<comment> \<open>\<open>end - start\<close>\<close>

definition sb_init :: sb where
  "sb_init = \<lparr>sb_text = [], sb_size = 16\<rparr>"

text \<open>The loop \<open>do alloc *= 2 while (alloc < length + need)\<close>.\<close>

partial_function (option) sb_double :: "nat \<Rightarrow> nat \<Rightarrow> nat option" where
  "sb_double alloc want =
     (let alloc' = alloc * 2 in if alloc' < want then sb_double alloc' want else Some alloc')"

definition sb_grow :: "sb \<Rightarrow> nat \<Rightarrow> sb option" where
  "sb_grow b need =
     (case sb_double (sb_size b) (length (sb_text b) + need) of
        None \<Rightarrow> None
      | Some alloc \<Rightarrow> Some (b\<lparr>sb_size := alloc\<rparr>))"

definition sb_need :: "sb \<Rightarrow> nat \<Rightarrow> sb option" where
  "sb_need b need = (if sb_size b - length (sb_text b) < need then sb_grow b need else Some b)"

text \<open>Writing the bytes \<open>w\<close> through \<open>b++\<close> and then \<open>sb.cur = b\<close>.\<close>

definition sb_write :: "sb \<Rightarrow> string \<Rightarrow> sb option" where
  "sb_write b w =
     (if length (sb_text b) + length w \<le> sb_size b then Some (b\<lparr>sb_text := sb_text b @ w\<rparr>) else None)"

section \<open>White space, literals and numbers\<close>

definition is_space :: "char \<Rightarrow> bool" where
  "is_space c \<longleftrightarrow> c = CHR 0x09 \<or> c = CHR 0x0A \<or> c = CHR 0x0D \<or> c = CHR '' ''"

definition is_digit :: "char \<Rightarrow> bool" where
  "is_digit c \<longleftrightarrow> ucode CHR ''0'' \<le> ucode c \<and> ucode c \<le> ucode CHR ''9''"

lemma space_shorter [termination_simp]: "is_space (peek s) \<Longrightarrow> length s - Suc 0 < length s"
  by (cases s) (simp_all add: is_space_def)

lemma digit_shorter [termination_simp]: "is_digit (peek s) \<Longrightarrow> length s - Suc 0 < length s"
  by (cases s) (simp_all add: is_digit_def ucode_def)

fun skip_space :: "string \<Rightarrow> string" where
  "skip_space s = (if is_space (peek s) then skip_space (tl s) else s)"

declare skip_space.simps [simp del]

fun expect_literal :: "string \<Rightarrow> string \<Rightarrow> string option" where
  "expect_literal s [] = Some s"
| "expect_literal s (c # str) = (if peek s \<noteq> c then None else expect_literal (tl s) str)"

text \<open>\<open>do s++; while (is_digit( *s))\<close> after a first digit was seen.\<close>

fun skip_digits :: "string \<Rightarrow> string" where
  "skip_digits s = (if is_digit (peek s) then skip_digits (tl s) else s)"

declare skip_digits.simps [simp del]

definition number_int :: "string \<Rightarrow> string option" where
  "number_int s =
     (if peek s = CHR ''0'' then Some (tl s)
      else if \<not> is_digit (peek s) then None
      else Some (skip_digits (tl s)))"

definition number_frac :: "string \<Rightarrow> string option" where
  "number_frac s =
     (if peek s = CHR ''.'' then
        (if \<not> is_digit (peek (tl s)) then None else Some (skip_digits (tl (tl s))))
      else Some s)"

definition number_exp :: "string \<Rightarrow> string option" where
  "number_exp s =
     (if peek s = CHR ''E'' \<or> peek s = CHR ''e'' then
        (let s1 = tl s;
             s2 = (if peek s1 = CHR ''+'' \<or> peek s1 = CHR ''-'' then tl s1 else s1)
         in if \<not> is_digit (peek s2) then None else Some (skip_digits (tl s2)))
      else Some s)"

definition parse_number :: "(string \<Rightarrow> 'n) \<Rightarrow> string \<Rightarrow> parse_fail + ('n \<times> string)" where
  "parse_number strtod s =
     (let s1 = (if peek s = CHR ''-'' then tl s else s) in
      case number_int s1 of
        None \<Rightarrow> Inl ReturnFalse
      | Some s2 \<Rightarrow>
          (case number_frac s2 of
             None \<Rightarrow> Inl ReturnFalse
           | Some s3 \<Rightarrow>
               (case number_exp s3 of
                  None \<Rightarrow> Inl ReturnFalse
                | Some s4 \<Rightarrow> Inr (strtod s, s4))))"

definition number_is_valid :: "string \<Rightarrow> bool" where
  "number_is_valid num =
     (case parse_number (\<lambda>_. ()) num of Inl _ \<Rightarrow> False | Inr (_, r) \<Rightarrow> peek r = NUL)"

definition emit_number :: "('n \<Rightarrow> string) \<Rightarrow> ('n \<Rightarrow> string) \<Rightarrow> 'n \<Rightarrow> string" where
  "emit_number sprintf16 render num =
     (if number_is_valid (sprintf16 num) then render num else ''null'')"

section \<open>Hexadecimal escapes\<close>

definition hex_digit_value :: "char \<Rightarrow> u16 option" where
  "hex_digit_value c =
     (if ucode CHR ''0'' \<le> ucode c \<and> ucode c \<le> ucode CHR ''9''
        then Some (of_nat (ucode c - ucode CHR ''0''))
      else if ucode CHR ''A'' \<le> ucode c \<and> ucode c \<le> ucode CHR ''F''
        then Some (of_nat (ucode c - ucode CHR ''A'' + 10))
      else if ucode CHR ''a'' \<le> ucode c \<and> ucode c \<le> ucode CHR ''f''
        then Some (of_nat (ucode c - ucode CHR ''a'' + 10))
      else None)"

text \<open>The loop \<open>for (i = 0; i < 4; i++)\<close> with the digits still to read and \<open>ret\<close>.\<close>

fun parse_hex16_loop :: "nat \<Rightarrow> u16 \<Rightarrow> string \<Rightarrow> (u16 \<times> string) option" where
  "parse_hex16_loop 0 ret s = Some (ret, s)"
| "parse_hex16_loop (Suc i) ret s =
     (case hex_digit_value (peek s) of
        None \<Rightarrow> None
      | Some tmp \<Rightarrow> parse_hex16_loop i (push_bit 4 ret + tmp) (tl s))"

definition parse_hex16 :: "string \<Rightarrow> (u16 \<times> string) option" where
  "parse_hex16 s = parse_hex16_loop 4 0 s"

definition write_hex16 :: "u16 \<Rightarrow> string" where
  "write_hex16 val =
     (let hex = ''0123456789ABCDEF'' in
      [hex ! unat (drop_bit 12 val AND 0xF), hex ! unat (drop_bit 8 val AND 0xF),
       hex ! unat (drop_bit 4 val AND 0xF), hex ! unat (val AND 0xF)])"

section \<open>String literals\<close>

text \<open>The \<open>case 'u'\<close> of \<open>parse_string\<close>, after the letter: the bytes written to \<open>b\<close>.\<close>

definition parse_unicode_escape :: "string \<Rightarrow> parse_fail + (string \<times> string)" where
  "parse_unicode_escape s =
     (let write = (\<lambda>unicode s'. case utf8_write_char unicode of
                      Inl e \<Rightarrow> Inl (Throws e) | Inr w \<Rightarrow> Inr (w, s')) in
      case parse_hex16 s of
        None \<Rightarrow> Inl ReturnFalse
      | Some (uc, s1) \<Rightarrow>
          if uc \<ge> 0xD800 \<and> uc \<le> 0xDFFF then
            (if peek s1 \<noteq> CHR 0x5C then Inl ReturnFalse
             else if peek (tl s1) \<noteq> CHR ''u'' then Inl ReturnFalse
             else case parse_hex16 (tl (tl s1)) of
                    None \<Rightarrow> Inl ReturnFalse
                  | Some (lc, s2) \<Rightarrow>
                      (case from_surrogate_pair uc lc of
                         None \<Rightarrow> Inl ReturnFalse
                       | Some unicode \<Rightarrow> write unicode s2))
          else if uc = 0 then Inl ReturnFalse
          else write (ucast uc) s1)"

text \<open>The \<open>switch (c)\<close> after a backslash, with the string at \<open>c\<close>.\<close>

definition parse_escape :: "string \<Rightarrow> parse_fail + (string \<times> string)" where
  "parse_escape s =
     (let c = peek s; s1 = tl s in
      if c = CHR 0x22 \<or> c = CHR 0x5C \<or> c = CHR ''/'' then Inr ([c], s1)
      else if c = CHR ''b'' then Inr ([CHR 0x08], s1)
      else if c = CHR ''f'' then Inr ([CHR 0x0C], s1)
      else if c = CHR ''n'' then Inr ([CHR 0x0A], s1)
      else if c = CHR ''r'' then Inr ([CHR 0x0D], s1)
      else if c = CHR ''t'' then Inr ([CHR 0x09], s1)
      else if c = CHR ''u'' then parse_unicode_escape s1
      else Inl ReturnFalse)"

text \<open>One turn of \<open>while ( *s != '"')\<close>: the bytes of the next character.\<close>

definition parse_char :: "string \<Rightarrow> parse_fail + (string \<times> string)" where
  "parse_char s =
     (let c = peek s; len = utf8_validate_cz s in
      if c = CHR 0x5C then parse_escape (tl s)
      else if ucode c \<le> 0x1F then Inl ReturnFalse
      else if len = 0 then Inl ReturnFalse
      else Inr (take len s, drop len s))"

lemma hex_digit_value_NUL [simp]: "hex_digit_value NUL = None"
  by (simp add: hex_digit_value_def ucode_def)

lemma parse_hex16_loop_length:
  "parse_hex16_loop n v s = Some (u, r) \<Longrightarrow> length s = n + length r"
proof (induction n arbitrary: v s)
  case (Suc n)
  from Suc.prems obtain c t where "s = c # t"
    by (cases s) simp_all
  with Suc show ?case by (auto split: option.splits)
qed simp

lemma parse_hex16_shorter: "parse_hex16 s = Some (u, r) \<Longrightarrow> length r < length s"
  unfolding parse_hex16_def by (drule parse_hex16_loop_length) simp

lemma utf8_write_char_length: "utf8_write_char u = Inr w \<Longrightarrow> length w \<le> 4"
  by (auto simp: utf8_write_char_spec length_code_units split: if_splits)

lemma parse_unicode_escape_result:
  "parse_unicode_escape s = Inr (w, r) \<Longrightarrow> length r < length s \<and> length w \<le> 4"
  unfolding parse_unicode_escape_def Let_def
  by (auto dest!: parse_hex16_shorter utf8_write_char_length split: option.splits if_splits sum.splits)

lemma parse_escape_result:
  "parse_escape s = Inr (w, r) \<Longrightarrow> length r < length s \<and> length w \<le> 4"
  by (cases s) (auto simp: parse_escape_def Let_def dest!: parse_unicode_escape_result split: if_splits)

lemma utf8_validate_cz_le: "utf8_validate_cz s \<le> 4"
  by (simp add: utf8_validate_cz_def Let_def)

lemma parse_char_result:
  "parse_char s = Inr (w, r) \<Longrightarrow> length r < length s \<and> length w \<le> 4"
  using utf8_validate_cz_le [of s]
  by (cases s)
     (auto simp: parse_char_def Let_def ucode_def dest!: parse_escape_result split: if_splits)

function parse_string_loop :: "sb \<Rightarrow> string \<Rightarrow> parse_fail + (sb \<times> string)" where
  "parse_string_loop b s =
     (if peek s = CHR 0x22 then Inr (b, tl s)
      else case parse_char s of
             Inl e \<Rightarrow> Inl e
           | Inr (w, s') \<Rightarrow>
               (case sb_write b w of
                  None \<Rightarrow> Inl Overrun
                | Some b1 \<Rightarrow>
                    (case sb_need b1 4 of
                       None \<Rightarrow> Inl NoReturn
                     | Some b2 \<Rightarrow> parse_string_loop b2 s')))"
  by pat_completeness auto
termination
  by (relation "measure (length \<circ> snd)") (auto dest!: parse_char_result)

declare parse_string_loop.simps [simp del]

text \<open>\<open>sb_finish\<close> returns the bytes written.\<close>

definition parse_string :: "string \<Rightarrow> parse_fail + (string \<times> string)" where
  "parse_string s =
     (if peek s \<noteq> CHR 0x22 then Inl ReturnFalse
      else case sb_need sb_init 4 of
             None \<Rightarrow> Inl NoReturn
           | Some b \<Rightarrow>
               (case parse_string_loop b (tl s) of
                  Inl e \<Rightarrow> Inl e
                | Inr (b', s') \<Rightarrow> Inr (sb_text b', s')))"

text \<open>One turn of the loop of \<open>emit_string\<close>: the output and the rest of the string.\<close>

definition emit_char :: "bool \<Rightarrow> string \<Rightarrow> emit_fail + (string \<times> string)" where
  "emit_char escape_unicode s =
     (let c = peek s; s1 = tl s in
      if c = CHR 0x22 then Inr ([CHR 0x5C, CHR 0x22], s1)
      else if c = CHR 0x5C then Inr ([CHR 0x5C, CHR 0x5C], s1)
      else if c = CHR 0x08 then Inr ([CHR 0x5C, CHR ''b''], s1)
      else if c = CHR 0x0C then Inr ([CHR 0x5C, CHR ''f''], s1)
      else if c = CHR 0x0A then Inr ([CHR 0x5C, CHR ''n''], s1)
      else if c = CHR 0x0D then Inr ([CHR 0x5C, CHR ''r''], s1)
      else if c = CHR 0x09 then Inr ([CHR 0x5C, CHR ''t''], s1)
      else
        let len = utf8_validate_cz s in
        if len = 0 then Inl Assertion
        else if ucode c < 0x1F \<or> ucode c \<ge> 0x80 \<and> escape_unicode then
          (case utf8_read_char s of
             Inl e \<Rightarrow> Inl (Thrown e)
           | Inr (k, unicode) \<Rightarrow>
               if unicode \<le> 0xFFFF then
                 Inr ([CHR 0x5C, CHR ''u''] @ write_hex16 (ucast unicode), drop k s)
               else if unicode > 0x10FFFF then Inl (Thrown InvalidUnicode)
               else case to_surrogate_pair unicode of
                      Inl e \<Rightarrow> Inl (Thrown e)
                    | Inr (uc, lc) \<Rightarrow>
                        Inr ([CHR 0x5C, CHR ''u''] @ write_hex16 uc @
                             [CHR 0x5C, CHR ''u''] @ write_hex16 lc, drop k s))
        else Inr (take len s, drop len s))"

lemma utf8_read_char_shorter:
  "utf8_read_char s = Inr (k, u) \<Longrightarrow> s \<noteq> [] \<Longrightarrow> length s - k < length s"
  by (auto simp: utf8_read_char_def Let_def split: if_splits)

lemma emit_char_shorter:
  "emit_char eu s = Inr (w, r) \<Longrightarrow> s \<noteq> [] \<Longrightarrow> length r < length s"
  using utf8_read_char_shorter [of s] unfolding emit_char_def Let_def
  by (auto split: if_splits sum.splits)

function emit_chars :: "bool \<Rightarrow> string \<Rightarrow> emit_fail + string" where
  "emit_chars escape_unicode s =
     (if peek s = NUL then Inr []
      else case emit_char escape_unicode s of
             Inl e \<Rightarrow> Inl e
           | Inr (w, s') \<Rightarrow>
               (case emit_chars escape_unicode s' of
                  Inl e \<Rightarrow> Inl e
                | Inr out \<Rightarrow> Inr (w @ out)))"
  by pat_completeness auto
termination
proof (relation "measure (length \<circ> snd)")
  fix eu s a w s'
  assume "peek s \<noteq> NUL" and "emit_char eu s = Inr a" and "(w, s') = a"
  then show "((eu, s'), (eu, s)) \<in> measure (length \<circ> snd)"
    using emit_char_shorter [of eu s w s'] by (cases s) auto
qed simp

declare emit_chars.simps [simp del]

definition emit_string :: "string \<Rightarrow> emit_fail + string" where
  "emit_string str =
     (let escape_unicode = False in
      if \<not> utf8_validate str then Inl (Thrown InvalidUtf8)
      else case emit_chars escape_unicode str of
             Inl e \<Rightarrow> Inl e
           | Inr out \<Rightarrow> Inr ([CHR 0x22] @ out @ [CHR 0x22]))"

section \<open>The buffer never overflows\<close>

lemma sb_double_total:
  "0 < alloc \<Longrightarrow> \<exists>a. sb_double alloc want = Some a \<and> want \<le> a \<and> alloc \<le> a"
proof (induction "want - alloc" arbitrary: alloc rule: less_induct)
  case less
  show ?case
  proof (cases "alloc * 2 < want")
    case True
    then obtain a where "sb_double (alloc * 2) want = Some a" "want \<le> a" "alloc * 2 \<le> a"
      using less.hyps [of "alloc * 2"] less.prems by (fastforce simp: diff_less_mono2)
    with True show ?thesis by (subst sb_double.simps) simp
  next
    case False
    then show ?thesis by (subst sb_double.simps) simp
  qed
qed

definition sb_room :: "sb \<Rightarrow> nat \<Rightarrow> bool" where
  "sb_room b n \<longleftrightarrow> length (sb_text b) + n \<le> sb_size b \<and> 0 < sb_size b"

lemma sb_need_room:
  "sb_room b 0 \<Longrightarrow> \<exists>b'. sb_need b n = Some b' \<and> sb_text b' = sb_text b \<and> sb_room b' n"
  using sb_double_total [of "sb_size b" "length (sb_text b) + n"]
  by (auto simp: sb_need_def sb_grow_def sb_room_def)

lemma sb_init_room [simp]: "sb_room sb_init 0" "sb_text sb_init = []"
  by (simp_all add: sb_room_def sb_init_def)

text \<open>One turn with room for a character: the bytes go in and room for the next is made.\<close>

lemma sb_step:
  assumes "sb_room b 4" and "length w \<le> 4"
  obtains b1 b2 where "sb_write b w = Some b1" and "sb_need b1 4 = Some b2"
    and "sb_text b2 = sb_text b @ w" and "sb_room b2 4"
proof -
  let ?b1 = "b\<lparr>sb_text := sb_text b @ w\<rparr>"
  have "sb_write b w = Some ?b1" and "sb_room ?b1 0"
    using assms by (simp_all add: sb_write_def sb_room_def)
  with sb_need_room [of ?b1 4] that show thesis by auto
qed

section \<open>Hexadecimal digits\<close>

lemma hex_digit_value_nth:
  assumes "n < 16"
  shows "hex_digit_value (''0123456789ABCDEF'' ! n) = Some (of_nat n)"
proof -
  have "list_all (\<lambda>n. hex_digit_value (''0123456789ABCDEF'' ! n) = Some (of_nat n)) [0..<16]"
    by code_simp
  with assms show ?thesis by (simp only: list_all_iff set_upt) simp
qed

lemma unat_u16_shift_add:
  assumes "unat (ret::u16) < 4096" and "d < 16"
  shows "unat (push_bit 4 ret + of_nat d) = unat ret * 16 + d"
proof -
  have "unat (push_bit 4 ret) = unat ret * 16" using unat_shl [of ret 4] assms by simp
  moreover have "unat (of_nat d :: u16) = d" using assms
    by (simp only: unsigned_of_nat of_nat_id) (simp add: take_bit_nat_eq_self_iff)
  ultimately show ?thesis using assms by (simp add: unat_word_ariths)
qed

lemma hex_step: "n < 16 \<Longrightarrow> parse_hex16_loop (Suc i) ret (''0123456789ABCDEF'' ! n # r) =
     parse_hex16_loop i (push_bit 4 ret + of_nat n) r"
  by (simp add: hex_digit_value_nth)

lemma parse_hex16_four: "parse_hex16 s = parse_hex16_loop (Suc (Suc (Suc (Suc 0)))) 0 s"
  by (simp add: parse_hex16_def numeral_eq_Suc)

lemma parse_write_hex16: "parse_hex16 (write_hex16 v @ r) = Some (v, r)"
proof -
  let ?n = "unat v"
  have d: "unat (drop_bit 12 v AND 0xF) = ?n div 4096 mod 16" "unat (drop_bit 8 v AND 0xF) = ?n div 256 mod 16"
    "unat (drop_bit 4 v AND 0xF) = ?n div 16 mod 16" "unat (v AND 0xF) = ?n mod 16"
    by (simp_all only: unat_and_low unat_shr) simp_all
  have b: "?n < 65536" using unsigned_less [of v] by simp
  let ?d = "\<lambda>k. of_nat k :: u16"
  let ?v1 = "push_bit 4 0 + ?d (?n div 4096 mod 16)"
  let ?v2 = "push_bit 4 ?v1 + ?d (?n div 256 mod 16)"
  let ?v3 = "push_bit 4 ?v2 + ?d (?n div 16 mod 16)"
  let ?v4 = "push_bit 4 ?v3 + ?d (?n mod 16)"
  have e: "parse_hex16 (write_hex16 v @ r) = Some (?v4, r)"
    unfolding parse_hex16_four write_hex16_def Let_def d
    by (simp only: append.simps hex_step mod_less_divisor zero_less_numeral parse_hex16_loop.simps(1))
  have v1: "unat ?v1 = ?n div 4096" using b unat_u16_shift_add [of 0 "?n div 4096 mod 16"] by simp
  have v2: "unat ?v2 = ?n div 4096 * 16 + ?n div 256 mod 16"
    using unat_u16_shift_add [of ?v1 "?n div 256 mod 16"] b by (simp only: v1)
  have v3: "unat ?v3 = (?n div 4096 * 16 + ?n div 256 mod 16) * 16 + ?n div 16 mod 16"
    using unat_u16_shift_add [of ?v2 "?n div 16 mod 16"] b by (simp only: v2)
  have q: "?n div 4096 = ?n div 256 div 16" "?n div 256 = ?n div 16 div 16"
    by (simp_all add: div_mult2_eq [symmetric])
  have c: "?n div 4096 * 16 + ?n div 256 mod 16 = ?n div 256" 
    using div_mult_mod_eq [of "?n div 256" 16] unfolding q(1) by simp
  have c2: "?n div 256 * 16 + ?n div 16 mod 16 = ?n div 16" 
    using div_mult_mod_eq [of "?n div 16" 16] unfolding q(2) by simp
  have v3': "unat ?v3 = ?n div 16" using v3 by (simp only: c c2)
  have v4: "unat ?v4 = ?n"
    using unat_u16_shift_add [of ?v3 "?n mod 16"] b div_mult_mod_eq [of ?n 16] by (simp only: v3')
  then have "?v4 = v" by (simp only: word_unat_eq_iff)
  with e show ?thesis by simp
qed

interpretation hex16: prefix_codec write_hex16 parse_hex16 "\<lambda>_. True"
  by standard (rule parse_write_hex16)

section \<open>String literals\<close>

lemma utf8_write_scalar: "unicode_scalar n \<Longrightarrow> utf8_write_char (of_nat n) = Inr (map char_of (utf8_code_units n))"
  by (simp add: utf8_write_char_spec unat_scalar)

lemma from_surrogate_pair_scalar:
  "from_surrogate_pair uc lc = Some u \<Longrightarrow> unicode_scalar (unat u)"
  using to_surrogate_pair_nat(1,2) [of u uc lc] surrogate_pair_iff [of u uc lc]
  by (simp add: unicode_scalar_def)

lemma utf8_write_total: "unicode_scalar (unat u) \<Longrightarrow> \<exists>w. utf8_write_char u = Inr w"
  by (simp add: utf8_write_char_spec)

lemma unat16_less: "unat (u::u16) < 65536"
  using unsigned_less [of u] by simp

lemma parse_unicode_escape_fail: "parse_unicode_escape s = Inl e \<Longrightarrow> e = ReturnFalse"
proof -
  have t: "unicode_scalar (unat u) \<Longrightarrow> utf8_write_char u \<noteq> Inl x" for u x
    by (simp add: utf8_write_char_spec)
  have a: "from_surrogate_pair uc lc = Some u \<Longrightarrow> utf8_write_char u \<noteq> Inl x" for uc lc u x
    by (rule t [OF from_surrogate_pair_scalar])
  have b: "\<not> 0xD800 \<le> uc \<Longrightarrow> utf8_write_char (ucast uc) \<noteq> Inl x"
    and c: "\<not> uc \<le> 0xDFFF \<Longrightarrow> utf8_write_char (ucast uc) \<noteq> Inl x" for uc :: u16 and x
    by (rule t; use unat16_less [of uc] in \<open>simp add: unicode_scalar_def unat_ucast_up u16_le_iff\<close>)+
  assume "parse_unicode_escape s = Inl e"
  with a b c show ?thesis unfolding parse_unicode_escape_def Let_def
    by (auto split: option.splits if_splits sum.splits)
qed

lemma parse_char_fail: "parse_char s = Inl e \<Longrightarrow> e = ReturnFalse"
  by (auto simp: parse_char_def parse_escape_def Let_def dest: parse_unicode_escape_fail split: if_splits)

lemma parse_string_loop_fail:
  "sb_room b 4 \<Longrightarrow> parse_string_loop b s = Inl e \<Longrightarrow> e = ReturnFalse"
proof (induction b s rule: parse_string_loop.induct)
  case (1 b s)
  show ?case
  proof (cases "peek s = CHR 0x22")
    case True
    with 1 show ?thesis by (subst (asm) (2) parse_string_loop.simps) simp
  next
    case nq: False
    show ?thesis
    proof (cases "parse_char s")
      case (Inl e')
      with 1 nq show ?thesis by (subst (asm) (2) parse_string_loop.simps) (auto dest: parse_char_fail)
    next
      case (Inr p)
      obtain w s' where p: "p = (w, s')" by fastforce
      with Inr have "length w \<le> 4" using parse_char_result by simp
      then obtain b1 b2 where "sb_write b w = Some b1" "sb_need b1 4 = Some b2" "sb_room b2 4"
        using sb_step [OF "1.prems"(1)] by metis
      with 1 nq Inr p show ?thesis by (subst (asm) (2) parse_string_loop.simps) simp
    qed
  qed
qed

lemma parse_string_fail: "parse_string s = Inl e \<Longrightarrow> e = ReturnFalse"
  using sb_need_room [of sb_init 4]
  by (auto simp: parse_string_def dest: parse_string_loop_fail split: if_splits sum.splits prod.splits)

lemma parse_string_loop_shorter: "parse_string_loop b s = Inr (b', r) \<Longrightarrow> length r < length s"
proof (induction b s rule: parse_string_loop.induct)
  case (1 b s)
  show ?case
  proof (cases "peek s = CHR 0x22")
    case True
    with 1 show ?thesis by (subst (asm) (2) parse_string_loop.simps) (cases s; simp)
  next
    case False
    with "1.prems" obtain w s' b1 b2 where p: "parse_char s = Inr (w, s')" "sb_write b w = Some b1"
        "sb_need b1 4 = Some b2" "parse_string_loop b2 s' = Inr (b', r)"
      by (subst (asm) parse_string_loop.simps) (auto split: sum.splits option.splits)
    from 1(1) [OF False p(1) refl p(2,3,4)] parse_char_result [OF p(1)] show ?thesis by simp
  qed
qed

lemma parse_string_shorter: "parse_string s = Inr (v, r) \<Longrightarrow> length r < length s"
  by (cases s)
     (auto simp: parse_string_def dest!: parse_string_loop_shorter split: if_splits option.splits sum.splits)

text \<open>What one turn of \<open>emit_string\<close> writes is what one turn of \<open>parse_string\<close> reads.\<close>

lemma peek_code_units:
  "unicode_scalar n \<Longrightarrow> ucode (peek (map char_of (utf8_code_units n) @ r)) =
     (if n < 128 then n else hd (utf8_code_units n))"
proof (cases "n < 128")
  case True
  then show ?thesis by (simp add: code_units_ascii)
next
  case False
  assume "unicode_scalar n"
  obtain a as where "utf8_code_units n = a # as" by (cases "utf8_code_units n") simp_all
  with False code_units_head [of n] \<open>unicode_scalar n\<close> show ?thesis by simp
qed

lemma parse_char_direct:
  assumes "unicode_scalar n" and "31 < n" and "n \<noteq> 0x5C"
  shows "parse_char (map char_of (utf8_code_units n) @ r) = Inr (map char_of (utf8_code_units n), r)"
proof -
  let ?s = "map char_of (utf8_code_units n) @ r"
  have p: "ucode (peek ?s) = (if n < 128 then n else hd (utf8_code_units n))"
    by (rule peek_code_units) fact
  with assms code_units_head [of n] have "31 < ucode (peek ?s)" "ucode (peek ?s) \<noteq> 0x5C"
    by auto
  moreover have "utf8_validate_cz ?s = length (utf8_code_units n)"
    by (rule utf8_validate_code_units) fact
  ultimately show ?thesis by (auto simp: parse_char_def Let_def ucode_def)
qed

lemma parse_char_u16:
  assumes "unicode_scalar n" and "0 < n" and "n < 65536"
  shows "parse_char ([CHR 0x5C, CHR ''u''] @ write_hex16 (of_nat n) @ r) =
         Inr (map char_of (utf8_code_units n), r)"
proof -
  have n: "unat (of_nat n :: u16) = n" using assms
    by (simp only: unsigned_of_nat of_nat_id) (simp add: take_bit_nat_eq_self_iff)
  have "ucast (of_nat n :: u16) = (of_nat n :: u32)"
    by (simp only: word_unat_eq_iff unat_ucast_up n unat_scalar [OF assms(1)])
  moreover have "\<not> ((of_nat n :: u16) \<ge> 0xD800 \<and> (of_nat n :: u16) \<le> 0xDFFF)"
    using assms(1) unfolding u16_le_iff n unicode_scalar_def by simp
  moreover have "(of_nat n :: u16) \<noteq> 0" using assms(2) n by auto
  ultimately show ?thesis
    unfolding parse_char_def parse_escape_def parse_unicode_escape_def Let_def
    by (auto simp: parse_write_hex16 utf8_write_scalar [OF assms(1)] ucode_def)
qed

lemma parse_char_pair:
  assumes "unicode_scalar n" and "from_surrogate_pair uc lc = Some (of_nat n)"
  shows "parse_char ([CHR 0x5C, CHR ''u''] @ write_hex16 uc @ [CHR 0x5C, CHR ''u''] @ write_hex16 lc @ r) =
         Inr (map char_of (utf8_code_units n), r)"
proof -
  have "uc \<ge> 0xD800" and "uc \<le> 0xDFFF"
    using from_surrogate_pair_nat(2,3) [OF assms(2)] by (simp_all add: u16_le_iff)
  with assms show ?thesis
    by (simp add: parse_char_def parse_escape_def parse_unicode_escape_def parse_write_hex16 
        utf8_write_scalar ucode_def)
qed

lemma char_of_31: "char_of (31::nat) = CHR 0x1F"
  by (simp add: char_of_def bit_0)

lemma emit_char_escaped:
  assumes "(c, e) \<in> set [(CHR 0x22, CHR 0x22), (CHR 0x5C, CHR 0x5C), (CHR 0x08, CHR ''b''), (CHR 0x0C, CHR ''f''),
     (CHR 0x0A, CHR ''n''), (CHR 0x0D, CHR ''r''), (CHR 0x09, CHR ''t'')]"
  shows "emit_char eu (c # r) = Inr ([CHR 0x5C, e], r)" and "parse_char (CHR 0x5C # e # q) = Inr ([c], q)"
  using assms
  by (auto simp: emit_char_def parse_char_def parse_escape_def Let_def)

lemma emit_char_raw:
  assumes "ucode (peek s) \<notin> {0x22, 0x5C, 0x08, 0x0C, 0x0A, 0x0D, 0x09}"
    and "utf8_validate_cz s = length u" and "length u \<noteq> 0" and "s = u @ r"
    and "utf8_read_char s = Inr (length u, of_nat n)" and "unicode_scalar n"
  shows "emit_char eu s =
      (if ucode (peek s) < 0x1F \<or> 128 \<le> ucode (peek s) \<and> eu then
         (if n \<le> 0xFFFF then Inr ([CHR 0x5C, CHR ''u''] @ write_hex16 (of_nat n), r)
          else case to_surrogate_pair (of_nat n) of
                 Inl e \<Rightarrow> Inl (Thrown e)
               | Inr (uc, lc) \<Rightarrow>
                   Inr ([CHR 0x5C, CHR ''u''] @ write_hex16 uc @ [CHR 0x5C, CHR ''u''] @ write_hex16 lc, r))
       else Inr (u, r))"
proof -
  have un: "unat (of_nat n :: u32) = n" by (rule unat_scalar) fact
  have c: "((of_nat n :: u32) \<le> 0xFFFF) = (n \<le> 0xFFFF)" "\<not> (of_nat n :: u32) > 0x10FFFF"
    using assms(6) unfolding not_less u32_le_iff un by (simp_all add: unicode_scalar_def)
  have d: "n \<le> 0xFFFF \<Longrightarrow> ucast (of_nat n :: u32) = (of_nat n :: u16)"
    by (simp add: word_unat_eq_iff unat_ucast_down un unsigned_of_nat take_bit_eq_mod)
  have e: "drop (length u) s = r" "take (length u) s = u" using assms(4) by simp_all
  have "peek s \<noteq> CHR 0x22" "peek s \<noteq> CHR 0x5C" "peek s \<noteq> CHR 0x08" "peek s \<noteq> CHR 0x0C"
      "peek s \<noteq> CHR 0x0A" "peek s \<noteq> CHR 0x0D" "peek s \<noteq> CHR 0x09"
    using assms(1) by (auto simp: ucode_def)
  with assms(2,3,5) c d show ?thesis
    unfolding emit_char_def Let_def by (simp add: e split: sum.split)
qed

lemma emit_char_parse:
  assumes n: "plain_char n"
  shows "\<exists>w. emit_char eu (map char_of (utf8_code_units n) @ r) = Inr (w, r) \<and> w \<noteq> [] \<and> peek w \<noteq> CHR 0x22 \<and>
           (\<forall>q. if n = 0x1F then parse_char (w @ q) = Inl ReturnFalse
                else parse_char (w @ q) = Inr (map char_of (utf8_code_units n), q))"
proof -
  let ?u = "map char_of (utf8_code_units n) :: string" and ?s = "map char_of (utf8_code_units n) @ r :: string"
  have sc: "unicode_scalar n" and n0: "n \<noteq> 0" using n by (simp_all add: plain_char_def)
  have pk: "ucode (peek ?s) = (if n < 128 then n else hd (utf8_code_units n))"
    by (rule peek_code_units [OF sc])
  have len: "utf8_validate_cz ?s = length ?u" by (simp add: utf8_validate_code_units [OF sc])
  have rd: "utf8_read_char ?s = Inr (length ?u, of_nat n)" by (simp add: utf8_read_char_code_units [OF sc])
  have un: "unat (of_nat n :: u32) = n" by (rule unat_scalar [OF sc])
  show ?thesis
  proof (cases "n \<in> {0x22, 0x5C, 0x08, 0x0C, 0x0A, 0x0D, 0x09}")
    case True
    then have l: "n < 128" "n \<noteq> 31" by auto
    from True have "\<exists>e. (char_of n, e) \<in> set [(CHR 0x22, CHR 0x22), (CHR 0x5C, CHR 0x5C), (CHR 0x08, CHR ''b''),
       (CHR 0x0C, CHR ''f''), (CHR 0x0A, CHR ''n''), (CHR 0x0D, CHR ''r''), (CHR 0x09, CHR ''t'')]"
      unfolding insert_iff empty_iff by (elim disjE) (simp_all add: char_of_def bit_0)
    then obtain e where "(char_of n, e) \<in> set [(CHR 0x22, CHR 0x22), (CHR 0x5C, CHR 0x5C), (CHR 0x08, CHR ''b''),
       (CHR 0x0C, CHR ''f''), (CHR 0x0A, CHR ''n''), (CHR 0x0D, CHR ''r''), (CHR 0x09, CHR ''t'')]" ..
    from emit_char_escaped [OF this] l show ?thesis by (simp add: code_units_ascii)
  next
    case ns: False
    have sp: "ucode (peek ?s) \<notin> {0x22, 0x5C, 0x08, 0x0C, 0x0A, 0x0D, 0x09}"
      using ns code_units_head [OF _ sc] unfolding pk by (cases "n < 128") force+
    have e: "emit_char eu ?s =
      (if ucode (peek ?s) < 0x1F \<or> 128 \<le> ucode (peek ?s) \<and> eu then
         (if n \<le> 0xFFFF then Inr ([CHR 0x5C, CHR ''u''] @ write_hex16 (of_nat n), r)
          else case to_surrogate_pair (of_nat n) of
                 Inl e \<Rightarrow> Inl (Thrown e)
               | Inr (uc, lc) \<Rightarrow>
                   Inr ([CHR 0x5C, CHR ''u''] @ write_hex16 uc @ [CHR 0x5C, CHR ''u''] @ write_hex16 lc, r))
       else Inr (?u, r))"
      by (rule emit_char_raw) (use sp len rd sc in simp_all)
    have v: "128 \<le> ucode (peek ?s) \<longleftrightarrow> 128 \<le> n" "ucode (peek ?s) < 0x1F \<longleftrightarrow> n < 0x1F"
      using pk code_units_head [OF _ sc] by auto
    show ?thesis
    proof (cases "n < 0x1F \<or> 128 \<le> n \<and> eu")
      case esc: True
      show ?thesis
      proof (cases "n \<le> 0xFFFF")
        case True
        moreover from esc have "n \<noteq> 31" by auto
        ultimately show ?thesis using esc e v n0 parse_char_u16 [OF sc] by simp
      next
        case False
        then have "0x10000 \<le> (of_nat n :: u32)" "(of_nat n :: u32) \<le> 0x10FFFF"
          using sc unfolding u32_le_iff un by (simp_all add: unicode_scalar_def)
        then obtain uc lc where p: "to_surrogate_pair (of_nat n) = Inr (uc, lc)"
          by (simp add: to_surrogate_pair_def Let_def)
        then have "from_surrogate_pair uc lc = Some (of_nat n)" by (simp add: surrogate_pair_iff)
        moreover from esc have "n \<noteq> 31" by auto
        ultimately show ?thesis using parse_char_pair [OF sc] False esc e v p by simp
      qed
    next
      case raw: False
      then have w: "emit_char eu ?s = Inr (?u, r)" using e v by auto
      have q: "peek ?u \<noteq> CHR 0x22" using sp by (auto simp: peek_append ucode_def)
      show ?thesis
      proof (cases "n = 0x1F")
        case True
        then show ?thesis using w q by (simp add: code_units_ascii parse_char_def ucode_def Let_def char_of_31)
      next
        case False
        with raw ns have "31 < n" "n \<noteq> 0x5C" by auto
        with w q False parse_char_direct [OF sc] show ?thesis by simp
      qed
    qed
  qed
qed

lemma parse_string_loop_quote: "parse_string_loop b (CHR 0x22 # q) = Inr (b, q)"
  by (subst parse_string_loop.simps) simp

lemma parse_string_loop_char:
  assumes "peek s \<noteq> CHR 0x22" and "parse_char s = Inr (w, q)" and "sb_room b 4"
  shows "\<exists>b'. sb_room b' 4 \<and> sb_text b' = sb_text b @ w \<and> parse_string_loop b s = parse_string_loop b' q"
proof -
  have "length w \<le> 4" using parse_char_result [OF assms(2)] by simp
  then obtain b1 b2 where "sb_write b w = Some b1" "sb_need b1 4 = Some b2"
      "sb_text b2 = sb_text b @ w" "sb_room b2 4"
    by (rule sb_step [OF assms(3)])
  then show ?thesis using assms(1,2) by (subst parse_string_loop.simps) auto
qed

lemma emit_chars_parse:
  "list_all plain_char ns \<Longrightarrow>
   \<exists>out. emit_chars eu (utf8_text ns) = Inr out \<and>
     (\<forall>b q. sb_room b 4 \<longrightarrow>
        (if 31 \<in> set ns then parse_string_loop b (out @ CHR 0x22 # q) = Inl ReturnFalse
         else \<exists>b'. parse_string_loop b (out @ CHR 0x22 # q) = Inr (b', q) \<and>
                   sb_text b' = sb_text b @ utf8_text ns))"
proof (induction ns)
  case Nil
  show ?case by (subst emit_chars.simps) (simp add: parse_string_loop_quote)
next
  case (Cons n ns)
  let ?u = "map char_of (utf8_code_units n) :: string"
  from Cons.prems have n: "plain_char n" and ns: "list_all plain_char ns" by simp_all
  from Cons.IH [OF ns] obtain out where out: "emit_chars eu (utf8_text ns) = Inr out"
    and loop: "\<And>b q. sb_room b 4 \<Longrightarrow>
        (if 31 \<in> set ns then parse_string_loop b (out @ CHR 0x22 # q) = Inl ReturnFalse
         else \<exists>b'. parse_string_loop b (out @ CHR 0x22 # q) = Inr (b', q) \<and>
                   sb_text b' = sb_text b @ utf8_text ns)" by blast
  from emit_char_parse [OF n] obtain w where w: "emit_char eu (?u @ utf8_text ns) = Inr (w, utf8_text ns)"
    and pw: "peek w \<noteq> CHR 0x22" and wne: "w \<noteq> []"
    and pc: "\<And>q. if n = 31 then parse_char (w @ q) = Inl ReturnFalse else parse_char (w @ q) = Inr (?u, q)"
    by blast
  have "peek (?u @ utf8_text ns) \<noteq> NUL"
    using utf8_units_not_NUL [of n] n by (cases ?u) (auto simp: plain_char_def)
  then have e: "emit_chars eu (utf8_text (n # ns)) = Inr (w @ out)"
    using w out by (subst emit_chars.simps) simp
  have pq: "peek (w @ q) \<noteq> CHR 0x22" for q using pw wne by (simp add: peek_append)
  show ?case
  proof (intro exI conjI allI impI, rule e)
    fix b q
    assume b: "sb_room b 4"
    let ?s = "w @ out @ CHR 0x22 # q"
    show "if 31 \<in> set (n # ns) then parse_string_loop b ((w @ out) @ CHR 0x22 # q) = Inl ReturnFalse
         else \<exists>b'. parse_string_loop b ((w @ out) @ CHR 0x22 # q) = Inr (b', q) \<and>
                   sb_text b' = sb_text b @ utf8_text (n # ns)"
    proof (cases "n = 31")
      case True
      then show ?thesis using pc pq by (subst parse_string_loop.simps) simp
    next
      case False
      with pc have "parse_char ?s = Inr (?u, out @ CHR 0x22 # q)" by simp
      from parse_string_loop_char [OF pq this b] obtain b' where
        "sb_room b' 4" "sb_text b' = sb_text b @ ?u" "parse_string_loop b ?s = parse_string_loop b' (out @ CHR 0x22 # q)"
        by blast
      with loop [of b' q] False show ?thesis by auto
    qed
  qed
qed

lemma emit_string_parse:
  assumes "list_all plain_char ns" and "utf8_validate (utf8_text ns)"
  shows "\<exists>out. emit_string (utf8_text ns) = Inr out \<and>
     (\<forall>q. parse_string (out @ q) = (if 31 \<in> set ns then Inl ReturnFalse else Inr (utf8_text ns, q)))"
proof -
  from emit_chars_parse [OF assms(1), of False] obtain out where
     out: "emit_chars False (utf8_text ns) = Inr out" and
     p: "\<And>b q. sb_room b 4 \<Longrightarrow> (if 31 \<in> set ns then parse_string_loop b (out @ CHR 0x22 # q) = Inl ReturnFalse
         else \<exists>b'. parse_string_loop b (out @ CHR 0x22 # q) = Inr (b', q) \<and>
                   sb_text b' = sb_text b @ utf8_text ns)" by blast
  obtain b where b: "sb_need sb_init 4 = Some b" "sb_text b = []" "sb_room b 4"
    using sb_need_room [of sb_init 4] by auto
  have "parse_string (CHR 0x22 # out @ CHR 0x22 # q) = (if 31 \<in> set ns then Inl ReturnFalse else Inr (utf8_text ns, q))" for q
    using p [OF b(3), of q] b by (auto simp: parse_string_def split: if_splits)
  with out assms(2) show ?thesis by (simp add: emit_string_def)
qed

lemma plain_char_ascii: "0 < n \<Longrightarrow> n < 128 \<Longrightarrow> plain_char n \<and> map char_of (utf8_code_units n) = [char_of n]"
  by (simp add: plain_char_def unicode_scalar_def code_units_ascii)

lemma plain_ascii_char: "0 < ucode c \<Longrightarrow> ucode c < 128 \<Longrightarrow> \<exists>n. plain_char n \<and> [c] = map char_of (utf8_code_units n)"
  using plain_char_ascii [of "ucode c"] by (intro exI [of _ "ucode c"]) simp

lemma utf8_write_plain:
  "utf8_write_char u = Inr w \<Longrightarrow> u \<noteq> 0 \<Longrightarrow> \<exists>n. plain_char n \<and> w = map char_of (utf8_code_units n)"
  by (intro exI [of _ "unat u"]) (auto simp: utf8_write_char_spec plain_char_def unat_eq_0 split: if_splits)

lemma parse_unicode_escape_plain:
  assumes "parse_unicode_escape s = Inr (w, r)"
  shows "\<exists>n. plain_char n \<and> w = map char_of (utf8_code_units n)"
proof -
  have a: "from_surrogate_pair uc lc = Some u \<Longrightarrow> utf8_write_char u = Inr w \<Longrightarrow> ?thesis" for uc lc u
    by (rule utf8_write_plain) (use to_surrogate_pair_nat(1) [of u uc lc] in \<open>auto simp: surrogate_pair_iff\<close>)
  have b: "uc \<noteq> 0 \<Longrightarrow> utf8_write_char (ucast uc) = Inr w \<Longrightarrow> ?thesis" for uc :: u16
    by (rule utf8_write_plain) (use unat_ucast_up [of uc] in \<open>auto simp: unat_eq_0\<close>)
  from assms show ?thesis unfolding parse_unicode_escape_def Let_def
    by (auto split: option.splits if_splits sum.splits) (blast intro: a b)+
qed

lemma parse_escape_plain:
  "parse_escape s = Inr (w, r) \<Longrightarrow> \<exists>n. plain_char n \<and> w = map char_of (utf8_code_units n)"
  unfolding parse_escape_def Let_def
  by (auto split: if_splits intro: parse_unicode_escape_plain plain_ascii_char simp: ucode_def)

lemma parse_char_plain:
  assumes "parse_char s = Inr (w, r)"
  shows "\<exists>n. plain_char n \<and> w = map char_of (utf8_code_units n)"
proof (cases "peek s = CHR 0x5C")
  case True
  with assms show ?thesis by (auto simp: parse_char_def intro: parse_escape_plain)
next
  case False
  with assms have v: "utf8_validate_cz s \<noteq> 0" "\<not> ucode (peek s) \<le> 31" "w = take (utf8_validate_cz s) s"
    by (auto simp: parse_char_def Let_def split: if_splits)
  then have "peek s \<noteq> NUL" by (auto simp: ucode_def)
  from utf8_valid_code_units [OF v(1) this] obtain n t where
    n: "unicode_scalar n" "n \<noteq> 0" and s: "s = map char_of (utf8_code_units n) @ t" .
  have "w = map char_of (utf8_code_units n)"
    using v(3) utf8_validate_code_units [OF n(1), of t] by (simp add: s)
  with n show ?thesis by (auto simp: plain_char_def)
qed

lemma parse_string_loop_plain:
  "parse_string_loop b s = Inr (b', r) \<Longrightarrow> \<exists>ns. list_all plain_char ns \<and> sb_text b' = sb_text b @ utf8_text ns"
proof (induction b s rule: parse_string_loop.induct)
  case (1 b s)
  show ?case
  proof (cases "peek s = CHR 0x22")
    case True
    with 1(2) show ?thesis by (subst (asm) parse_string_loop.simps) (auto intro: exI [of _ "[]"])
  next
    case False
    with "1.prems" obtain w s' b1 b2 where p: "parse_char s = Inr (w, s')" "sb_write b w = Some b1"
        "sb_need b1 4 = Some b2" "parse_string_loop b2 s' = Inr (b', r)"
      by (subst (asm) parse_string_loop.simps) (auto split: sum.splits option.splits)
    from 1(1) [OF False p(1) refl p(2,3,4)] obtain ns where
      ns: "list_all plain_char ns" "sb_text b' = sb_text b2 @ utf8_text ns" by blast
    from parse_char_plain [OF p(1)] obtain n where n: "plain_char n" "w = map char_of (utf8_code_units n)" by blast
    have "sb_text b2 = sb_text b @ w" using p(2,3)
      by (auto simp: sb_write_def sb_need_def sb_grow_def split: if_splits option.splits)
    with ns n show ?thesis by (intro exI [of _ "n # ns"]) simp
  qed
qed

lemma parse_string_plain:
  "parse_string s = Inr (v, r) \<Longrightarrow> \<exists>ns. list_all plain_char ns \<and> v = utf8_text ns"
proof -
  assume a: "parse_string s = Inr (v, r)"
  obtain b where b: "sb_need sb_init 4 = Some b" "sb_text b = []"
    using sb_need_room [of sb_init 4] by auto
  with a obtain b' where "parse_string_loop b (tl s) = Inr (b', r)" "v = sb_text b'"
    by (auto simp: parse_string_def split: if_splits sum.splits)
  from parse_string_loop_plain [OF this(1)] this(2) b(2) show ?thesis by simp
qed

section \<open>Numbers\<close>

definition digits :: "string \<Rightarrow> bool" where
  "digits ds \<longleftrightarrow> ds \<noteq> [] \<and> list_all is_digit ds"

definition json_number :: "string \<Rightarrow> bool" where
  "json_number t \<longleftrightarrow>
     (\<exists>sign int frac ex. t = sign @ int @ frac @ ex \<and>
        (sign = [] \<or> sign = ''-'') \<and>
        (int = ''0'' \<or> digits int \<and> hd int \<noteq> CHR ''0'') \<and>
        (frac = [] \<or> (\<exists>ds. digits ds \<and> frac = CHR ''.'' # ds)) \<and>
        (ex = [] \<or> (\<exists>e sg ds. digits ds \<and> ex = e # sg @ ds \<and>
           (e = CHR ''E'' \<or> e = CHR ''e'') \<and> (sg = [] \<or> sg = ''+'' \<or> sg = ''-''))))"

text \<open>The characters a number could go on with.\<close>

definition number_stop :: "string \<Rightarrow> bool" where
  "number_stop r \<longleftrightarrow> \<not> is_digit (peek r) \<and> peek r \<noteq> CHR ''.'' \<and> peek r \<noteq> CHR ''E'' \<and> peek r \<noteq> CHR ''e''"

lemma skip_digits_split: "\<exists>ds. s = ds @ skip_digits s \<and> list_all is_digit ds"
proof (induction s rule: skip_digits.induct)
  case (1 s)
  show ?case
  proof (cases "is_digit (peek s)")
    case True
    then obtain c t where s: "s = c # t" by (cases s) (auto simp: is_digit_def ucode_def)
    with 1 True obtain ds where "t = ds @ skip_digits t" "list_all is_digit ds" by auto
    then show ?thesis using True s by (subst skip_digits.simps) (auto intro!: exI [of _ "c # ds"])
  next
    case False
    then show ?thesis by (subst skip_digits.simps) simp
  qed
qed

lemma skip_digits_append: "list_all is_digit ds \<Longrightarrow> \<not> is_digit (peek r) \<Longrightarrow> skip_digits (ds @ r) = r"
  by (induction ds) (subst skip_digits.simps, simp)+

lemma is_digit_chars [simp]: "is_digit CHR ''0''" "\<not> is_digit CHR ''-''" "\<not> is_digit CHR ''+''" "\<not> is_digit CHR ''.''" 
  "\<not> is_digit CHR ''E''" "\<not> is_digit CHR ''e''" "\<not> is_digit NUL"
  by (simp_all add: is_digit_def ucode_def)

lemma digit_run: "is_digit (peek s) \<Longrightarrow> \<exists>ds. digits ds \<and> s = ds @ skip_digits (tl s) \<and> hd ds = peek s"
proof -
  assume d: "is_digit (peek s)"
  then obtain c t where "s = c # t" by (cases s) auto
  moreover obtain ds where "t = ds @ skip_digits t" "list_all is_digit ds"
    using skip_digits_split [of t] by blast
  ultimately show ?thesis using d by (intro exI [of _ "c # ds"]) (simp add: digits_def)
qed

lemma number_int_sound:
  "number_int s = Some r \<Longrightarrow> \<exists>t. s = t @ r \<and> (t = ''0'' \<or> digits t \<and> hd t \<noteq> CHR ''0'')"
  using digit_run [of s] by (cases s) (auto simp: number_int_def split: if_splits)

lemma number_frac_sound:
  assumes "number_frac s = Some r"
  shows "\<exists>t. s = t @ r \<and> (t = [] \<or> (\<exists>ds. digits ds \<and> t = CHR ''.'' # ds))"
proof (cases "peek s = CHR ''.''")
  case True
  then obtain t where s: "s = CHR ''.'' # t" by (cases s) auto
  with assms obtain ds where "digits ds" "t = ds @ r"
    using digit_run [of t] by (auto simp: number_frac_def split: if_splits)
  with s show ?thesis by (intro exI [of _ "CHR ''.'' # ds"]) simp
qed (use assms in \<open>simp add: number_frac_def\<close>)

lemma number_exp_sound:
  assumes "number_exp s = Some r"
  shows "\<exists>t. s = t @ r \<and> (t = [] \<or> (\<exists>e sg ds. digits ds \<and> t = e # sg @ ds \<and>
           (e = CHR ''E'' \<or> e = CHR ''e'') \<and> (sg = [] \<or> sg = ''+'' \<or> sg = ''-'')))"
proof (cases "peek s = CHR ''E'' \<or> peek s = CHR ''e''")
  case False
  with assms show ?thesis by (simp add: number_exp_def)
next
  case True
  then obtain s1 where s: "s = peek s # s1" by (cases s) auto
  define s2 where "s2 = (if peek s1 = CHR ''+'' \<or> peek s1 = CHR ''-'' then tl s1 else s1)"
  have "\<exists>sg. s1 = sg @ s2 \<and> (sg = [] \<or> sg = ''+'' \<or> sg = ''-'')"
    unfolding s2_def by (cases s1) auto
  then obtain sg where sg: "s1 = sg @ s2" "sg = [] \<or> sg = ''+'' \<or> sg = ''-''" by blast
  note sg = sg s2_def
  from assms True s sg(3) have d: "is_digit (peek s2)" "r = skip_digits (tl s2)"
    by (auto simp: number_exp_def Let_def split: if_splits)
  with digit_run [of s2] obtain ds where "digits ds" "s2 = ds @ r" by auto
  with True s sg(1,2) show ?thesis by (intro exI [of _ "peek s # sg @ ds"]) auto
qed

lemma parse_number_sound:
  assumes "parse_number strtod s = Inr (v, r)"
  shows "v = strtod s" and "\<exists>t. s = t @ r \<and> json_number t"
proof -
  let ?s1 = "if peek s = CHR ''-'' then tl s else s"
  from assms obtain s2 s3 where p: "number_int ?s1 = Some s2" "number_frac s2 = Some s3" "number_exp s3 = Some r"
    and v: "v = strtod s"
    by (auto simp: parse_number_def Let_def split: option.splits)
  show "v = strtod s" by fact
  have "\<exists>sign. s = sign @ ?s1 \<and> (sign = [] \<or> sign = ''-'')" by (cases s) auto
  with number_int_sound [OF p(1)] number_frac_sound [OF p(2)] number_exp_sound [OF p(3)]
  show "\<exists>t. s = t @ r \<and> json_number t"
    unfolding json_number_def
    by (elim exE conjE) (rule exI, rule conjI [rotated], (rule exI)+, rule conjI, rule refl, blast, simp)
qed

lemma parse_number_complete:
  assumes "json_number t" and "number_stop r"
  shows "parse_number strtod (t @ r) = Inr (strtod (t @ r), r)"
proof -
  from assms(1) obtain sign int frac ex where t: "t = sign @ int @ frac @ ex"
    and sign: "sign = [] \<or> sign = ''-''" and int: "int = ''0'' \<or> digits int \<and> hd int \<noteq> CHR ''0''"
    and frac: "frac = [] \<or> (\<exists>ds. digits ds \<and> frac = CHR ''.'' # ds)"
    and ex: "ex = [] \<or> (\<exists>e sg ds. digits ds \<and> ex = e # sg @ ds \<and>
           (e = CHR ''E'' \<or> e = CHR ''e'') \<and> (sg = [] \<or> sg = ''+'' \<or> sg = ''-''))"
    unfolding json_number_def by blast
  have r: "\<not> is_digit (peek r)" "peek r \<noteq> CHR ''.''" "peek r \<noteq> CHR ''E''" "peek r \<noteq> CHR ''e''"
    using assms(2) by (simp_all add: number_stop_def)
  have run: "is_digit (hd ds) \<and> skip_digits (tl (ds @ q)) = q \<and> peek (ds @ q) = hd ds"
    if "digits ds" "\<not> is_digit (peek q)" for ds q
    using that by (cases ds) (simp_all add: digits_def skip_digits_append)
  have x: "number_exp (ex @ r) = Some r"
  proof (cases "ex = []")
    case True
    with r show ?thesis by (simp add: number_exp_def)
  next
    case False
    with ex obtain e sg ds where d: "digits ds" and e: "ex = e # sg @ ds" "e = CHR ''E'' \<or> e = CHR ''e''"
        "sg = [] \<or> sg = ''+'' \<or> sg = ''-''" by blast
    from d have ds: "ds \<noteq> []" "is_digit (hd ds)" by (cases ds; simp add: digits_def)+
    then have "peek (ds @ r) \<noteq> CHR ''+''" "peek (ds @ r) \<noteq> CHR ''-''" by (cases ds; auto)+
    with e ds run [OF d r(1)] show ?thesis by (auto simp: number_exp_def Let_def)
  qed
  have nx: "\<not> is_digit (peek (ex @ r))" "peek (ex @ r) \<noteq> CHR ''.''" using ex r by auto
  have f: "number_frac (frac @ ex @ r) = Some (ex @ r)"
    using frac nx run [of _ "ex @ r"] by (auto simp: number_frac_def)
  have nf: "\<not> is_digit (peek (frac @ ex @ r))" using frac nx by auto
  have i: "number_int (int @ frac @ ex @ r) = Some (frac @ ex @ r)"
    using int nf run [of int "frac @ ex @ r"] by (auto simp: number_int_def)
  have "peek (int @ frac @ ex @ r) \<noteq> CHR ''-''"
    using int by (cases int) (auto simp: digits_def)
  with sign i f x show ?thesis by (auto simp: parse_number_def t)
qed

lemma plain_texts:
  assumes "utf8_validate s" and "NUL \<notin> set s"
  obtains ns where "list_all plain_char ns" and "s = utf8_text ns" and "CHR 0x1F \<in> set s \<longleftrightarrow> 31 \<in> set ns"
proof -
  obtain ns where ns: "list_all plain_char ns" "s = utf8_text ns"
    by (rule utf8_validate_textE [OF assms])
  with ascii_in_text [of ns 31] that show thesis by (simp add: char_of_31)
qed

section \<open>Properties\<close>

text \<open>C13: string literals round trip, except for one control character.
  \<open>emit_string\<close> renders every valid UTF-8 C string, and \<open>parse_string\<close> reads the
  literal back, leaving what follows it, unless the string holds the byte 0x1F:
  \<open>emit_string\<close> escapes the control characters below 0x1F only, and \<open>parse_string\<close>
  refuses 0x1F, so that literal is rejected.\<close>

theorem json_string_roundtrip:
  assumes "utf8_validate s" and "NUL \<notin> set s"
  shows "\<exists>out. emit_string s = Inr out \<and>
     (\<forall>q. parse_string (out @ q) = (if CHR 0x1F \<in> set s then Inl ReturnFalse else Inr (s, q)))"
proof -
  obtain ns where "list_all plain_char ns" "s = utf8_text ns" "CHR 0x1F \<in> set s \<longleftrightarrow> 31 \<in> set ns"
    by (rule plain_texts [OF assms])
  with emit_string_parse [of ns] utf8_validate_text [of ns] show ?thesis by metis
qed

theorem json_string_roundtrip_witness:
  "(\<exists>out. emit_string [CHR ''a'', CHR 0x22, CHR 0x0A] = Inr out \<and>
      (\<forall>q. parse_string (out @ q) = Inr ([CHR ''a'', CHR 0x22, CHR 0x0A], q))) \<and>
   (\<exists>out. emit_string [CHR 0x1F] = Inr out \<and> (\<forall>q. parse_string (out @ q) = Inl ReturnFalse))"
proof
  have v: "utf8_validate [CHR ''a'', CHR 0x22, CHR 0x0A]" by code_simp
  show "\<exists>out. emit_string [CHR ''a'', CHR 0x22, CHR 0x0A] = Inr out \<and>
      (\<forall>q. parse_string (out @ q) = Inr ([CHR ''a'', CHR 0x22, CHR 0x0A], q))"
    using json_string_roundtrip [OF v] by simp
  have w: "utf8_validate [CHR 0x1F]" by code_simp
  show "\<exists>out. emit_string [CHR 0x1F] = Inr out \<and> (\<forall>q. parse_string (out @ q) = Inl ReturnFalse)"
    using json_string_roundtrip [OF w] by simp
qed

text \<open>C18: \<open>parse_string\<close> is safe and delivers well-formed text.  It fails only by
  returning false (no write past the growing buffer, no growth loop that does
  not end, no exception), and what it returns is a valid UTF-8 string without
  an embedded terminator, with the cursor strictly advanced.\<close>

theorem parse_string_safe:
  "case parse_string s of
     Inl e \<Rightarrow> e = ReturnFalse
   | Inr (v, r) \<Rightarrow> utf8_validate v \<and> NUL \<notin> set v \<and> length r < length s"
proof (cases "parse_string s")
  case (Inl e)
  then show ?thesis using parse_string_fail by simp
next
  case (Inr p)
  obtain v r where p: "p = (v, r)" by fastforce
  with Inr obtain ns where "list_all plain_char ns" "v = utf8_text ns" using parse_string_plain by blast
  with utf8_validate_text plain_text_NUL parse_string_shorter Inr p show ?thesis by auto
qed

text \<open>C37: \<open>parse_number\<close> accepts exactly the number grammar of its comment
  (an optional sign, \<open>0\<close> or digits without a leading zero, optional fraction and
  exponent): what it consumes is a number of the grammar, and every such number
  followed by a character that cannot extend it is consumed whole.\<close>

theorem parse_number_grammar:
  "(parse_number strtod s = Inr (v, r) \<longrightarrow> v = strtod s \<and> (\<exists>t. s = t @ r \<and> json_number t)) \<and>
   (json_number t \<and> number_stop q \<longrightarrow> parse_number strtod (t @ q) = Inr (strtod (t @ q), q))"
  using parse_number_sound [of strtod s v r] parse_number_complete [of t q strtod] by blast

theorem parse_number_grammar_witness:
  "json_number ''-12.5'' \<and> parse_number length (''-12.5'' @ '',0'') = Inr (7, '',0'')"
proof -
  have p: "parse_number length ''-12.5'' = Inr (5, [])" by code_simp
  have n: "json_number ''-12.5''"
    using parse_number_grammar [of length "''-12.5''" 5 "[]"] p by auto
  have "number_stop '',0''" by (simp add: number_stop_def is_digit_def ucode_def)
  with n parse_number_grammar [of length "[]" 0 "[]" "''-12.5''" "'',0''"]
  show ?thesis by simp
qed

end
