(* ===== verification/JsonDoc.thy ===== *)
theory JsonDoc
  imports JsonLex
begin

text \<open>
  The document layer of \<^verbatim>\<open>suil/json.cpp\<close>: the recursive parser \<open>parse_value\<close>,
  \<open>parse_array\<close>, \<open>parse_object\<close>, the plain and the indented printer, and the entry
  points \<open>json_decode\<close>, \<open>json_validate\<close> and \<open>json::Object::decode\<close> / \<open>encode\<close>.

  A \<open>JsonNode\<close> tree is a value of the type \<open>'n json\<close>, \<open>'n\<close> standing for \<open>double\<close>; the
  children list keeps order and duplicate keys, as the linked list of the code
  does.  The parsers are total: the recursion of the code ends because every
  call that succeeds has moved the cursor forward.  The stack the recursion
  needs and the freeing of partly built trees are not modelled.
\<close>

datatype 'n json =
    JNull
  | JBool bool
  | JString string
  | JNumber 'n
  | JArray "'n json list"
  | JObject "(string \<times> 'n json) list"

section \<open>Parsing\<close>

definition parse_literal :: "string \<Rightarrow> 'n json \<Rightarrow> string \<Rightarrow> parse_fail + ('n json \<times> string)" where
  "parse_literal str v s =
     (case expect_literal s str of None \<Rightarrow> Inl ReturnFalse | Some s' \<Rightarrow> Inr (v, s'))"

function
  parse_value :: "(string \<Rightarrow> 'n) \<Rightarrow> string \<Rightarrow> parse_fail + ('n json \<times> string)" and
  parse_array :: "(string \<Rightarrow> 'n) \<Rightarrow> string \<Rightarrow> parse_fail + ('n json \<times> string)" and
  parse_elements :: "(string \<Rightarrow> 'n) \<Rightarrow> string \<Rightarrow> parse_fail + ('n json list \<times> string)" and
  parse_object :: "(string \<Rightarrow> 'n) \<Rightarrow> string \<Rightarrow> parse_fail + ('n json \<times> string)" and
  parse_members :: "(string \<Rightarrow> 'n) \<Rightarrow> string \<Rightarrow> parse_fail + ((string \<times> 'n json) list \<times> string)"
where
  "parse_value strtod s =
     (if peek s = CHR ''n'' then parse_literal ''null'' JNull s
      else if peek s = CHR ''f'' then parse_literal ''false'' (JBool False) s
      else if peek s = CHR ''t'' then parse_literal ''true'' (JBool True) s
      else if peek s = CHR 0x22 then
        (case parse_string s of Inl e \<Rightarrow> Inl e | Inr (str, s') \<Rightarrow> Inr (JString str, s'))
      else if peek s = CHR ''['' then parse_array strtod s
      else if peek s = CHR ''{'' then parse_object strtod s
      else (case parse_number strtod s of Inl e \<Rightarrow> Inl e | Inr (num, s') \<Rightarrow> Inr (JNumber num, s')))"
| "parse_array strtod s =
     (if peek s \<noteq> CHR ''['' then Inl ReturnFalse
      else let s1 = skip_space (tl s) in
        if peek s1 = CHR '']'' then Inr (JArray [], tl s1)
        else case parse_elements strtod s1 of
               Inl e \<Rightarrow> Inl e
             | Inr (es, s') \<Rightarrow> Inr (JArray es, s'))"
| "parse_elements strtod s =
     (case parse_value strtod s of
        Inl e \<Rightarrow> Inl e
      | Inr (element, s1) \<Rightarrow>
          (let s2 = skip_space s1 in
           if peek s2 = CHR '']'' then Inr ([element], tl s2)
           else if peek s2 \<noteq> CHR '','' then Inl ReturnFalse
           else case parse_elements strtod (skip_space (tl s2)) of
                  Inl e \<Rightarrow> Inl e
                | Inr (es, s') \<Rightarrow> Inr (element # es, s')))"
| "parse_object strtod s =
     (if peek s \<noteq> CHR ''{'' then Inl ReturnFalse
      else let s1 = skip_space (tl s) in
        if peek s1 = CHR ''}'' then Inr (JObject [], tl s1)
        else case parse_members strtod s1 of
               Inl e \<Rightarrow> Inl e
             | Inr (ms, s') \<Rightarrow> Inr (JObject ms, s'))"
| "parse_members strtod s =
     (case parse_string s of
        Inl e \<Rightarrow> Inl e
      | Inr (key, s1) \<Rightarrow>
          (let s2 = skip_space s1 in
           if peek s2 \<noteq> CHR '':'' then Inl ReturnFalse
           else case parse_value strtod (skip_space (tl s2)) of
                  Inl e \<Rightarrow> Inl e
                | Inr (val, s3) \<Rightarrow>
                    (let s4 = skip_space s3 in
                     if peek s4 = CHR ''}'' then Inr ([(key, val)], tl s4)
                     else if peek s4 \<noteq> CHR '','' then Inl ReturnFalse
                     else case parse_members strtod (skip_space (tl s4)) of
                            Inl e \<Rightarrow> Inl e
                          | Inr (ms, s') \<Rightarrow> Inr ((key, val) # ms, s'))))"
  by pat_completeness auto

lemma skip_space_le: "length (skip_space s) \<le> length s"
  by (induction s rule: skip_space.induct) (subst skip_space.simps, auto)

lemma expect_literal_le: "expect_literal s str = Some r \<Longrightarrow> length r \<le> length s"
  by (induction s str rule: expect_literal.induct) (auto split: if_splits)

lemma parse_literal_le: "parse_literal str v s = Inr (w, r) \<Longrightarrow> length r \<le> length s"
  by (auto simp: parse_literal_def dest: expect_literal_le split: option.splits)

lemma parse_number_le: "parse_number strtod s = Inr (v, r) \<Longrightarrow> length r \<le> length s"
  using parse_number_sound(2) [of strtod s v r] by auto

lemma tl_skip_space_less: "peek (skip_space s) = c \<Longrightarrow> c \<noteq> NUL \<Longrightarrow> length (tl (skip_space s)) < length s"
  using skip_space_le [of s] by (cases "skip_space s") auto

lemma tl_less: "peek s = c \<Longrightarrow> c \<noteq> NUL \<Longrightarrow> length (tl s) < length s"
  by (cases s) auto


lemma le_skip: "n \<le> length (skip_space s) \<Longrightarrow> n \<le> length s"
  using skip_space_le [of s] by linarith

lemma le_tl: "n \<le> length (tl s) \<Longrightarrow> n \<le> length s"
  by simp

lemma tl_le: "length (tl s) \<le> length s"
  by simp

lemmas shrink = le_skip le_tl order_trans [OF _ tl_le]

text \<open>Progress: a call that succeeds leaves no more input than it was given.\<close>

lemma parse_le_dom:
  "parse_value_parse_array_parse_elements_parse_object_parse_members_dom (Inl (Inl (strtod :: string \<Rightarrow> 'n, s1))) \<Longrightarrow>
     (\<forall>v r. parse_value strtod s1 = Inr (v, r) \<longrightarrow> length r \<le> length s1)"
  "parse_value_parse_array_parse_elements_parse_object_parse_members_dom (Inl (Inr (strtod :: string \<Rightarrow> 'n, s2))) \<Longrightarrow>
     (\<forall>v r. parse_array strtod s2 = Inr (v, r) \<longrightarrow> length r \<le> length s2)"
  "parse_value_parse_array_parse_elements_parse_object_parse_members_dom (Inr (Inl (strtod :: string \<Rightarrow> 'n, s3))) \<Longrightarrow>
     (\<forall>v r. parse_elements strtod s3 = Inr (v, r) \<longrightarrow> length r \<le> length s3)"
  "parse_value_parse_array_parse_elements_parse_object_parse_members_dom (Inr (Inr (Inl (strtod :: string \<Rightarrow> 'n, s4)))) \<Longrightarrow>
     (\<forall>v r. parse_object strtod s4 = Inr (v, r) \<longrightarrow> length r \<le> length s4)"
  "parse_value_parse_array_parse_elements_parse_object_parse_members_dom (Inr (Inr (Inr (strtod :: string \<Rightarrow> 'n, s5)))) \<Longrightarrow>
     (\<forall>v r. parse_members strtod s5 = Inr (v, r) \<longrightarrow> length r \<le> length s5)"
proof (induction strtod s1 and strtod s2 and strtod s3 and strtod s4 and strtod s5 
    rule: parse_value_parse_array_parse_elements_parse_object_parse_members.pinduct)
  case (1 strtod s)
  then show ?case
    by (auto simp: parse_value.psimps dest!: parse_literal_le parse_number_le parse_string_shorter
         split: if_splits sum.splits)
next
  case (2 strtod s)
  show ?case
    using "2.hyps" "2.IH" order_trans [OF tl_le skip_space_le, of "tl s"]
    by (auto simp: parse_array.psimps Let_def simp del: length_tl split: if_splits sum.splits
        dest!: le_skip le_tl intro: le_tl)
next
  case (3 strtod s)
  show ?case
  proof (intro allI impI)
    fix v r assume "parse_elements strtod s = Inr (v, r)"
    then obtain w s1 where "parse_value strtod s = Inr (w, s1)" and
      "r = tl (skip_space s1) \<or> (\<exists>vs. parse_elements strtod (skip_space (tl (skip_space s1))) = Inr (vs, r)
           \<and> peek (skip_space s1) \<noteq> CHR '']'' \<and> \<not> peek (skip_space s1) \<noteq> CHR '','')"
      by (auto simp: parse_elements.psimps [OF "3.hyps"] Let_def split: if_splits sum.splits)
    then have "length r \<le> length s1" and "length s1 \<le> length s"
      using "3.IH" by (fastforce dest: le_skip le_tl simp del: length_tl intro: order_trans [OF tl_le skip_space_le])+
    then show "length r \<le> length s" by (rule order_trans)
  qed
next
  case (4 strtod s)
  show ?case
    using "4.hyps" "4.IH" order_trans [OF tl_le skip_space_le, of "tl s"]
    by (auto simp: parse_object.psimps Let_def simp del: length_tl split: if_splits sum.splits
        dest!: le_skip le_tl intro: le_tl)
next
  case (5 strtod s)
  show ?case
  proof (intro allI impI)
    fix v r assume "parse_members strtod s = Inr (v, r)"
    then obtain k s1 w s3 where k: "parse_string s = Inr (k, s1)" "peek (skip_space s1) = CHR '':''" and
      w: "parse_value strtod (skip_space (tl (skip_space s1))) = Inr (w, s3)" and
      r: "r = tl (skip_space s3) \<or> (\<exists>vs. parse_members strtod (skip_space (tl (skip_space s3))) = Inr (vs, r)
           \<and> peek (skip_space s3) \<noteq> CHR ''}'' \<and> \<not> peek (skip_space s3) \<noteq> CHR '','')"
      by (auto simp: parse_members.psimps [OF "5.hyps"] Let_def split: if_splits sum.splits)
    from parse_string_shorter [OF k(1)] have "length s1 \<le> length s" by simp
    moreover have "length s3 \<le> length s1"
      using "5.IH"(1) k w by (fastforce dest: le_skip le_tl simp del: length_tl)
    moreover have "length r \<le> length s3"
      using "5.IH"(2) k w r by (fastforce dest: le_skip le_tl simp del: length_tl intro: order_trans [OF tl_le skip_space_le])
    ultimately show "length r \<le> length s" by linarith
  qed
qed

lemma parse_total: "All parse_value_parse_array_parse_elements_parse_object_parse_members_dom"
proof (rule "parse_value_parse_array_parse_elements_parse_object_parse_members.termination" [of
   "measure (\<lambda>x. case x of
     Inl (Inl (_, s)) \<Rightarrow> 3 * length s + 1 | Inl (Inr (_, s)) \<Rightarrow> 3 * length s
   | Inr (Inl (_, s)) \<Rightarrow> 3 * length s + 2 | Inr (Inr (Inl (_, s))) \<Rightarrow> 3 * length s
   | Inr (Inr (Inr (_, s))) \<Rightarrow> 3 * length s + 2)"], goal_cases)
  case (4 strtod s s1)
  with skip_space_le [of "tl s"] tl_less [of s] show ?case by auto
next
  case (7 strtod s s1)
  with skip_space_le [of "tl s"] tl_less [of s] show ?case by auto
next
  case (6 strtod s b x y xa)
  with parse_le_dom(1) [OF 6(6)] have "length y \<le> length s" by auto
  with 6 skip_space_le [of "tl xa"] tl_skip_space_less [of y] show ?case by auto
next
  case (8 strtod s b x y xa)
  with parse_string_shorter [of s x y] skip_space_le [of "tl xa"] tl_skip_space_less [of y] show ?case by auto
next
  case (9 strtod s b x y xa ba xaa ya xab)
  with parse_le_dom(1) [OF 9(10)] have "length ya \<le> length (skip_space (tl xa))" by auto
  with 9 parse_string_shorter [of s x y] skip_space_le [of "tl xa"] tl_skip_space_less [of y]
    skip_space_le [of "tl xab"] tl_skip_space_less [of ya] show ?case by auto
qed auto

termination parse_value
  by (rule parse_total)

declare parse_value.simps [simp del] parse_array.simps [simp del] parse_elements.simps [simp del]
  parse_object.simps [simp del] parse_members.simps [simp del]

lemmas parse_shorter = parse_le_dom [OF parse_total [rule_format], rule_format]

text \<open>The \<open>nullptr\<close> that \<open>json_decode\<close> returns for a malformed document is \<open>Inl ReturnFalse\<close>.\<close>

definition json_decode :: "(string \<Rightarrow> 'n) \<Rightarrow> string \<Rightarrow> parse_fail + 'n json" where
  "json_decode strtod json =
     (case parse_value strtod (skip_space json) of
        Inl e \<Rightarrow> Inl e
      | Inr (ret, s) \<Rightarrow> if peek (skip_space s) \<noteq> NUL then Inl ReturnFalse else Inr ret)"

text \<open>\<open>json_validate\<close> runs the same parser with no node to build.\<close>

definition json_validate :: "string \<Rightarrow> bool" where
  "json_validate json =
     (case parse_value (\<lambda>_. ()) (skip_space json) of
        Inl e \<Rightarrow> False
      | Inr (_, s) \<Rightarrow> peek (skip_space s) = NUL)"

text \<open>\<open>Object::decode\<close> keeps what follows the document: the object and \<open>sz\<close>, the bytes used.\<close>

definition object_decode :: "(string \<Rightarrow> 'n) \<Rightarrow> string \<Rightarrow> parse_fail + ('n json \<times> nat)" where
  "object_decode strtod str =
     (case parse_value strtod (skip_space str) of
        Inl ReturnFalse \<Rightarrow> Inl (Throws (InvalidJson (length str - length (skip_space str))))
      | Inl e \<Rightarrow> Inl e
      | Inr (ret, s) \<Rightarrow> Inr (ret, length str - length (skip_space s)))"

section \<open>Printing\<close>

abbreviation emitted :: "emit_fail + string \<Rightarrow> (string \<Rightarrow> emit_fail + string) \<Rightarrow> emit_fail + string" where
  "emitted r k \<equiv> (case r of Inl e \<Rightarrow> Inl e | Inr out \<Rightarrow> k out)"

fun emit_value :: "('n \<Rightarrow> string) \<Rightarrow> ('n \<Rightarrow> string) \<Rightarrow> 'n json \<Rightarrow> emit_fail + string"
  and emit_elements :: "('n \<Rightarrow> string) \<Rightarrow> ('n \<Rightarrow> string) \<Rightarrow> 'n json list \<Rightarrow> emit_fail + string"
  and emit_members :: "('n \<Rightarrow> string) \<Rightarrow> ('n \<Rightarrow> string) \<Rightarrow> (string \<times> 'n json) list \<Rightarrow> emit_fail + string"
where
  "emit_value fmt render JNull = Inr ''null''"
| "emit_value fmt render (JBool b) = Inr (if b then ''true'' else ''false'')"
| "emit_value fmt render (JString str) = emit_string str"
| "emit_value fmt render (JNumber num) = Inr (emit_number fmt render num)"
| "emit_value fmt render (JArray es) =
     emitted (emit_elements fmt render es) (\<lambda>out. Inr (''['' @ out @ '']''))"
| "emit_value fmt render (JObject ms) =
     emitted (emit_members fmt render ms) (\<lambda>out. Inr (''{'' @ out @ ''}''))"
| "emit_elements fmt render [] = Inr []"
| "emit_elements fmt render (element # es) =
     emitted (emit_value fmt render element) (\<lambda>out1.
       emitted (emit_elements fmt render es) (\<lambda>out2.
         Inr (out1 @ (if es \<noteq> [] then '','' else []) @ out2)))"
| "emit_members fmt render [] = Inr []"
| "emit_members fmt render ((key, member) # ms) =
     emitted (emit_string key) (\<lambda>out1.
       emitted (emit_value fmt render member) (\<lambda>out2.
         emitted (emit_members fmt render ms) (\<lambda>out3.
           Inr (out1 @ '':'' @ out2 @ (if ms \<noteq> [] then '','' else []) @ out3))))"

definition indent :: "string \<Rightarrow> nat \<Rightarrow> string" where
  "indent space n = concat (replicate n space)"

fun emit_value_indented ::
    "('n \<Rightarrow> string) \<Rightarrow> ('n \<Rightarrow> string) \<Rightarrow> string \<Rightarrow> nat \<Rightarrow> 'n json \<Rightarrow> emit_fail + string"
  and emit_elements_indented ::
    "('n \<Rightarrow> string) \<Rightarrow> ('n \<Rightarrow> string) \<Rightarrow> string \<Rightarrow> nat \<Rightarrow> 'n json list \<Rightarrow> emit_fail + string"
  and emit_members_indented ::
    "('n \<Rightarrow> string) \<Rightarrow> ('n \<Rightarrow> string) \<Rightarrow> string \<Rightarrow> nat \<Rightarrow> (string \<times> 'n json) list \<Rightarrow> emit_fail + string"
where
  "emit_value_indented fmt render space level JNull = Inr ''null''"
| "emit_value_indented fmt render space level (JBool b) = Inr (if b then ''true'' else ''false'')"
| "emit_value_indented fmt render space level (JString str) = emit_string str"
| "emit_value_indented fmt render space level (JNumber num) = Inr (emit_number fmt render num)"
| "emit_value_indented fmt render space level (JArray es) =
     (if es = [] then Inr ''[]''
      else emitted (emit_elements_indented fmt render space level es) (\<lambda>out.
             Inr (''['' @ [CHR 0x0A] @ out @ indent space level @ '']'')))"
| "emit_value_indented fmt render space level (JObject ms) =
     (if ms = [] then Inr ''{}''
      else emitted (emit_members_indented fmt render space level ms) (\<lambda>out.
             Inr (''{'' @ [CHR 0x0A] @ out @ indent space level @ ''}'')))"
| "emit_elements_indented fmt render space level [] = Inr []"
| "emit_elements_indented fmt render space level (element # es) =
     emitted (emit_value_indented fmt render space (level + 1) element) (\<lambda>out1.
       emitted (emit_elements_indented fmt render space level es) (\<lambda>out2.
         Inr (indent space (level + 1) @ out1 @ (if es \<noteq> [] then '','' else []) @ [CHR 0x0A] @ out2)))"
| "emit_members_indented fmt render space level [] = Inr []"
| "emit_members_indented fmt render space level ((key, member) # ms) =
     emitted (emit_string key) (\<lambda>out1.
       emitted (emit_value_indented fmt render space (level + 1) member) (\<lambda>out2.
         emitted (emit_members_indented fmt render space level ms) (\<lambda>out3.
           Inr (indent space (level + 1) @ out1 @ '': '' @ out2 @ (if ms \<noteq> [] then '','' else []) @ [CHR 0x0A] @ out3))))"

section \<open>Documents that print faithfully\<close>

text \<open>What the code relies on for a number it prints: the rendering is a number of the
  grammar, and \<open>strtod\<close> reads it back from in front of anything that does not extend it.\<close>

definition number_faithful :: "('n \<Rightarrow> string) \<Rightarrow> (string \<Rightarrow> 'n) \<Rightarrow> 'n \<Rightarrow> bool" where
  "number_faithful render strtod n \<longleftrightarrow>
     json_number (render n) \<and> (\<forall>r. number_stop r \<longrightarrow> strtod (render n @ r) = n)"

definition printable_string :: "string \<Rightarrow> bool" where
  "printable_string s \<longleftrightarrow> utf8_validate s \<and> NUL \<notin> set s \<and> CHR 0x1F \<notin> set s"

fun json_ok :: "('n \<Rightarrow> bool) \<Rightarrow> 'n json \<Rightarrow> bool" where
  "json_ok num JNull = True"
| "json_ok num (JBool b) = True"
| "json_ok num (JString s) = printable_string s"
| "json_ok num (JNumber n) = num n"
| "json_ok num (JArray es) = list_all (json_ok num) es"
| "json_ok num (JObject ms) = list_all (\<lambda>(k, v). printable_string k \<and> json_ok num v) ms"

text \<open>Numbers that \<^verbatim>\<open>%.16g\<close> renders outside the grammar (infinities, NaN) become null.\<close>

fun json_norm :: "('n \<Rightarrow> string) \<Rightarrow> 'n json \<Rightarrow> 'n json" where
  "json_norm fmt JNull = JNull"
| "json_norm fmt (JBool b) = JBool b"
| "json_norm fmt (JString s) = JString s"
| "json_norm fmt (JNumber n) = (if number_is_valid (fmt n) then JNumber n else JNull)"
| "json_norm fmt (JArray es) = JArray (map (json_norm fmt) es)"
| "json_norm fmt (JObject ms) = JObject (map (\<lambda>(k, v). (k, json_norm fmt v)) ms)"

lemma emit_string_quote: "emit_string s = Inr out \<Longrightarrow> \<exists>w. out = CHR 0x22 # w"
  by (auto simp: emit_string_def split: if_splits sum.splits)

lemma emit_printable:
  assumes "printable_string s"
  obtains w where "emit_string s = Inr (CHR 0x22 # w)"
    and "\<And>q. parse_string (CHR 0x22 # w @ q) = Inr (s, q)"
proof -
  from assms have v: "utf8_validate s" "NUL \<notin> set s" and u: "CHR 0x1F \<notin> set s"
    by (simp_all add: printable_string_def)
  obtain ns where ns: "list_all plain_char ns" "s = utf8_text ns" "CHR 0x1F \<in> set s \<longleftrightarrow> 31 \<in> set ns"
    by (rule plain_texts [OF v])
  with u have n: "31 \<notin> set ns" by blast
  from emit_string_parse [OF ns(1) utf8_validate_text [OF ns(1)]] obtain out where
    o: "emit_string (utf8_text ns) = Inr out"
       "\<forall>q. parse_string (out @ q) = (if 31 \<in> set ns then Inl ReturnFalse else Inr (utf8_text ns, q))"
    by (elim exE conjE)
  from emit_string_quote [OF o(1)] obtain w where w: "out = CHR 0x22 # w" ..
  have "emit_string s = Inr (CHR 0x22 # w)" by (simp only: o(1) ns(2) w)
  moreover have "parse_string (CHR 0x22 # w @ q) = Inr (s, q)" for q
    using o(2) [rule_format, of q] by (simp only: n if_False w ns(2) append_Cons)
  ultimately show thesis by (rule that)
qed

lemma skip_space_id: "\<not> is_space (peek s) \<Longrightarrow> skip_space s = s"
  by (subst skip_space.simps) simp

lemma skip_space_Cons: "is_space c \<Longrightarrow> skip_space (c # s) = skip_space s"
  by (subst skip_space.simps) simp

lemma skip_space_append: "list_all is_space w \<Longrightarrow> skip_space (w @ s) = skip_space s"
  by (induction w) (simp_all add: skip_space_Cons)

lemma number_stop_punct [simp]:
  "number_stop (CHR '']'' # r)" "number_stop (CHR ''}'' # r)" "number_stop (CHR '','' # r)"
  "number_stop (CHR 0x0A # r)" "number_stop []"
  by (simp_all add: number_stop_def is_digit_def ucode_def)

lemma punct_not_space [simp]:
  "\<not> is_space CHR '']''" "\<not> is_space CHR ''}''" "\<not> is_space CHR '',''" "\<not> is_space CHR '':''"
  "\<not> is_space CHR ''[''" "\<not> is_space CHR ''{''" "\<not> is_space CHR 0x22" "\<not> is_space NUL"
  "is_space CHR 0x0A" "is_space CHR '' ''"
  by (simp_all add: is_space_def)

text \<open>The first character of a printed value.\<close>

definition value_start :: "string \<Rightarrow> bool" where
  "value_start out \<longleftrightarrow> out \<noteq> [] \<and> \<not> is_space (peek out) \<and> peek out \<noteq> CHR '']'' \<and> peek out \<noteq> CHR ''}''"

lemma value_start_append: "value_start out \<Longrightarrow> value_start (out @ r)"
  by (simp add: value_start_def peek_append)

lemma value_start_skip: "value_start s \<Longrightarrow> skip_space s = s"
  by (simp add: value_start_def skip_space_id)

lemma json_number_start:
  assumes "json_number t"
  shows "t \<noteq> [] \<and> (peek t = CHR ''-'' \<or> is_digit (peek t))"
proof -
  from assms obtain sign int frac ex where t: "t = sign @ int @ frac @ ex" "sign = [] \<or> sign = ''-''"
    "int = ''0'' \<or> digits int" unfolding json_number_def by blast
  moreover have "int \<noteq> [] \<and> is_digit (peek int)" using t(3) by (cases int) (auto simp: digits_def)
  ultimately show ?thesis by (auto simp: peek_append)
qed

lemma number_start_cases:
  "c = CHR ''-'' \<or> is_digit c \<Longrightarrow>
     c \<noteq> CHR ''n'' \<and> c \<noteq> CHR ''f'' \<and> c \<noteq> CHR ''t'' \<and> c \<noteq> CHR 0x22 \<and> c \<noteq> CHR ''['' \<and> c \<noteq> CHR ''{''
     \<and> c \<noteq> CHR '']'' \<and> c \<noteq> CHR ''}'' \<and> \<not> is_space c"
  by (auto simp: is_digit_def is_space_def ucode_def)

lemma parse_emitted_number:
  assumes "number_faithful render strtod n"
  shows "number_stop r \<Longrightarrow> parse_value strtod (render n @ r) = Inr (JNumber n, r)"
    and "value_start (render n)"
proof -
  from assms have j: "json_number (render n)" and s: "number_stop r \<Longrightarrow> strtod (render n @ r) = n"
    by (simp_all add: number_faithful_def)
  note st = json_number_start [OF j]
  then have p: "peek (render n @ r) = peek (render n)" by (simp add: peek_append)
  show "number_stop r \<Longrightarrow> parse_value strtod (render n @ r) = Inr (JNumber n, r)"
    using number_start_cases [of "peek (render n)"] st parse_number_complete [OF j, of r strtod] s
    by (simp add: parse_value.simps p)
  show "value_start (render n)" using number_start_cases [of "peek (render n)"] st
    by (simp add: value_start_def)
qed

lemma parse_emitted_null [simp]: "parse_value strtod (CHR ''n'' # CHR ''u'' # CHR ''l'' # CHR ''l'' # r) = Inr (JNull, r)"
  by (simp add: parse_value.simps parse_literal_def)

lemma parse_emitted_bool [simp]:
  "parse_value strtod (CHR ''t'' # CHR ''r'' # CHR ''u'' # CHR ''e'' # r) = Inr (JBool True, r)"
  "parse_value strtod (CHR ''f'' # CHR ''a'' # CHR ''l'' # CHR ''s'' # CHR ''e'' # r) = Inr (JBool False, r)"
  by (simp_all add: parse_value.simps parse_literal_def)

lemma value_start_literal [simp]:
  "value_start ''null''" "value_start ''true''" "value_start ''false''" "value_start (CHR 0x22 # w)"
  "value_start (CHR ''['' # w)" "value_start (CHR ''{'' # w)"
  by (simp_all add: value_start_def is_space_def)

text \<open>One element, or one member, and what follows it.\<close>

lemma parse_elements_one:
  assumes "parse_value strtod s = Inr (v, s1)" and "skip_space s1 = CHR '']'' # r"
  shows "parse_elements strtod s = Inr ([v], r)"
  using assms by (simp add: parse_elements.simps)

lemma parse_elements_more:
  assumes "parse_value strtod s = Inr (v, s1)" and "skip_space s1 = CHR '','' # s2"
    and "parse_elements strtod (skip_space s2) = Inr (vs, r)"
  shows "parse_elements strtod s = Inr (v # vs, r)"
  using assms by (simp add: parse_elements.simps)

lemma parse_members_one:
  assumes "parse_string s = Inr (k, s1)" and "skip_space s1 = CHR '':'' # s2"
    and "parse_value strtod (skip_space s2) = Inr (v, s3)" and "skip_space s3 = CHR ''}'' # r"
  shows "parse_members strtod s = Inr ([(k, v)], r)"
  using assms by (simp add: parse_members.simps)

lemma parse_members_more:
  assumes "parse_string s = Inr (k, s1)" and "skip_space s1 = CHR '':'' # s2"
    and "parse_value strtod (skip_space s2) = Inr (v, s3)" and "skip_space s3 = CHR '','' # s4"
    and "parse_members strtod (skip_space s4) = Inr (ms, r)"
  shows "parse_members strtod s = Inr ((k, v) # ms, r)"
  using assms by (simp add: parse_members.simps)

lemma parse_bracketed:
  "value_start s \<Longrightarrow> parse_elements strtod s = Inr (vs, r) \<Longrightarrow> list_all is_space w \<Longrightarrow>
     parse_value strtod (CHR ''['' # w @ s) = Inr (JArray vs, r)"
  "value_start s \<Longrightarrow> parse_members strtod s = Inr (ms, r) \<Longrightarrow> list_all is_space w \<Longrightarrow>
     parse_value strtod (CHR ''{'' # w @ s) = Inr (JObject ms, r)"
  by (simp_all add: parse_value.simps parse_array.simps parse_object.simps skip_space_append
      value_start_skip Let_def) (simp_all add: value_start_def)

section \<open>Printing and parsing\<close>

definition reads_back :: "(string \<Rightarrow> 'n) \<Rightarrow> 'n json \<Rightarrow> string \<Rightarrow> bool" where
  "reads_back strtod v out \<longleftrightarrow>
     value_start out \<and> (\<forall>r. number_stop r \<longrightarrow> parse_value strtod (out @ r) = Inr (v, r))"

definition numbers_faithful ::
    "('n \<Rightarrow> bool) \<Rightarrow> ('n \<Rightarrow> string) \<Rightarrow> ('n \<Rightarrow> string) \<Rightarrow> (string \<Rightarrow> 'n) \<Rightarrow> bool" where
  "numbers_faithful num fmt render strtod \<longleftrightarrow>
     (\<forall>n. num n \<and> number_is_valid (fmt n) \<longrightarrow> number_faithful render strtod n)"

abbreviation "member_ok num \<equiv> \<lambda>(k, v). printable_string k \<and> json_ok num v"

lemma parse_value_quote:
  "parse_string (CHR 0x22 # w) = Inr (v, r) \<Longrightarrow> parse_value strtod (CHR 0x22 # w) = Inr (JString v, r)"
  by (simp add: parse_value.simps)

lemma emitted_string:
  assumes "printable_string s"
  shows "\<exists>out. emit_string s = Inr out \<and> reads_back strtod (JString s) out"
proof -
  from assms obtain w where w: "emit_string s = Inr (CHR 0x22 # w)"
    and p: "\<And>q. parse_string (CHR 0x22 # w @ q) = Inr (s, q)" by (rule emit_printable) blast
  have "reads_back strtod (JString s) (CHR 0x22 # w)"
    by (simp add: reads_back_def parse_value_quote [OF p])
  with w show ?thesis by blast
qed

lemma emitted_number:
  "numbers_faithful num fmt render strtod \<Longrightarrow> num n \<Longrightarrow>
     reads_back strtod (json_norm fmt (JNumber n)) (emit_number fmt render n)"
  using parse_emitted_number [of render strtod n]
  by (auto simp: reads_back_def emit_number_def numbers_faithful_def)

lemma reads_back_parse: "reads_back strtod v out \<Longrightarrow> number_stop r \<Longrightarrow> parse_value strtod (out @ r) = Inr (v, r)"
  by (simp add: reads_back_def)

lemma reads_back_start: "reads_back strtod v out \<Longrightarrow> value_start out"
  by (simp add: reads_back_def)

lemma emit_reads_back:
  "numbers_faithful num fmt render strtod \<Longrightarrow> json_ok num v \<Longrightarrow>
     \<exists>out. emit_value fmt render v = Inr out \<and> reads_back strtod (json_norm fmt v) out"
  "numbers_faithful num fmt render strtod \<Longrightarrow> list_all (json_ok num) es \<Longrightarrow>
     \<exists>out. emit_elements fmt render es = Inr out \<and>
       (es \<noteq> [] \<longrightarrow> value_start out \<and>
          (\<forall>r. parse_elements strtod (out @ CHR '']'' # r) = Inr (map (json_norm fmt) es, r)))"
  "numbers_faithful num fmt render strtod \<Longrightarrow> list_all (member_ok num) ms \<Longrightarrow>
     \<exists>out. emit_members fmt render ms = Inr out \<and>
       (ms \<noteq> [] \<longrightarrow> value_start out \<and>
          (\<forall>r. parse_members strtod (out @ CHR ''}'' # r) = Inr (map (\<lambda>(k, v). (k, json_norm fmt v)) ms, r)))"
proof (induction fmt render v and fmt render es and fmt render ms rule: emit_value_emit_elements_emit_members.induct)
  case (3 fmt render str)
  then show ?case using emitted_string by auto
next
  case (4 fmt render n)
  then show ?case using emitted_number by fastforce
next
  case (5 fmt render es)
  then obtain out where out: "emit_elements fmt render es = Inr out"
    "es \<noteq> [] \<longrightarrow> value_start out \<and>
          (\<forall>r. parse_elements strtod (out @ CHR '']'' # r) = Inr (map (json_norm fmt) es, r))" by auto
  show ?case
  proof (cases "es = []")
    case True
    then show ?thesis
      by (simp add: reads_back_def parse_value.simps parse_array.simps skip_space_id)
  next
    case False
    with out show ?thesis
      using parse_bracketed(1) [of "out @ _" strtod _ _ "[]"] value_start_append by (auto simp: reads_back_def)
  qed
next
  case (6 fmt render ms)
  then obtain out where out: "emit_members fmt render ms = Inr out"
    "ms \<noteq> [] \<longrightarrow> value_start out \<and>
          (\<forall>r. parse_members strtod (out @ CHR ''}'' # r) = Inr (map (\<lambda>(k, v). (k, json_norm fmt v)) ms, r))" by auto
  show ?case
  proof (cases "ms = []")
    case True
    then show ?thesis
      by (simp add: reads_back_def parse_value.simps parse_object.simps skip_space_id)
  next
    case False
    with out show ?thesis
      using parse_bracketed(2) [of "out @ _" strtod _ _ "[]"] value_start_append by (auto simp: reads_back_def)
  qed
next
  case (8 fmt render e es)
  from "8.prems" have ok: "json_ok num e" "list_all (json_ok num) es" by simp_all
  from "8.IH"(1) [OF "8.prems"(1) ok(1)] obtain out1 where
    o1: "emit_value fmt render e = Inr out1" "reads_back strtod (json_norm fmt e) out1" by blast
  from "8.IH"(2) [OF o1(1) "8.prems"(1) ok(2)] obtain out2 where
    o2: "emit_elements fmt render es = Inr out2" "es \<noteq> [] \<longrightarrow> value_start out2 \<and>
          (\<forall>r. parse_elements strtod (out2 @ CHR '']'' # r) = Inr (map (json_norm fmt) es, r))" by blast
  have e0: "out2 = []" if "es = []" using o2(1) that by simp
  have "parse_elements strtod (out1 @ (if es \<noteq> [] then '','' else []) @ out2 @ CHR '']'' # r)
        = Inr (map (json_norm fmt) (e # es), r)" for r
  proof (cases "es = []")
    case True
    then show ?thesis 
      using parse_elements_one [OF reads_back_parse [OF o1(2), of "CHR '']'' # r"]] e0 by (simp add: skip_space_id)
  next
    case False
    let ?r = "CHR '','' # out2 @ CHR '']'' # r"
    have "value_start (out2 @ CHR '']'' # r)" using False o2(2) value_start_append by blast
    then show ?thesis 
      using False o2(2) parse_elements_more [OF reads_back_parse [OF o1(2), of ?r]] 
      by (simp add: skip_space_id value_start_skip)
  qed
  then show ?case using o1 o2 value_start_append [OF reads_back_start [OF o1(2)]] by simp
next
  case (10 fmt render k v ms)
  from "10.prems" have ok: "printable_string k" "json_ok num v" "list_all (member_ok num) ms" by simp_all
  from ok(1) obtain w where w: "emit_string k = Inr (CHR 0x22 # w)" "\<And>q. parse_string (CHR 0x22 # w @ q) = Inr (k, q)"
    by (rule emit_printable) blast
  from "10.IH"(1) [OF w(1) "10.prems"(1) ok(2)] obtain out2 where
    o2: "emit_value fmt render v = Inr out2" "reads_back strtod (json_norm fmt v) out2" by blast
  from "10.IH"(2) [OF w(1) o2(1) "10.prems"(1) ok(3)] obtain out3 where
    o3: "emit_members fmt render ms = Inr out3" "ms \<noteq> [] \<longrightarrow> value_start out3 \<and>
          (\<forall>r. parse_members strtod (out3 @ CHR ''}'' # r) = Inr (map (\<lambda>(k, v). (k, json_norm fmt v)) ms, r))"
    by blast
  have e0: "out3 = []" if "ms = []" using o3(1) that by simp
  have st: "value_start (out2 @ q)" for q using reads_back_start [OF o2(2)] value_start_append by blast
  have "parse_members strtod (CHR 0x22 # w @ '':'' @ out2 @ (if ms \<noteq> [] then '','' else []) @ out3 @ CHR ''}'' # r)
        = Inr (map (\<lambda>(k, v). (k, json_norm fmt v)) ((k, v) # ms), r)" for r
  proof (cases "ms = []")
    case True
    then show ?thesis 
      using parse_members_one [OF w(2) _ _ , of _ "out2 @ CHR ''}'' # r" strtod "json_norm fmt v" "CHR ''}'' # r" r] 
        reads_back_parse [OF o2(2), of "CHR ''}'' # r"] st e0 by (simp add: skip_space_id value_start_skip)
  next
    case False
    let ?r = "CHR '','' # out3 @ CHR ''}'' # r"
    have "value_start (out3 @ CHR ''}'' # r)" using False o3(2) value_start_append by blast
    then show ?thesis 
      using False o3(2) parse_members_more [OF w(2) _ _ _, of _ "out2 @ ?r" strtod "json_norm fmt v" ?r "out3 @ CHR ''}'' # r"] 
         reads_back_parse [OF o2(2), of ?r] st by (simp add: skip_space_id value_start_skip)
  qed
  then show ?case using w o2 o3 by simp
qed (auto simp: reads_back_def)

text \<open>The same for the indented form, whose separators are runs of white space.\<close>

lemma indent_space: "list_all is_space space \<Longrightarrow> list_all is_space (indent space n)"
  by (auto simp: indent_def list_all_iff)

lemma number_stop_space [simp]: "is_space (peek s) \<Longrightarrow> number_stop s"
  by (auto simp: number_stop_def is_space_def is_digit_def ucode_def)

lemma number_stop_spaces: "list_all is_space w \<Longrightarrow> number_stop s \<Longrightarrow> number_stop (w @ s)"
  by (cases w) (simp_all del: number_stop_space add: number_stop_space)

lemma emit_indented_reads_back:
  "numbers_faithful num fmt render strtod \<Longrightarrow> list_all is_space space \<Longrightarrow> json_ok num v \<Longrightarrow>
     \<exists>out. emit_value_indented fmt render space level v = Inr out \<and> reads_back strtod (json_norm fmt v) out"
  "numbers_faithful num fmt render strtod \<Longrightarrow> list_all is_space space \<Longrightarrow> list_all (json_ok num) es \<Longrightarrow>
     es \<noteq> [] \<Longrightarrow>
     \<exists>out. emit_elements_indented fmt render space level es = Inr (indent space (level + 1) @ out) \<and>
       value_start out \<and> (\<forall>w r. list_all is_space w \<longrightarrow>
          parse_elements strtod (out @ w @ CHR '']'' # r) = Inr (map (json_norm fmt) es, r))"
  "numbers_faithful num fmt render strtod \<Longrightarrow> list_all is_space space \<Longrightarrow> list_all (member_ok num) ms \<Longrightarrow>
     ms \<noteq> [] \<Longrightarrow>
     \<exists>out. emit_members_indented fmt render space level ms = Inr (indent space (level + 1) @ out) \<and>
       value_start out \<and> (\<forall>w r. list_all is_space w \<longrightarrow>
          parse_members strtod (out @ w @ CHR ''}'' # r) = Inr (map (\<lambda>(k, v). (k, json_norm fmt v)) ms, r))"
proof (induction fmt render space level v and fmt render space level es and fmt render space level ms
    rule: emit_value_indented_emit_elements_indented_emit_members_indented.induct)
  case (3 fmt render space level str)
  then show ?case using emitted_string by auto
next
  case (4 fmt render space level n)
  then show ?case using emitted_number by fastforce
next
  case (5 fmt render space level es)
  show ?case
  proof (cases "es = []")
    case True
    then show ?thesis
      by (simp add: reads_back_def parse_value.simps parse_array.simps skip_space_id)
  next
    case False
    from 5 False obtain out where out: "emit_elements_indented fmt render space level es = Inr (indent space (level + 1) @ out)"
      "value_start out" "\<And>w r. list_all is_space w \<Longrightarrow>
          parse_elements strtod (out @ w @ CHR '']'' # r) = Inr (map (json_norm fmt) es, r)" by auto
    let ?w = "CHR 0x0A # indent space (level + 1)" and ?i = "indent space level"
    have "parse_value strtod (CHR ''['' # ?w @ out @ ?i @ CHR '']'' # r) = Inr (json_norm fmt (JArray es), r)" for r
      using parse_bracketed(1) [OF value_start_append [OF out(2)] out(3), of ?i ?w] indent_space "5.prems"(2) by simp
    with out False show ?thesis by (simp add: reads_back_def)
  qed
next
  case (6 fmt render space level ms)
  show ?case
  proof (cases "ms = []")
    case True
    then show ?thesis
      by (simp add: reads_back_def parse_value.simps parse_object.simps skip_space_id)
  next
    case False
    from 6 False obtain out where out: "emit_members_indented fmt render space level ms = Inr (indent space (level + 1) @ out)"
      "value_start out" "\<And>w r. list_all is_space w \<Longrightarrow>
          parse_members strtod (out @ w @ CHR ''}'' # r) = Inr (map (\<lambda>(k, v). (k, json_norm fmt v)) ms, r)" by auto
    let ?w = "CHR 0x0A # indent space (level + 1)" and ?i = "indent space level"
    have "parse_value strtod (CHR ''{'' # ?w @ out @ ?i @ CHR ''}'' # r) = Inr (json_norm fmt (JObject ms), r)" for r
      using parse_bracketed(2) [OF value_start_append [OF out(2)] out(3), of ?i ?w] indent_space "6.prems"(2) by simp
    with out False show ?thesis by (simp add: reads_back_def)
  qed
next
  case (8 fmt render space level e es)
  from "8.prems" have ok: "json_ok num e" "list_all (json_ok num) es" by simp_all
  note i = indent_space [OF "8.prems"(2)]
  from "8.IH"(1) [OF "8.prems"(1,2) ok(1)] obtain out1 where
    o1: "emit_value_indented fmt render space (level + 1) e = Inr out1" "reads_back strtod (json_norm fmt e) out1" by blast
  note st = value_start_append [OF reads_back_start [OF o1(2)]]
  show ?case
  proof (cases "es = []")
    case True
    have "parse_elements strtod (out1 @ CHR 0x0A # w @ CHR '']'' # r) = Inr ([json_norm fmt e], r)"
      if "list_all is_space w" for w r
      by (rule parse_elements_one [OF reads_back_parse [OF o1(2)]])
         (use that in \<open>simp_all add: skip_space_append skip_space_Cons skip_space_id\<close>)
    with True o1 st show ?thesis by simp
  next
    case False
    from "8.IH"(2) [OF o1(1) "8.prems"(1,2) ok(2) False] obtain out2 where
      o2: "emit_elements_indented fmt render space level es = Inr (indent space (level + 1) @ out2)" "value_start out2"
        "\<And>w r. list_all is_space w \<Longrightarrow>
          parse_elements strtod (out2 @ w @ CHR '']'' # r) = Inr (map (json_norm fmt) es, r)" by blast
    have "parse_elements strtod (out1 @ CHR '','' # CHR 0x0A # indent space (level + 1) @ out2 @ w @ CHR '']'' # r)
        = Inr (json_norm fmt e # map (json_norm fmt) es, r)" if "list_all is_space w" for w r
      by (rule parse_elements_more [OF reads_back_parse [OF o1(2)],
             where ?s2.0 = "CHR 0x0A # indent space (level + 1) @ out2 @ w @ CHR '']'' # r"])
         (use that i value_start_append [OF o2(2)] o2(3) in \<open>simp_all add: skip_space_append skip_space_Cons skip_space_id value_start_skip\<close>)
    with False o1 o2 st show ?thesis by simp
  qed
next
  case (10 fmt render space level k v ms)
  from "10.prems" have ok: "printable_string k" "json_ok num v" "list_all (member_ok num) ms" by simp_all
  note i = indent_space [OF "10.prems"(2)]
  from ok(1) obtain kw where kw: "emit_string k = Inr (CHR 0x22 # kw)" "\<And>q. parse_string (CHR 0x22 # kw @ q) = Inr (k, q)"
    by (rule emit_printable) blast
  from "10.IH"(1) [OF kw(1) "10.prems"(1,2) ok(2)] obtain out2 where
    o2: "emit_value_indented fmt render space (level + 1) v = Inr out2" "reads_back strtod (json_norm fmt v) out2" by blast
  note st = value_start_append [OF reads_back_start [OF o2(2)]]
  have sk: "skip_space (CHR '' '' # out2 @ q) = out2 @ q" for q
    by (simp add: skip_space_Cons value_start_skip [OF st])
  show ?case
  proof (cases "ms = []")
    case True
    have "parse_members strtod (CHR 0x22 # kw @ CHR '':'' # CHR '' '' # out2 @ CHR 0x0A # w @ CHR ''}'' # r)
        = Inr ([(k, json_norm fmt v)], r)" if "list_all is_space w" for w r
      by (rule parse_members_one [OF kw(2)], simp add: skip_space_id, unfold sk, rule reads_back_parse [OF o2(2)])
         (use that in \<open>simp_all add: skip_space_append skip_space_Cons skip_space_id\<close>)
    with True kw o2 show ?thesis by simp
  next
    case False
    from "10.IH"(2) [OF kw(1) o2(1) "10.prems"(1,2) ok(3) False] obtain out3 where
      o3: "emit_members_indented fmt render space level ms = Inr (indent space (level + 1) @ out3)" "value_start out3"
        "\<And>w r. list_all is_space w \<Longrightarrow>
          parse_members strtod (out3 @ w @ CHR ''}'' # r) = Inr (map (\<lambda>(k, v). (k, json_norm fmt v)) ms, r)" by blast
    have "parse_members strtod (CHR 0x22 # kw @ CHR '':'' # CHR '' '' # out2 @ CHR '','' # CHR 0x0A #
            indent space (level + 1) @ out3 @ w @ CHR ''}'' # r)
        = Inr ((k, json_norm fmt v) # map (\<lambda>(k, v). (k, json_norm fmt v)) ms, r)" if "list_all is_space w" for w r
      by (rule parse_members_more [OF kw(2),
             where ?s4.0 = "CHR 0x0A # indent space (level + 1) @ out3 @ w @ CHR ''}'' # r"], simp add: skip_space_id, unfold sk, rule reads_back_parse [OF o2(2)])
         (use that i value_start_append [OF o3(2)] o3(3) in \<open>simp_all add: skip_space_append skip_space_Cons skip_space_id value_start_skip\<close>)
    with False kw o2 o3 show ?thesis by simp
  qed
qed (auto simp: reads_back_def)

section \<open>The parser is safe, and independent of the numbers\<close>

fun json_strings_valid :: "'n json \<Rightarrow> bool" where
  "json_strings_valid (JString s) \<longleftrightarrow> utf8_validate s \<and> NUL \<notin> set s"
| "json_strings_valid (JArray es) \<longleftrightarrow> list_all json_strings_valid es"
| "json_strings_valid (JObject ms) \<longleftrightarrow>
     list_all (\<lambda>(k, v). (utf8_validate k \<and> NUL \<notin> set k) \<and> json_strings_valid v) ms"
| "json_strings_valid v \<longleftrightarrow> True"

definition safe :: "('a \<Rightarrow> bool) \<Rightarrow> parse_fail + 'a \<times> string \<Rightarrow> bool" where
  "safe P r \<longleftrightarrow> (case r of Inl e \<Rightarrow> e = ReturnFalse | Inr (v, _) \<Rightarrow> P v)"

lemma safe_simps [simp]: "safe P (Inl e) \<longleftrightarrow> e = ReturnFalse" "safe P (Inr (v, s)) \<longleftrightarrow> P v"
  by (simp_all add: safe_def)

lemma safe_bind:
  assumes "safe P r" and "\<And>v s. r = Inr (v, s) \<Longrightarrow> P v \<Longrightarrow> safe Q (k v s)"
  shows "safe Q (case r of Inl e \<Rightarrow> Inl e | Inr (v, s) \<Rightarrow> k v s)"
  using assms by (auto simp: safe_def split: sum.splits)

lemma parse_literal_safe: "P v \<Longrightarrow> safe P (parse_literal str v s)"
  by (simp add: parse_literal_def split: option.split)

lemma parse_string_strings: "safe (\<lambda>s. utf8_validate s \<and> NUL \<notin> set s) (parse_string s)"
  using parse_string_fail [of s] parse_string_plain [of s] utf8_validate_text plain_text_NUL
  by (auto simp: safe_def split: sum.split)

lemma parse_number_safe: "safe (\<lambda>_. True) (parse_number strtod s)"
  by (auto simp: parse_number_def Let_def split: option.split)

lemma parse_safe:
  "safe json_strings_valid (parse_value (strtod :: string \<Rightarrow> 'n) s1)"
  "safe json_strings_valid (parse_array strtod s2)"
  "safe (list_all json_strings_valid) (parse_elements strtod s3)"
  "safe json_strings_valid (parse_object strtod s4)"
  "safe (list_all (\<lambda>(k, v). (utf8_validate k \<and> NUL \<notin> set k) \<and> json_strings_valid v)) (parse_members strtod s5)"
proof (induction strtod s1 and strtod s2 and strtod s3 and strtod s4 and strtod s5
    rule: parse_value_parse_array_parse_elements_parse_object_parse_members.induct)
  case (1 strtod s)
  have "safe json_strings_valid
      (case parse_string s of Inl e \<Rightarrow> Inl e | Inr (str, s') \<Rightarrow> Inr (JString str :: 'n json, s'))"
    by (rule safe_bind [OF parse_string_strings]) simp
  moreover have "safe json_strings_valid
      (case parse_number strtod s of Inl e \<Rightarrow> Inl e | Inr (num, s') \<Rightarrow> Inr (JNumber num, s'))"
    by (rule safe_bind [OF parse_number_safe]) simp
  ultimately show ?case using 1 by (simp add: parse_value.simps [of strtod s] parse_literal_safe)
next
  case (2 strtod s)
  then show ?case by (auto simp: parse_array.simps [of strtod s] Let_def split: sum.split)
next
  case (3 strtod s)
  then show ?case unfolding parse_elements.simps [of strtod s]
    by (auto simp: safe_def Let_def split: sum.splits if_splits)
next
  case (4 strtod s)
  then show ?case by (auto simp: parse_object.simps [of strtod s] Let_def split: sum.split)
next
  case (5 strtod s)
  then show ?case using parse_string_strings [of s] unfolding parse_members.simps [of strtod s]
    by (auto simp: safe_def Let_def split: sum.splits if_splits)
qed

definition map_res :: "('a \<Rightarrow> 'b) \<Rightarrow> parse_fail + 'a \<times> string \<Rightarrow> parse_fail + 'b \<times> string" where
  "map_res g r = (case r of Inl e \<Rightarrow> Inl e | Inr (v, s) \<Rightarrow> Inr (g v, s))"

lemma map_res_simps [simp]: "map_res g (Inl e) = Inl e" "map_res g (Inr (v, s)) = Inr (g v, s)"
  by (simp_all add: map_res_def)

lemma parse_literal_map: "map_res g (parse_literal str v s) = parse_literal str (g v) s" for g :: "'a json \<Rightarrow> 'b json"
  by (simp add: parse_literal_def split: option.split)

lemma parse_number_map: "parse_number (\<lambda>x. g (strtod x)) s = map_res g (parse_number strtod s)"
  by (simp add: parse_number_def Let_def split: option.split)

lemma parse_map:
  "parse_value (\<lambda>x. g (strtod x)) s1 = map_res (map_json g) (parse_value strtod s1)"
  "parse_array (\<lambda>x. g (strtod x)) s2 = map_res (map_json g) (parse_array strtod s2)"
  "parse_elements (\<lambda>x. g (strtod x)) s3 = map_res (map (map_json g)) (parse_elements strtod s3)"
  "parse_object (\<lambda>x. g (strtod x)) s4 = map_res (map_json g) (parse_object strtod s4)"
  "parse_members (\<lambda>x. g (strtod x)) s5 = map_res (map (\<lambda>(k, v). (k, map_json g v))) (parse_members strtod s5)"
proof (induction strtod s1 and strtod s2 and strtod s3 and strtod s4 and strtod s5
    rule: parse_value_parse_array_parse_elements_parse_object_parse_members.induct)
  case (1 strtod s)
  then show ?case
    unfolding parse_value.simps [of strtod s] parse_value.simps [of "\<lambda>x. g (strtod x)" s]
    by (simp add: parse_literal_map parse_number_map split: sum.split)
next
  case (2 strtod s)
  show ?case unfolding parse_array.simps [of strtod s] parse_array.simps [of "\<lambda>x. g (strtod x)" s] Let_def
    using 2 by (simp split: sum.split)
next
  case (3 strtod s)
  show ?case unfolding parse_elements.simps [of strtod s] parse_elements.simps [of "\<lambda>x. g (strtod x)" s] Let_def "3.IH"(1)
    using "3.IH"(2) by (auto split: sum.split)
next
  case (4 strtod s)
  show ?case unfolding parse_object.simps [of strtod s] parse_object.simps [of "\<lambda>x. g (strtod x)" s] Let_def
    using 4 by (simp add: map_prod_def split: sum.split)
next
  case (5 strtod s)
  show ?case unfolding parse_members.simps [of strtod s] parse_members.simps [of "\<lambda>x. g (strtod x)" s] Let_def
    using 5 by (auto split: sum.split)
qed

lemma json_validate_decode: "json_validate s \<longleftrightarrow> (\<exists>v. json_decode strtod s = Inr v)"
proof -
  have "parse_value (\<lambda>_. ()) t = map_res (map_json (\<lambda>_. ())) (parse_value strtod t)" for t
    using parse_map(1) [of "\<lambda>_. ()" strtod t] .
  then show ?thesis
    by (auto simp: json_validate_def json_decode_def map_res_def split: sum.splits)
qed

lemma json_decode_emitted:
  assumes "reads_back strtod v out"
  shows "json_decode strtod out = Inr v"
  using reads_back_parse [OF assms, of "[]"] value_start_skip [OF reads_back_start [OF assms]]
  by (simp add: json_decode_def skip_space_id)

section \<open>Properties\<close>

text \<open>C3: documents round trip.  Every tree whose strings are valid (and hold no
  byte 0x1F) and whose numbers are rendered faithfully is printed by \<open>emit_value\<close>,
  and \<open>json_decode\<close> of the text returns the tree, with the numbers that
  \<open>%.16g\<close> prints outside the JSON grammar replaced by null.  What \<open>json_validate\<close>
  says of the text agrees.\<close>

theorem json_document_roundtrip:
  assumes "numbers_faithful num fmt render strtod" and "json_ok num v"
  shows "\<exists>out. emit_value fmt render v = Inr out \<and> json_decode strtod out = Inr (json_norm fmt v) \<and>
           json_validate out"
  using emit_reads_back(1) [OF assms] json_decode_emitted json_validate_decode by blast

text \<open>the indented form is another spelling of the same document: whatever white
  space indents it and whatever the level, \<open>emit_value_indented\<close> prints the tree
  and decoding gives it back.\<close>

theorem json_indented_roundtrip:
  assumes "numbers_faithful num fmt render strtod" and "json_ok num v" and "list_all is_space space"
  shows "\<exists>out. emit_value_indented fmt render space level v = Inr out \<and>
           json_decode strtod out = Inr (json_norm fmt v)"
  using emit_indented_reads_back(1) [OF assms(1,3,2)] json_decode_emitted by blast

text \<open>A number format for the witnesses: numbers are the digits, printed and read as one character.\<close>

definition digit_render :: "nat \<Rightarrow> string" where
  "digit_render n = [char_of (48 + n)]"

definition digit_strtod :: "string \<Rightarrow> nat" where
  "digit_strtod s = ucode (peek s) - 48"

lemma digit_numbers: "numbers_faithful (\<lambda>n. n < 10) digit_render digit_render digit_strtod"
proof -
  have "json_number (digit_render n)" if "n < 10" for n
  proof (cases "n = 0")
    case True
    then show ?thesis unfolding json_number_def
      by (intro exI [of _ "[]"] exI [of _ "''0''"]) (simp add: digit_render_def char_of_def bit_0)
  next
    case False
    have "ucode (char_of (48 + n)) = 48 + n" using that by simp
    moreover have z: "ucode CHR ''0'' = 48" "ucode CHR ''9'' = 57" by (simp_all add: ucode_def)
    ultimately have "is_digit (char_of (48 + n))" "char_of (48 + n) \<noteq> CHR ''0''"
      using that False by (simp_all add: is_digit_def char_eq_iff_ucode)
    then show ?thesis unfolding json_number_def
      by (intro exI [of _ "[]"] exI [of _ "digit_render n"]) (simp add: digit_render_def digits_def)
  qed
  then show ?thesis
    by (simp add: numbers_faithful_def number_faithful_def digit_strtod_def digit_render_def)
qed

theorem json_document_roundtrip_witness:
  "\<exists>out. emit_value digit_render digit_render (JArray [JNumber 7, JObject [(''k'', JBool True)]]) = Inr out \<and>
     json_decode digit_strtod out = Inr (JArray [JNumber 7, JObject [(''k'', JBool True)]])"
proof -
  have ok: "json_ok (\<lambda>n::nat. n < 10) (JArray [JNumber 7, JObject [(''k'', JBool True)]])"
    by code_simp
  have n: "json_norm digit_render (JArray [JNumber 7, JObject [(''k'', JBool True)]]) =
      JArray [JNumber 7, JObject [(''k'', JBool True)]]" by code_simp
  show ?thesis using json_document_roundtrip [OF digit_numbers ok] unfolding n by blast
qed

theorem json_indented_roundtrip_witness:
  "\<exists>out. emit_value_indented digit_render digit_render [CHR 0x09] 0 (JArray [JNumber 7, JNull]) = Inr out \<and>
     json_decode digit_strtod out = Inr (JArray [JNumber 7, JNull])"
proof -
  have ok: "json_ok (\<lambda>n::nat. n < 10) (JArray [JNumber 7, JNull])" by code_simp
  have n: "json_norm digit_render (JArray [JNumber 7, JNull]) = JArray [JNumber 7, JNull]" by code_simp
  have sp: "list_all is_space [CHR 0x09]" by code_simp
  show ?thesis using json_indented_roundtrip [OF digit_numbers ok sp, of 0] unfolding n by blast
qed

text \<open>C16: decoding is safe and validation agrees with it.  \<open>json_decode\<close> fails only by
  returning \<open>nullptr\<close>, every string and key of a decoded tree is valid UTF-8
  without an embedded terminator, and \<open>json_validate\<close> accepts exactly the texts
  \<open>json_decode\<close> decodes, whatever \<open>strtod\<close> makes of the numbers.\<close>

theorem json_decode_safe:
  "(case json_decode strtod s of Inl e \<Rightarrow> e = ReturnFalse | Inr v \<Rightarrow> json_strings_valid v) \<and>
   (json_validate s \<longleftrightarrow> (\<exists>v. json_decode strtod s = Inr v))"
proof (rule conjI [OF _ json_validate_decode])
  show "case json_decode strtod s of Inl e \<Rightarrow> e = ReturnFalse | Inr v \<Rightarrow> json_strings_valid v"
    using parse_safe(1) [of strtod "skip_space s"]
    by (auto simp: json_decode_def safe_def split: sum.splits)
qed

end
