(* ===== verification/HttpTypes.thy ===== *)
theory HttpTypes
  imports Prelude
begin

text \<open>
  The types, tables and character classes of \<^verbatim>\<open>suil/http/parser.h\<close> and
  \<^verbatim>\<open>suil/http/parser.cpp\<close>: parser states, error codes, methods, the
  \<open>http_parser\<close> structure, the callback settings, and the URL state machine
  \<open>parse_url_char\<close>.

  Bit fields are natural numbers with the wrap-around of their width written out
  where the code increments them (\<open>index\<close> 8 bits, \<open>nread\<close> 32, \<open>content_length\<close>
  64, \<open>http_major\<close>, \<open>http_minor\<close> and \<open>status_code\<close> 16).  The six \<open>F_*\<close> flag bits are
  six booleans.  A character is compared by its code; the comparisons of the code on
  \<open>char\<close> have the same outcome for the constants used here.  The build uses
  \<open>HTTP_PARSER_STRICT\<close> and \<open>assert\<close>.
\<close>

section \<open>Enumerations\<close>

datatype (plugins only: code size) http_state =
    s_dead | s_start_req_or_res | s_res_or_resp_H | s_start_res | s_res_H | s_res_HT | s_res_HTT
    | s_resHTTP | s_res_firstHTTP_major | s_resHTTP_major | s_res_firstHTTP_minor
    | s_resHTTP_minor | s_res_first_status_code | s_res_status_code | s_res_status_start
    | s_res_status | s_res_line_almost_done | s_start_req | s_req_method
    | s_req_spaces_before_url | s_req_schema | s_req_schema_slash | s_req_schema_slash_slash
    | s_req_server_start | s_req_server | s_req_server_with_at | s_req_path
    | s_req_query_string_start | s_req_query_string | s_req_fragment_start | s_req_fragment
    | s_reqHTTP_start | s_reqHTTP_H | s_reqHTTP_HT | s_reqHTTP_HTT | s_reqHTTPHTTP
    | s_req_firstHTTP_major | s_reqHTTP_major | s_req_firstHTTP_minor | s_reqHTTP_minor
    | s_req_line_almost_done | s_header_field_start | s_header_field | s_header_value_discard_ws
    | s_header_value_discard_ws_almost_done | s_header_value_discard_lws | s_header_value_start
    | s_header_value | s_header_value_lws | s_header_almost_done | s_chunk_size_start
    | s_chunk_size | s_chunk_parameters | s_chunk_size_almost_done | s_headers_almost_done
    | s_headers_done | s_chunk_data | s_chunk_data_almost_done | s_chunk_data_done
    | s_body_identity | s_body_identity_eof | s_message_done

datatype (plugins only: code size) header_state =
    h_general | h_C | h_CO | h_CON | h_matching_connection | h_matching_proxy_connection
    | h_matching_content_length | h_matching_transfer_encoding | h_matching_upgrade
    | h_connection | h_content_length | h_transfer_encoding | h_upgrade
    | h_matching_transfer_encoding_chunked | h_matching_connection_keep_alive
    | h_matching_connection_close | h_transfer_encoding_chunked | h_connection_keep_alive
    | h_connection_close

datatype (plugins only: code size) http_method =
    HTTP_DELETE | HTTP_GET | HTTP_HEAD | HTTP_POST | HTTP_PUT | HTTP_CONNECT | HTTP_OPTIONS
    | HTTP_TRACE | HTTP_COPY | HTTP_LOCK | HTTP_MKCOL | HTTP_MOVE | HTTP_PROPFIND
    | HTTP_PROPPATCH | HTTP_SEARCH | HTTP_UNLOCK | HTTP_REPORT | HTTP_MKACTIVITY | HTTP_CHECKOUT
    | HTTP_MERGE | HTTP_MSEARCH | HTTP_NOTIFY | HTTP_SUBSCRIBE | HTTP_UNSUBSCRIBE | HTTP_PATCH
    | HTTP_PURGE | HTTP_MKCALENDAR

datatype http_parser_type = HTTP_REQUEST | HTTP_RESPONSE | HTTP_BOTH

datatype (plugins only: code size) http_errno =
    HPE_OK | HPE_CB_message_begin | HPE_CB_url | HPE_CB_header_field | HPE_CB_header_value
    | HPE_CB_headers_complete | HPE_CB_body | HPE_CB_message_complete | HPE_CB_status
    | HPE_INVALID_EOF_STATE | HPE_HEADER_OVERFLOW | HPE_CLOSED_CONNECTION | HPE_INVALID_VERSION
    | HPE_INVALID_STATUS | HPE_INVALID_METHOD | HPE_INVALID_URL | HPE_INVALID_HOST
    | HPE_INVALID_PORT | HPE_INVALID_PATH | HPE_INVALID_QUERY_STRING | HPE_INVALID_FRAGMENT
    | HPE_LF_EXPECTED | HPE_INVALID_HEADER_TOKEN | HPE_INVALID_CONTENT_LENGTH
    | HPE_INVALID_CHUNK_SIZE | HPE_INVALID_CONSTANT | HPE_INVALID_INTERNAL_STATE | HPE_STRICT
    | HPE_PAUSED | HPE_UNKNOWN

text \<open>\<open>method_strings\<close>, the table behind \<open>http_method_str\<close> and the method matcher.\<close>

primrec method_string :: "http_method \<Rightarrow> string" where
  "method_string HTTP_DELETE = ''DELETE''"
| "method_string HTTP_GET = ''GET''"
| "method_string HTTP_HEAD = ''HEAD''"
| "method_string HTTP_POST = ''POST''"
| "method_string HTTP_PUT = ''PUT''"
| "method_string HTTP_CONNECT = ''CONNECT''"
| "method_string HTTP_OPTIONS = ''OPTIONS''"
| "method_string HTTP_TRACE = ''TRACE''"
| "method_string HTTP_COPY = ''COPY''"
| "method_string HTTP_LOCK = ''LOCK''"
| "method_string HTTP_MKCOL = ''MKCOL''"
| "method_string HTTP_MOVE = ''MOVE''"
| "method_string HTTP_PROPFIND = ''PROPFIND''"
| "method_string HTTP_PROPPATCH = ''PROPPATCH''"
| "method_string HTTP_SEARCH = ''SEARCH''"
| "method_string HTTP_UNLOCK = ''UNLOCK''"
| "method_string HTTP_REPORT = ''REPORT''"
| "method_string HTTP_MKACTIVITY = ''MKACTIVITY''"
| "method_string HTTP_CHECKOUT = ''CHECKOUT''"
| "method_string HTTP_MERGE = ''MERGE''"
| "method_string HTTP_MSEARCH = ''M-SEARCH''"
| "method_string HTTP_NOTIFY = ''NOTIFY''"
| "method_string HTTP_SUBSCRIBE = ''SUBSCRIBE''"
| "method_string HTTP_UNSUBSCRIBE = ''UNSUBSCRIBE''"
| "method_string HTTP_PATCH = ''PATCH''"
| "method_string HTTP_PURGE = ''PURGE''"
| "method_string HTTP_MKCALENDAR = ''MKCALENDAR''"

text \<open>The numbers the enumeration gives the states; \<open>PARSING_HEADER\<close> compares them.\<close>

primrec state_number :: "http_state \<Rightarrow> nat" where
  "state_number s_dead = 1"
| "state_number s_start_req_or_res = 2"
| "state_number s_res_or_resp_H = 3"
| "state_number s_start_res = 4"
| "state_number s_res_H = 5"
| "state_number s_res_HT = 6"
| "state_number s_res_HTT = 7"
| "state_number s_resHTTP = 8"
| "state_number s_res_firstHTTP_major = 9"
| "state_number s_resHTTP_major = 10"
| "state_number s_res_firstHTTP_minor = 11"
| "state_number s_resHTTP_minor = 12"
| "state_number s_res_first_status_code = 13"
| "state_number s_res_status_code = 14"
| "state_number s_res_status_start = 15"
| "state_number s_res_status = 16"
| "state_number s_res_line_almost_done = 17"
| "state_number s_start_req = 18"
| "state_number s_req_method = 19"
| "state_number s_req_spaces_before_url = 20"
| "state_number s_req_schema = 21"
| "state_number s_req_schema_slash = 22"
| "state_number s_req_schema_slash_slash = 23"
| "state_number s_req_server_start = 24"
| "state_number s_req_server = 25"
| "state_number s_req_server_with_at = 26"
| "state_number s_req_path = 27"
| "state_number s_req_query_string_start = 28"
| "state_number s_req_query_string = 29"
| "state_number s_req_fragment_start = 30"
| "state_number s_req_fragment = 31"
| "state_number s_reqHTTP_start = 32"
| "state_number s_reqHTTP_H = 33"
| "state_number s_reqHTTP_HT = 34"
| "state_number s_reqHTTP_HTT = 35"
| "state_number s_reqHTTPHTTP = 36"
| "state_number s_req_firstHTTP_major = 37"
| "state_number s_reqHTTP_major = 38"
| "state_number s_req_firstHTTP_minor = 39"
| "state_number s_reqHTTP_minor = 40"
| "state_number s_req_line_almost_done = 41"
| "state_number s_header_field_start = 42"
| "state_number s_header_field = 43"
| "state_number s_header_value_discard_ws = 44"
| "state_number s_header_value_discard_ws_almost_done = 45"
| "state_number s_header_value_discard_lws = 46"
| "state_number s_header_value_start = 47"
| "state_number s_header_value = 48"
| "state_number s_header_value_lws = 49"
| "state_number s_header_almost_done = 50"
| "state_number s_chunk_size_start = 51"
| "state_number s_chunk_size = 52"
| "state_number s_chunk_parameters = 53"
| "state_number s_chunk_size_almost_done = 54"
| "state_number s_headers_almost_done = 55"
| "state_number s_headers_done = 56"
| "state_number s_chunk_data = 57"
| "state_number s_chunk_data_almost_done = 58"
| "state_number s_chunk_data_done = 59"
| "state_number s_body_identity = 60"
| "state_number s_body_identity_eof = 61"
| "state_number s_message_done = 62"

instantiation http_state :: ord
begin

definition less_eq_http_state :: "http_state \<Rightarrow> http_state \<Rightarrow> bool" where
  "less_eq_http_state s t \<longleftrightarrow> state_number s \<le> state_number t"

definition less_http_state :: "http_state \<Rightarrow> http_state \<Rightarrow> bool" where
  "less_http_state s t \<longleftrightarrow> state_number s < state_number t"

instance ..

end

definition PARSING_HEADER :: "http_state \<Rightarrow> bool" where
  "PARSING_HEADER s \<longleftrightarrow> s \<le> s_headers_done"

section \<open>The parser structure and the callbacks\<close>

record http_flags =
  F_CHUNKED :: bool
  F_CONNECTION_KEEP_ALIVE :: bool
  F_CONNECTION_CLOSE :: bool
  F_TRAILING :: bool
  F_UPGRADE :: bool
  F_SKIPBODY :: bool

definition no_flags :: http_flags where
  "no_flags = \<lparr>F_CHUNKED = False, F_CONNECTION_KEEP_ALIVE = False, F_CONNECTION_CLOSE = False,
     F_TRAILING = False, F_UPGRADE = False, F_SKIPBODY = False\<rparr>"

record 'a http_parser =
  parser_type :: http_parser_type
  flags :: http_flags
  state :: http_state
  header_state :: header_state
  index :: nat
  nread :: nat
  content_length :: nat
  http_major :: nat
  http_minor :: nat
  status_code :: nat
  "method" :: http_method
  errno :: http_errno
  upgrade :: bool
  user :: 'a                \<comment> \<open>what \<open>data\<close>, or the derived object, holds\<close>

text \<open>A callback may change the structure it is given; the number is what it returns.
  The pair \<open>at\<close>, \<open>length\<close> of a data callback is the bytes it points to.\<close>

type_synonym 'a http_cb = "'a http_parser \<Rightarrow> int \<times> 'a http_parser"
type_synonym 'a http_data_cb = "string \<Rightarrow> 'a http_parser \<Rightarrow> int \<times> 'a http_parser"

record 'a http_parser_settings =
  on_message_begin :: "'a http_cb option"
  on_url :: "'a http_data_cb option"
  on_status :: "'a http_data_cb option"
  on_header_field :: "'a http_data_cb option"
  on_header_value :: "'a http_data_cb option"
  on_headers_complete :: "'a http_cb option"
  on_body :: "'a http_data_cb option"
  on_message_complete :: "'a http_cb option"

definition ULLONG_MAX :: nat where
  "ULLONG_MAX = 2 ^ 64 - 1"

definition HTTP_MAX_HEADER_SIZE :: nat where
  "HTTP_MAX_HEADER_SIZE = 80 * 1024"

text \<open>\<open>http_parser_init\<close>: \<open>memset\<close> to zero, keeping the user data.  The zero of
  \<open>header_state\<close> is \<open>h_general\<close>.\<close>

definition http_parser_init :: "http_parser_type \<Rightarrow> 'a \<Rightarrow> 'a http_parser" where
  "http_parser_init t d =
     \<lparr>parser_type = t, flags = no_flags,
      state = (if t = HTTP_REQUEST then s_start_req
               else if t = HTTP_RESPONSE then s_start_res else s_start_req_or_res),
      header_state = h_general, index = 0, nread = 0, content_length = 0,
      http_major = 0, http_minor = 0, status_code = 0, method = HTTP_GET,
      errno = HPE_OK, upgrade = False, user = d\<rparr>"

section \<open>Character classes\<close>

abbreviation CR :: char where "CR \<equiv> CHR 0x0D"
abbreviation LF :: char where "LF \<equiv> CHR 0x0A"
abbreviation SP :: char where "SP \<equiv> CHR '' ''"
abbreviation HT :: char where "HT \<equiv> CHR 0x09"

text \<open>\<open>(unsigned char) (c | 0x20)\<close>\<close>

definition LOWER :: "char \<Rightarrow> char" where
  "LOWER c = char_of (ucode c OR 0x20)"

definition IS_ALPHA :: "char \<Rightarrow> bool" where
  "IS_ALPHA c \<longleftrightarrow> between CHR ''a'' (LOWER c) CHR ''z''"

definition IS_NUM :: "char \<Rightarrow> bool" where
  "IS_NUM c \<longleftrightarrow> between CHR ''0'' c CHR ''9''"

definition IS_ALPHANUM :: "char \<Rightarrow> bool" where
  "IS_ALPHANUM c \<longleftrightarrow> IS_ALPHA c \<or> IS_NUM c"

definition IS_HEX :: "char \<Rightarrow> bool" where
  "IS_HEX c \<longleftrightarrow> IS_NUM c \<or> between CHR ''a'' (LOWER c) CHR ''f''"

definition IS_MARK :: "char \<Rightarrow> bool" where
  "IS_MARK c \<longleftrightarrow> c \<in> set [CHR ''-'', CHR ''_'', CHR ''.'', CHR ''!'', CHR ''~'', CHR ''*'', CHR 0x27,
     CHR ''('', CHR '')'']"

definition IS_USERINFO_CHAR :: "char \<Rightarrow> bool" where
  "IS_USERINFO_CHAR c \<longleftrightarrow> IS_ALPHANUM c \<or> IS_MARK c \<or>
     c \<in> set [CHR ''%'', CHR '';'', CHR '':'', CHR ''&'', CHR ''='', CHR ''+'', CHR ''$'', CHR '','']"

definition IS_HOST_CHAR :: "char \<Rightarrow> bool" where
  "IS_HOST_CHAR c \<longleftrightarrow> IS_ALPHANUM c \<or> c = CHR ''.'' \<or> c = CHR ''-''"

text \<open>The bytes of \<open>normal_url_char\<close>; the entries it does not list are zero.\<close>

definition normal_url_char :: "nat list" where
  "normal_url_char =
     [0, 0, 0, 0,
      0+2+4+0+16+32+64+128, 1+2+4+8+16+32+64+128, 1+2+4+8+16+32+64+128, 1+2+4+8+16+32+64+0,
      1+2+4+8+16+32+64+128, 1+2+4+8+16+32+64+128, 1+2+4+8+16+32+64+128, 1+2+4+8+16+32+64+128,
      1+2+4+8+16+32+64+128, 1+2+4+8+16+32+64+128, 1+2+4+8+16+32+64+128, 1+2+4+8+16+32+64+0]
     @ replicate 16 0"

definition BIT_AT :: "nat list \<Rightarrow> nat \<Rightarrow> bool" where
  "BIT_AT a i \<longleftrightarrow> odd (a ! (i div 8) div 2 ^ (i mod 8))"

definition IS_URL_CHAR :: "char \<Rightarrow> bool" where
  "IS_URL_CHAR c \<longleftrightarrow> BIT_AT normal_url_char (ucode c)"

text \<open>\<open>tokens\<close>: the lower-cased token characters, 0 for the others.\<close>

definition tokens :: string where
  "tokens = replicate 33 NUL @ ''!'' @ [NUL] @ ''#$%&'' @ [CHR 0x27] @ replicate 2 NUL @
     ''*+'' @ [NUL] @ ''-.'' @ [NUL] @ ''0123456789'' @ replicate 7 NUL @
     ''abcdefghijklmnopqrstuvwxyz'' @ replicate 3 NUL @ ''^_'' @ [CHR 0x60] @
     ''abcdefghijklmnopqrstuvwxyz'' @ [NUL] @ ''|'' @ [NUL] @ ''~'' @ [NUL] @ replicate 128 NUL"

definition TOKEN :: "char \<Rightarrow> char" where
  "TOKEN c = tokens ! ucode c"

text \<open>\<open>unhex\<close> has 256 entries and 128 initialisers: the entries for the bytes from
  0x80 on are zero, not -1.\<close>

definition unhex :: "int list" where
  "unhex =
     [-1, -1, -1, -1, -1, -1, -1, -1, -1, -1, -1, -1, -1, -1, -1, -1,
      -1, -1, -1, -1, -1, -1, -1, -1, -1, -1, -1, -1, -1, -1, -1, -1,
      -1, -1, -1, -1, -1, -1, -1, -1, -1, -1, -1, -1, -1, -1, -1, -1,
      0, 1, 2, 3, 4, 5, 6, 7, 8, 9, -1, -1, -1, -1, -1, -1,
      -1, 10, 11, 12, 13, 14, 15, -1, -1, -1, -1, -1, -1, -1, -1, -1,
      -1, -1, -1, -1, -1, -1, -1, -1, -1, -1, -1, -1, -1, -1, -1, -1,
      -1, 10, 11, 12, 13, 14, 15, -1, -1, -1, -1, -1, -1, -1, -1, -1,
      -1, -1, -1, -1, -1, -1, -1, -1, -1, -1, -1, -1, -1, -1, -1, -1]
     @ replicate 128 0"

section \<open>The URL state machine\<close>

text \<open>The cases \<open>s_req_server_start\<close>, \<open>s_req_server\<close> and the end of \<open>s_req_server_with_at\<close>.\<close>

definition parse_url_server :: "char \<Rightarrow> http_state" where
  "parse_url_server ch =
     (if ch = CHR ''/'' then s_req_path
      else if ch = CHR ''?'' then s_req_query_string_start
      else if ch = CHR ''@'' then s_req_server_with_at
      else if IS_USERINFO_CHAR ch \<or> ch = CHR ''['' \<or> ch = CHR '']'' then s_req_server
      else s_dead)"

text \<open>The cases \<open>s_req_query_string_start\<close> and \<open>s_req_query_string\<close>.\<close>

definition parse_url_query :: "char \<Rightarrow> http_state" where
  "parse_url_query ch =
     (if IS_URL_CHAR ch then s_req_query_string
      else if ch = CHR ''?'' then s_req_query_string
      else if ch = CHR ''#'' then s_req_fragment_start else s_dead)"

definition parse_url_char :: "http_state \<Rightarrow> char \<Rightarrow> http_state" where
  "parse_url_char s ch =
     (if ch = SP \<or> ch = CR \<or> ch = LF then s_dead
      else if ch = HT \<or> ch = CHR 0x0C then s_dead
      else case s of
        s_req_spaces_before_url \<Rightarrow>
          if ch = CHR ''/'' \<or> ch = CHR ''*'' then s_req_path
          else if IS_ALPHA ch then s_req_schema else s_dead
      | s_req_schema \<Rightarrow>
          if IS_ALPHA ch then s else if ch = CHR '':'' then s_req_schema_slash else s_dead
      | s_req_schema_slash \<Rightarrow> if ch = CHR ''/'' then s_req_schema_slash_slash else s_dead
      | s_req_schema_slash_slash \<Rightarrow> if ch = CHR ''/'' then s_req_server_start else s_dead
      | s_req_server_with_at \<Rightarrow> if ch = CHR ''@'' then s_dead else parse_url_server ch
      | s_req_server_start \<Rightarrow> parse_url_server ch
      | s_req_server \<Rightarrow> parse_url_server ch
      | s_req_path \<Rightarrow>
          if IS_URL_CHAR ch then s
          else if ch = CHR ''?'' then s_req_query_string_start
          else if ch = CHR ''#'' then s_req_fragment_start else s_dead
      | s_req_query_string_start \<Rightarrow> parse_url_query ch
      | s_req_query_string \<Rightarrow> parse_url_query ch
      | s_req_fragment_start \<Rightarrow>
          if IS_URL_CHAR ch then s_req_fragment
          else if ch = CHR ''?'' then s_req_fragment
          else if ch = CHR ''#'' then s else s_dead
      | s_req_fragment \<Rightarrow>
          if IS_URL_CHAR ch then s
          else if ch = CHR ''?'' \<or> ch = CHR ''#'' then s else s_dead
      | _ \<Rightarrow> s_dead)"

end
