(* ===== verification/HttpSteps.thy ===== *)
theory HttpSteps
  imports HttpTypes
begin

text \<open>
  The body of the byte loop of \<open>http_parser_execute\<close> (\<^verbatim>\<open>suil/http/parser.cpp\<close>): one
  definition per parser state, or per group of states that share a \<open>case\<close>.

  A handler gets the byte \<open>ch\<close> and the context: the parser structure, the five
  local marks as offsets into the buffer, and the offset \<open>pos\<close> of \<open>p\<close>.  It ends
  the way the \<open>case\<close> does: \<open>Next\<close> is \<open>break\<close>, \<open>Reexec\<close> is \<open>goto reexecute_byte\<close>,
  \<open>Return\<close> a \<open>return\<close> from the function, \<open>Error\<close> is \<open>goto error\<close>, and \<open>Abort\<close> a failed
  assertion.  The callback macros take the rest of the \<open>case\<close> as a continuation.
\<close>

section \<open>Context, outcomes and the callback macros\<close>

datatype mark_kind = M_header_field | M_header_value | M_url | M_body | M_status

record 'a ctx =
  parser :: "'a http_parser"
  mark :: "mark_kind \<Rightarrow> nat option"
  pos :: nat

record 'a env =
  settings :: "'a http_parser_settings"
  buf :: string

datatype 'a step =
    Next "'a ctx"
  | Reexec "'a ctx"
  | Return "'a http_parser" nat
  | Error "'a ctx"
  | Abort

definition upd :: "('a http_parser \<Rightarrow> 'a http_parser) \<Rightarrow> 'a ctx \<Rightarrow> 'a ctx" where
  "upd f c = c\<lparr>parser := f (parser c)\<rparr>"

abbreviation set_state :: "http_state \<Rightarrow> 'a ctx \<Rightarrow> 'a ctx" where
  "set_state s \<equiv> upd (\<lambda>p. p\<lparr>state := s\<rparr>)"

abbreviation set_header_state :: "header_state \<Rightarrow> 'a ctx \<Rightarrow> 'a ctx" where
  "set_header_state h \<equiv> upd (\<lambda>p. p\<lparr>header_state := h\<rparr>)"

text \<open>\<open>_SET_ERRNO(e); goto error\<close>\<close>

definition fail :: "http_errno \<Rightarrow> 'a ctx \<Rightarrow> 'a step" where
  "fail e c = Error (upd (\<lambda>p. p\<lparr>errno := e\<rparr>) c)"

definition STRICT_CHECK :: "bool \<Rightarrow> 'a ctx \<Rightarrow> 'a step \<Rightarrow> 'a step" where
  "STRICT_CHECK cond c k = (if cond then fail HPE_STRICT c else k)"

definition assertion :: "bool \<Rightarrow> 'a step \<Rightarrow> 'a step" where
  "assertion cond k = (if cond then k else Abort)"

text \<open>\<open>_CALLBACK_NOTIFY_(FOR, ER)\<close>, with the callback, its error code and \<open>ER\<close>.\<close>

definition CALLBACK_NOTIFY_AT ::
    "'a http_cb option \<Rightarrow> http_errno \<Rightarrow> nat \<Rightarrow> 'a ctx \<Rightarrow> ('a ctx \<Rightarrow> 'a step) \<Rightarrow> 'a step" where
  "CALLBACK_NOTIFY_AT cb err er c k =
     assertion (errno (parser c) = HPE_OK)
       (case cb of
          None \<Rightarrow> k c
        | Some f \<Rightarrow>
            (let (r, p) = f (parser c);
                 p' = (if r \<noteq> 0 then p\<lparr>errno := err\<rparr> else p)
             in if errno p' \<noteq> HPE_OK then Return p' er else k (c\<lparr>parser := p'\<rparr>)))"

definition CALLBACK_NOTIFY ::
    "'a http_cb option \<Rightarrow> http_errno \<Rightarrow> 'a ctx \<Rightarrow> ('a ctx \<Rightarrow> 'a step) \<Rightarrow> 'a step" where
  "CALLBACK_NOTIFY cb err c k = CALLBACK_NOTIFY_AT cb err (pos c + 1) c k"

fun data_callback :: "'a http_parser_settings \<Rightarrow> mark_kind \<Rightarrow> 'a http_data_cb option" where
  "data_callback s M_header_field = on_header_field s"
| "data_callback s M_header_value = on_header_value s"
| "data_callback s M_url = on_url s"
| "data_callback s M_body = on_body s"
| "data_callback s M_status = on_status s"

fun data_errno :: "mark_kind \<Rightarrow> http_errno" where
  "data_errno M_header_field = HPE_CB_header_field"
| "data_errno M_header_value = HPE_CB_header_value"
| "data_errno M_url = HPE_CB_url"
| "data_errno M_body = HPE_CB_body"
| "data_errno M_status = HPE_CB_status"

text \<open>\<open>_CALLBACK_DATA_(FOR, LEN, ER)\<close>: \<open>LEN\<close> is given as a function of the mark.\<close>

definition CALLBACK_DATA_AT ::
    "'a env \<Rightarrow> mark_kind \<Rightarrow> (nat \<Rightarrow> nat) \<Rightarrow> nat \<Rightarrow> 'a ctx \<Rightarrow> ('a ctx \<Rightarrow> 'a step) \<Rightarrow> 'a step" where
  "CALLBACK_DATA_AT E kind len er c k =
     assertion (errno (parser c) = HPE_OK)
       (case mark c kind of
          None \<Rightarrow> k c
        | Some m \<Rightarrow>
            (case data_callback (settings E) kind of
               None \<Rightarrow> k (c\<lparr>mark := (mark c)(kind := None)\<rparr>)
             | Some f \<Rightarrow>
                 (let (r, p) = f (take (len m) (drop m (buf E))) (parser c);
                      p' = (if r \<noteq> 0 then p\<lparr>errno := data_errno kind\<rparr> else p)
                  in if errno p' \<noteq> HPE_OK then Return p' er
                     else k (c\<lparr>parser := p', mark := (mark c)(kind := None)\<rparr>))))"

definition CALLBACK_DATA ::
    "'a env \<Rightarrow> mark_kind \<Rightarrow> 'a ctx \<Rightarrow> ('a ctx \<Rightarrow> 'a step) \<Rightarrow> 'a step" where
  "CALLBACK_DATA E kind c k = CALLBACK_DATA_AT E kind (\<lambda>m. pos c - m) (pos c + 1) c k"

definition CALLBACK_DATA_NOADVANCE ::
    "'a env \<Rightarrow> mark_kind \<Rightarrow> 'a ctx \<Rightarrow> ('a ctx \<Rightarrow> 'a step) \<Rightarrow> 'a step" where
  "CALLBACK_DATA_NOADVANCE E kind c k = CALLBACK_DATA_AT E kind (\<lambda>m. pos c - m) (pos c) c k"

definition MARK :: "mark_kind \<Rightarrow> 'a ctx \<Rightarrow> 'a ctx" where
  "MARK kind c =
     (if mark c kind = None then c\<lparr>mark := (mark c)(kind := Some (pos c))\<rparr> else c)"

section \<open>Keep-alive and the end of a message\<close>

definition http_message_needs_eof :: "'a http_parser \<Rightarrow> bool" where
  "http_message_needs_eof p =
     (if parser_type p = HTTP_REQUEST then False
      else if status_code p div 100 = 1 \<or> status_code p = 204 \<or> status_code p = 304 \<or> F_SKIPBODY (flags p)
      then False
      else if F_CHUNKED (flags p) \<or> content_length p \<noteq> ULLONG_MAX then False
      else True)"

definition http_should_keep_alive :: "'a http_parser \<Rightarrow> bool" where
  "http_should_keep_alive p =
     (if http_major p > 0 \<and> http_minor p > 0 then
        (if F_CONNECTION_CLOSE (flags p) then False else \<not> http_message_needs_eof p)
      else
        (if \<not> F_CONNECTION_KEEP_ALIVE (flags p) then False else \<not> http_message_needs_eof p))"

definition start_state :: "'a http_parser \<Rightarrow> http_state" where
  "start_state p = (if parser_type p = HTTP_REQUEST then s_start_req else s_start_res)"

definition NEW_MESSAGE :: "'a http_parser \<Rightarrow> http_state" where
  "NEW_MESSAGE p = (if http_should_keep_alive p then start_state p else s_dead)"

definition new_message :: "'a ctx \<Rightarrow> 'a ctx" where
  "new_message = upd (\<lambda>p. p\<lparr>state := NEW_MESSAGE p\<rparr>)"

abbreviation message_complete :: "'a env \<Rightarrow> 'a ctx \<Rightarrow> ('a ctx \<Rightarrow> 'a step) \<Rightarrow> 'a step" where
  "message_complete E \<equiv> CALLBACK_NOTIFY (on_message_complete (settings E)) HPE_CB_message_complete"

abbreviation message_begin :: "'a env \<Rightarrow> 'a ctx \<Rightarrow> ('a ctx \<Rightarrow> 'a step) \<Rightarrow> 'a step" where
  "message_begin E \<equiv> CALLBACK_NOTIFY (on_message_begin (settings E)) HPE_CB_message_begin"

text \<open>\<open>parser->flags = 0; parser->content_length = _ULLONG_MAX\<close>\<close>

abbreviation reset_message :: "'a ctx \<Rightarrow> 'a ctx" where
  "reset_message \<equiv> upd (\<lambda>p. p\<lparr>flags := no_flags, content_length := ULLONG_MAX\<rparr>)"

definition digit :: "char \<Rightarrow> nat" where
  "digit ch = ucode ch - ucode CHR ''0''"

text \<open>\<open>x *= 10; x += ch - '0'\<close> on 16 bits\<close>

definition push_digit16 :: "nat \<Rightarrow> char \<Rightarrow> nat" where
  "push_digit16 x ch = (x * 10 mod 2 ^ 16 + digit ch) mod 2 ^ 16"

section \<open>Start of a message and the status line\<close>

definition do_s_dead :: "char \<Rightarrow> 'a ctx \<Rightarrow> 'a step" where
  "do_s_dead ch c = (if ch = CR \<or> ch = LF then Next c else fail HPE_CLOSED_CONNECTION c)"

definition do_s_start_req_or_res :: "'a env \<Rightarrow> char \<Rightarrow> 'a ctx \<Rightarrow> 'a step" where
  "do_s_start_req_or_res E ch c =
     (if ch = CR \<or> ch = LF then Next c
      else let c1 = reset_message c in
        if ch = CHR ''H'' then message_begin E (set_state s_res_or_resp_H c1) Next
        else Reexec (set_state s_start_req (upd (\<lambda>p. p\<lparr>parser_type := HTTP_REQUEST\<rparr>) c1)))"

definition do_s_res_or_resp_H :: "char \<Rightarrow> 'a ctx \<Rightarrow> 'a step" where
  "do_s_res_or_resp_H ch c =
     (if ch = CHR ''T'' then
        Next (set_state s_res_HT (upd (\<lambda>p. p\<lparr>parser_type := HTTP_RESPONSE\<rparr>) c))
      else if ch \<noteq> CHR ''E'' then fail HPE_INVALID_CONSTANT c
      else Next (upd (\<lambda>p. p\<lparr>parser_type := HTTP_REQUEST, method := HTTP_HEAD, index := 2,
                          state := s_req_method\<rparr>) c))"

definition do_s_start_res :: "'a env \<Rightarrow> char \<Rightarrow> 'a ctx \<Rightarrow> 'a step" where
  "do_s_start_res E ch c =
     (let c1 = reset_message c in
      if ch = CHR ''H'' then message_begin E (set_state s_res_H c1) Next
      else if ch = CR \<or> ch = LF then message_begin E c1 Next
      else fail HPE_INVALID_CONSTANT c1)"

definition do_s_res_H :: "char \<Rightarrow> 'a ctx \<Rightarrow> 'a step" where
  "do_s_res_H ch c = STRICT_CHECK (ch \<noteq> CHR ''T'') c (Next (set_state s_res_HT c))"

definition do_s_res_HT :: "char \<Rightarrow> 'a ctx \<Rightarrow> 'a step" where
  "do_s_res_HT ch c = STRICT_CHECK (ch \<noteq> CHR ''T'') c (Next (set_state s_res_HTT c))"

definition do_s_res_HTT :: "char \<Rightarrow> 'a ctx \<Rightarrow> 'a step" where
  "do_s_res_HTT ch c = STRICT_CHECK (ch \<noteq> CHR ''P'') c (Next (set_state s_resHTTP c))"

definition do_s_resHTTP :: "char \<Rightarrow> 'a ctx \<Rightarrow> 'a step" where
  "do_s_resHTTP ch c = STRICT_CHECK (ch \<noteq> CHR ''/'') c (Next (set_state s_res_firstHTTP_major c))"

definition do_s_res_firstHTTP_major :: "char \<Rightarrow> 'a ctx \<Rightarrow> 'a step" where
  "do_s_res_firstHTTP_major ch c =
     (if \<not> between CHR ''0'' ch CHR ''9'' then fail HPE_INVALID_VERSION c
      else Next (upd (\<lambda>p. p\<lparr>http_major := digit ch, state := s_resHTTP_major\<rparr>) c))"

definition do_s_resHTTP_major :: "char \<Rightarrow> 'a ctx \<Rightarrow> 'a step" where
  "do_s_resHTTP_major ch c =
     (if ch = CHR ''.'' then Next (set_state s_res_firstHTTP_minor c)
      else if \<not> IS_NUM ch then fail HPE_INVALID_VERSION c
      else let c1 = upd (\<lambda>p. p\<lparr>http_major := push_digit16 (http_major p) ch\<rparr>) c in
        if http_major (parser c1) > 999 then fail HPE_INVALID_VERSION c1 else Next c1)"

definition do_s_res_firstHTTP_minor :: "char \<Rightarrow> 'a ctx \<Rightarrow> 'a step" where
  "do_s_res_firstHTTP_minor ch c =
     (if \<not> IS_NUM ch then fail HPE_INVALID_VERSION c
      else Next (upd (\<lambda>p. p\<lparr>http_minor := digit ch, state := s_resHTTP_minor\<rparr>) c))"

definition do_s_resHTTP_minor :: "char \<Rightarrow> 'a ctx \<Rightarrow> 'a step" where
  "do_s_resHTTP_minor ch c =
     (if ch = SP then Next (set_state s_res_first_status_code c)
      else if \<not> IS_NUM ch then fail HPE_INVALID_VERSION c
      else let c1 = upd (\<lambda>p. p\<lparr>http_minor := push_digit16 (http_minor p) ch\<rparr>) c in
        if http_minor (parser c1) > 999 then fail HPE_INVALID_VERSION c1 else Next c1)"

definition do_s_res_first_status_code :: "char \<Rightarrow> 'a ctx \<Rightarrow> 'a step" where
  "do_s_res_first_status_code ch c =
     (if \<not> IS_NUM ch then (if ch = SP then Next c else fail HPE_INVALID_STATUS c)
      else Next (upd (\<lambda>p. p\<lparr>status_code := digit ch, state := s_res_status_code\<rparr>) c))"

definition do_s_res_status_code :: "char \<Rightarrow> 'a ctx \<Rightarrow> 'a step" where
  "do_s_res_status_code ch c =
     (if \<not> IS_NUM ch then
        (if ch = SP then Next (set_state s_res_status_start c)
         else if ch = CR then Next (set_state s_res_line_almost_done c)
         else if ch = LF then Next (set_state s_header_field_start c)
         else fail HPE_INVALID_STATUS c)
      else let c1 = upd (\<lambda>p. p\<lparr>status_code := push_digit16 (status_code p) ch\<rparr>) c in
        if status_code (parser c1) > 999 then fail HPE_INVALID_STATUS c1 else Next c1)"

definition do_s_res_status_start :: "char \<Rightarrow> 'a ctx \<Rightarrow> 'a step" where
  "do_s_res_status_start ch c =
     (if ch = CR then Next (set_state s_res_line_almost_done c)
      else if ch = LF then Next (set_state s_header_field_start c)
      else Next (upd (\<lambda>p. p\<lparr>state := s_res_status, index := 0\<rparr>) (MARK M_status c)))"

definition do_s_res_status :: "'a env \<Rightarrow> char \<Rightarrow> 'a ctx \<Rightarrow> 'a step" where
  "do_s_res_status E ch c =
     (if ch = CR then CALLBACK_DATA E M_status (set_state s_res_line_almost_done c) Next
      else if ch = LF then CALLBACK_DATA E M_status (set_state s_header_field_start c) Next
      else Next c)"

definition do_s_res_line_almost_done :: "char \<Rightarrow> 'a ctx \<Rightarrow> 'a step" where
  "do_s_res_line_almost_done ch c =
     STRICT_CHECK (ch \<noteq> LF) c (Next (set_state s_header_field_start c))"

section \<open>The request line\<close>

text \<open>The \<open>switch (ch)\<close> that guesses the method from its first letter.\<close>

definition first_method :: "char \<Rightarrow> http_method option" where
  "first_method ch =
     (if ch = CHR ''C'' then Some HTTP_CONNECT
      else if ch = CHR ''D'' then Some HTTP_DELETE
      else if ch = CHR ''G'' then Some HTTP_GET
      else if ch = CHR ''H'' then Some HTTP_HEAD
      else if ch = CHR ''L'' then Some HTTP_LOCK
      else if ch = CHR ''M'' then Some HTTP_MKCOL
      else if ch = CHR ''N'' then Some HTTP_NOTIFY
      else if ch = CHR ''O'' then Some HTTP_OPTIONS
      else if ch = CHR ''P'' then Some HTTP_POST
      else if ch = CHR ''R'' then Some HTTP_REPORT
      else if ch = CHR ''S'' then Some HTTP_SUBSCRIBE
      else if ch = CHR ''T'' then Some HTTP_TRACE
      else if ch = CHR ''U'' then Some HTTP_UNLOCK
      else None)"

definition do_s_start_req :: "'a env \<Rightarrow> char \<Rightarrow> 'a ctx \<Rightarrow> 'a step" where
  "do_s_start_req E ch c =
     (if ch = CR \<or> ch = LF then Next c
      else let c1 = reset_message c in
        if \<not> IS_ALPHA ch then fail HPE_INVALID_METHOD c1
        else let c2 = upd (\<lambda>p. p\<lparr>method := HTTP_DELETE, index := 1\<rparr>) c1 in
          case first_method ch of
            None \<Rightarrow> fail HPE_INVALID_METHOD c2
          | Some m \<Rightarrow> message_begin E (upd (\<lambda>p. p\<lparr>method := m, state := s_req_method\<rparr>) c2) Next)"

text \<open>The chain of \<open>else if\<close> on a byte the current method does not have at \<open>index\<close>:
  the method to continue with.\<close>

definition switch_method :: "http_method \<Rightarrow> nat \<Rightarrow> char \<Rightarrow> http_method option" where
  "switch_method m i ch =
     (if m = HTTP_CONNECT then
        (if i = 1 \<and> ch = CHR ''H'' then Some HTTP_CHECKOUT
         else if i = 2 \<and> ch = CHR ''P'' then Some HTTP_COPY
         else None)
      else if m = HTTP_MKCOL then
        (if i = 1 \<and> ch = CHR ''O'' then Some HTTP_MOVE
         else if i = 1 \<and> ch = CHR ''E'' then Some HTTP_MERGE
         else if i = 1 \<and> ch = CHR ''-'' then Some HTTP_MSEARCH
         else if i = 2 \<and> ch = CHR ''A'' then Some HTTP_MKACTIVITY
         else if i = 3 \<and> ch = CHR ''A'' then Some HTTP_MKCALENDAR
         else None)
      else if m = HTTP_SUBSCRIBE then
        (if i = 1 \<and> ch = CHR ''E'' then Some HTTP_SEARCH else None)
      else if i = 1 \<and> m = HTTP_POST then
        (if ch = CHR ''R'' then Some HTTP_PROPFIND
         else if ch = CHR ''U'' then Some HTTP_PUT
         else if ch = CHR ''A'' then Some HTTP_PATCH
         else None)
      else if i = 2 then
        (if m = HTTP_PUT then (if ch = CHR ''R'' then Some HTTP_PURGE else None)
         else if m = HTTP_UNLOCK then (if ch = CHR ''S'' then Some HTTP_UNSUBSCRIBE else None)
         else None)
      else if i = 4 \<and> m = HTTP_PROPFIND \<and> ch = CHR ''P'' then Some HTTP_PROPPATCH
      else None)"

text \<open>\<open>matcher[index]\<close>: the terminator is part of the string, a read behind it is not allowed.\<close>

definition c_string_at :: "string \<Rightarrow> nat \<Rightarrow> char option" where
  "c_string_at s i =
     (if i < length s then Some (s ! i) else if i = length s then Some NUL else None)"

definition do_s_req_method :: "char \<Rightarrow> 'a ctx \<Rightarrow> 'a step" where
  "do_s_req_method ch c =
     (if ch = NUL then fail HPE_INVALID_METHOD c
      else let p = parser c; next = upd (\<lambda>p. p\<lparr>index := (index p + 1) mod 256\<rparr>) in
        case c_string_at (method_string (method p)) (index p) of
          None \<Rightarrow> Abort
        | Some m \<Rightarrow>
            if ch = SP \<and> m = NUL then Next (next (set_state s_req_spaces_before_url c))
            else if ch = m then Next (next c)
            else case switch_method (method p) (index p) ch of
                   None \<Rightarrow> fail HPE_INVALID_METHOD c
                 | Some m' \<Rightarrow> Next (next (upd (\<lambda>p. p\<lparr>method := m'\<rparr>) c)))"

definition do_s_req_spaces_before_url :: "char \<Rightarrow> 'a ctx \<Rightarrow> 'a step" where
  "do_s_req_spaces_before_url ch c =
     (if ch = SP then Next c
      else let c1 = MARK M_url c;
               c2 = (if method (parser c1) = HTTP_CONNECT then set_state s_req_server_start c1 else c1);
               c3 = upd (\<lambda>p. p\<lparr>state := parse_url_char (state p) ch\<rparr>) c2
           in if state (parser c3) = s_dead then fail HPE_INVALID_URL c3 else Next c3)"

text \<open>\<open>s_req_schema\<close>, \<open>s_req_schema_slash\<close>, \<open>s_req_schema_slash_slash\<close>, \<open>s_req_server_start\<close>\<close>

definition do_s_req_schema :: "char \<Rightarrow> 'a ctx \<Rightarrow> 'a step" where
  "do_s_req_schema ch c =
     (if ch = SP \<or> ch = CR \<or> ch = LF then fail HPE_INVALID_URL c
      else let c1 = upd (\<lambda>p. p\<lparr>state := parse_url_char (state p) ch\<rparr>) c
           in if state (parser c1) = s_dead then fail HPE_INVALID_URL c1 else Next c1)"

text \<open>\<open>s_req_server\<close>, \<open>s_req_server_with_at\<close>, \<open>s_req_path\<close>, \<open>s_req_query_string_start\<close>,
  \<open>s_req_query_string\<close>, \<open>s_req_fragment_start\<close>, \<open>s_req_fragment\<close>\<close>

definition do_s_req_url :: "'a env \<Rightarrow> char \<Rightarrow> 'a ctx \<Rightarrow> 'a step" where
  "do_s_req_url E ch c =
     (if ch = SP then CALLBACK_DATA E M_url (set_state s_reqHTTP_start c) Next
      else if ch = CR \<or> ch = LF then
        CALLBACK_DATA E M_url
          (upd (\<lambda>p. p\<lparr>http_major := 0, http_minor := 9,
                    state := (if ch = CR then s_req_line_almost_done else s_header_field_start)\<rparr>) c) Next
      else let c1 = upd (\<lambda>p. p\<lparr>state := parse_url_char (state p) ch\<rparr>) c
           in if state (parser c1) = s_dead then fail HPE_INVALID_URL c1 else Next c1)"

definition do_s_reqHTTP_start :: "char \<Rightarrow> 'a ctx \<Rightarrow> 'a step" where
  "do_s_reqHTTP_start ch c =
     (if ch = CHR ''H'' then Next (set_state s_reqHTTP_H c)
      else if ch = SP then Next c
      else fail HPE_INVALID_CONSTANT c)"

definition do_s_reqHTTP_H :: "char \<Rightarrow> 'a ctx \<Rightarrow> 'a step" where
  "do_s_reqHTTP_H ch c = STRICT_CHECK (ch \<noteq> CHR ''T'') c (Next (set_state s_reqHTTP_HT c))"

definition do_s_reqHTTP_HT :: "char \<Rightarrow> 'a ctx \<Rightarrow> 'a step" where
  "do_s_reqHTTP_HT ch c = STRICT_CHECK (ch \<noteq> CHR ''T'') c (Next (set_state s_reqHTTP_HTT c))"

definition do_s_reqHTTP_HTT :: "char \<Rightarrow> 'a ctx \<Rightarrow> 'a step" where
  "do_s_reqHTTP_HTT ch c = STRICT_CHECK (ch \<noteq> CHR ''P'') c (Next (set_state s_reqHTTPHTTP c))"

definition do_s_reqHTTPHTTP :: "char \<Rightarrow> 'a ctx \<Rightarrow> 'a step" where
  "do_s_reqHTTPHTTP ch c =
     STRICT_CHECK (ch \<noteq> CHR ''/'') c (Next (set_state s_req_firstHTTP_major c))"

definition do_s_req_firstHTTP_major :: "char \<Rightarrow> 'a ctx \<Rightarrow> 'a step" where
  "do_s_req_firstHTTP_major ch c =
     (if \<not> between CHR ''1'' ch CHR ''9'' then fail HPE_INVALID_VERSION c
      else Next (upd (\<lambda>p. p\<lparr>http_major := digit ch, state := s_reqHTTP_major\<rparr>) c))"

definition do_s_reqHTTP_major :: "char \<Rightarrow> 'a ctx \<Rightarrow> 'a step" where
  "do_s_reqHTTP_major ch c =
     (if ch = CHR ''.'' then Next (set_state s_req_firstHTTP_minor c)
      else if \<not> IS_NUM ch then fail HPE_INVALID_VERSION c
      else let c1 = upd (\<lambda>p. p\<lparr>http_major := push_digit16 (http_major p) ch\<rparr>) c in
        if http_major (parser c1) > 999 then fail HPE_INVALID_VERSION c1 else Next c1)"

definition do_s_req_firstHTTP_minor :: "char \<Rightarrow> 'a ctx \<Rightarrow> 'a step" where
  "do_s_req_firstHTTP_minor ch c =
     (if \<not> IS_NUM ch then fail HPE_INVALID_VERSION c
      else Next (upd (\<lambda>p. p\<lparr>http_minor := digit ch, state := s_reqHTTP_minor\<rparr>) c))"

definition do_s_reqHTTP_minor :: "char \<Rightarrow> 'a ctx \<Rightarrow> 'a step" where
  "do_s_reqHTTP_minor ch c =
     (if ch = CR then Next (set_state s_req_line_almost_done c)
      else if ch = LF then Next (set_state s_header_field_start c)
      else if \<not> IS_NUM ch then fail HPE_INVALID_VERSION c
      else let c1 = upd (\<lambda>p. p\<lparr>http_minor := push_digit16 (http_minor p) ch\<rparr>) c in
        if http_minor (parser c1) > 999 then fail HPE_INVALID_VERSION c1 else Next c1)"

definition do_s_req_line_almost_done :: "char \<Rightarrow> 'a ctx \<Rightarrow> 'a step" where
  "do_s_req_line_almost_done ch c =
     (if ch \<noteq> LF then fail HPE_LF_EXPECTED c else Next (set_state s_header_field_start c))"

section \<open>Header fields and values\<close>

definition do_s_header_field_start :: "char \<Rightarrow> 'a ctx \<Rightarrow> 'a step" where
  "do_s_header_field_start ch c =
     (if ch = CR then Next (set_state s_headers_almost_done c)
      else if ch = LF then Reexec (set_state s_headers_almost_done c)
      else let t = TOKEN ch in
        if t = NUL then fail HPE_INVALID_HEADER_TOKEN c
        else Next (set_header_state
               (if t = CHR ''c'' then h_C
                else if t = CHR ''p'' then h_matching_proxy_connection
                else if t = CHR ''t'' then h_matching_transfer_encoding
                else if t = CHR ''u'' then h_matching_upgrade
                else h_general)
               (upd (\<lambda>p. p\<lparr>index := 0, state := s_header_field\<rparr>) (MARK M_header_field c))))"

abbreviation "S_PROXY_CONNECTION \<equiv> ''proxy-Connection''"
abbreviation "S_CONNECTION \<equiv> ''Connection''"
abbreviation "S_CONTENT_LENGTH \<equiv> ''content-length''"
abbreviation "S_TRANSFER_ENCODING \<equiv> ''transfer-encoding''"
abbreviation "S_UPGRADE \<equiv> ''upgrade''"
abbreviation "S_CHUNKED \<equiv> ''chunked''"
abbreviation "S_KEEP_ALIVE \<equiv> ''keep-alive''"
abbreviation "S_CLOSE \<equiv> ''close''"

text \<open>One step of matching a name: \<open>index++\<close>, then the comparison with the byte of the
  pattern (its terminator included), and \<open>hit\<close> when its last byte has matched.
  \<open>sizeof(X)\<close> counts the terminator.\<close>

definition match_step :: "string \<Rightarrow> header_state \<Rightarrow> char \<Rightarrow> 'a ctx \<Rightarrow> 'a step" where
  "match_step pat hit t c =
     (let c1 = upd (\<lambda>p. p\<lparr>index := (index p + 1) mod 256\<rparr>) c; i = index (parser c1);
          size = length pat + 1
      in if i > size - 1 then Next (set_header_state h_general c1)
         else case c_string_at pat i of
                None \<Rightarrow> Abort
              | Some m \<Rightarrow>
                  if t \<noteq> m then Next (set_header_state h_general c1)
                  else if i = size - 2 then Next (set_header_state hit c1)
                  else Next c1)"

text \<open>The \<open>switch (parser->header_state)\<close> of \<open>s_header_field\<close> on a token byte \<open>t\<close>.\<close>

definition header_field_token :: "char \<Rightarrow> char \<Rightarrow> 'a ctx \<Rightarrow> 'a step" where
  "header_field_token ch t c =
     (let c1 = upd (\<lambda>p. p\<lparr>index := (index p + 1) mod 256\<rparr>) c in
      case header_state (parser c) of
        h_general \<Rightarrow> Next c
      | h_C \<Rightarrow> Next (set_header_state (if t = CHR ''o'' then h_CO else h_general) c1)
      | h_CO \<Rightarrow> Next (set_header_state (if t = CHR ''n'' then h_CON else h_general) c1)
      | h_CON \<Rightarrow> Next (set_header_state
          (if t = CHR ''n'' then h_matching_connection
           else if t = CHR ''t'' then h_matching_content_length else h_general) c1)
      | h_matching_connection \<Rightarrow> match_step S_CONNECTION h_connection t c
      | h_matching_proxy_connection \<Rightarrow> match_step S_PROXY_CONNECTION h_connection t c
      | h_matching_content_length \<Rightarrow> match_step S_CONTENT_LENGTH h_content_length t c
      | h_matching_transfer_encoding \<Rightarrow> match_step S_TRANSFER_ENCODING h_transfer_encoding t c
      | h_matching_upgrade \<Rightarrow> match_step S_UPGRADE h_upgrade t c
      | h_connection \<Rightarrow> Next (if ch \<noteq> SP then set_header_state h_general c else c)
      | h_content_length \<Rightarrow> Next (if ch \<noteq> SP then set_header_state h_general c else c)
      | h_transfer_encoding \<Rightarrow> Next (if ch \<noteq> SP then set_header_state h_general c else c)
      | h_upgrade \<Rightarrow> Next (if ch \<noteq> SP then set_header_state h_general c else c)
      | _ \<Rightarrow> Abort)"

definition do_s_header_field :: "'a env \<Rightarrow> char \<Rightarrow> 'a ctx \<Rightarrow> 'a step" where
  "do_s_header_field E ch c =
     (let t = TOKEN ch in
      if t \<noteq> NUL then header_field_token ch t c
      else if ch = CHR '':'' then
        CALLBACK_DATA E M_header_field (set_state s_header_value_discard_ws c) Next
      else if ch = CR then CALLBACK_DATA E M_header_field (set_state s_header_almost_done c) Next
      else if ch = LF then CALLBACK_DATA E M_header_field (set_state s_header_field_start c) Next
      else fail HPE_INVALID_HEADER_TOKEN c)"

definition do_s_header_value_start :: "char \<Rightarrow> 'a ctx \<Rightarrow> 'a step" where
  "do_s_header_value_start ch c =
     (let c1 = upd (\<lambda>p. p\<lparr>state := s_header_value, index := 0\<rparr>) (MARK M_header_value c);
          l = LOWER ch
      in case header_state (parser c) of
           h_upgrade \<Rightarrow>
             Next (set_header_state h_general (upd (\<lambda>p. p\<lparr>flags := (flags p)\<lparr>F_UPGRADE := True\<rparr>\<rparr>) c1))
         | h_transfer_encoding \<Rightarrow>
             Next (set_header_state
               (if l = CHR ''c'' then h_matching_transfer_encoding_chunked else h_general) c1)
         | h_content_length \<Rightarrow>
             if \<not> IS_NUM ch then fail HPE_INVALID_CONTENT_LENGTH c1
             else Next (upd (\<lambda>p. p\<lparr>content_length := digit ch\<rparr>) c1)
         | h_connection \<Rightarrow>
             Next (set_header_state
               (if l = CHR ''k'' then h_matching_connection_keep_alive
                else if l = CHR ''c'' then h_matching_connection_close else h_general) c1)
         | _ \<Rightarrow> Next (set_header_state h_general c1))"

definition do_s_header_value_discard_ws :: "char \<Rightarrow> 'a ctx \<Rightarrow> 'a step" where
  "do_s_header_value_discard_ws ch c =
     (if ch = SP \<or> ch = HT then Next c
      else if ch = CR then Next (set_state s_header_value_discard_ws_almost_done c)
      else if ch = LF then Next (set_state s_header_value_discard_lws c)
      else do_s_header_value_start ch c)"

text \<open>\<open>t = content_length; t *= 10; t += ch - '0'\<close> and the overflow test.\<close>

definition content_length_digit :: "char \<Rightarrow> 'a ctx \<Rightarrow> 'a step" where
  "content_length_digit ch c =
     (let cl = content_length (parser c); t = (cl * 10 mod 2 ^ 64 + digit ch) mod 2 ^ 64 in
      if (ULLONG_MAX - 10) div 10 < cl then fail HPE_INVALID_CONTENT_LENGTH c
      else Next (upd (\<lambda>p. p\<lparr>content_length := t\<rparr>) c))"

definition header_value_byte :: "char \<Rightarrow> 'a ctx \<Rightarrow> 'a step" where
  "header_value_byte ch c =
     (let l = LOWER ch in
      case header_state (parser c) of
        h_general \<Rightarrow> Next c
      | h_connection \<Rightarrow> Abort
      | h_transfer_encoding \<Rightarrow> Abort
      | h_content_length \<Rightarrow>
          if ch = SP then Next c
          else if \<not> IS_NUM ch then fail HPE_INVALID_CONTENT_LENGTH c
          else content_length_digit ch c
      | h_matching_transfer_encoding_chunked \<Rightarrow> match_step S_CHUNKED h_transfer_encoding_chunked l c
      | h_matching_connection_keep_alive \<Rightarrow> match_step S_KEEP_ALIVE h_connection_keep_alive l c
      | h_matching_connection_close \<Rightarrow> match_step S_CLOSE h_connection_close l c
      | h_transfer_encoding_chunked \<Rightarrow> Next (if ch \<noteq> SP then set_header_state h_general c else c)
      | h_connection_keep_alive \<Rightarrow> Next (if ch \<noteq> SP then set_header_state h_general c else c)
      | h_connection_close \<Rightarrow> Next (if ch \<noteq> SP then set_header_state h_general c else c)
      | _ \<Rightarrow> Next (upd (\<lambda>p. p\<lparr>state := s_header_value, header_state := h_general\<rparr>) c))"

definition do_s_header_value :: "'a env \<Rightarrow> char \<Rightarrow> 'a ctx \<Rightarrow> 'a step" where
  "do_s_header_value E ch c =
     (if ch = CR then CALLBACK_DATA E M_header_value (set_state s_header_almost_done c) Next
      else if ch = LF then
        CALLBACK_DATA_NOADVANCE E M_header_value (set_state s_header_almost_done c) Reexec
      else header_value_byte ch c)"

definition do_s_header_almost_done :: "char \<Rightarrow> 'a ctx \<Rightarrow> 'a step" where
  "do_s_header_almost_done ch c = STRICT_CHECK (ch \<noteq> LF) c (Next (set_state s_header_value_lws c))"

definition do_s_header_value_lws :: "char \<Rightarrow> 'a ctx \<Rightarrow> 'a step" where
  "do_s_header_value_lws ch c =
     (if ch = SP \<or> ch = HT then Reexec (set_state s_header_value_start c)
      else let c1 = upd (\<lambda>p. p\<lparr>flags :=
                 (case header_state p of
                    h_connection_keep_alive \<Rightarrow> (flags p)\<lparr>F_CONNECTION_KEEP_ALIVE := True\<rparr>
                  | h_connection_close \<Rightarrow> (flags p)\<lparr>F_CONNECTION_CLOSE := True\<rparr>
                  | h_transfer_encoding_chunked \<Rightarrow> (flags p)\<lparr>F_CHUNKED := True\<rparr>
                  | _ \<Rightarrow> flags p)\<rparr>) c
           in Reexec (set_state s_header_field_start c1))"

definition do_s_header_value_discard_ws_almost_done :: "char \<Rightarrow> 'a ctx \<Rightarrow> 'a step" where
  "do_s_header_value_discard_ws_almost_done ch c =
     STRICT_CHECK (ch \<noteq> LF) c (Next (set_state s_header_value_discard_lws c))"

definition do_s_header_value_discard_lws :: "'a env \<Rightarrow> char \<Rightarrow> 'a ctx \<Rightarrow> 'a step" where
  "do_s_header_value_discard_lws E ch c =
     (if ch = SP \<or> ch = HT then Next (set_state s_header_value_discard_ws c)
      else CALLBACK_DATA_NOADVANCE E M_header_value
             (set_state s_header_field_start (MARK M_header_value c)) Reexec)"

section \<open>The end of the headers\<close>

text \<open>The call of \<open>on_headers_complete\<close>, whose result 1 asks to skip the body.\<close>

definition call_headers_complete :: "'a env \<Rightarrow> 'a ctx \<Rightarrow> 'a step" where
  "call_headers_complete E c =
     (case on_headers_complete (settings E) of
        None \<Rightarrow>
          (if errno (parser c) \<noteq> HPE_OK then Return (parser c) (pos c) else Reexec c)
      | Some f \<Rightarrow>
          (let (r, p) = f (parser c) in
           if r \<noteq> 0 \<and> r \<noteq> 1 then Return (p\<lparr>errno := HPE_CB_headers_complete\<rparr>) (pos c)
           else let p' = (if r = 1 then p\<lparr>flags := (flags p)\<lparr>F_SKIPBODY := True\<rparr>\<rparr> else p)
                in if errno p' \<noteq> HPE_OK then Return p' (pos c) else Reexec (c\<lparr>parser := p'\<rparr>)))"

definition do_s_headers_almost_done :: "'a env \<Rightarrow> char \<Rightarrow> 'a ctx \<Rightarrow> 'a step" where
  "do_s_headers_almost_done E ch c =
     STRICT_CHECK (ch \<noteq> LF) c
       (if F_TRAILING (flags (parser c)) then message_complete E (new_message c) Next
        else call_headers_complete E
               (upd (\<lambda>p. p\<lparr>state := s_headers_done,
                         upgrade := F_UPGRADE (flags p) \<or> method p = HTTP_CONNECT\<rparr>) c))"

definition do_s_headers_done :: "'a env \<Rightarrow> char \<Rightarrow> 'a ctx \<Rightarrow> 'a step" where
  "do_s_headers_done E ch c =
     STRICT_CHECK (ch \<noteq> LF) c
       (let c1 = upd (\<lambda>p. p\<lparr>nread := 0\<rparr>) c; p = parser c1 in
        if upgrade p then
          message_complete E (new_message c1) (\<lambda>c'. Return (parser c') (pos c' + 1))
        else if F_SKIPBODY (flags p) then message_complete E (new_message c1) Next
        else if F_CHUNKED (flags p) then Next (set_state s_chunk_size_start c1)
        else if content_length p = 0 then message_complete E (new_message c1) Next
        else if content_length p \<noteq> ULLONG_MAX then Next (set_state s_body_identity c1)
        else if parser_type p = HTTP_REQUEST \<or> \<not> http_message_needs_eof p then
          message_complete E (new_message c1) Next
        else Next (set_state s_body_identity_eof c1))"

section \<open>Bodies\<close>

definition do_s_body_identity :: "'a env \<Rightarrow> 'a ctx \<Rightarrow> 'a step" where
  "do_s_body_identity E c =
     (let cl = content_length (parser c); to_read = min cl (length (buf E) - pos c) in
      assertion (cl \<noteq> 0 \<and> cl \<noteq> ULLONG_MAX)
        (let c1 = upd (\<lambda>p. p\<lparr>content_length := content_length p - to_read\<rparr>) (MARK M_body c);
             c2 = c1\<lparr>pos := pos c1 + to_read - 1\<rparr>
         in if content_length (parser c2) = 0 then
              CALLBACK_DATA_AT E M_body (\<lambda>m. pos c2 - m + 1) (pos c2)
                (set_state s_message_done c2) Reexec
            else Next c2))"

definition do_s_body_identity_eof :: "'a env \<Rightarrow> 'a ctx \<Rightarrow> 'a step" where
  "do_s_body_identity_eof E c = Next ((MARK M_body c)\<lparr>pos := length (buf E) - 1\<rparr>)"

definition do_s_message_done :: "'a env \<Rightarrow> 'a ctx \<Rightarrow> 'a step" where
  "do_s_message_done E c = message_complete E (new_message c) Next"

definition do_s_chunk_size_start :: "char \<Rightarrow> 'a ctx \<Rightarrow> 'a step" where
  "do_s_chunk_size_start ch c =
     assertion (nread (parser c) = 1) (assertion (F_CHUNKED (flags (parser c)))
       (let unhex_val = unhex ! ucode ch in
        if unhex_val = -1 then fail HPE_INVALID_CHUNK_SIZE c
        else Next (upd (\<lambda>p. p\<lparr>content_length := nat unhex_val, state := s_chunk_size\<rparr>) c)))"

definition do_s_chunk_size :: "char \<Rightarrow> 'a ctx \<Rightarrow> 'a step" where
  "do_s_chunk_size ch c =
     assertion (F_CHUNKED (flags (parser c)))
       (if ch = CR then Next (set_state s_chunk_size_almost_done c)
        else let unhex_val = unhex ! ucode ch in
          if unhex_val = -1 then
            (if ch = CHR '';'' \<or> ch = SP then Next (set_state s_chunk_parameters c)
             else fail HPE_INVALID_CHUNK_SIZE c)
          else let cl = content_length (parser c);
                   t = (cl * 16 mod 2 ^ 64 + nat unhex_val) mod 2 ^ 64
            in if (ULLONG_MAX - 16) div 16 < cl then fail HPE_INVALID_CONTENT_LENGTH c
               else Next (upd (\<lambda>p. p\<lparr>content_length := t\<rparr>) c))"

definition do_s_chunk_parameters :: "char \<Rightarrow> 'a ctx \<Rightarrow> 'a step" where
  "do_s_chunk_parameters ch c =
     assertion (F_CHUNKED (flags (parser c)))
       (if ch = CR then Next (set_state s_chunk_size_almost_done c) else Next c)"

definition do_s_chunk_size_almost_done :: "char \<Rightarrow> 'a ctx \<Rightarrow> 'a step" where
  "do_s_chunk_size_almost_done ch c =
     assertion (F_CHUNKED (flags (parser c)))
       (STRICT_CHECK (ch \<noteq> LF) c
         (let c1 = upd (\<lambda>p. p\<lparr>nread := 0\<rparr>) c in
          if content_length (parser c1) = 0 then
            Next (set_state s_header_field_start (upd (\<lambda>p. p\<lparr>flags := (flags p)\<lparr>F_TRAILING := True\<rparr>\<rparr>) c1))
          else Next (set_state s_chunk_data c1)))"

definition do_s_chunk_data :: "'a env \<Rightarrow> 'a ctx \<Rightarrow> 'a step" where
  "do_s_chunk_data E c =
     (let cl = content_length (parser c); to_read = min cl (length (buf E) - pos c) in
      assertion (F_CHUNKED (flags (parser c))) (assertion (cl \<noteq> 0 \<and> cl \<noteq> ULLONG_MAX)
        (let c1 = upd (\<lambda>p. p\<lparr>content_length := content_length p - to_read\<rparr>) (MARK M_body c);
             c2 = c1\<lparr>pos := pos c1 + to_read - 1\<rparr>
         in if content_length (parser c2) = 0 then Next (set_state s_chunk_data_almost_done c2)
            else Next c2)))"

definition do_s_chunk_data_almost_done :: "'a env \<Rightarrow> char \<Rightarrow> 'a ctx \<Rightarrow> 'a step" where
  "do_s_chunk_data_almost_done E ch c =
     assertion (F_CHUNKED (flags (parser c))) (assertion (content_length (parser c) = 0)
       (STRICT_CHECK (ch \<noteq> CR) c
         (CALLBACK_DATA E M_body (set_state s_chunk_data_done c) Next)))"

definition do_s_chunk_data_done :: "char \<Rightarrow> 'a ctx \<Rightarrow> 'a step" where
  "do_s_chunk_data_done ch c =
     assertion (F_CHUNKED (flags (parser c)))
       (STRICT_CHECK (ch \<noteq> LF) c
         (Next (upd (\<lambda>p. p\<lparr>nread := 0, state := s_chunk_size_start\<rparr>) c)))"

section \<open>The switch over the states\<close>

definition exec_state :: "'a env \<Rightarrow> char \<Rightarrow> 'a ctx \<Rightarrow> 'a step" where
  "exec_state E ch c =
     (case state (parser c) of
        s_dead \<Rightarrow> do_s_dead ch c
      | s_start_req_or_res \<Rightarrow> do_s_start_req_or_res E ch c
      | s_res_or_resp_H \<Rightarrow> do_s_res_or_resp_H ch c
      | s_start_res \<Rightarrow> do_s_start_res E ch c
      | s_res_H \<Rightarrow> do_s_res_H ch c
      | s_res_HT \<Rightarrow> do_s_res_HT ch c
      | s_res_HTT \<Rightarrow> do_s_res_HTT ch c
      | s_resHTTP \<Rightarrow> do_s_resHTTP ch c
      | s_res_firstHTTP_major \<Rightarrow> do_s_res_firstHTTP_major ch c
      | s_resHTTP_major \<Rightarrow> do_s_resHTTP_major ch c
      | s_res_firstHTTP_minor \<Rightarrow> do_s_res_firstHTTP_minor ch c
      | s_resHTTP_minor \<Rightarrow> do_s_resHTTP_minor ch c
      | s_res_first_status_code \<Rightarrow> do_s_res_first_status_code ch c
      | s_res_status_code \<Rightarrow> do_s_res_status_code ch c
      | s_res_status_start \<Rightarrow> do_s_res_status_start ch c
      | s_res_status \<Rightarrow> do_s_res_status E ch c
      | s_res_line_almost_done \<Rightarrow> do_s_res_line_almost_done ch c
      | s_start_req \<Rightarrow> do_s_start_req E ch c
      | s_req_method \<Rightarrow> do_s_req_method ch c
      | s_req_spaces_before_url \<Rightarrow> do_s_req_spaces_before_url ch c
      | s_req_schema \<Rightarrow> do_s_req_schema ch c
      | s_req_schema_slash \<Rightarrow> do_s_req_schema ch c
      | s_req_schema_slash_slash \<Rightarrow> do_s_req_schema ch c
      | s_req_server_start \<Rightarrow> do_s_req_schema ch c
      | s_req_server \<Rightarrow> do_s_req_url E ch c
      | s_req_server_with_at \<Rightarrow> do_s_req_url E ch c
      | s_req_path \<Rightarrow> do_s_req_url E ch c
      | s_req_query_string_start \<Rightarrow> do_s_req_url E ch c
      | s_req_query_string \<Rightarrow> do_s_req_url E ch c
      | s_req_fragment_start \<Rightarrow> do_s_req_url E ch c
      | s_req_fragment \<Rightarrow> do_s_req_url E ch c
      | s_reqHTTP_start \<Rightarrow> do_s_reqHTTP_start ch c
      | s_reqHTTP_H \<Rightarrow> do_s_reqHTTP_H ch c
      | s_reqHTTP_HT \<Rightarrow> do_s_reqHTTP_HT ch c
      | s_reqHTTP_HTT \<Rightarrow> do_s_reqHTTP_HTT ch c
      | s_reqHTTPHTTP \<Rightarrow> do_s_reqHTTPHTTP ch c
      | s_req_firstHTTP_major \<Rightarrow> do_s_req_firstHTTP_major ch c
      | s_reqHTTP_major \<Rightarrow> do_s_reqHTTP_major ch c
      | s_req_firstHTTP_minor \<Rightarrow> do_s_req_firstHTTP_minor ch c
      | s_reqHTTP_minor \<Rightarrow> do_s_reqHTTP_minor ch c
      | s_req_line_almost_done \<Rightarrow> do_s_req_line_almost_done ch c
      | s_header_field_start \<Rightarrow> do_s_header_field_start ch c
      | s_header_field \<Rightarrow> do_s_header_field E ch c
      | s_header_value_discard_ws \<Rightarrow> do_s_header_value_discard_ws ch c
      | s_header_value_discard_ws_almost_done \<Rightarrow> do_s_header_value_discard_ws_almost_done ch c
      | s_header_value_discard_lws \<Rightarrow> do_s_header_value_discard_lws E ch c
      | s_header_value_start \<Rightarrow> do_s_header_value_start ch c
      | s_header_value \<Rightarrow> do_s_header_value E ch c
      | s_header_value_lws \<Rightarrow> do_s_header_value_lws ch c
      | s_header_almost_done \<Rightarrow> do_s_header_almost_done ch c
      | s_chunk_size_start \<Rightarrow> do_s_chunk_size_start ch c
      | s_chunk_size \<Rightarrow> do_s_chunk_size ch c
      | s_chunk_parameters \<Rightarrow> do_s_chunk_parameters ch c
      | s_chunk_size_almost_done \<Rightarrow> do_s_chunk_size_almost_done ch c
      | s_headers_almost_done \<Rightarrow> do_s_headers_almost_done E ch c
      | s_headers_done \<Rightarrow> do_s_headers_done E ch c
      | s_chunk_data \<Rightarrow> do_s_chunk_data E c
      | s_chunk_data_almost_done \<Rightarrow> do_s_chunk_data_almost_done E ch c
      | s_chunk_data_done \<Rightarrow> do_s_chunk_data_done ch c
      | s_body_identity \<Rightarrow> do_s_body_identity E c
      | s_body_identity_eof \<Rightarrow> do_s_body_identity_eof E c
      | s_message_done \<Rightarrow> do_s_message_done E c)"

end
