(* ===== verification/HttpExec.thy ===== *)
theory HttpExec
  imports HttpSteps
begin

text \<open>
  \<open>http_parser_execute\<close>: the entry checks, the byte loop with \<open>reexecute_byte\<close>, the
  callbacks for the marks left over at the end, and the error exit.

  \<open>Crashed\<close> stands for a failed assertion or a read outside the buffer; a loop that
  does not end is \<open>None\<close>.  Neither is ruled out by the definitions: that no
  lawful caller meets them is proved.
\<close>

datatype 'a exec_result = Done "'a http_parser" nat | Crashed

text \<open>The byte at \<open>pos\<close>, and \<open>goto reexecute_byte\<close> as recursion.\<close>

partial_function (option) exec_byte :: "'a env \<Rightarrow> char \<Rightarrow> 'a ctx \<Rightarrow> 'a step option" where
  "exec_byte E ch c =
     (case exec_state E ch c of Reexec c' \<Rightarrow> exec_byte E ch c' | r \<Rightarrow> Some r)"

text \<open>The head of the loop body: counting header bytes and the size limit.\<close>

definition count_byte :: "'a ctx \<Rightarrow> 'a step" where
  "count_byte c =
     (if PARSING_HEADER (state (parser c)) then
        (let c1 = upd (\<lambda>p. p\<lparr>nread := (nread p + 1) mod 2 ^ 32\<rparr>) c in
         if nread (parser c1) > HTTP_MAX_HEADER_SIZE then fail HPE_HEADER_OVERFLOW c1 else Next c1)
      else Next c)"

text \<open>\<open>for (p = data; p != data + len; p++)\<close>: \<open>Next\<close> is the end of the input.\<close>

partial_function (option) exec_loop :: "'a env \<Rightarrow> 'a ctx \<Rightarrow> 'a step option" where
  "exec_loop E c =
     (if pos c = length (buf E) then Some (Next c)
      else if pos c > length (buf E) then Some Abort
      else case count_byte c of
             Next c1 \<Rightarrow>
               (case exec_byte E (buf E ! pos c) c1 of
                  None \<Rightarrow> None
                | Some (Next c2) \<Rightarrow> exec_loop E (c2\<lparr>pos := pos c2 + 1\<rparr>)
                | Some r \<Rightarrow> Some r)
           | r \<Rightarrow> Some r)"

definition url_states :: "http_state list" where
  "url_states = [s_req_path, s_req_schema, s_req_schema_slash, s_req_schema_slash_slash,
     s_req_server_start, s_req_server, s_req_server_with_at, s_req_query_string_start,
     s_req_query_string, s_req_fragment_start, s_req_fragment]"

text \<open>The marks set on entry when the previous buffer ended inside an element.\<close>

definition initial_marks :: "http_state \<Rightarrow> mark_kind \<Rightarrow> nat option" where
  "initial_marks s =
     (\<lambda>k. case k of
        M_header_field \<Rightarrow> if s = s_header_field then Some 0 else None
      | M_header_value \<Rightarrow> if s = s_header_value then Some 0 else None
      | M_url \<Rightarrow> if s \<in> set url_states then Some 0 else None
      | M_status \<Rightarrow> if s = s_res_status then Some 0 else None
      | M_body \<Rightarrow> None)"

definition marks_set :: "'a ctx \<Rightarrow> nat" where
  "marks_set c = length (filter (\<lambda>k. mark c k \<noteq> None)
     [M_header_field, M_header_value, M_url, M_body, M_status])"

text \<open>After the loop: the callbacks for the leftover marks, then \<open>return len\<close>.\<close>

definition final_callbacks :: "'a env \<Rightarrow> 'a ctx \<Rightarrow> 'a step" where
  "final_callbacks E c =
     assertion (marks_set c \<le> 1)
       (CALLBACK_DATA_NOADVANCE E M_header_field c (\<lambda>c.
        CALLBACK_DATA_NOADVANCE E M_header_value c (\<lambda>c.
        CALLBACK_DATA_NOADVANCE E M_url c (\<lambda>c.
        CALLBACK_DATA_NOADVANCE E M_body c (\<lambda>c.
        CALLBACK_DATA_NOADVANCE E M_status c (\<lambda>c.
        Return (parser c) (length (buf E))))))))"

text \<open>The label \<open>error\<close>.\<close>

definition error_exit :: "'a ctx \<Rightarrow> 'a exec_result" where
  "error_exit c =
     (let p = parser c in
      Done (if errno p = HPE_OK then p\<lparr>errno := HPE_UNKNOWN\<rparr> else p) (pos c))"

definition finish :: "'a step \<Rightarrow> 'a exec_result" where
  "finish r =
     (case r of
        Return p n \<Rightarrow> Done p n
      | Error c \<Rightarrow> error_exit c
      | _ \<Rightarrow> Crashed)"

text \<open>The call with \<open>len == 0\<close>: the end of the stream.\<close>

definition execute_eof :: "'a env \<Rightarrow> 'a http_parser \<Rightarrow> 'a exec_result" where
  "execute_eof E p =
     (let c = \<lparr>parser = p, mark = (\<lambda>_. None), pos = 0\<rparr> in
      if state p = s_body_identity_eof then
        finish (CALLBACK_NOTIFY_AT (on_message_complete (settings E)) HPE_CB_message_complete 0 c
                  (\<lambda>c. Return (parser c) 0))
      else if state p \<in> set [s_dead, s_start_req_or_res, s_start_res, s_start_req] then Done p 0
      else Done (p\<lparr>errno := HPE_INVALID_EOF_STATE\<rparr>) 1)"

definition http_parser_execute ::
    "'a http_parser_settings \<Rightarrow> string \<Rightarrow> 'a http_parser \<Rightarrow> 'a exec_result option" where
  "http_parser_execute S data p =
     (let E = \<lparr>settings = S, buf = data\<rparr> in
      if errno p \<noteq> HPE_OK then Some (Done p 0)
      else if data = [] then Some (execute_eof E p)
      else case exec_loop E \<lparr>parser = p, mark = initial_marks (state p), pos = 0\<rparr> of
             None \<Rightarrow> None
           | Some (Next c) \<Rightarrow> Some (finish (final_callbacks E c))
           | Some r \<Rightarrow> Some (finish r))"

text \<open>The small public operations next to it.\<close>

definition http_parser_pause :: "bool \<Rightarrow> 'a http_parser \<Rightarrow> 'a http_parser option" where
  "http_parser_pause paused p =
     (if errno p = HPE_OK \<or> errno p = HPE_PAUSED then
        Some (p\<lparr>errno := (if paused then HPE_PAUSED else HPE_OK)\<rparr>)
      else None)"

definition http_body_is_final :: "'a http_parser \<Rightarrow> bool" where
  "http_body_is_final p \<longleftrightarrow> state p = s_message_done"

end
