(* ===== verification/HttpInv.thy ===== *)
theory HttpInv
  imports HttpExec
begin

text \<open>
  The well-formedness invariant of the HTTP parser and the handlers that run no callback.

  \<open>wf_parser\<close> is what holds of an \<open>http_parser\<close> between two bytes, \<open>ctx_ok\<close> what
  holds of the context inside a call, and \<open>good\<close> what a handler may end with: a
  context that is well formed again, or a clean return or error inside the buffer.
  A callback may change the error code and the user data (\<open>keeps\<close>), the callback at
  the end of a message the content length too (\<open>keeps_but_length\<close>).
\<close>

section \<open>Lawful callbacks\<close>

definition keeps :: "'a http_parser \<Rightarrow> 'a http_parser \<Rightarrow> bool" where
  "keeps p p' \<longleftrightarrow> (\<exists>d e. p' = p\<lparr>errno := e, user := d\<rparr> \<and> (e = HPE_OK \<or> e = HPE_PAUSED))"

definition keeps_but_length :: "'a http_parser \<Rightarrow> 'a http_parser \<Rightarrow> bool" where
  "keeps_but_length p p' \<longleftrightarrow>
     (\<exists>d e l. p' = p\<lparr>errno := e, user := d, content_length := l\<rparr> \<and> l < 2 ^ 64 \<and>
        (e = HPE_OK \<or> e = HPE_PAUSED))"

definition cb_lawful :: "('a http_parser \<Rightarrow> 'a http_parser \<Rightarrow> bool) \<Rightarrow> 'a http_cb option \<Rightarrow> bool" where
  "cb_lawful R cb \<longleftrightarrow> (\<forall>f p. cb = Some f \<and> errno p = HPE_OK \<longrightarrow> R p (snd (f p)))"

definition data_lawful :: "'a http_data_cb option \<Rightarrow> bool" where
  "data_lawful cb \<longleftrightarrow> (\<forall>f s p. cb = Some f \<and> errno p = HPE_OK \<longrightarrow> keeps p (snd (f s p)))"

section \<open>The invariant\<close>

definition field_states :: "header_state list" where
  "field_states = [h_general, h_C, h_CO, h_CON, h_matching_connection, h_matching_proxy_connection,
     h_matching_content_length, h_matching_transfer_encoding, h_matching_upgrade,
     h_connection, h_content_length, h_transfer_encoding, h_upgrade]"

definition numbers_ok :: "'a http_parser \<Rightarrow> bool" where
  "numbers_ok p \<longleftrightarrow>
     http_major p \<le> 999 \<and> http_minor p \<le> 999 \<and> status_code p \<le> 999 \<and>
     content_length p < 2 ^ 64 \<and> nread p \<le> HTTP_MAX_HEADER_SIZE"

text \<open>What each state relies on; \<open>k\<close> is the value of \<open>nread\<close> in front of a chunk size:
  0 between two bytes, 1 once the byte is counted.\<close>

definition state_ok :: "nat \<Rightarrow> 'a http_parser \<Rightarrow> bool" where
  "state_ok k p \<longleftrightarrow>
     (case state p of
        s_req_method \<Rightarrow> index p \<le> length (method_string (method p))
      | s_header_field \<Rightarrow> header_state p \<in> set field_states
      | s_header_value \<Rightarrow> header_state p \<noteq> h_connection \<and> header_state p \<noteq> h_transfer_encoding
      | s_chunk_size_start \<Rightarrow> F_CHUNKED (flags p) \<and> nread p = k
      | s_chunk_size \<Rightarrow> F_CHUNKED (flags p) \<and> content_length p \<noteq> ULLONG_MAX
      | s_chunk_parameters \<Rightarrow> F_CHUNKED (flags p) \<and> content_length p \<noteq> ULLONG_MAX
      | s_chunk_size_almost_done \<Rightarrow> F_CHUNKED (flags p) \<and> content_length p \<noteq> ULLONG_MAX
      | s_chunk_data \<Rightarrow> F_CHUNKED (flags p) \<and> content_length p \<noteq> 0 \<and> content_length p \<noteq> ULLONG_MAX
      | s_chunk_data_almost_done \<Rightarrow> F_CHUNKED (flags p) \<and> content_length p = 0
      | s_chunk_data_done \<Rightarrow> F_CHUNKED (flags p)
      | s_body_identity \<Rightarrow> content_length p \<noteq> 0 \<and> content_length p \<noteq> ULLONG_MAX
      | _ \<Rightarrow> True)"

definition wf_parser :: "nat \<Rightarrow> 'a http_parser \<Rightarrow> bool" where
  "wf_parser k p \<longleftrightarrow> numbers_ok p \<and> state_ok k p"

text \<open>The element, if any, whose mark can be set in a state.\<close>

definition mark_of :: "http_state \<Rightarrow> mark_kind option" where
  "mark_of s =
     (if s = s_header_field then Some M_header_field
      else if s = s_header_value then Some M_header_value
      else if s \<in> set url_states then Some M_url
      else if s = s_res_status then Some M_status
      else if s \<in> set [s_body_identity, s_body_identity_eof, s_chunk_data, s_chunk_data_almost_done]
        then Some M_body
      else None)"

definition marks_ok :: "'a ctx \<Rightarrow> bool" where
  "marks_ok c \<longleftrightarrow> (\<forall>k m. mark c k = Some m \<longrightarrow> mark_of (state (parser c)) = Some k \<and> m \<le> pos c)"

definition ctx_ok :: "nat \<Rightarrow> 'a env \<Rightarrow> 'a ctx \<Rightarrow> bool" where
  "ctx_ok k E c \<longleftrightarrow> wf_parser k (parser c) \<and> errno (parser c) = HPE_OK \<and> marks_ok c \<and>
     pos c < length (buf E)"

fun rank :: "http_state \<Rightarrow> nat" where
  "rank s_header_value = 3"
| "rank s_header_value_lws = 3"
| "rank s_header_value_discard_lws = 3"
| "rank s_header_field_start = 2"
| "rank s_headers_almost_done = 1"
| "rank s_start_req_or_res = 1"
| "rank s_body_identity = 1"
| "rank _ = 0"

text \<open>What a handler that starts in a well-formed context may end with.\<close>

fun good :: "'a env \<Rightarrow> 'a ctx \<Rightarrow> 'a step \<Rightarrow> bool" where
  "good E c (Next c') \<longleftrightarrow> ctx_ok 0 E c' \<and> pos c \<le> pos c'"
| "good E c (Reexec c') \<longleftrightarrow> ctx_ok 1 E c' \<and> pos c \<le> pos c' \<and>
     rank (state (parser c')) < rank (state (parser c))"
| "good E c (Return p n) \<longleftrightarrow> n \<le> length (buf E) \<and>
     (errno p = HPE_OK \<or> errno p = HPE_PAUSED \<longrightarrow> wf_parser 0 p) \<and>
     (errno p = HPE_OK \<longrightarrow> upgrade p)"
| "good E c (Error c') \<longleftrightarrow> errno (parser c') \<noteq> HPE_OK \<and> errno (parser c') \<noteq> HPE_PAUSED \<and>
     pos c' < length (buf E)"
| "good E c Abort \<longleftrightarrow> False"

declare good.simps [simp del]

section \<open>Callbacks\<close>

lemma keepsE:
  assumes "keeps p p'"
  obtains d e where "p' = p\<lparr>errno := e, user := d\<rparr>" and "e = HPE_OK \<or> e = HPE_PAUSED"
  using assms by (auto simp: keeps_def)

lemma keeps_refl: "errno p = HPE_OK \<Longrightarrow> keeps p p"
  by (auto simp: keeps_def intro!: exI [of _ "user p"] exI [of _ HPE_OK])

lemma wf_parser_errno_user [simp]: "wf_parser k (p\<lparr>errno := e, user := d\<rparr>) = wf_parser k p"
  "wf_parser k (p\<lparr>errno := e\<rparr>) = wf_parser k p"
  by (simp_all add: wf_parser_def numbers_ok_def state_ok_def cong: http_state.case_cong)

lemma wf_keeps: "wf_parser k p \<Longrightarrow> keeps p p' \<Longrightarrow> wf_parser k p'"
  by (elim keepsE) simp

text \<open>A callback: either the step ends with \<open>Return\<close>, or the rest of the case runs on the
  structure the callback left.\<close>

lemma good_notify:
  assumes cb: "cb_lawful R cb" and ok: "errno (parser c1) = HPE_OK" and er: "er \<le> length (buf E)"
    and err: "err \<noteq> HPE_OK" "err \<noteq> HPE_PAUSED"
    and ret: "\<And>p'. R (parser c1) p' \<Longrightarrow> wf_parser 0 p'"
    and none: "good E c (k c1)"
    and some: "\<And>p'. R (parser c1) p' \<Longrightarrow> errno p' = HPE_OK \<Longrightarrow> good E c (k (c1\<lparr>parser := p'\<rparr>))"
  shows "good E c (CALLBACK_NOTIFY_AT cb err er c1 k)"
proof (cases cb)
  case None
  with ok none show ?thesis by (simp add: CALLBACK_NOTIFY_AT_def assertion_def good.simps)
next
  case (Some f)
  obtain r p where f: "f (parser c1) = (r, p)" by fastforce
  have "R (parser c1) p" using cb Some ok f by (auto simp: cb_lawful_def dest!: spec [of _ "parser c1"])
  with Some f ok er err ret some show ?thesis
    by (auto simp: CALLBACK_NOTIFY_AT_def assertion_def good.simps)
qed

lemma good_data:
  assumes cb: "data_lawful (data_callback (settings E) kind)"
    and ok: "errno (parser c1) = HPE_OK" and er: "er \<le> length (buf E)" and wf: "wf_parser 0 (parser c1)"
    and only: "\<And>j m. mark c1 j = Some m \<Longrightarrow> j = kind"
    and some: "\<And>p'. keeps (parser c1) p' \<Longrightarrow> errno p' = HPE_OK \<Longrightarrow>
                 good E c (k (c1\<lparr>parser := p', mark := (\<lambda>_. None)\<rparr>))"
  shows "good E c (CALLBACK_DATA_AT E kind len er c1 k)"
proof -
  have nm: "(mark c1)(kind := None) = (\<lambda>_. None)"
  proof
    fix j show "((mark c1)(kind := None)) j = None"
      using only [of j] by (cases "mark c1 j") auto
  qed
  have same: "parser c1 = parser c1 \<Longrightarrow> good E c (k (c1\<lparr>mark := (\<lambda>_. None)\<rparr>))"
    using some [OF keeps_refl [OF ok] ok] by simp
  show ?thesis
  proof (cases "mark c1 kind")
    case None
    then have "mark c1 = (\<lambda>_. None)" using nm by (metis fun_upd_triv)
    then have "c1\<lparr>mark := (\<lambda>_. None)\<rparr> = c1" by (cases c1) simp
    with same None ok show ?thesis by (simp add: CALLBACK_DATA_AT_def assertion_def good.simps)
  next
    case (Some m)
    show ?thesis
    proof (cases "data_callback (settings E) kind")
      case None
      with same Some ok nm show ?thesis by (simp add: CALLBACK_DATA_AT_def assertion_def good.simps)
    next
      case cbf: (Some f)
      let ?s = "take (len m) (drop m (buf E))"
      obtain r p where f: "f ?s (parser c1) = (r, p)" by fastforce
      have "keeps (parser c1) p"
        using cb cbf ok f unfolding data_lawful_def by (metis snd_conv)
      moreover have "data_errno kind \<noteq> HPE_OK" "data_errno kind \<noteq> HPE_PAUSED" by (cases kind; simp)+
      ultimately show ?thesis
        using Some cbf f ok er wf_keeps [OF wf] some nm
        by (auto simp: CALLBACK_DATA_AT_def assertion_def good.simps)
    qed
  qed
qed

section \<open>Handlers\<close>

lemma ucode_digits: "ucode CHR ''0'' = 48" "ucode CHR ''1'' = 49" "ucode CHR ''9'' = 57"
  by (simp_all add: ucode_def)

lemma digit_bounds:
  "IS_NUM ch \<Longrightarrow> digit ch \<le> 9" "between CHR ''0'' ch CHR ''9'' \<Longrightarrow> digit ch \<le> 9"
  "between CHR ''1'' ch CHR ''9'' \<Longrightarrow> digit ch \<le> 9"
  "IS_NUM ch \<Longrightarrow> digit ch \<le> 999" "between CHR ''0'' ch CHR ''9'' \<Longrightarrow> digit ch \<le> 999"
  "between CHR ''1'' ch CHR ''9'' \<Longrightarrow> digit ch \<le> 999"
  by (auto simp: IS_NUM_def between_def digit_def ucode_digits)

lemmas step_defs = good.simps fail_def STRICT_CHECK_def assertion_def upd_def ctx_ok_def wf_parser_def
  numbers_ok_def state_ok_def marks_ok_def mark_of_def url_states_def MARK_def Let_def rank.simps

lemma good_line_states:
  assumes "ctx_ok 1 E c"
  shows "state (parser c) = s_dead \<Longrightarrow> good E c (do_s_dead ch c)"
    and "state (parser c) = s_res_or_resp_H \<Longrightarrow> good E c (do_s_res_or_resp_H ch c)"
    and "state (parser c) = s_res_H \<Longrightarrow> good E c (do_s_res_H ch c)"
    and "state (parser c) = s_res_HT \<Longrightarrow> good E c (do_s_res_HT ch c)"
    and "state (parser c) = s_res_HTT \<Longrightarrow> good E c (do_s_res_HTT ch c)"
    and "state (parser c) = s_resHTTP \<Longrightarrow> good E c (do_s_resHTTP ch c)"
    and "state (parser c) = s_res_firstHTTP_major \<Longrightarrow> good E c (do_s_res_firstHTTP_major ch c)"
    and "state (parser c) = s_resHTTP_major \<Longrightarrow> good E c (do_s_resHTTP_major ch c)"
    and "state (parser c) = s_res_firstHTTP_minor \<Longrightarrow> good E c (do_s_res_firstHTTP_minor ch c)"
    and "state (parser c) = s_resHTTP_minor \<Longrightarrow> good E c (do_s_resHTTP_minor ch c)"
    and "state (parser c) = s_res_first_status_code \<Longrightarrow> good E c (do_s_res_first_status_code ch c)"
    and "state (parser c) = s_res_status_code \<Longrightarrow> good E c (do_s_res_status_code ch c)"
    and "state (parser c) = s_res_status_start \<Longrightarrow> good E c (do_s_res_status_start ch c)"
    and "state (parser c) = s_res_line_almost_done \<Longrightarrow> good E c (do_s_res_line_almost_done ch c)"
    and "state (parser c) = s_reqHTTP_start \<Longrightarrow> good E c (do_s_reqHTTP_start ch c)"
    and "state (parser c) = s_reqHTTP_H \<Longrightarrow> good E c (do_s_reqHTTP_H ch c)"
    and "state (parser c) = s_reqHTTP_HT \<Longrightarrow> good E c (do_s_reqHTTP_HT ch c)"
    and "state (parser c) = s_reqHTTP_HTT \<Longrightarrow> good E c (do_s_reqHTTP_HTT ch c)"
    and "state (parser c) = s_reqHTTPHTTP \<Longrightarrow> good E c (do_s_reqHTTPHTTP ch c)"
    and "state (parser c) = s_req_firstHTTP_major \<Longrightarrow> good E c (do_s_req_firstHTTP_major ch c)"
    and "state (parser c) = s_reqHTTP_major \<Longrightarrow> good E c (do_s_reqHTTP_major ch c)"
    and "state (parser c) = s_req_firstHTTP_minor \<Longrightarrow> good E c (do_s_req_firstHTTP_minor ch c)"
    and "state (parser c) = s_reqHTTP_minor \<Longrightarrow> good E c (do_s_reqHTTP_minor ch c)"
    and "state (parser c) = s_req_line_almost_done \<Longrightarrow> good E c (do_s_req_line_almost_done ch c)"
  using assms
  by (auto simp: step_defs digit_bounds do_s_dead_def do_s_res_or_resp_H_def do_s_res_H_def do_s_res_HT_def do_s_res_HTT_def
      do_s_resHTTP_def do_s_res_firstHTTP_major_def do_s_resHTTP_major_def do_s_res_firstHTTP_minor_def
      do_s_resHTTP_minor_def do_s_res_first_status_code_def do_s_res_status_code_def do_s_res_status_start_def
      do_s_res_line_almost_done_def do_s_reqHTTP_start_def do_s_reqHTTP_H_def do_s_reqHTTP_HT_def
      do_s_reqHTTP_HTT_def do_s_reqHTTPHTTP_def do_s_req_firstHTTP_major_def do_s_reqHTTP_major_def
      do_s_req_firstHTTP_minor_def do_s_reqHTTP_minor_def do_s_req_line_almost_done_def split: if_splits)

lemma parse_url_part_states:
  "parse_url_server ch = s_dead \<or> parse_url_server ch \<in> set url_states"
  "parse_url_query ch = s_dead \<or> parse_url_query ch \<in> set url_states"
  by (simp_all add: parse_url_server_def parse_url_query_def url_states_def)

lemma parse_url_char_states: "parse_url_char s ch = s_dead \<or> parse_url_char s ch \<in> set url_states"
proof (cases "ch = SP \<or> ch = CR \<or> ch = LF \<or> ch = HT \<or> ch = CHR 0x0C")
  case True
  then show ?thesis by (auto simp: parse_url_char_def)
next
  case False
  have u: "s_req_path \<in> set url_states" "s_req_schema \<in> set url_states" "s_req_schema_slash \<in> set url_states"
    "s_req_schema_slash_slash \<in> set url_states" "s_req_server_start \<in> set url_states"
    "s_req_query_string_start \<in> set url_states" "s_req_fragment_start \<in> set url_states" "s_req_fragment \<in> set url_states"
    by (simp_all add: url_states_def)
  from False show ?thesis
    using parse_url_part_states [of ch] by (cases s) (simp_all add: parse_url_char_def u)
qed

lemma numbers_ok_simps [simp]:
  "numbers_ok (p\<lparr>state := s\<rparr>) = numbers_ok p" "numbers_ok (p\<lparr>header_state := h\<rparr>) = numbers_ok p"
  "numbers_ok (p\<lparr>flags := f\<rparr>) = numbers_ok p" "numbers_ok (p\<lparr>index := i\<rparr>) = numbers_ok p"
  "numbers_ok (p\<lparr>upgrade := u\<rparr>) = numbers_ok p" "numbers_ok (p\<lparr>method := m\<rparr>) = numbers_ok p"
  "numbers_ok (p\<lparr>parser_type := t\<rparr>) = numbers_ok p" "numbers_ok (p\<lparr>errno := e\<rparr>) = numbers_ok p"
  by (simp_all add: numbers_ok_def)

lemma url_state_ok:
  assumes "s \<in> set url_states"
  shows "mark_of s = Some M_url" and "state p = s \<Longrightarrow> state_ok k p"
  using assms by (auto simp: url_states_def mark_of_def state_ok_def)

text \<open>Staying inside the URL, with the mark set.\<close>

lemma good_url:
  assumes c: "numbers_ok (parser c1)" "errno (parser c1) = HPE_OK" "pos c1 = pos c" "pos c < length (buf E)"
    and m: "\<And>k m. mark c1 k = Some m \<Longrightarrow> k = M_url \<and> m \<le> pos c"
    and s: "state (parser c1) = s_dead \<or> state (parser c1) \<in> set url_states"
  shows "good E c (if state (parser c1) = s_dead then fail HPE_INVALID_URL c1 else Next c1)"
  using c m s url_state_ok(1) [of "state (parser c1)"] url_state_ok(2) [of "state (parser c1)" "parser c1" 0]
  by (auto simp: good.simps fail_def upd_def ctx_ok_def marks_ok_def wf_parser_def)

lemma good_req_schema:
  assumes "ctx_ok 1 E c" and "state (parser c) \<in> set url_states"
  shows "good E c (do_s_req_schema ch c)"
proof -
  have "good E c (fail HPE_INVALID_URL c)" using assms(1) by (simp add: good.simps fail_def upd_def ctx_ok_def)
  moreover have "good E c (if state (parser c1) = s_dead then fail HPE_INVALID_URL c1 else Next c1)"
    if "c1 = upd (\<lambda>p. p\<lparr>state := parse_url_char (state p) ch\<rparr>) c" for c1
    by (rule good_url) (use that assms url_state_ok(1) [OF assms(2)] parse_url_char_states in
        \<open>auto simp: good.simps upd_def ctx_ok_def wf_parser_def marks_ok_def\<close>)
  ultimately show ?thesis by (simp add: do_s_req_schema_def Let_def)
qed

lemma good_req_spaces:
  assumes "ctx_ok 1 E c" and "state (parser c) = s_req_spaces_before_url"
  shows "good E c (do_s_req_spaces_before_url ch c)"
proof -
  have nm: "mark c k = None" for k using assms by (cases "mark c k") (auto simp: ctx_ok_def marks_ok_def mark_of_def url_states_def)
  have "good E c (Next c)" using assms by (auto simp: good.simps ctx_ok_def wf_parser_def state_ok_def)
  moreover have "good E c (if state (parser c1) = s_dead then fail HPE_INVALID_URL c1 else Next c1)"
    if "c1 = upd (\<lambda>p. p\<lparr>state := parse_url_char (state p) ch\<rparr>)
       (if method (parser (MARK M_url c)) = HTTP_CONNECT then set_state s_req_server_start (MARK M_url c) else MARK M_url c)" for c1
    by (rule good_url) (use that nm assms parse_url_char_states in
        \<open>auto simp: good.simps upd_def MARK_def ctx_ok_def wf_parser_def split: if_splits\<close>)
  ultimately show ?thesis by (simp add: do_s_req_spaces_before_url_def Let_def)
qed

text \<open>The method matcher stays inside the strings it compares with.\<close>

lemma c_string_at_Some: "c_string_at s i = Some ch \<Longrightarrow> ch \<noteq> NUL \<Longrightarrow> i < length s"
  by (auto simp: c_string_at_def split: if_splits)

lemma c_string_at_total: "i \<le> length s \<Longrightarrow> \<exists>m. c_string_at s i = Some m"
  by (simp add: c_string_at_def)

lemma switch_method_length: "switch_method m i ch = Some m' \<Longrightarrow> i < length (method_string m')"
  by (auto simp: switch_method_def split: if_splits)

lemma method_string_length: "length (method_string m) \<le> 11"
  by (cases m) simp_all

lemma good_req_method:
  assumes ok: "ctx_ok 1 E c" and st: "state (parser c) = s_req_method"
  shows "good E c (do_s_req_method ch c)"
proof -
  let ?p = "parser c"
  from ok st have i: "index ?p \<le> length (method_string (method ?p))"
    by (simp add: ctx_ok_def wf_parser_def state_ok_def)
  then obtain m where m: "c_string_at (method_string (method ?p)) (index ?p) = Some m"
    using c_string_at_total by blast
  have w: "(index ?p + 1) mod 256 = index ?p + 1"
    using i method_string_length [of "method ?p"] by simp
  show ?thesis
    using ok st m i c_string_at_Some [OF m] switch_method_length [of "method ?p" "index ?p" ch]
    unfolding do_s_req_method_def Let_def m
    by (auto simp: step_defs w split: option.splits)
qed

text \<open>Matching a header name or value never reads behind the pattern.\<close>

lemma good_set_header_state:
  assumes "ctx_ok 1 E c" and "c' = upd (\<lambda>p. p\<lparr>index := i\<rparr>) c \<or> c' = c"
    and "state (parser c) = s_header_field \<and> h \<in> set field_states \<or>
     state (parser c) = s_header_value \<and> h \<noteq> h_connection \<and> h \<noteq> h_transfer_encoding"
  shows "good E c (Next (set_header_state h c'))"
  using assms by (auto simp: good.simps upd_def ctx_ok_def wf_parser_def state_ok_def marks_ok_def)

lemma good_same_header_state:
  assumes "ctx_ok 1 E c" and "c' = upd (\<lambda>p. p\<lparr>index := i\<rparr>) c \<or> c' = c"
    and "state (parser c) = s_header_field \<or> state (parser c) = s_header_value"
  shows "good E c (Next c')"
  using assms by (auto simp: good.simps upd_def ctx_ok_def wf_parser_def state_ok_def marks_ok_def)

lemma good_match_step:
  assumes ok: "ctx_ok 1 E c" and st: "state (parser c) = s_header_field \<and> hit \<in> set field_states \<or>
     state (parser c) = s_header_value \<and> hit \<noteq> h_connection \<and> hit \<noteq> h_transfer_encoding"
  shows "good E c (match_step pat hit t c)"
proof -
  let ?i = "(index (parser c) + 1) mod 256"
  let ?c = "upd (\<lambda>p. p\<lparr>index := (index p + 1) mod 256\<rparr>) c"
  have c: "?c = upd (\<lambda>p. p\<lparr>index := ?i\<rparr>) c" by (simp add: upd_def)
  have g: "good E c (Next (set_header_state h_general ?c))"
    by (rule good_set_header_state [OF ok, of _ ?i]) (use c st in \<open>auto simp: field_states_def\<close>)
  have h: "good E c (Next (set_header_state hit ?c))"
    by (rule good_set_header_state [OF ok, of _ ?i]) (use c st in auto)
  have n: "good E c (Next ?c)"
    by (rule good_same_header_state [OF ok, of _ ?i]) (use c st in auto)
  have e: "match_step pat hit t c =
      (if length pat < ?i then Next (set_header_state h_general ?c)
       else case c_string_at pat ?i of
              None \<Rightarrow> Abort
            | Some m \<Rightarrow> if t \<noteq> m then Next (set_header_state h_general ?c)
                        else if ?i = length pat + 1 - 2 then Next (set_header_state hit ?c) else Next ?c)"
    unfolding match_step_def Let_def by (simp add: upd_def)
  show ?thesis
  proof (cases "length pat < ?i")
    case True
    then show ?thesis unfolding e by (simp only: if_True g)
  next
    case False
    then obtain m where "c_string_at pat ?i = Some m" using c_string_at_total [of ?i pat] by auto
    with False show ?thesis unfolding e by (simp only: g h n option.case if_False split: if_split) simp
  qed
qed

lemma good_header_field_token:
  assumes ok: "ctx_ok 1 E c" and st: "state (parser c) = s_header_field"
  shows "good E c (header_field_token ch t c)"
proof -
  have f: "header_state (parser c) \<in> set field_states" using ok st by (simp add: ctx_ok_def wf_parser_def state_ok_def)
  have m: "hit \<in> set field_states \<Longrightarrow> good E c (match_step pat hit t c)" for hit pat
    using good_match_step [OF ok] st by blast
  let ?c = "upd (\<lambda>p. p\<lparr>index := (index p + 1) mod 256\<rparr>) c"
  have c: "?c = upd (\<lambda>p. p\<lparr>index := (index (parser c) + 1) mod 256\<rparr>) c" by (simp add: upd_def)
  have h: "h \<in> set field_states \<Longrightarrow> good E c (Next (set_header_state h c))"
    "h \<in> set field_states \<Longrightarrow> good E c (Next (set_header_state h ?c))" for h
    by (rule good_set_header_state [OF ok]; use st c in blast)+
  have n: "good E c (Next c)" by (rule good_same_header_state [OF ok]) (use st in auto)
  show ?thesis
    unfolding header_field_token_def Let_def
    by (cases "header_state (parser c)")
       (use f in \<open>simp_all add: m h n field_states_def del: One_nat_def add_Suc_right\<close>)
qed

lemma ULLONG: "ULLONG_MAX = 18446744073709551615"
  by (simp add: ULLONG_MAX_def)

lemma no_marks:
  assumes "ctx_ok k E c" and "mark_of (state (parser c)) = None"
  shows "mark c j = None"
  using assms by (cases "mark c j") (auto simp: ctx_ok_def marks_ok_def)

lemma good_header_value_start:
  assumes ok: "ctx_ok 1 E c" and st: "state (parser c) = s_header_value_start \<or> state (parser c) = s_header_value_discard_ws"
  shows "good E c (do_s_header_value_start ch c)"
proof -
  have nm: "mark c j = None" for j
    by (rule no_marks [OF ok]) (use st in \<open>auto simp: mark_of_def url_states_def\<close>)
  have n: "numbers_ok (parser c)" "errno (parser c) = HPE_OK" "pos c < length (buf E)"
    using ok by (auto simp: ctx_ok_def wf_parser_def)
  have m: "MARK M_header_value c = c\<lparr>mark := (\<lambda>_. None)(M_header_value \<mapsto> pos c)\<rparr>"
    using nm by (simp add: MARK_def fun_eq_iff)
  show ?thesis
    using n digit_bounds(1) [of ch] unfolding do_s_header_value_start_def Let_def m
    by (cases "header_state (parser c)")
       (auto simp: good.simps fail_def upd_def numbers_ok_def ctx_ok_def wf_parser_def state_ok_def marks_ok_def mark_of_def)
qed

lemma good_header_value_discard_ws:
  assumes ok: "ctx_ok 1 E c" and st: "state (parser c) = s_header_value_discard_ws"
  shows "good E c (do_s_header_value_discard_ws ch c)"
  using good_header_value_start [OF ok] ok st
  by (auto simp: good.simps do_s_header_value_discard_ws_def ctx_ok_def wf_parser_def state_ok_def upd_def marks_ok_def mark_of_def
       url_states_def)

lemma good_content_length_digit:
  assumes ok: "ctx_ok 1 E c" and st: "state (parser c) = s_header_value" and d: "IS_NUM ch"
    and h: "header_state (parser c) = h_content_length"
  shows "good E c (content_length_digit ch c)"
  using ok st h digit_bounds(1) [OF d]
  by (auto simp: good.simps content_length_digit_def Let_def fail_def upd_def ctx_ok_def wf_parser_def state_ok_def numbers_ok_def marks_ok_def mark_of_def)

lemma good_header_value_byte:
  assumes ok: "ctx_ok 1 E c" and st: "state (parser c) = s_header_value"
  shows "good E c (header_value_byte ch c)"
proof -
  have f: "header_state (parser c) \<noteq> h_connection" "header_state (parser c) \<noteq> h_transfer_encoding"
    using ok st by (simp_all add: ctx_ok_def wf_parser_def state_ok_def)
  have m: "hit \<noteq> h_connection \<Longrightarrow> hit \<noteq> h_transfer_encoding \<Longrightarrow> good E c (match_step pat hit t c)" for hit pat t
    using good_match_step [OF ok] st by blast
  have h: "good E c (Next (set_header_state h_general c))" "good E c (Next c)"
    "good E c (Next (upd (\<lambda>p. p\<lparr>state := s_header_value, header_state := h_general\<rparr>) c))"
    using ok st by (auto simp: good.simps upd_def ctx_ok_def wf_parser_def state_ok_def marks_ok_def)
  have e: "good E c (fail HPE_INVALID_CONTENT_LENGTH c)" using ok by (simp add: good.simps fail_def upd_def ctx_ok_def)
  show ?thesis
    using f unfolding header_value_byte_def Let_def
    by (cases "header_state (parser c)") (simp_all add: m h e good_content_length_digit [OF ok st])
qed

lemma good_header_states:
  assumes "ctx_ok 1 E c"
  shows "state (parser c) = s_header_field_start \<Longrightarrow> good E c (do_s_header_field_start ch c)"
    and "state (parser c) = s_header_almost_done \<Longrightarrow> good E c (do_s_header_almost_done ch c)"
    and "state (parser c) = s_header_value_lws \<Longrightarrow> good E c (do_s_header_value_lws ch c)"
    and "state (parser c) = s_header_value_discard_ws_almost_done \<Longrightarrow> good E c (do_s_header_value_discard_ws_almost_done ch c)"
  using assms
  by (auto simp: step_defs field_states_def do_s_header_field_start_def do_s_header_almost_done_def do_s_header_value_lws_def
      do_s_header_value_discard_ws_almost_done_def split: if_splits)

end
