(* ===== verification/HttpUrl.thy ===== *)
theory HttpUrl
  imports HttpInv
begin

text \<open>
  \<open>http_parser_parse_url\<close> and \<open>http_parse_host\<close> of \<^verbatim>\<open>suil/http/parser.cpp\<close>: the split of
  a URL into its fields.  The memory behind the URL is part of the model, since \<open>strtoul\<close>
  reads on, and so is the caller's structure, since its \<open>field_data\<close> is not cleared.  A read
  outside that memory is \<open>URL_crash\<close>.
\<close>

section \<open>The result structure\<close>

datatype url_field = UF_SCHEMA | UF_HOST | UF_PORT | UF_PATH | UF_QUERY | UF_FRAGMENT | UF_USERINFO

instantiation url_field :: enum
begin

definition enum_url_field :: "url_field list" where
  "enum_url_field = [UF_SCHEMA, UF_HOST, UF_PORT, UF_PATH, UF_QUERY, UF_FRAGMENT, UF_USERINFO]"

definition enum_all_url_field :: "(url_field \<Rightarrow> bool) \<Rightarrow> bool" where
  "enum_all_url_field P = list_all P enum_class.enum"

definition enum_ex_url_field :: "(url_field \<Rightarrow> bool) \<Rightarrow> bool" where
  "enum_ex_url_field P = list_ex P enum_class.enum"

instance
proof
  show univ: "(UNIV :: url_field set) = set enum_class.enum"
    by (auto simp: enum_url_field_def intro: url_field.exhaust)
  show "distinct (enum_class.enum :: url_field list)" by (simp add: enum_url_field_def)
  show "enum_class.enum_all P = Ball UNIV P" for P :: "url_field \<Rightarrow> bool"
    by (simp add: enum_all_url_field_def list_all_iff univ [symmetric])
  show "enum_class.enum_ex P = Bex UNIV P" for P :: "url_field \<Rightarrow> bool"
    by (simp add: enum_ex_url_field_def list_ex_iff univ [symmetric])
qed

end

text \<open>The bit mask \<open>field_set\<close> is a set of fields; \<open>off\<close> and \<open>len\<close> are 16 bits wide.\<close>

record http_parser_url =
  field_set :: "url_field set"
  port :: nat
  field_off :: "url_field \<Rightarrow> nat"
  field_len :: "url_field \<Rightarrow> nat"

datatype url_result = URL_ok http_parser_url | URL_error | URL_crash

text \<open>\<open>u->field_data[f].len++\<close>, and the start of a field.\<close>

definition inc_len :: "url_field \<Rightarrow> http_parser_url \<Rightarrow> http_parser_url" where
  "inc_len f u = u\<lparr>field_len := (field_len u)(f := (field_len u f + 1) mod 2 ^ 16)\<rparr>"

definition set_off :: "url_field \<Rightarrow> nat \<Rightarrow> http_parser_url \<Rightarrow> http_parser_url" where
  "set_off f i u = u\<lparr>field_off := (field_off u)(f := i mod 2 ^ 16)\<rparr>"

definition set_len :: "url_field \<Rightarrow> nat \<Rightarrow> http_parser_url \<Rightarrow> http_parser_url" where
  "set_len f n u = u\<lparr>field_len := (field_len u)(f := n)\<rparr>"

definition add_field :: "url_field \<Rightarrow> http_parser_url \<Rightarrow> http_parser_url" where
  "add_field f u = u\<lparr>field_set := insert f (field_set u)\<rparr>"

section \<open>The authority part\<close>

datatype http_host_state =
    sHTTP_host_dead | sHTTP_userinfo_start | sHTTP_userinfo | sHTTP_host_start
    | sHTTP_host_v6_start | sHTTP_host | sHTTP_host_v6 | sHTTP_host_v6_end
    | sHTTP_host_port_start | sHTTP_host_port

definition http_parse_host_char :: "http_host_state \<Rightarrow> char \<Rightarrow> http_host_state" where
  "http_parse_host_char s ch =
     (if s = sHTTP_userinfo \<or> s = sHTTP_userinfo_start then
        (if ch = CHR ''@'' then sHTTP_host_start
         else if IS_USERINFO_CHAR ch then sHTTP_userinfo else sHTTP_host_dead)
      else if s = sHTTP_host_start then
        (if ch = CHR ''['' then sHTTP_host_v6_start
         else if IS_HOST_CHAR ch then sHTTP_host else sHTTP_host_dead)
      else if s = sHTTP_host \<and> IS_HOST_CHAR ch then sHTTP_host
      else if s = sHTTP_host \<or> s = sHTTP_host_v6_end then
        (if ch = CHR '':'' then sHTTP_host_port_start else sHTTP_host_dead)
      else if s = sHTTP_host_v6 \<and> ch = CHR '']'' then sHTTP_host_v6_end
      else if s = sHTTP_host_v6 \<or> s = sHTTP_host_v6_start then
        (if IS_HEX ch \<or> ch = CHR '':'' \<or> ch = CHR ''.'' then sHTTP_host_v6 else sHTTP_host_dead)
      else if s = sHTTP_host_port \<or> s = sHTTP_host_port_start then
        (if IS_NUM ch then sHTTP_host_port else sHTTP_host_dead)
      else sHTTP_host_dead)"

text \<open>The \<open>switch (new_s)\<close> of \<open>http_parse_host\<close>.\<close>

definition host_fields :: "nat \<Rightarrow> http_host_state \<Rightarrow> http_host_state \<Rightarrow> http_parser_url \<Rightarrow> http_parser_url" where
  "host_fields p s new_s u =
     (case new_s of
        sHTTP_host \<Rightarrow> inc_len UF_HOST (if s \<noteq> sHTTP_host then set_off UF_HOST p u else u)
      | sHTTP_host_v6 \<Rightarrow> inc_len UF_HOST (if s \<noteq> sHTTP_host_v6 then set_off UF_HOST p u else u)
      | sHTTP_host_port \<Rightarrow> inc_len UF_PORT
          (if s \<noteq> sHTTP_host_port then add_field UF_PORT (set_len UF_PORT 0 (set_off UF_PORT p u)) else u)
      | sHTTP_userinfo \<Rightarrow> inc_len UF_USERINFO
          (if s \<noteq> sHTTP_userinfo
           then add_field UF_USERINFO (set_len UF_USERINFO 0 (set_off UF_USERINFO p u)) else u)
      | _ \<Rightarrow> u)"

definition host_incomplete :: "http_host_state list" where
  "host_incomplete = [sHTTP_host_start, sHTTP_host_v6_start, sHTTP_host_v6, sHTTP_host_port_start,
     sHTTP_userinfo, sHTTP_userinfo_start]"

text \<open>The loop of \<open>http_parse_host\<close> over the offsets \<open>p\<close> to \<open>n\<close> of the memory at \<open>buf\<close>.\<close>

function parse_host_loop :: "string \<Rightarrow> nat \<Rightarrow> nat \<Rightarrow> http_host_state \<Rightarrow> http_parser_url \<Rightarrow> url_result" where
  "parse_host_loop mem n p s u =
     (if p < n then
        (if p < length mem then
           (let new_s = http_parse_host_char s (mem ! p) in
            if new_s = sHTTP_host_dead then URL_error
            else parse_host_loop mem n (p + 1) new_s (host_fields p s new_s u))
         else URL_crash)
      else if s \<in> set host_incomplete then URL_error else URL_ok u)"
  by pat_completeness auto

termination parse_host_loop
  by (relation "measure (\<lambda>(mem, n, p, s, u). n - p)") auto

definition http_parse_host :: "string \<Rightarrow> http_parser_url \<Rightarrow> bool \<Rightarrow> url_result" where
  "http_parse_host mem u found_at =
     parse_host_loop mem (field_off u UF_HOST + field_len u UF_HOST) (field_off u UF_HOST)
       (if found_at then sHTTP_userinfo_start else sHTTP_host_start) (set_len UF_HOST 0 u)"

section \<open>The whole URL\<close>

datatype field_step = Dead | Skip | Field url_field | Unexpected

fun field_of :: "http_state \<Rightarrow> field_step" where
  "field_of s_dead = Dead"
| "field_of s_req_schema_slash = Skip"
| "field_of s_req_schema_slash_slash = Skip"
| "field_of s_req_server_start = Skip"
| "field_of s_req_query_string_start = Skip"
| "field_of s_req_fragment_start = Skip"
| "field_of s_req_schema = Field UF_SCHEMA"
| "field_of s_req_server_with_at = Field UF_HOST"
| "field_of s_req_server = Field UF_HOST"
| "field_of s_req_path = Field UF_PATH"
| "field_of s_req_query_string = Field UF_QUERY"
| "field_of s_req_fragment = Field UF_FRAGMENT"
| "field_of _ = Unexpected"

record url_loop =
  url_state :: http_state
  old_uf :: "url_field option"
  found_at :: bool
  url_data :: http_parser_url

datatype url_step = Url_next url_loop | Url_fail | Url_crash

text \<open>The body of the loop of \<open>http_parser_parse_url\<close> on the byte at offset \<open>i\<close>.\<close>

definition parse_url_step :: "nat \<Rightarrow> char \<Rightarrow> url_loop \<Rightarrow> url_step" where
  "parse_url_step i ch l =
     (let s = parse_url_char (url_state l) ch;
          l1 = l\<lparr>url_state := s, found_at := found_at l \<or> s = s_req_server_with_at\<rparr>
      in case field_of s of
           Dead \<Rightarrow> Url_fail
         | Skip \<Rightarrow> Url_next l1
         | Unexpected \<Rightarrow> Url_crash
         | Field uf \<Rightarrow>
             if Some uf = old_uf l then Url_next (l1\<lparr>url_data := inc_len uf (url_data l)\<rparr>)
             else Url_next (l1\<lparr>old_uf := Some uf,
                              url_data := add_field uf (set_len uf 1 (set_off uf i (url_data l)))\<rparr>))"

fun parse_url_loop :: "nat \<Rightarrow> string \<Rightarrow> url_loop \<Rightarrow> url_step" where
  "parse_url_loop i [] l = Url_next l"
| "parse_url_loop i (ch # cs) l =
     (case parse_url_step i ch l of
        Url_next l' \<Rightarrow> parse_url_loop (i + 1) cs l'
      | r \<Rightarrow> r)"

text \<open>\<open>strtoul(buf + off, NULL, 10)\<close> where the first byte is a digit: the digits up to the
  first other byte, which has to exist.  A value that does not fit is \<open>ULONG_MAX\<close>.\<close>

definition strtoul10 :: "string \<Rightarrow> nat \<Rightarrow> nat option" where
  "strtoul10 mem off =
     (let ds = takeWhile IS_NUM (drop off mem) in
      if off + length ds < length mem
      then Some (min (foldl (\<lambda>v ch. v * 10 + (ucode ch - ucode CHR ''0'')) 0 ds) (2 ^ 64 - 1))
      else None)"

definition parse_url_port :: "string \<Rightarrow> http_parser_url \<Rightarrow> url_result" where
  "parse_url_port mem u =
     (if UF_PORT \<in> field_set u then
        (case strtoul10 mem (field_off u UF_PORT) of
           None \<Rightarrow> URL_crash
         | Some v \<Rightarrow> if v > 65535 then URL_error else URL_ok (u\<lparr>port := v\<rparr>))
      else URL_ok u)"

text \<open>\<open>mem\<close> is the memory from \<open>buf\<close> on, of which \<open>buflen\<close> bytes are the URL, and \<open>u\<close>
  the structure of the caller, whose \<open>field_data\<close> is not cleared.\<close>

definition http_parser_parse_url :: "string \<Rightarrow> nat \<Rightarrow> bool \<Rightarrow> http_parser_url \<Rightarrow> url_result" where
  "http_parser_parse_url mem buflen is_connect u =
     (if length mem < buflen then URL_crash
      else case parse_url_loop 0 (take buflen mem)
          \<lparr>url_state = (if is_connect then s_req_server_start else s_req_spaces_before_url), old_uf = None,
           found_at = False, url_data = u\<lparr>port := 0, field_set := {}\<rparr>\<rparr> of
        Url_crash \<Rightarrow> URL_crash
      | Url_fail \<Rightarrow> URL_error
      | Url_next l \<Rightarrow>
          (case (if UF_SCHEMA \<in> field_set (url_data l) \<or> UF_HOST \<in> field_set (url_data l)
                 then http_parse_host mem (url_data l) (found_at l) else URL_ok (url_data l)) of
             URL_ok u2 \<Rightarrow>
               if is_connect \<and> field_set u2 \<noteq> {UF_HOST, UF_PORT} then URL_error
               else parse_url_port mem u2
           | r \<Rightarrow> r))"

definition http_parser_version :: nat where
  "http_parser_version = 2 * 0x10000 OR 3 * 0x00100 OR 0 * 0x00001"

section \<open>Fields stay inside the URL\<close>









declare parse_host_loop.simps [simp del]










section \<open>The properties\<close>


definition cleared_url :: http_parser_url where
  "cleared_url = \<lparr>field_set = {}, port = 0, field_off = (\<lambda>_. 0), field_len = (\<lambda>_. 0)\<rparr>"


text \<open>With a schema and no host, http_parser_parse_url parses the host field of the
  structure it was given, which it has not set: a structure that was not cleared makes it read
  behind the URL.\<close>
theorem http_parse_url_stale_host:
  "\<exists>u. http_parser_parse_url (''ab'' @ [NUL]) 2 False u = URL_error \<and>
     http_parser_parse_url (''ab'' @ [NUL]) 2 False (u\<lparr>field_off := (\<lambda>_. 9), field_len := (\<lambda>_. 1)\<rparr>) = URL_crash"
proof -
  have s: "parse_url_char s_req_spaces_before_url CHR ''a'' = s_req_schema"
    "parse_url_char s_req_schema CHR ''b'' = s_req_schema" by code_simp+
  note run = http_parser_parse_url_def parse_url_step_def http_parse_host_def parse_host_loop.simps
    host_incomplete_def inc_len_def add_field_def set_len_def set_off_def cleared_url_def Let_def s numeral_2_eq_2
  have "http_parser_parse_url (''ab'' @ [NUL]) 2 False cleared_url = URL_error"
    by (simp add: run)
  moreover have "http_parser_parse_url (''ab'' @ [NUL]) 2 False
      (cleared_url\<lparr>field_off := (\<lambda>_. 9), field_len := (\<lambda>_. 1)\<rparr>) = URL_crash"
    by (simp add: run)
  ultimately show ?thesis by blast
qed

end
