(* ===== verification/HttpSafe.thy ===== *)
theory HttpSafe
  imports HttpInv
begin

text \<open>
  Safety of \<open>http_parser_execute\<close>: for lawful callbacks the handlers that run them keep
  the invariant of \<^verbatim>\<open>HttpInv\<close>, \<open>reexecute_byte\<close> and the byte loop end, no assertion
  fails and nothing outside the buffer or the method and header strings is read.
  The interface to the callbacks is the locale \<open>http_callbacks\<close>.
\<close>

section \<open>Chunks and bodies without callbacks\<close>

lemma mark_bound:
  assumes "\<forall>k m. mark c k = Some m \<longrightarrow> P k \<and> m \<le> pos c" and "mark c k = Some m" and "pos c \<le> l"
  shows "m \<le> l"
  using assms by (meson le_trans)

lemma good_body_states:
  assumes "ctx_ok 1 E c"
  shows "state (parser c) = s_body_identity_eof \<Longrightarrow> good E c (do_s_body_identity_eof E c)"
    and "state (parser c) = s_chunk_parameters \<Longrightarrow> good E c (do_s_chunk_parameters ch c)"
    and "state (parser c) = s_chunk_size_almost_done \<Longrightarrow> good E c (do_s_chunk_size_almost_done ch c)"
    and "state (parser c) = s_chunk_data \<Longrightarrow> good E c (do_s_chunk_data E c)"
    and "state (parser c) = s_chunk_data_done \<Longrightarrow> good E c (do_s_chunk_data_done ch c)"
  using assms
  by (auto simp: step_defs do_s_body_identity_eof_def do_s_chunk_parameters_def do_s_chunk_size_almost_done_def
     do_s_chunk_data_def do_s_chunk_data_done_def ULLONG split: if_splits)
    (erule (1) mark_bound, linarith)+

lemma unhex_range: "unhex ! ucode ch = -1 \<or> 0 \<le> unhex ! ucode ch \<and> unhex ! ucode ch \<le> 15"
proof -
  have "list_all (\<lambda>v. v = -1 \<or> 0 \<le> v \<and> v \<le> 15) unhex" by code_simp
  moreover have "length unhex = 256" by code_simp
  ultimately show ?thesis by (simp add: list_all_length)
qed

lemma good_chunk_size:
  assumes "ctx_ok 1 E c"
  shows "state (parser c) = s_chunk_size_start \<Longrightarrow> good E c (do_s_chunk_size_start ch c)"
    and "state (parser c) = s_chunk_size \<Longrightarrow> good E c (do_s_chunk_size ch c)"
  using assms unhex_range [of ch]
  by (auto simp: step_defs ULLONG do_s_chunk_size_start_def do_s_chunk_size_def split: if_splits)

section \<open>The handlers that run callbacks\<close>

locale http_callbacks =
  fixes S :: "'a http_parser_settings"
  assumes begin_lawful: "cb_lawful keeps (on_message_begin S)"
    and headers_lawful: "cb_lawful keeps (on_headers_complete S)"
    and complete_lawful: "cb_lawful keeps_but_length (on_message_complete S)"
    and data_callbacks_lawful: "data_lawful (data_callback S kind)"
begin

text \<open>\<open>message_begin\<close> in a state without requirements.\<close>

lemma good_begin:
  assumes E: "settings E = S" and c: "ctx_ok 0 E c1" "pos c1 = pos c"
  shows "good E c (message_begin E c1 Next)"
  unfolding CALLBACK_NOTIFY_def E
proof (rule good_notify [OF begin_lawful])
  fix p' assume k: "keeps (parser c1) p'"
  show "wf_parser 0 p'" using wf_keeps [OF _ k] c by (simp add: ctx_ok_def)
  assume "errno p' = HPE_OK"
  with k c wf_keeps [OF _ k] show "good E c (Next (c1\<lparr>parser := p'\<rparr>))"
    by (auto simp: good.simps ctx_ok_def marks_ok_def elim!: keepsE)
qed (use c in \<open>auto simp: good.simps ctx_ok_def\<close>)

lemma good_start_states:
  assumes "settings E = S" and "ctx_ok 1 E c"
  shows "state (parser c) = s_start_res \<Longrightarrow> good E c (do_s_start_res E ch c)"
    and "state (parser c) = s_start_req_or_res \<Longrightarrow> good E c (do_s_start_req_or_res E ch c)"
  unfolding do_s_start_res_def do_s_start_req_or_res_def Let_def
  using assms
  by (auto intro!: good_begin simp: step_defs ULLONG no_flags_def)

lemma good_start_req:
  assumes "settings E = S" and "ctx_ok 1 E c" and st: "state (parser c) = s_start_req"
  shows "good E c (do_s_start_req E ch c)"
proof -
  have "0 < length (method_string m)" for m by (cases m) simp_all
  then have l: "Suc 0 \<le> length (method_string m)" for m by (simp add: Suc_le_eq)
  show ?thesis
    using assms l unfolding do_s_start_req_def Let_def
    by (auto intro!: good_begin simp: step_defs ULLONG no_flags_def split: option.splits)
qed

text \<open>A data callback that ends an element: the marks are clear afterwards.\<close>

lemma good_end_element:
  assumes E: "settings E = S" and n: "wf_parser 0 (parser c1)" "errno (parser c1) = HPE_OK"
    and p: "pos c \<le> pos c1" "pos c1 < length (buf E)" "er \<le> length (buf E)"
    and m: "\<And>j m. mark c1 j = Some m \<Longrightarrow> j = kind"
    and k: "k = Next \<or> k = Reexec \<and> wf_parser 1 (parser c1) \<and> rank (state (parser c1)) < rank (state (parser c))"
  shows "good E c (CALLBACK_DATA_AT E kind len er c1 k)"
proof (rule good_data)
  show "data_lawful (data_callback (settings E) kind)" unfolding E by (rule data_callbacks_lawful)
  fix p' assume kp: "keeps (parser c1) p'" and ok: "errno p' = HPE_OK"
  have "wf_parser 0 p'" by (rule wf_keeps [OF n(1) kp])
  moreover have "wf_parser 1 (parser c1) \<Longrightarrow> wf_parser 1 p'" by (rule wf_keeps [OF _ kp])
  moreover have "state p' = state (parser c1)" using kp by (auto elim: keepsE)
  ultimately show "good E c (k (c1\<lparr>parser := p', mark := (\<lambda>_. None)\<rparr>))"
    using k p ok by (auto simp: good.simps ctx_ok_def marks_ok_def)
qed (use n p m in auto)

lemma only_mark:
  assumes "ctx_ok k E c" and "mark_of (state (parser c)) = Some kind" and "mark c j = Some m"
  shows "j = kind"
  using assms by (auto simp: ctx_ok_def marks_ok_def)

lemma good_element_states:
  assumes E: "settings E = S" and c: "ctx_ok 1 E c"
  shows "state (parser c) = s_res_status \<Longrightarrow> good E c (do_s_res_status E ch c)"
    and "state (parser c) = s_header_value_discard_lws \<Longrightarrow> good E c (do_s_header_value_discard_lws E ch c)"
    and "state (parser c) = s_chunk_data_almost_done \<Longrightarrow> good E c (do_s_chunk_data_almost_done E ch c)"
proof -
  note defs = CALLBACK_DATA_def CALLBACK_DATA_NOADVANCE_def
  show "good E c (do_s_res_status E ch c)" if "state (parser c) = s_res_status"
    using c that only_mark [OF c] unfolding do_s_res_status_def defs
    by (auto intro!: good_end_element [OF E] simp: upd_def mark_of_def ctx_ok_def wf_parser_def state_ok_def url_states_def)
       (auto simp: good.simps ctx_ok_def wf_parser_def state_ok_def)
  show "good E c (do_s_header_value_discard_lws E ch c)" if st: "state (parser c) = s_header_value_discard_lws"
  proof -
    have nm: "mark c j = None" for j
      by (rule no_marks [OF c]) (use st in \<open>auto simp: mark_of_def url_states_def\<close>)
    show ?thesis
      using c st nm unfolding do_s_header_value_discard_lws_def defs
      by (auto intro!: good_end_element [OF E] simp: MARK_def upd_def ctx_ok_def wf_parser_def state_ok_def)
         (auto simp: good.simps ctx_ok_def wf_parser_def state_ok_def marks_ok_def split: if_splits)
  qed
  show "good E c (do_s_chunk_data_almost_done E ch c)" if "state (parser c) = s_chunk_data_almost_done"
    using c that only_mark [OF c] unfolding do_s_chunk_data_almost_done_def defs
    by (auto intro!: good_end_element [OF E] simp: upd_def mark_of_def ctx_ok_def wf_parser_def state_ok_def url_states_def
         assertion_def STRICT_CHECK_def fail_def good.simps)
qed

lemma good_req_url:
  assumes E: "settings E = S" and c: "ctx_ok 1 E c" and st: "state (parser c) \<in> set url_states"
  shows "good E c (do_s_req_url E ch c)"
proof -
  have u: "mark_of (state (parser c)) = Some M_url" by (rule url_state_ok(1) [OF st])
  have "good E c (CALLBACK_DATA E M_url (set_state s_reqHTTP_start c) Next)"
    unfolding CALLBACK_DATA_def
    by (rule good_end_element [OF E]) (use c only_mark [OF c u] in \<open>auto simp: upd_def ctx_ok_def wf_parser_def state_ok_def\<close>)
  moreover have "s = s_req_line_almost_done \<or> s = s_header_field_start \<Longrightarrow>
     good E c (CALLBACK_DATA E M_url (upd (\<lambda>p. p\<lparr>http_major := 0, http_minor := 9, state := s\<rparr>) c) Next)" for s
    unfolding CALLBACK_DATA_def
    by (rule good_end_element [OF E])
       (use c only_mark [OF c u] in \<open>auto simp: upd_def ctx_ok_def wf_parser_def state_ok_def numbers_ok_def\<close>)
  moreover have "good E c (if state (parser c1) = s_dead then fail HPE_INVALID_URL c1 else Next c1)"
    if "c1 = upd (\<lambda>p. p\<lparr>state := parse_url_char (state p) ch\<rparr>) c" for c1
    by (rule good_url) (use that c u parse_url_char_states in
        \<open>auto simp: good.simps upd_def ctx_ok_def wf_parser_def marks_ok_def\<close>)
  ultimately show ?thesis by (simp add: do_s_req_url_def Let_def)
qed

lemma good_header_field:
  assumes E: "settings E = S" and c: "ctx_ok 1 E c" and st: "state (parser c) = s_header_field"
  shows "good E c (do_s_header_field E ch c)"
proof -
  have u: "mark_of (state (parser c)) = Some M_header_field" by (simp add: st mark_of_def)
  have "s \<in> set [s_header_value_discard_ws, s_header_almost_done, s_header_field_start] \<Longrightarrow>
      good E c (CALLBACK_DATA E M_header_field (set_state s c) Next)" for s
    unfolding CALLBACK_DATA_def
    by (rule good_end_element [OF E]) (use c only_mark [OF c u] in \<open>auto simp: upd_def ctx_ok_def wf_parser_def state_ok_def\<close>)
  moreover have "good E c (fail HPE_INVALID_HEADER_TOKEN c)" using c by (simp add: good.simps fail_def upd_def ctx_ok_def)
  ultimately show ?thesis
    using good_header_field_token [OF c st] by (simp add: do_s_header_field_def Let_def)
qed

lemma good_header_value:
  assumes E: "settings E = S" and c: "ctx_ok 1 E c" and st: "state (parser c) = s_header_value"
  shows "good E c (do_s_header_value E ch c)"
proof -
  have u: "mark_of (state (parser c)) = Some M_header_value" by (simp add: st mark_of_def)
  have "good E c (CALLBACK_DATA E M_header_value (set_state s_header_almost_done c) Next)"
    "good E c (CALLBACK_DATA_NOADVANCE E M_header_value (set_state s_header_almost_done c) Reexec)"
    unfolding CALLBACK_DATA_def CALLBACK_DATA_NOADVANCE_def
    by (rule good_end_element [OF E]; use c st only_mark [OF c u] in \<open>auto simp: upd_def ctx_ok_def wf_parser_def state_ok_def\<close>)+
  then show ?thesis
    using good_header_value_byte [OF c st] by (simp add: do_s_header_value_def)
qed

lemma good_body_next:
  assumes "numbers_ok (parser c')" "errno (parser c') = HPE_OK" "state (parser c') = s_body_identity"
    "content_length (parser c') \<noteq> 0" "content_length (parser c') \<noteq> ULLONG_MAX"
    and "\<And>j m. mark c' j = Some m \<Longrightarrow> j = M_body" "\<And>j m. mark c' j = Some m \<Longrightarrow> m \<le> pos c'"
    and "pos c \<le> pos c'" "pos c' < length (buf E)"
  shows "good E c (Next c')"
  using assms by (auto simp: good.simps ctx_ok_def wf_parser_def state_ok_def marks_ok_def mark_of_def url_states_def)

lemma good_body_identity:
  assumes E: "settings E = S" and c: "ctx_ok 1 E c" and st: "state (parser c) = s_body_identity"
  shows "good E c (do_s_body_identity E c)"
proof -
  let ?cl = "content_length (parser c)"
  let ?r = "min ?cl (length (buf E) - pos c)"
  let ?c1 = "upd (\<lambda>p. p\<lparr>content_length := content_length p - ?r\<rparr>) (MARK M_body c)"
  let ?c2 = "?c1\<lparr>pos := pos ?c1 + ?r - 1\<rparr>"
  have u: "mark_of (state (parser c)) = Some M_body" by (simp add: st mark_of_def url_states_def)
  have cl: "?cl \<noteq> 0" "?cl \<noteq> ULLONG_MAX" "?cl < 2 ^ 64" "pos c < length (buf E)"
    using c st by (auto simp: ctx_ok_def wf_parser_def state_ok_def numbers_ok_def)
  then have r: "1 \<le> ?r" "?r \<le> length (buf E) - pos c" "?r \<le> ?cl" by auto
  have o: "j = M_body" if "mark ?c2 j = Some m" for j m
    using that only_mark [OF c u] by (auto simp: MARK_def upd_def split: if_splits)
  have b: "m \<le> pos ?c2" if "mark ?c2 j = Some m" for j m
  proof -
    have "m \<le> pos c" using that c by (auto simp: MARK_def upd_def ctx_ok_def marks_ok_def split: if_splits)
    also have "\<dots> \<le> pos c + ?r - 1" using r(1) by linarith
    finally show ?thesis by (simp add: MARK_def upd_def)
  qed
  have p: "parser ?c2 = (parser c)\<lparr>content_length := ?cl - ?r\<rparr>" "pos ?c2 = pos c + ?r - 1"
    by (simp_all add: MARK_def upd_def)
  have pe: "pos c \<le> pos ?c2" "pos ?c2 < length (buf E)" using r cl(4) unfolding p by linarith+
  have n: "numbers_ok (parser ?c2)" "errno (parser ?c2) = HPE_OK"
    using c cl(3) unfolding p by (auto simp: ctx_ok_def wf_parser_def numbers_ok_def)
  have sp: "parser (set_state s_message_done ?c2) = (parser ?c2)\<lparr>state := s_message_done\<rparr>"
    "pos (set_state s_message_done ?c2) = pos ?c2" "mark (set_state s_message_done ?c2) = mark ?c2"
    by (simp_all add: upd_def)
  have "wf_parser k (parser (set_state s_message_done ?c2))" for k
    using n(1) unfolding sp wf_parser_def by (simp add: state_ok_def)
  then have "good E c (CALLBACK_DATA_AT E M_body (\<lambda>m. pos ?c2 - m + 1) (pos ?c2) (set_state s_message_done ?c2) Reexec)"
    using n(2) pe o unfolding sp
    by (intro good_end_element [OF E]) (simp_all only: sp, simp_all add: st)
  moreover have "good E c (Next ?c2)" if "content_length (parser ?c2) \<noteq> 0"
  proof (rule good_body_next [OF n(1,2) _ that])
    show "state (parser ?c2) = s_body_identity" using st unfolding p by simp
    show "content_length (parser ?c2) \<noteq> ULLONG_MAX" using r cl ULLONG unfolding p by (simp add: less_imp_diff_less)
  qed (use o b in \<open>blast intro: pe\<close>)+
  ultimately show ?thesis
    using cl unfolding do_s_body_identity_def Let_def assertion_def by auto
qed

text \<open>The end of a message: the parser starts over, or is dead.\<close>

lemma new_message_states: "NEW_MESSAGE p \<in> set [s_dead, s_start_req, s_start_res]"
  by (simp add: NEW_MESSAGE_def start_state_def)

lemma wf_keeps_but_length:
  assumes "keeps_but_length p p'" and "numbers_ok p" and "state p \<in> set [s_dead, s_start_req, s_start_res]"
  shows "wf_parser k p'" and "state p' = state p"
  using assms by (auto simp: keeps_but_length_def wf_parser_def numbers_ok_def state_ok_def)

lemma good_message_complete:
  assumes E: "settings E = S" and n: "numbers_ok (parser c1)" "errno (parser c1) = HPE_OK"
    and nm: "\<And>j. mark c1 j = None" and p: "pos c1 = pos c" "pos c < length (buf E)"
    and k: "k = Next \<or> k = (\<lambda>c'. Return (parser c') (pos c' + 1)) \<and> upgrade (parser c1)"
  shows "good E c (message_complete E (new_message c1) k)"
proof -
  let ?c = "new_message c1"
  have s: "state (parser ?c) \<in> set [s_dead, s_start_req, s_start_res]"
    unfolding new_message_def upd_def using new_message_states by simp
  have c: "numbers_ok (parser ?c)" "errno (parser ?c) = HPE_OK" "pos ?c = pos c" "mark ?c = mark c1"
    using n p by (simp_all add: new_message_def upd_def)
  have ok: "wf_parser 0 p' \<and> upgrade p' = upgrade (parser c1)" if "keeps_but_length (parser ?c) p'" for p'
    using wf_keeps_but_length [OF that c(1) s] that
    by (auto simp: keeps_but_length_def new_message_def upd_def)
  have fin: "good E c (k (?c\<lparr>parser := p'\<rparr>))"
    if "wf_parser 0 p'" "errno p' = HPE_OK" "upgrade p' = upgrade (parser c1)" for p'
    using that k c nm p by (auto simp: good.simps ctx_ok_def marks_ok_def)
  have "wf_parser 0 (parser ?c)" using c(1) s by (auto simp: wf_parser_def state_ok_def)
  then have none: "good E c (k ?c)" using fin [of "parser ?c"] c by (simp add: new_message_def upd_def)
  show ?thesis
    unfolding CALLBACK_NOTIFY_def E
    by (rule good_notify [OF complete_lawful]) (use c p ok fin none in auto)
qed

lemma good_message_done:
  assumes E: "settings E = S" and c: "ctx_ok 1 E c" and st: "state (parser c) = s_message_done"
  shows "good E c (do_s_message_done E c)"
  unfolding do_s_message_done_def
  by (rule good_message_complete [OF E])
     (use c st no_marks [OF c] in \<open>auto simp: ctx_ok_def wf_parser_def mark_of_def url_states_def\<close>)

lemma good_call_headers_complete:
  assumes E: "settings E = S" and n: "numbers_ok (parser c1)" "errno (parser c1) = HPE_OK" "state (parser c1) = s_headers_done"
    and nm: "\<And>j. mark c1 j = None" and p: "pos c1 = pos c" "pos c < length (buf E)" "0 < rank (state (parser c))"
  shows "good E c (call_headers_complete E c1)"
proof (cases "on_headers_complete S")
  case None
  then show ?thesis
    using n nm p by (auto simp: call_headers_complete_def E good.simps ctx_ok_def wf_parser_def state_ok_def marks_ok_def)
next
  case (Some f)
  obtain r q where f: "f (parser c1) = (r, q)" by fastforce
  have "keeps (parser c1) q"
    using headers_lawful Some n f unfolding cb_lawful_def by (metis snd_conv)
  then show ?thesis
    using n nm p Some f
    by (auto simp: call_headers_complete_def E Let_def good.simps ctx_ok_def wf_parser_def state_ok_def marks_ok_def numbers_ok_def
        elim!: keepsE)
qed

lemma good_headers_almost_done:
  assumes E: "settings E = S" and c: "ctx_ok 1 E c" and st: "state (parser c) = s_headers_almost_done"
  shows "good E c (do_s_headers_almost_done E ch c)"
proof -
  have nm: "mark c j = None" for j
    by (rule no_marks [OF c]) (use st in \<open>simp add: mark_of_def url_states_def\<close>)
  have "good E c (fail HPE_STRICT c)" using c by (simp add: good.simps fail_def upd_def ctx_ok_def)
  moreover have "good E c (message_complete E (new_message c) Next)"
    by (rule good_message_complete [OF E]) (use c nm in \<open>auto simp: ctx_ok_def wf_parser_def\<close>)
  moreover have "good E c (call_headers_complete E
      (upd (\<lambda>p. p\<lparr>state := s_headers_done, upgrade := F_UPGRADE (flags p) \<or> method p = HTTP_CONNECT\<rparr>) c))"
    by (rule good_call_headers_complete [OF E]) (use c nm st in \<open>auto simp: upd_def ctx_ok_def wf_parser_def\<close>)
  ultimately show ?thesis by (simp add: do_s_headers_almost_done_def STRICT_CHECK_def)
qed

lemma good_headers_done:
  assumes E: "settings E = S" and c: "ctx_ok 1 E c" and st: "state (parser c) = s_headers_done"
  shows "good E c (do_s_headers_done E ch c)"
proof -
  let ?c = "upd (\<lambda>p. p\<lparr>nread := 0\<rparr>) c"
  have nm: "mark c j = None" for j
    by (rule no_marks [OF c]) (use st in \<open>simp add: mark_of_def url_states_def\<close>)
  have f: "good E c (fail HPE_STRICT c)" using c by (simp add: good.simps fail_def upd_def ctx_ok_def)
  have m: "good E c (message_complete E (new_message ?c) Next)"
    "upgrade (parser c) \<Longrightarrow> good E c (message_complete E (new_message ?c) (\<lambda>c'. Return (parser c') (pos c' + 1)))"
    by (rule good_message_complete [OF E]; use c nm in \<open>auto simp: upd_def ctx_ok_def wf_parser_def numbers_ok_def\<close>)+
  have n: "good E c (Next (set_state s_chunk_size_start ?c))" if "F_CHUNKED (flags (parser c))"
    using that c nm by (auto simp: good.simps upd_def ctx_ok_def wf_parser_def numbers_ok_def state_ok_def marks_ok_def)
  have i: "good E c (Next (set_state s_body_identity ?c))"
    if "content_length (parser c) \<noteq> 0" "content_length (parser c) \<noteq> ULLONG_MAX"
    using that c nm by (auto simp: good.simps upd_def ctx_ok_def wf_parser_def numbers_ok_def state_ok_def marks_ok_def)
  have e: "good E c (Next (set_state s_body_identity_eof ?c))"
    using c nm by (auto simp: good.simps upd_def ctx_ok_def wf_parser_def numbers_ok_def state_ok_def marks_ok_def)
  have p: "parser ?c = (parser c)\<lparr>nread := 0\<rparr>" by (simp add: upd_def)
  show ?thesis
    unfolding do_s_headers_done_def STRICT_CHECK_def Let_def
    by (simp only: f m(1) n i e p http_parser.select_convs http_parser.update_convs split: if_split) (use m n i in auto)
qed

theorem good_exec_state:
  assumes E: "settings E = S" and c: "ctx_ok 1 E c"
  shows "good E c (exec_state E ch c)"
proof -
  note plain = good_line_states [OF c] good_req_method [OF c] good_req_spaces [OF c] good_req_schema [OF c]
    good_header_states [OF c] good_header_value_start [OF c] good_header_value_discard_ws [OF c]
    good_body_states [OF c] good_chunk_size [OF c]
  note calls = good_start_states [OF E c] good_start_req [OF E c] good_req_url [OF E c] good_header_field [OF E c]
    good_header_value [OF E c] good_element_states [OF E c] good_headers_almost_done [OF E c]
    good_headers_done [OF E c] good_body_identity [OF E c] good_message_done [OF E c]
  show ?thesis
    by (cases "state (parser c)") (simp_all add: exec_state_def plain calls url_states_def)
qed

end

section \<open>One byte\<close>

lemma good_trans:
  assumes "good E c' r" and "pos c \<le> pos c'" and "\<And>c2. r \<noteq> Reexec c2"
  shows "good E c r"
  using assms by (cases r) (auto simp: good.simps)


context http_callbacks
begin

lemma exec_byte_good:
  assumes E: "settings E = S" and "ctx_ok 1 E c"
  shows "\<exists>r. exec_byte E ch c = Some r \<and> good E c r \<and> (\<forall>c2. r \<noteq> Reexec c2)"
  using assms(2)
proof (induction "rank (state (parser c))" arbitrary: c rule: less_induct)
  case less
  note g = good_exec_state [OF E less.prems, of ch]
  show ?case
  proof (cases "exec_state E ch c")
    case (Reexec c')
    with g have c': "ctx_ok 1 E c'" "pos c \<le> pos c'" "rank (state (parser c')) < rank (state (parser c))"
      by (auto simp: good.simps)
    from less.hyps [OF c'(3,1)] obtain r where
      "exec_byte E ch c' = Some r" "good E c' r" "\<forall>c2. r \<noteq> Reexec c2" by blast
    then show ?thesis using Reexec good_trans [OF _ c'(2)] by (subst exec_byte.simps) auto
  qed (use g in \<open>subst exec_byte.simps; simp\<close>)+
qed

end

text \<open>The context in front of a byte.\<close>

definition between_ok :: "'a env \<Rightarrow> 'a ctx \<Rightarrow> bool" where
  "between_ok E c \<longleftrightarrow> wf_parser 0 (parser c) \<and> errno (parser c) = HPE_OK \<and> marks_ok c \<and>
     pos c \<le> length (buf E)"

lemma count_byte_good:
  assumes c: "between_ok E c" and p: "pos c < length (buf E)"
  shows "(\<exists>c1. count_byte c = Next c1 \<and> ctx_ok 1 E c1 \<and> pos c1 = pos c) \<or>
     (\<exists>c1. count_byte c = Error c1 \<and> errno (parser c1) = HPE_HEADER_OVERFLOW \<and> pos c1 = pos c)"
proof (cases "PARSING_HEADER (state (parser c))")
  case True
  have "nread (parser c) \<le> HTTP_MAX_HEADER_SIZE" using c by (simp add: between_ok_def wf_parser_def numbers_ok_def)
  then have w: "(nread (parser c) + 1) mod 2 ^ 32 = nread (parser c) + 1" by (simp add: HTTP_MAX_HEADER_SIZE_def)
  show ?thesis
  proof (cases "nread (parser c) + 1 > HTTP_MAX_HEADER_SIZE")
    case True
    with w \<open>PARSING_HEADER _\<close> show ?thesis by (simp add: count_byte_def Let_def upd_def fail_def)
  next
    case False
    have "ctx_ok 1 E (upd (\<lambda>p. p\<lparr>nread := (nread p + 1) mod 2 ^ 32\<rparr>) c)"
      using c p w False
      by (cases "state (parser c)")
        (auto simp: ctx_ok_def between_ok_def upd_def wf_parser_def numbers_ok_def state_ok_def marks_ok_def)
    with False w True show ?thesis by (simp add: count_byte_def Let_def upd_def)
  qed
next
  case False
  then have "state (parser c) \<noteq> s_chunk_size_start"
    by (auto simp: PARSING_HEADER_def less_eq_http_state_def)
  then have "state_ok 1 (parser c) = state_ok 0 (parser c)" by (cases "state (parser c)") (simp_all add: state_ok_def)
  with False c p show ?thesis by (simp add: count_byte_def ctx_ok_def between_ok_def wf_parser_def)
qed

section \<open>The byte loop and the final callbacks\<close>

text \<open>What the loop may end with: at the end of the input, with a return, or at \<open>error\<close>.\<close>

fun loop_ok :: "'a env \<Rightarrow> 'a step \<Rightarrow> bool" where
  "loop_ok E (Next c) \<longleftrightarrow> between_ok E c \<and> pos c = length (buf E)"
| "loop_ok E (Return p n) \<longleftrightarrow> n \<le> length (buf E) \<and>
     (errno p = HPE_OK \<or> errno p = HPE_PAUSED \<longrightarrow> wf_parser 0 p) \<and> (errno p = HPE_OK \<longrightarrow> upgrade p)"
| "loop_ok E (Error c) \<longleftrightarrow> errno (parser c) \<noteq> HPE_OK \<and> errno (parser c) \<noteq> HPE_PAUSED \<and>
     pos c < length (buf E)"
| "loop_ok E _ \<longleftrightarrow> False"

context http_callbacks
begin

lemma exec_loop_ok:
  assumes E: "settings E = S" and "between_ok E c"
  shows "\<exists>r. exec_loop E c = Some r \<and> loop_ok E r"
  using assms(2)
proof (induction "length (buf E) - pos c" arbitrary: c rule: less_induct)
  case less
  show ?case
  proof (cases "pos c = length (buf E)")
    case True
    then show ?thesis using less.prems by (subst exec_loop.simps) simp
  next
    case False
    then have p: "pos c < length (buf E)" using less.prems by (simp add: between_ok_def)
    consider (o) c1 where "count_byte c = Error c1" "errno (parser c1) = HPE_HEADER_OVERFLOW" "pos c1 = pos c"
      | (n) c1 where "count_byte c = Next c1" "ctx_ok 1 E c1" "pos c1 = pos c"
      using count_byte_good [OF less.prems p] by blast
    then show ?thesis
    proof cases
      case o
      then show ?thesis using p by (subst exec_loop.simps) simp
    next
      case n
      obtain r where r: "exec_byte E (buf E ! pos c) c1 = Some r" "good E c1 r" "\<forall>c2. r \<noteq> Reexec c2"
        using exec_byte_good [OF E n(2)] by blast
      show ?thesis
      proof (cases r)
        case (Next c2)
        let ?c = "c2\<lparr>pos := pos c2 + 1\<rparr>"
        have "between_ok E ?c" "pos c < pos ?c" "pos ?c \<le> length (buf E)"
          using r Next n by (auto simp: good.simps ctx_ok_def between_ok_def marks_ok_def intro: le_SucI)
        then obtain r' where "exec_loop E ?c = Some r'" "loop_ok E r'"
          using less.hyps [of ?c] p by fastforce
        then show ?thesis using p n r Next by (subst exec_loop.simps) simp
      qed (use p n r in \<open>subst exec_loop.simps; simp add: good.simps\<close>)+
    qed
  qed
qed

end

section \<open>The end of a call\<close>

text \<open>A leftover mark is handed to its callback, then the call returns.\<close>

definition result_ok :: "nat \<Rightarrow> 'a exec_result \<Rightarrow> bool" where
  "result_ok len r \<longleftrightarrow> (\<exists>p n. r = Done p n \<and> n \<le> max 1 len \<and>
     (errno p = HPE_OK \<or> errno p = HPE_PAUSED \<longrightarrow> wf_parser 0 p) \<and>
     (errno p = HPE_OK \<longrightarrow> n = len \<or> upgrade p))"

definition one_mark :: "'a ctx \<Rightarrow> bool" where
  "one_mark c \<longleftrightarrow> (\<exists>k. \<forall>j m. mark c j = Some m \<longrightarrow> j = k)"

lemma one_mark_set: "one_mark c \<Longrightarrow> marks_set c \<le> 1"
  unfolding one_mark_def marks_set_def
  by (elim exE) (rename_tac k, case_tac k; auto)

lemma final_data:
  assumes S: "data_lawful (data_callback (settings E) kind)"
    and c: "wf_parser 0 (parser c)" "errno (parser c) = HPE_OK" "one_mark c" and p: "pos c = length (buf E)"
    and k: "\<And>c'. wf_parser 0 (parser c') \<Longrightarrow> errno (parser c') = HPE_OK \<Longrightarrow> one_mark c' \<Longrightarrow>
       pos c' = length (buf E) \<Longrightarrow> result_ok (length (buf E)) (finish (k c'))"
  shows "result_ok (length (buf E)) (finish (CALLBACK_DATA_NOADVANCE E kind c k))"
proof (cases "mark c kind")
  case None
  then show ?thesis using k [OF c p] c by (simp add: CALLBACK_DATA_NOADVANCE_def CALLBACK_DATA_AT_def assertion_def)
next
  case (Some m)
  have o: "one_mark (c\<lparr>mark := (mark c)(kind := None)\<rparr>)" "one_mark (c\<lparr>parser := q, mark := (mark c)(kind := None)\<rparr>)" for q
    using c(3) by (auto simp: one_mark_def)
  show ?thesis
  proof (cases "data_callback (settings E) kind")
    case None
    then show ?thesis using Some c p k o
      by (simp add: CALLBACK_DATA_NOADVANCE_def CALLBACK_DATA_AT_def assertion_def)
  next
    case f: (Some f)
    let ?s = "take (length (buf E) - m) (drop m (buf E))"
    obtain r q where r: "f ?s (parser c) = (r, q)" by fastforce
    have "keeps (parser c) q" using S f c(2) r unfolding data_lawful_def by (metis snd_conv)
    then have q: "wf_parser 0 q" and e: "errno q = HPE_OK \<or> errno q = HPE_PAUSED"
      using wf_keeps [OF c(1)] by (auto elim: keepsE)
    have "data_errno kind \<noteq> HPE_OK" "data_errno kind \<noteq> HPE_PAUSED" by (cases kind; simp)+
    then show ?thesis
      using Some f c p k o q e r
      by (auto simp: CALLBACK_DATA_NOADVANCE_def CALLBACK_DATA_AT_def assertion_def result_ok_def finish_def)
  qed
qed

context http_callbacks
begin

lemma final_callbacks_ok:
  assumes E: "settings E = S" and c: "between_ok E c" and p: "pos c = length (buf E)"
  shows "result_ok (length (buf E)) (finish (final_callbacks E c))"
proof -
  have o: "one_mark c"
    using c unfolding one_mark_def between_ok_def marks_ok_def
    by (intro exI [of _ "the (mark_of (state (parser c)))"]) auto
  have ret: "result_ok (length (buf E)) (finish (Return (parser c') (length (buf E))))"
    if "wf_parser 0 (parser c')" for c' :: "'a ctx"
    using that by (simp add: result_ok_def finish_def)
  have S: "data_lawful (data_callback (settings E) kind)" for kind
    unfolding E by (rule data_callbacks_lawful)
  show ?thesis
    using one_mark_set [OF o] c o p unfolding final_callbacks_def assertion_def between_ok_def
    by (auto intro!: final_data [OF S] ret)
qed

lemma execute_eof_ok:
  assumes E: "settings E = S" and p: "wf_parser 0 p" "errno p = HPE_OK" and b: "buf E = []"
  shows "result_ok 0 (execute_eof E p)"
proof -
  let ?c = "\<lparr>parser = p, mark = (\<lambda>_. None), pos = 0\<rparr> :: 'a ctx"
  let ?k = "\<lambda>c :: 'a ctx. Return (parser c) 0"
  let ?r = "CALLBACK_NOTIFY_AT (on_message_complete S) HPE_CB_message_complete 0 ?c ?k"
  have ret: "result_ok 0 (finish (Return q 0))" if "errno q = HPE_OK \<or> errno q = HPE_PAUSED \<longrightarrow> wf_parser 0 q" for q :: "'a http_parser"
    using that by (simp add: result_ok_def finish_def)
  have "result_ok 0 (finish ?r)" if st: "state p = s_body_identity_eof"
  proof (cases "on_message_complete S")
    case None
    then show ?thesis using p ret by (simp add: CALLBACK_NOTIFY_AT_def assertion_def)
  next
    case (Some f)
    obtain r q where r: "f p = (r, q)" by fastforce
    have "keeps_but_length p q" using complete_lawful Some p(2) r unfolding cb_lawful_def by (metis snd_conv)
    then have "wf_parser 0 q"
      using p(1) st by (auto simp: keeps_but_length_def wf_parser_def numbers_ok_def state_ok_def)
    then show ?thesis using p ret Some r
      by (auto simp: CALLBACK_NOTIFY_AT_def assertion_def Let_def)
  qed
  then show ?thesis using p unfolding execute_eof_def Let_def E by (auto simp: result_ok_def)
qed

lemma initial_between:
  assumes "wf_parser 0 p" "errno p = HPE_OK"
  shows "between_ok E \<lparr>parser = p, mark = initial_marks (state p), pos = 0\<rparr>"
  using assms
  by (auto simp: between_ok_def marks_ok_def initial_marks_def mark_of_def url_states_def split: mark_kind.splits if_splits)

theorem execute_ok:
  assumes p: "wf_parser 0 p"
  shows "\<exists>r. http_parser_execute S data p = Some r \<and>
     (errno p = HPE_OK \<longrightarrow> result_ok (length data) r) \<and> (errno p \<noteq> HPE_OK \<longrightarrow> r = Done p 0)"
proof -
  let ?E = "\<lparr>settings = S, buf = data\<rparr>"
  let ?c = "\<lparr>parser = p, mark = initial_marks (state p), pos = 0\<rparr>"
  consider (e) "errno p \<noteq> HPE_OK" | (z) "errno p = HPE_OK" "data = []" | (n) "errno p = HPE_OK" "data \<noteq> []" by blast
  then show ?thesis
  proof cases
    case z
    then show ?thesis using execute_eof_ok [of ?E p] p by (simp add: http_parser_execute_def)
  next
    case n
    obtain r where r: "exec_loop ?E ?c = Some r" "loop_ok ?E r"
      using exec_loop_ok [of ?E ?c] initial_between [OF p n(1)] by auto
    show ?thesis
    proof (cases r)
      case (Next c)
      then show ?thesis using n r final_callbacks_ok [of ?E c] by (simp add: http_parser_execute_def)
    qed (use n r in \<open>auto simp: http_parser_execute_def result_ok_def finish_def error_exit_def Let_def\<close>)
  qed (simp add: http_parser_execute_def)
qed

end

lemma wf_parser_init: "wf_parser k (http_parser_init t d)"
  by (simp add: wf_parser_def numbers_ok_def state_ok_def http_parser_init_def HTTP_MAX_HEADER_SIZE_def)

section \<open>Runs on concrete input\<close>

definition no_callbacks :: "'a http_parser_settings" where
  "no_callbacks = \<lparr>on_message_begin = None, on_url = None, on_status = None, on_header_field = None,
     on_header_value = None, on_headers_complete = None, on_body = None, on_message_complete = None\<rparr>"

lemma no_callbacks_lawful: "http_callbacks no_callbacks"
proof
  show "data_lawful (data_callback no_callbacks kind)" for kind
    by (cases kind) (simp_all add: data_lawful_def no_callbacks_def)
qed (simp_all add: cb_lawful_def no_callbacks_def)

lemma exec_loop_end: "pos c = length (buf E) \<Longrightarrow> exec_loop E c = Some (Next c)"
  by (subst exec_loop.simps) simp

lemma exec_loop_next:
  "pos c < length (buf E) \<Longrightarrow> exec_loop E c =
     (case count_byte c of
        Next c1 \<Rightarrow>
          (case exec_byte E (buf E ! pos c) c1 of
             None \<Rightarrow> None
           | Some (Next c2) \<Rightarrow> exec_loop E (c2\<lparr>pos := pos c2 + 1\<rparr>)
           | Some r \<Rightarrow> Some r)
      | r \<Rightarrow> Some r)"
  by (subst exec_loop.simps) simp

lemma exec_byte_run: "exec_byte E ch c =
     (case exec_state E ch c of Reexec c' \<Rightarrow> exec_byte E ch c' | r \<Rightarrow> Some r)"
  by (rule exec_byte.simps)

lemmas run_loop = http_parser_execute_def http_parser_init_def no_callbacks_def no_flags_def Let_def
  exec_loop_end exec_loop_next count_byte_def PARSING_HEADER_def less_eq_http_state_def HTTP_MAX_HEADER_SIZE_def upd_def
  exec_byte_run exec_state_def initial_marks_def url_states_def final_callbacks_def marks_set_def assertion_def
  CALLBACK_DATA_NOADVANCE_def CALLBACK_DATA_AT_def CALLBACK_DATA_def CALLBACK_NOTIFY_AT_def CALLBACK_NOTIFY_def MARK_def finish_def
  STRICT_CHECK_def fail_def ULLONG_MAX_def
lemmas run_char = IS_ALPHA_def IS_NUM_def LOWER_def between_def ucode_def
lemmas run_line = do_s_start_req_def do_s_req_method_def first_method_def switch_method_def c_string_at_def

definition after_GET :: "unit http_parser" where
  "after_GET = (http_parser_init HTTP_REQUEST ())\<lparr>state := s_req_method, index := 3, nread := 3,
     content_length := ULLONG_MAX\<rparr>"

lemma run_GET: "http_parser_execute no_callbacks ''GET'' (http_parser_init HTTP_REQUEST ()) = Some (Done after_GET 3)"
  by (simp add: run_loop run_char run_line after_GET_def)

lemma errno_init: "errno (http_parser_init t d) = HPE_OK" "errno after_GET = HPE_OK"
  by (simp_all add: http_parser_init_def after_GET_def)

section \<open>The properties\<close>

text \<open>C1: For lawful callbacks and a parser in a well-formed state, every call of
  http_parser_execute on every input returns: the byte loop and reexecute_byte end, no
  assertion of the code fails, and no byte outside the buffer or the comparison strings is
  read. The count it returns stays inside the buffer (1 is the error result of the call with
  length 0), and unless the parser is in error its state is well formed again, so that it can
  be called with the next buffer.\<close>
theorem http_execute_safe:
  assumes "http_callbacks S" and "wf_parser 0 p"
  shows "\<exists>p' n. http_parser_execute S data p = Some (Done p' n) \<and> n \<le> max 1 (length data) \<and>
     (errno p' = HPE_OK \<or> errno p' = HPE_PAUSED \<longrightarrow> wf_parser 0 p')"
  using http_callbacks.execute_ok [OF assms, of data] assms(2) unfolding result_ok_def
  by (cases "errno p = HPE_OK") auto

theorem http_execute_safe_witness:
  "\<exists>p' n. http_parser_execute no_callbacks ''GET'' (http_parser_init HTTP_REQUEST ()) = Some (Done p' n) \<and>
     n \<le> max 1 (length ''GET'') \<and> (errno p' = HPE_OK \<or> errno p' = HPE_PAUSED \<longrightarrow> wf_parser 0 p')"
  by (rule http_execute_safe [OF no_callbacks_lawful wf_parser_init])

text \<open>C17: A call of http_parser_execute that reports no error has consumed the whole
  buffer, unless the message asks for an upgrade of the connection.\<close>
theorem http_execute_consumes:
  assumes "http_callbacks S" and "wf_parser 0 p" and "errno p = HPE_OK"
    and "http_parser_execute S data p = Some (Done p' n)" and "errno p' = HPE_OK"
  shows "n = length data \<or> upgrade p'"
  using http_callbacks.execute_ok [OF assms(1,2), of data] assms unfolding result_ok_def by auto

theorem http_execute_consumes_witness: "(3 :: nat) = length ''GET'' \<or> upgrade after_GET"
  by (rule http_execute_consumes [OF no_callbacks_lawful wf_parser_init errno_init(1) run_GET errno_init(2)])

text \<open>C38: The header bytes of a message are counted without wrap-around and never exceed
  HTTP_MAX_HEADER_SIZE while the parser is not in error; the version numbers and the status
  code stay below 1000, and the content length fits its 64 bits.\<close>
theorem http_execute_bounds:
  assumes "http_callbacks S" and "wf_parser 0 p"
    and "http_parser_execute S data p = Some (Done p' n)" and "errno p' = HPE_OK"
  shows "nread p' \<le> 80 * 1024 \<and> http_major p' \<le> 999 \<and> http_minor p' \<le> 999 \<and> status_code p' \<le> 999 \<and>
     content_length p' < 2 ^ 64"
proof -
  have "wf_parser 0 p'"
    using http_callbacks.execute_ok [OF assms(1,2), of data] assms unfolding result_ok_def
    by (cases "errno p = HPE_OK") auto
  then show ?thesis by (simp add: wf_parser_def numbers_ok_def HTTP_MAX_HEADER_SIZE_def)
qed

theorem http_execute_bounds_witness:
  "nread after_GET \<le> 80 * 1024 \<and> http_major after_GET \<le> 999 \<and> http_minor after_GET \<le> 999 \<and>
     status_code after_GET \<le> 999 \<and> content_length after_GET < 2 ^ 64"
  by (rule http_execute_bounds [OF no_callbacks_lawful wf_parser_init run_GET errno_init(2)])

end
