(* ===== verification/Outcome.thy ===== *)
theory Outcome
  imports Prelude
begin

text \<open>
  What a C++ call of the code can end with, and raw memory.

  A call returns a value, throws one of the exceptions of \<^verbatim>\<open>suil/base.h\<close>, or does
  something the language does not define (a read or write outside an object, a read of a
  byte that was never written, a null pointer).  Memory is a list of cells, \<open>None\<close> for a
  byte that \<open>malloc\<close> or \<open>realloc\<close> left indeterminate.
\<close>

datatype exn =
    AccessViolation | OutOfRange | IndexOutOfBounds | InvalidArguments | UnsupportedOperation
    | AllocationFailure | KeyNotFound | OtherException

datatype 'a outcome = Value 'a | Throw exn | Undefined

fun bind_out :: "'a outcome \<Rightarrow> ('a \<Rightarrow> 'b outcome) \<Rightarrow> 'b outcome" where
  "bind_out (Value a) f = f a"
| "bind_out (Throw e) f = Throw e"
| "bind_out Undefined f = Undefined"

fun map_out :: "('a \<Rightarrow> 'b) \<Rightarrow> 'a outcome \<Rightarrow> 'b outcome" where
  "map_out f (Value a) = Value (f a)"
| "map_out f (Throw e) = Throw e"
| "map_out f Undefined = Undefined"

lemma bind_out_Value_iff: "bind_out m f = Value b \<longleftrightarrow> (\<exists>a. m = Value a \<and> f a = Value b)"
  by (cases m) simp_all

lemma bind_out_right [simp]: "bind_out m Value = m"
  by (cases m) simp_all

lemma bind_out_cong:
  "m = n \<Longrightarrow> (\<And>a. n = Value a \<Longrightarrow> f a = g a) \<Longrightarrow> bind_out m f = bind_out n g"
  by (cases n) simp_all

lemma bind_out_assoc: "bind_out (bind_out m f) g = bind_out m (\<lambda>a. bind_out (f a) g)"
  by (cases m) simp_all

lemma map_out_Value_iff: "map_out f m = Value b \<longleftrightarrow> (\<exists>a. m = Value a \<and> b = f a)"
  by (cases m) auto

lemma map_out_bind: "map_out f (bind_out x g) = bind_out x (\<lambda>a. map_out f (g a))"
  by (cases x) simp_all

lemma bind_out_map: "bind_out (map_out f x) g = bind_out x (\<lambda>a. g (f a))"
  by (cases x) simp_all

lemma map_out_map: "map_out f (map_out g x) = map_out (\<lambda>a. f (g a)) x"
  by (cases x) simp_all

lemmas out_algebra = map_out_bind bind_out_map map_out_map bind_out_assoc

type_synonym cells = "char option list"

definition known :: "string \<Rightarrow> cells" where
  "known s = map Some s"

definition rd :: "cells \<Rightarrow> nat \<Rightarrow> char outcome" where
  "rd m i = (if i < length m then (case m ! i of Some c \<Rightarrow> Value c | None \<Rightarrow> Undefined) else Undefined)"

definition wr :: "cells \<Rightarrow> nat \<Rightarrow> char \<Rightarrow> cells outcome" where
  "wr m i c = (if i < length m then Value (m[i := Some c]) else Undefined)"

text \<open>\<open>*p++ = c\<close> for each byte of a string.\<close>

fun wr_all :: "cells \<Rightarrow> nat \<Rightarrow> string \<Rightarrow> cells outcome" where
  "wr_all m i [] = Value m"
| "wr_all m i (c # cs) = bind_out (wr m i c) (\<lambda>m. wr_all m (i + 1) cs)"

text \<open>\<open>realloc\<close> to \<open>n\<close> bytes; \<open>None\<close> is the null pointer.\<close>

definition realloc :: "cells option \<Rightarrow> nat \<Rightarrow> cells" where
  "realloc m n =
     (case m of None \<Rightarrow> replicate n None | Some cs \<Rightarrow> take n cs @ replicate (n - length cs) None)"

lemma known_simps [simp]: "known [] = []" "known (c # s) = Some c # known s" "known (s @ t) = known s @ known t"
  "length (known s) = length s"
  by (simp_all add: known_def)

lemma known_eq_iff [simp]: "known s = known t \<longleftrightarrow> s = t"
  by (simp add: known_def inj_map_eq_map)

lemma rd_known [simp]: "i < length s \<Longrightarrow> rd (known s) i = Value (s ! i)"
  by (simp add: rd_def known_def)

lemma rd_known_append: "i < length s \<Longrightarrow> rd (known s @ m) i = Value (s ! i)"
  by (simp add: rd_def known_def nth_append)

lemma length_realloc [simp]: "length (realloc m n) = n"
  by (auto simp: realloc_def min_def split: option.splits)

lemma take_realloc: "k \<le> n \<Longrightarrow> k \<le> length cs \<Longrightarrow> take k (realloc (Some cs) n) = take k cs"
  by (simp add: realloc_def min_absorb1)

text \<open>Writing a string inside the memory replaces the cells at its place.\<close>

lemma wr_all_eq:
  assumes "i + length s \<le> length m"
  shows "wr_all m i s = Value (take i m @ known s @ drop (i + length s) m)"
  using assms
proof (induction s arbitrary: m i)
  case (Cons c cs)
  then have "i < length m" by simp
  then have "take (Suc i) (m[i := Some c]) = take i m @ [Some c]"
    by (simp add: take_Suc_conv_app_nth)
  with Cons.IH [of "i + 1" "m[i := Some c]"] Cons.prems show ?case by (simp add: wr_def)
qed simp

section \<open>Sinks\<close>

text \<open>Putting several strings one after the other, with the operation that puts one as a
  parameter, and the contract of a sink: up to a limit, what it holds grows by what is put.\<close>

fun put_all :: "(string \<Rightarrow> 's \<Rightarrow> 's outcome) \<Rightarrow> string list \<Rightarrow> 's \<Rightarrow> 's outcome" where
  "put_all put [] b = Value b"
| "put_all put (s # ss) b = bind_out (put s b) (put_all put ss)"

locale byte_sink =
  fixes put :: "string \<Rightarrow> 's \<Rightarrow> 's outcome"
    and got :: "'s \<Rightarrow> cells"
    and ok :: "'s \<Rightarrow> bool"
    and limit :: nat
  assumes put_ok: "ok b \<Longrightarrow> length (got b) + length s \<le> limit \<Longrightarrow>
    \<exists>b'. put s b = Value b' \<and> ok b' \<and> got b' = got b @ known s"
begin

lemma put_all_ok:
  "ok b \<Longrightarrow> length (got b) + length (concat ss) \<le> limit \<Longrightarrow>
   \<exists>b'. put_all put ss b = Value b' \<and> ok b' \<and> got b' = got b @ known (concat ss)"
proof (induction ss arbitrary: b)
  case (Cons s ss)
  then obtain b1 where b1: "put s b = Value b1" "ok b1" "got b1 = got b @ known s"
    using put_ok [of b s] by auto
  with Cons.IH [of b1] Cons.prems show ?case by auto
qed simp

text \<open>How the bytes are cut into calls does not matter.\<close>

lemma put_all_concat:
  assumes "ok b" and "length (got b) + length (concat ss) \<le> limit" and "concat ss = concat ts"
  shows "\<exists>b1 b2. put_all put ss b = Value b1 \<and> put_all put ts b = Value b2 \<and> got b1 = got b2"
  using put_all_ok [of b ss] put_all_ok [of b ts] assms by auto

end

section \<open>Comparators\<close>

text \<open>What an ordered container needs of its comparison: the values it compares are ordered by
  a key, and the equality of the class is the equality of the keys.\<close>

locale keyed_order =
  fixes less :: "'a \<Rightarrow> 'a \<Rightarrow> bool outcome"
    and eq :: "'a \<Rightarrow> 'a \<Rightarrow> bool outcome"
    and key :: "'a \<Rightarrow> 'k::linorder"
    and ok :: "'a \<Rightarrow> bool"
  assumes less_key: "ok a \<Longrightarrow> ok b \<Longrightarrow> less a b = Value (key a < key b)"
    and eq_key: "ok a \<Longrightarrow> ok b \<Longrightarrow> eq a b = Value (key a = key b)"
begin

lemma less_irrefl: "ok a \<Longrightarrow> less a a = Value False"
  by (simp add: less_key)

lemma less_trans:
  "ok a \<Longrightarrow> ok b \<Longrightarrow> ok c \<Longrightarrow> less a b = Value True \<Longrightarrow> less b c = Value True \<Longrightarrow> less a c = Value True"
  by (auto simp: less_key)

lemma less_total:
  "ok a \<Longrightarrow> ok b \<Longrightarrow> less a b = Value True \<or> eq a b = Value True \<or> less b a = Value True"
  by (auto simp: less_key eq_key)

lemma less_not_eq: "ok a \<Longrightarrow> ok b \<Longrightarrow> less a b = Value True \<Longrightarrow> eq a b = Value False"
  by (auto simp: less_key eq_key)

end

end
