(* ===== verification/Buffer.thy ===== *)
theory Buffer
  imports Outcome
begin

text \<open>
  The growing output buffer \<open>OBuffer\<close> of \<^verbatim>\<open>suil/buffer.h\<close> and \<^verbatim>\<open>suil/buffer.cpp\<close>: one
  operation per member function, on the three members of the class.  Sizes are 32 bits
  wide and wrap the way the casts of the code do.  \<open>realloc\<close> does not fail.  A bracket of
  \<open>vsnprintf\<close> is represented by the text it produces.
\<close>

section \<open>The operations\<close>

record obuffer =
  m_data :: "cells option"
  m_size :: nat
  m_offset :: nat

definition empty_buffer :: obuffer where
  "empty_buffer = \<lparr>m_data = None, m_size = 0, m_offset = 0\<rparr>"

definition u32 :: "nat \<Rightarrow> nat" where
  "u32 n = n mod 2 ^ 32"

text \<open>\<open>__ALIGN(x)\<close>: the distance to the next multiple of the size of a pointer.\<close>

definition align :: "nat \<Rightarrow> nat" where
  "align x = (if x mod 8 = 0 then 0 else 8 - x mod 8)"

definition grow :: "nat \<Rightarrow> obuffer \<Rightarrow> obuffer" where
  "grow n b =
     (let add = u32 (n + align n) in
      b\<lparr>m_data := Some (realloc (m_data b) (u32 (m_size b + add + 1))), m_size := u32 (m_size b + add)\<rparr>)"

definition obuffer :: "nat \<Rightarrow> obuffer" where
  "obuffer is = (if is \<noteq> 0 then grow (u32 is) empty_buffer else empty_buffer)"

definition size_buf :: "obuffer \<Rightarrow> nat" where
  "size_buf b = m_offset b"

definition empty_buf :: "obuffer \<Rightarrow> bool" where
  "empty_buf b \<longleftrightarrow> m_offset b = 0"

text \<open>\<open>m_size - m_offset\<close> on 32 bits\<close>

definition capacity :: "obuffer \<Rightarrow> nat" where
  "capacity b = u32 (m_size b + 2 ^ 32 - m_offset b)"

definition reserve :: "nat \<Rightarrow> obuffer \<Rightarrow> obuffer" where
  "reserve n b =
     (if n > capacity b then grow (u32 (max (m_size b) (n - capacity b))) b else b)"

text \<open>\<open>append(data, len)\<close>: \<open>None\<close> is a null pointer, a string the memory at \<open>data\<close>.\<close>

definition append_ptr :: "string option \<Rightarrow> nat \<Rightarrow> obuffer \<Rightarrow> obuffer outcome" where
  "append_ptr data len b =
     (if len \<noteq> 0 \<and> data = None then Throw AccessViolation
      else let b1 = (if capacity b < len then grow (u32 (max (m_size b) len)) b else b) in
        if len = 0 then Value b1
        else case (data, m_data b1) of
               (Some s, Some m) \<Rightarrow>
                 if length s < len then Undefined
                 else bind_out (wr_all m (m_offset b1) (take len s))
                   (\<lambda>m'. Value (b1\<lparr>m_data := Some m', m_offset := u32 (m_offset b1 + len)\<rparr>))
             | _ \<Rightarrow> Undefined)"

definition append_str :: "string \<Rightarrow> obuffer \<Rightarrow> obuffer outcome" where
  "append_str s b = append_ptr (Some s) (length s) b"

text \<open>\<open>appendv\<close> formats into an array of 2048 bytes; \<open>vsnprintf\<close> returns the length of the
  whole text, also when it has cut it.\<close>

definition appendv :: "string \<Rightarrow> obuffer \<Rightarrow> obuffer outcome" where
  "appendv t b =
     (let sb = take 2047 t @ [NUL] in append_ptr (Some (if length t < 2048 then t else sb)) (length t) b)"

text \<open>\<open>appendnv\<close> formats in place, into at most \<open>capacity\<close> bytes, terminator included.\<close>

definition appendnv :: "nat \<Rightarrow> string \<Rightarrow> obuffer \<Rightarrow> obuffer outcome" where
  "appendnv hint t b =
     (if m_data b = None \<or> hint = 0 then Undefined
      else let b1 = (if capacity b < hint then grow (u32 (max (m_size b) hint)) b else b);
               n = capacity b1
           in case m_data b1 of
                None \<Rightarrow> Undefined
              | Some m \<Rightarrow>
                  bind_out (wr_all m (m_offset b1) (if n = 0 then [] else take (n - 1) t @ [NUL]))
                    (\<lambda>m'. if length t + m_offset b1 > m_size b1 then Throw AccessViolation
                          else Value (b1\<lparr>m_data := Some m', m_offset := m_offset b1 + length t\<rparr>)))"

definition i2c :: "nat \<Rightarrow> bool \<Rightarrow> char outcome" where
  "i2c c caps =
     (if c \<le> 9 then Value (char_of (c + ucode CHR ''0''))
      else if c \<le> 15 then
        (if caps then Value (char_of (c + ucode CHR ''7'')) else Value (char_of (c + ucode CHR ''W'')))
      else Throw OutOfRange)"

text \<open>The loop of \<open>hex\<close> and of \<open>hexstr\<close>: two digits for each byte.\<close>

fun hex_digits :: "bool \<Rightarrow> string \<Rightarrow> string outcome" where
  "hex_digits caps [] = Value []"
| "hex_digits caps (c # cs) =
     bind_out (i2c (ucode c div 16 mod 16) caps) (\<lambda>h.
     bind_out (i2c (ucode c mod 16) caps) (\<lambda>l.
     bind_out (hex_digits caps cs) (\<lambda>r. Value (h # l # r))))"

definition hex_buf :: "string \<Rightarrow> bool \<Rightarrow> obuffer \<Rightarrow> obuffer outcome" where
  "hex_buf data caps b =
     (let b1 = reserve (2 * length data) b in
      bind_out (hex_digits caps data) (\<lambda>s.
        if s = [] then Value b1
        else case m_data b1 of
               None \<Rightarrow> Undefined
             | Some m \<Rightarrow>
                 bind_out (wr_all m (m_offset b1) s)
                   (\<lambda>m'. Value (b1\<lparr>m_data := Some m', m_offset := u32 (m_offset b1 + length s)\<rparr>))))"

definition reset :: "nat \<Rightarrow> bool \<Rightarrow> obuffer \<Rightarrow> obuffer" where
  "reset n keep b =
     (let b1 = b\<lparr>m_offset := 0\<rparr> in
      if \<not> keep \<or> m_size b < n then grow (u32 (if n < 8 then 8 else n)) (b1\<lparr>m_size := 0\<rparr>) else b1)"

definition bseek :: "int \<Rightarrow> obuffer \<Rightarrow> obuffer outcome" where
  "bseek off b =
     (if off < int (m_size b) \<and> off \<ge> 0 then Value (b\<lparr>m_offset := nat off\<rparr>) else Throw OutOfRange)"

definition seek :: "int \<Rightarrow> obuffer \<Rightarrow> obuffer outcome" where
  "seek off b = bseek (int (m_offset b) + off) b"

definition clear_buf :: "obuffer \<Rightarrow> obuffer" where
  "clear_buf b = b\<lparr>m_data := None, m_offset := 0, m_size := 0\<rparr>"

text \<open>\<open>operator char*\<close> puts a terminator behind the contents.\<close>

definition as_cstr :: "obuffer \<Rightarrow> obuffer outcome" where
  "as_cstr b =
     (case m_data b of
        None \<Rightarrow> Value b
      | Some m \<Rightarrow> bind_out (wr m (m_offset b) NUL) (\<lambda>m'. Value (b\<lparr>m_data := Some m'\<rparr>)))"

text \<open>\<open>release\<close>: the memory, which the caller now owns, and the empty buffer.\<close>

definition release :: "obuffer \<Rightarrow> (cells \<times> obuffer) outcome" where
  "release b =
     (case m_data b of
        None \<Rightarrow> Value (known [NUL], b)
      | Some _ \<Rightarrow>
          bind_out (as_cstr b) (\<lambda>b'. Value (the (m_data b'), clear_buf (b'\<lparr>m_data := None\<rparr>))))"

definition at_buf :: "nat \<Rightarrow> obuffer \<Rightarrow> char outcome" where
  "at_buf i b =
     (if i \<le> m_offset b then (case m_data b of None \<Rightarrow> Undefined | Some m \<Rightarrow> rd m i)
      else Throw IndexOutOfBounds)"

section \<open>The invariant and the contents\<close>

definition contents :: "obuffer \<Rightarrow> cells" where
  "contents b = (case m_data b of None \<Rightarrow> [] | Some m \<Rightarrow> take (m_offset b) m)"

text \<open>There is one byte more than \<open>m_size\<close>, for the terminator.\<close>

definition buf_ok :: "obuffer \<Rightarrow> bool" where
  "buf_ok b \<longleftrightarrow> m_offset b \<le> m_size b \<and> m_size b < 2 ^ 32 \<and>
     (case m_data b of None \<Rightarrow> m_size b = 0 | Some m \<Rightarrow> length m = m_size b + 1)"

text \<open>Room for \<open>n\<close> more bytes before the 32 bit sizes wrap.\<close>

definition room :: "nat \<Rightarrow> obuffer \<Rightarrow> bool" where
  "room n b \<longleftrightarrow> 2 * m_size b + n + 8 < 2 ^ 32"

lemma align_bounds: "n \<le> n + align n" "n + align n < n + 8" "(n + align n) mod 8 = 0"
proof -
  have "align n < 8" unfolding align_def by simp
  then show "n \<le> n + align n" "n + align n < n + 8" by simp_all
  show "(n + align n) mod 8 = 0" by (simp add: align_def) presburger
qed

lemma u32_small [simp]: "n < 4294967296 \<Longrightarrow> u32 n = n"
  by (simp add: u32_def)

lemma u32_wrap: "k \<le> n \<Longrightarrow> n < 2 ^ 32 \<Longrightarrow> u32 (n + 2 ^ 32 - k) = n - k"
  by (simp only: u32_def diff_add_assoc2 mod_add_self2) (rule mod_less, linarith)

lemma capacity_ok: "buf_ok b \<Longrightarrow> capacity b = m_size b - m_offset b"
  unfolding capacity_def by (rule u32_wrap) (simp_all add: buf_ok_def)

lemma grow_ok:
  assumes b: "buf_ok b" and n: "m_size b + n + 8 < 2 ^ 32"
  shows "buf_ok (grow n b)" and "contents (grow n b) = contents b" and "m_offset (grow n b) = m_offset b"
    and "m_size (grow n b) = m_size b + (n + align n)" and "\<exists>m. m_data (grow n b) = Some m"
proof -
  have a: "n + align n < n + 8" "n \<le> n + align n" by (rule align_bounds)+
  have e: "grow n b = b\<lparr>m_data := Some (realloc (m_data b) (m_size b + (n + align n) + 1)),
      m_size := m_size b + (n + align n)\<rparr>"
    using n a by (simp add: grow_def Let_def)
  show "buf_ok (grow n b)" "m_offset (grow n b) = m_offset b"
    "m_size (grow n b) = m_size b + (n + align n)" "\<exists>m. m_data (grow n b) = Some m"
    using b n a by (auto simp: e buf_ok_def)
  show "contents (grow n b) = contents b"
    using b by (cases "m_data b") (auto simp: e buf_ok_def contents_def take_realloc)
qed

lemma obuffer_ok:
  assumes "n + 8 < 2 ^ 32"
  shows "buf_ok (obuffer n)" and "contents (obuffer n) = []" and "m_offset (obuffer n) = 0"
    and "m_size (obuffer n) = (if n = 0 then 0 else n + align n)"
proof -
  have e: "buf_ok empty_buffer" by (simp add: buf_ok_def empty_buffer_def)
  have n: "obuffer n = (if n = 0 then empty_buffer else grow n empty_buffer)" using assms by (simp add: obuffer_def)
  note g = grow_ok [OF e, of n]
  have z: "m_size empty_buffer = 0" "m_offset empty_buffer = 0" "contents empty_buffer = []"
    by (simp_all add: empty_buffer_def contents_def)
  show "buf_ok (obuffer n)" "contents (obuffer n) = []" "m_offset (obuffer n) = 0"
    "m_size (obuffer n) = (if n = 0 then 0 else n + align n)"
    using g assms e z by (simp_all add: n)
qed

lemma reserve_ok:
  assumes b: "buf_ok b" and r: "room n b"
  shows "buf_ok (reserve n b)" and "contents (reserve n b) = contents b" and "m_offset (reserve n b) = m_offset b"
    and "m_offset b + n \<le> m_size (reserve n b)"
    and "0 < n \<Longrightarrow> \<exists>m. m_data (reserve n b) = Some m"
proof -
  let ?k = "max (m_size b) (n - (m_size b - m_offset b))"
  have k: "m_size b + ?k + 8 < 2 ^ 32" using r by (auto simp: room_def)
  note g = grow_ok [OF b k]
  have c: "capacity b = m_size b - m_offset b" by (rule capacity_ok [OF b])
  have o: "m_offset b \<le> m_size b" using b by (simp add: buf_ok_def)
  have e: "reserve n b = (if n > m_size b - m_offset b then grow ?k b else b)"
    using k by (simp add: reserve_def c)
  show "buf_ok (reserve n b)" "contents (reserve n b) = contents b" "m_offset (reserve n b) = m_offset b"
    using b g by (simp_all add: e)
  show "m_offset b + n \<le> m_size (reserve n b)"
    using g(4) o align_bounds(1) [of ?k] by (simp add: e) linarith
  show "\<exists>m. m_data (reserve n b) = Some m" if "0 < n"
    using that g(5) b by (cases "m_data b") (auto simp: e buf_ok_def)
qed

text \<open>Writing at the offset of a buffer with room.\<close>

lemma write_ok:
  assumes b: "buf_ok b" and m: "m_data b = Some m" and l: "m_offset b + length s \<le> m_size b"
  shows "\<exists>m'. wr_all m (m_offset b) s = Value m' \<and>
    buf_ok (b\<lparr>m_data := Some m', m_offset := m_offset b + length s\<rparr>) \<and>
    contents (b\<lparr>m_data := Some m', m_offset := m_offset b + length s\<rparr>) = contents b @ known s"
proof -
  have "m_offset b + length s \<le> length m" using b m l by (simp add: buf_ok_def)
  then have w: "wr_all m (m_offset b) s = Value (take (m_offset b) m @ known s @ drop (m_offset b + length s) m)"
    by (rule wr_all_eq)
  show ?thesis
    using b m l unfolding w by (auto simp: buf_ok_def contents_def)
qed

lemma append_str_ok:
  assumes b: "buf_ok b" and r: "room (length s) b"
  shows "\<exists>b'. append_str s b = Value b' \<and> buf_ok b' \<and> contents b' = contents b @ known s \<and>
    m_size b' \<le> 2 * m_size b + length s + 8 \<and> m_offset b' = m_offset b + length s"
proof -
  let ?k = "max (m_size b) (length s)"
  let ?b = "if m_size b - m_offset b < length s then grow ?k b else b"
  have k: "m_size b + ?k + 8 < 2 ^ 32" using r by (auto simp: room_def)
  note g = grow_ok [OF b k]
  have o: "m_offset b \<le> m_size b" using b by (simp add: buf_ok_def)
  have e: "append_str s b = (if s = [] then Value ?b else
      case m_data ?b of None \<Rightarrow> Undefined
      | Some m \<Rightarrow> bind_out (wr_all m (m_offset ?b) s)
          (\<lambda>m'. Value (?b\<lparr>m_data := Some m', m_offset := u32 (m_offset ?b + length s)\<rparr>)))"
  proof -
    have "u32 ?k = ?k" by (rule u32_small) (use k in simp)
    then show ?thesis by (auto simp: append_str_def append_ptr_def capacity_ok [OF b] Let_def split: option.split)
  qed
  have ok: "buf_ok ?b" "contents ?b = contents b" "m_offset ?b = m_offset b" using b g by auto
  have sz: "m_size ?b \<le> 2 * m_size b + length s + 8" "m_offset b + length s \<le> m_size ?b"
    using g(4) o align_bounds [of ?k] by (auto simp del: max_def split: if_splits)
  show ?thesis
  proof (cases "s = []")
    case True
    then show ?thesis using e ok sz by auto
  next
    case False
    have "\<exists>m. m_data ?b = Some m" using False g(5) b by (cases "m_data b") (auto simp: buf_ok_def)
    then obtain m where m: "m_data ?b = Some m" by blast
    have "m_offset b + length s < 4294967296" using r o by (simp add: room_def)
    then show ?thesis
      using write_ok [OF ok(1) m, of s] e False m ok sz by auto
  qed
qed

section \<open>A sink\<close>

text \<open>Doubling keeps the allocation within twice the contents, so the 32 bit sizes do not
  wrap below \<open>buf_limit\<close> bytes.\<close>

definition lean :: "obuffer \<Rightarrow> bool" where
  "lean b \<longleftrightarrow> m_size b \<le> 2 * m_offset b + 64"

definition buf_limit :: nat where
  "buf_limit = 2 ^ 30 - 64"

lemma length_contents: "buf_ok b \<Longrightarrow> length (contents b) = m_offset b"
  by (cases "m_data b") (simp_all add: buf_ok_def contents_def)

lemma append_str_lean:
  assumes b: "buf_ok b" and l: "lean b" and v: "append_str s b = Value b'" and r: "room (length s) b"
  shows "lean b'"
proof -
  let ?k = "max (m_size b) (length s)"
  have k: "m_size b + ?k + 8 < 2 ^ 32" "u32 ?k = ?k" using r by (auto simp: room_def)
  have o: "m_offset b \<le> m_size b" using b by (simp add: buf_ok_def)
  have g: "m_size (grow ?k b) = m_size b + (?k + align ?k)" by (rule grow_ok(4) [OF b k(1)])
  have s: "m_offset b' = m_offset b + length s" using append_str_ok [OF b r] v by auto
  have "m_size b' = (if m_size b - m_offset b < length s then m_size (grow ?k b) else m_size b)"
    using v k(2) by (auto simp: append_str_def append_ptr_def capacity_ok [OF b] bind_out_Value_iff Let_def
        split: if_splits option.splits)
  then show ?thesis
    using l o s g align_bounds(2) [of ?k] by (auto simp: lean_def split: if_splits)
qed

interpretation obuf: byte_sink append_str contents "\<lambda>b. buf_ok b \<and> lean b" buf_limit
proof
  fix b and s :: string assume b: "buf_ok b \<and> lean b" and l: "length (contents b) + length s \<le> buf_limit"
  then have r: "room (length s) b"
    by (auto simp: room_def lean_def buf_limit_def length_contents)
  from append_str_ok [OF conjunct1 [OF b] r] append_str_lean [OF conjunct1 [OF b] conjunct2 [OF b] _ r] b
  show "\<exists>b'. append_str s b = Value b' \<and> (buf_ok b' \<and> lean b') \<and> contents b' = contents b @ known s"
    by blast
qed

lemma obuffer_lean: "n \<le> 56 \<Longrightarrow> buf_ok (obuffer n) \<and> lean (obuffer n) \<and> contents (obuffer n) = []"
  using obuffer_ok [of n] align_bounds(2) [of n] by (simp add: lean_def)

section \<open>The other operations\<close>

lemma grow_empty:
  assumes "m_size b = 0" and "n + 8 < 2 ^ 32"
  shows "grow n b = b\<lparr>m_data := Some (realloc (m_data b) (n + align n + 1)), m_size := n + align n\<rparr>"
proof -
  have "n + align n + 1 < 4294967296" using align_bounds(2) [of n] assms(2) by simp
  then show ?thesis using assms(1) by (simp add: grow_def Let_def)
qed

lemma reset_ok:
  assumes "buf_ok b" and "n + 8 < 2 ^ 32"
  shows "buf_ok (reset n keep b)" and "contents (reset n keep b) = []" and "n \<le> m_size (reset n keep b)"
proof -
  define k where "k = (if n < 8 then 8 else n)"
  have k: "n \<le> k" "k + 8 < 2 ^ 32" "k + align k < 2 ^ 32"
    using assms(2) align_bounds(2) [of k] by (auto simp: k_def)
  have e: "reset n keep b = (if \<not> keep \<or> m_size b < n
      then b\<lparr>m_offset := 0, m_data := Some (realloc (m_data b) (k + align k + 1)), m_size := k + align k\<rparr>
      else b\<lparr>m_offset := 0\<rparr>)"
    using k(2) grow_empty [of "b\<lparr>m_offset := 0, m_size := 0\<rparr>" k] unfolding reset_def Let_def k_def by simp
  show "contents (reset n keep b) = []" "n \<le> m_size (reset n keep b)" "buf_ok (reset n keep b)"
    using assms(1) k unfolding e by (auto simp: contents_def buf_ok_def split: option.splits)
qed

lemma bseek_ok:
  assumes "buf_ok b" and "bseek off b = Value b'"
  shows "buf_ok b'" and "m_data b' = m_data b" and "int (m_offset b') = off"
  using assms by (auto simp: bseek_def buf_ok_def split: if_splits option.splits)

lemma as_cstr_ok:
  assumes "buf_ok b"
  shows "\<exists>b'. as_cstr b = Value b' \<and> buf_ok b' \<and> contents b' = contents b \<and>
    (\<forall>m. m_data b' = Some m \<longrightarrow> rd m (m_offset b) = Value NUL)"
  using assms by (auto simp: as_cstr_def buf_ok_def contents_def wr_def rd_def split: option.splits)

lemma release_ok:
  assumes "buf_ok b" and "m_data b \<noteq> None"
  shows "\<exists>m. release b = Value (m, empty_buffer) \<and> take (m_offset b) m = contents b \<and>
    rd m (m_offset b) = Value NUL"
proof -
  obtain m where m: "m_data b = Some m" using assms(2) by blast
  then have o: "m_offset b < length m" using assms(1) by (simp add: buf_ok_def)
  then have "as_cstr b = Value (b\<lparr>m_data := Some (m[m_offset b := Some NUL])\<rparr>)"
    using m by (simp add: as_cstr_def wr_def)
  then have "release b = Value (m[m_offset b := Some NUL], empty_buffer)"
    using m by (simp add: release_def clear_buf_def empty_buffer_def)
  then show ?thesis using m o by (simp add: contents_def rd_def)
qed

lemma hex_digits_total: "\<exists>t. hex_digits caps s = Value t \<and> length t = 2 * length s"
proof (induction s)
  case (Cons c s)
  have "\<exists>d. i2c k caps = Value d" if "k < 16" for k using that by (simp add: i2c_def)
  then obtain h l where "i2c (ucode c div 16 mod 16) caps = Value h" "i2c (ucode c mod 16) caps = Value l"
    by (meson mod_less_divisor zero_less_numeral)
  with Cons show ?case by auto
qed simp

lemma hex_buf_ok:
  assumes b: "buf_ok b" and r: "room (2 * length s) b"
  shows "\<exists>t b'. hex_digits caps s = Value t \<and> hex_buf s caps b = Value b' \<and> buf_ok b' \<and>
    contents b' = contents b @ known t"
proof -
  obtain t where t: "hex_digits caps s = Value t" "length t = 2 * length s" using hex_digits_total by blast
  note v = reserve_ok [OF b r]
  show ?thesis
  proof (cases "s = []")
    case True
    then show ?thesis using t v by (simp add: hex_buf_def Let_def)
  next
    case False
    then obtain m where m: "m_data (reserve (2 * length s) b) = Some m" using v(5) by auto
    have "m_offset b + length t < 4294967296" using r b t by (auto simp: room_def buf_ok_def)
    then show ?thesis
      using write_ok [OF v(1) m, of t] v False t m by (auto simp: hex_buf_def Let_def)
  qed
qed

section \<open>The properties\<close>

text \<open>C19: Appending strings to a new OBuffer never leaves its memory, and the buffer holds
  their concatenation, for up to 2^30 - 64 bytes: the refinement of a list of bytes.\<close>
theorem obuffer_appends:
  assumes "n \<le> 56" and "length (concat ss) \<le> 2 ^ 30 - 64"
  shows "\<exists>b. put_all append_str ss (obuffer n) = Value b \<and> buf_ok b \<and> contents b = known (concat ss)"
  using obuf.put_all_ok [of "obuffer n" ss] obuffer_lean [OF assms(1)] assms(2)
  by (auto simp: buf_limit_def)

theorem obuffer_appends_witness:
  "\<exists>b. put_all append_str [''ab'', ''c''] (obuffer 16) = Value b \<and> buf_ok b \<and>
     contents b = known (concat [''ab'', ''c''])"
  by (rule obuffer_appends) simp_all

text \<open>A buffer that is full at 2^31 bytes: append doubles the 32 bit size, which wraps to
  zero, so that the copy goes behind the reallocated memory.\<close>
theorem obuffer_append_wraps:
  assumes "buf_ok b" and "m_size b = 2 ^ 31" and "m_offset b = 2 ^ 31"
  shows "append_str [c] b = Undefined"
proof -
  have c: "capacity b = 0" using capacity_ok [OF assms(1)] assms by simp
  have "align (2 ^ 31) = 0" by (simp add: align_def)
  then have "grow (2 ^ 31) b = b\<lparr>m_data := Some (realloc (m_data b) 1), m_size := 0\<rparr>"
    using assms by (simp add: grow_def Let_def u32_def)
  with c assms show ?thesis
    by (simp add: append_str_def append_ptr_def Let_def wr_def)
qed

theorem obuffer_append_wraps_witness:
  "append_str ''x'' \<lparr>m_data = Some (replicate (2 ^ 31 + 1) None), m_size = 2 ^ 31, m_offset = 2 ^ 31\<rparr> = Undefined"
  by (rule obuffer_append_wraps) (simp_all add: buf_ok_def)

text \<open>appendnv accepts a text that fills the rest of the buffer, but vsnprintf has cut
  its last byte to make room for the terminator: the buffer ends in NUL instead.\<close>
theorem obuffer_appendnv_cuts:
  assumes "buf_ok b" and "m_data b \<noteq> None" and "0 < hint" and "hint \<le> m_size b - m_offset b"
    and "length t = m_size b - m_offset b" and "t \<noteq> []"
  shows "\<exists>b'. appendnv hint t b = Value b' \<and> contents b' = contents b @ known (butlast t @ [NUL])"
proof -
  obtain m where m: "m_data b = Some m" using assms(2) by blast
  have n: "length (butlast t @ [NUL]) = length t" using assms(6) by simp
  have c: "capacity b = length t" "0 < length t" using capacity_ok [OF assms(1)] assms by auto
  have o: "m_offset b + length (butlast t @ [NUL]) \<le> m_size b"
    using assms(1,5) n by (simp add: buf_ok_def del: length_butlast)
  from write_ok [OF assms(1) m o] show ?thesis
    using m c assms n o by (auto simp: appendnv_def Let_def butlast_conv_take add.commute)
qed

theorem obuffer_appendnv_cuts_witness:
  "\<exists>b'. appendnv 8 ''deadbeef'' (obuffer 8) = Value b' \<and>
     contents b' = contents (obuffer 8) @ known (butlast ''deadbeef'' @ [NUL])"
proof (rule obuffer_appendnv_cuts)
  show "buf_ok (obuffer 8)" by (rule obuffer_ok) simp
  show "m_data (obuffer 8) \<noteq> None" by (simp add: obuffer_def grow_def Let_def)
qed (use obuffer_ok [of 8] in \<open>simp_all add: align_def\<close>)

end
