(* ===== verification/Zstring.thy ===== *)
theory Zstring
  imports Buffer "HOL-Library.List_Lexorder" "HOL-Library.Product_Lexorder"
begin

text \<open>
  The class \<open>String\<close> of \<^verbatim>\<open>suil/zstring.h\<close> and \<^verbatim>\<open>suil/zstring.cpp\<close>: a pointer, a 32 bit
  length and an ownership flag.  The pointer is the memory from it to the end of its object,
  which may be longer than the length (there is a terminator behind most strings) or, for a
  view that left its object, shorter.  The cached hash is not part of the model.
\<close>

section \<open>Construction and copying\<close>

record zstring =
  z_mem :: "cells option"
  z_len :: nat
  z_own :: bool

definition zs_null :: zstring where
  "zs_null = \<lparr>z_mem = None, z_len = 0, z_own = False\<rparr>"

text \<open>\<open>String(const char *)\<close>; the argument is the text up to its terminator.\<close>

definition zs_of_cstr :: "string option \<Rightarrow> zstring" where
  "zs_of_cstr str =
     (case str of
        None \<Rightarrow> zs_null
      | Some s \<Rightarrow> \<lparr>z_mem = Some (known (s @ [NUL])), z_len = u32 (length s), z_own = False\<rparr>)"

definition zs_view :: "cells option \<Rightarrow> nat \<Rightarrow> bool \<Rightarrow> zstring" where
  "zs_view str len own = \<lparr>z_mem = str, z_len = u32 len, z_own = own\<rparr>"

definition zs_fill :: "char \<Rightarrow> nat \<Rightarrow> zstring" where
  "zs_fill c n = \<lparr>z_mem = Some (known (replicate n c @ [NUL])), z_len = u32 n, z_own = True\<rparr>"

definition zs_of_buffer :: "obuffer \<Rightarrow> bool \<Rightarrow> (zstring \<times> obuffer) outcome" where
  "zs_of_buffer b own =
     (if own \<and> m_data b \<noteq> None then
        bind_out (release b) (\<lambda>(m, b'). Value (\<lparr>z_mem = Some m, z_len = size_buf b, z_own = True\<rparr>, b'))
      else Value (\<lparr>z_mem = m_data b, z_len = size_buf b, z_own = False\<rparr>, b))"

text \<open>\<open>strndup\<close> copies up to a terminator, at most \<open>n\<close> bytes; the value is the copy without
  its own terminator.\<close>

fun strndup :: "cells \<Rightarrow> nat \<Rightarrow> string outcome" where
  "strndup m 0 = Value []"
| "strndup [] (Suc n) = Undefined"
| "strndup (None # m) (Suc n) = Undefined"
| "strndup (Some c # m) (Suc n) = (if c = NUL then Value [] else map_out ((#) c) (strndup m n))"

definition zs_copy :: "zstring \<Rightarrow> zstring outcome" where
  "zs_copy s =
     (if z_own s then
        (case z_mem s of
           None \<Rightarrow> Undefined
         | Some m \<Rightarrow> map_out (\<lambda>t. s\<lparr>z_mem := Some (known (t @ [NUL]))\<rparr>) (strndup m (z_len s)))
      else Value s)"

definition zs_dup :: "zstring \<Rightarrow> zstring outcome" where
  "zs_dup s =
     (case z_mem s of
        None \<Rightarrow> Value zs_null
      | Some m \<Rightarrow>
          if z_len s = 0 then Value zs_null
          else map_out (\<lambda>t. zs_view (Some (known (t @ [NUL]))) (z_len s) True) (strndup m (z_len s)))"

definition zs_peek :: "zstring \<Rightarrow> zstring" where
  "zs_peek s = zs_view (z_mem s) (z_len s) False"

definition zs_empty :: "zstring \<Rightarrow> bool" where
  "zs_empty s \<longleftrightarrow> z_mem s = None \<or> z_len s = 0"

text \<open>\<open>c_str(nil)\<close> with the memory of the other string as its argument\<close>

definition zs_c_str :: "cells option \<Rightarrow> zstring \<Rightarrow> cells option" where
  "zs_c_str nil s = (if z_mem s = None \<or> z_len s = 0 then nil else z_mem s)"

definition zs_nth :: "zstring \<Rightarrow> int \<Rightarrow> char outcome" where
  "zs_nth s i =
     (if 0 \<le> i \<and> i < int (z_len s) then
        (case z_mem s of None \<Rightarrow> Undefined | Some m \<Rightarrow> rd m (nat i))
      else Throw IndexOutOfBounds)"

section \<open>Searching\<close>

function find_loop :: "cells \<Rightarrow> nat \<Rightarrow> char \<Rightarrow> nat \<Rightarrow> int outcome" where
  "find_loop m len ch i =
     (case rd m i of
        Value c \<Rightarrow> if c = ch then Value (int i)
                  else if i + 1 = len then Value (-1) else find_loop m len ch (i + 1)
      | Throw e \<Rightarrow> Throw e
      | Undefined \<Rightarrow> Undefined)"
  by pat_completeness auto

termination find_loop
  by (relation "measure (\<lambda>(m, len, ch, i). length m - i)") (auto simp: rd_def split: if_splits)

definition zs_find :: "zstring \<Rightarrow> char \<Rightarrow> int outcome" where
  "zs_find s ch =
     (if z_len s > 0 then (case z_mem s of None \<Rightarrow> Undefined | Some m \<Rightarrow> find_loop m (z_len s) ch 0)
      else Value (-1))"

fun rfind_loop :: "cells \<Rightarrow> char \<Rightarrow> nat \<Rightarrow> int outcome" where
  "rfind_loop m ch 0 = Value (-1)"
| "rfind_loop m ch (Suc i) =
     bind_out (rd m i) (\<lambda>c. if c = ch then Value (int i) else rfind_loop m ch i)"

definition zs_rfind :: "zstring \<Rightarrow> char \<Rightarrow> int outcome" where
  "zs_rfind s ch =
     (if z_len s > 0 then (case z_mem s of None \<Rightarrow> Undefined | Some m \<Rightarrow> rfind_loop m ch (z_len s))
      else Value (-1))"

text \<open>\<open>&m_cstr[from]\<close>: a pointer to a byte of the object or one past its end.\<close>

definition advance :: "cells option \<Rightarrow> nat \<Rightarrow> cells option outcome" where
  "advance m k =
     (case m of
        None \<Rightarrow> if k = 0 then Value None else Undefined
      | Some cs \<Rightarrow> if k \<le> length cs then Value (Some (drop k cs)) else Undefined)"

definition zs_chunk :: "zstring \<Rightarrow> char \<Rightarrow> bool \<Rightarrow> zstring outcome" where
  "zs_chunk s ch reverse =
     bind_out (if reverse then zs_rfind s ch else zs_find s ch) (\<lambda>from.
       if from < 0 then Value zs_null
       else map_out (\<lambda>p. zs_view p (z_len s - nat from) False) (advance (z_mem s) (nat from)))"

text \<open>\<open>fits\<close> is a signed number, but the comparison with \<open>nchars\<close> is unsigned.\<close>

definition zs_substr :: "zstring \<Rightarrow> nat \<Rightarrow> nat \<Rightarrow> bool \<Rightarrow> zstring outcome" where
  "zs_substr s from nchars zc =
     (let fits = (z_len s + 2 ^ 64 - from) mod 2 ^ 64;
          n = (if nchars \<noteq> 0 then nchars else fits)
      in if n \<noteq> 0 \<and> fits \<ge> n then
           bind_out (advance (z_mem s) from) (\<lambda>p.
             let tmp = zs_view p n False in if zc then Value tmp else zs_dup tmp)
         else Value zs_null)"

section \<open>Comparing\<close>

text \<open>\<open>strncmp\<close>: the difference of the first bytes that differ, up to a terminator.\<close>

fun strncmp :: "cells \<Rightarrow> cells \<Rightarrow> nat \<Rightarrow> int outcome" where
  "strncmp _ _ 0 = Value 0"
| "strncmp (Some a # p) (Some b # q) (Suc n) =
     (if a \<noteq> b then Value (int (ucode a) - int (ucode b))
      else if a = NUL then Value 0 else strncmp p q n)"
| "strncmp _ _ (Suc n) = Undefined"

text \<open>\<open>operator==\<close>; \<open>same\<close> tells that the two pointers are equal.\<close>

definition zs_eq :: "bool \<Rightarrow> zstring \<Rightarrow> zstring \<Rightarrow> bool outcome" where
  "zs_eq same s t =
     (case (z_mem s, z_mem t) of
        (Some p, Some q) \<Rightarrow>
          if z_len s = z_len t then
            if same then Value True else map_out (\<lambda>d. d = 0) (strncmp p q (z_len s))
          else Value False
      | (p, q) \<Rightarrow> Value (p = q))"

definition zs_compare :: "zstring \<Rightarrow> zstring \<Rightarrow> int outcome" where
  "zs_compare s t =
     (if z_len t = z_len s then
        (case (z_mem s, z_mem t) of
           (Some p, Some q) \<Rightarrow> strncmp p q (z_len s)
         | _ \<Rightarrow> Undefined)
      else Value (if z_len s < z_len t then -1 else 1))"

definition zs_less :: "zstring \<Rightarrow> zstring \<Rightarrow> bool outcome" where
  "zs_less s t = map_out (\<lambda>d. d < 0) (zs_compare s t)"

definition zs_less_eq :: "zstring \<Rightarrow> zstring \<Rightarrow> bool outcome" where
  "zs_less_eq s t = map_out (\<lambda>d. d \<le> 0) (zs_compare s t)"

section \<open>Stripping\<close>

text \<open>\<open>while (strip == *s) s++;\<close> and \<open>while (strip == *e) e--;\<close>\<close>

function skip_front :: "cells \<Rightarrow> char \<Rightarrow> nat \<Rightarrow> nat outcome" where
  "skip_front m c i =
     (case rd m i of
        Value d \<Rightarrow> if c = d then skip_front m c (i + 1) else Value i
      | Throw e \<Rightarrow> Throw e
      | Undefined \<Rightarrow> Undefined)"
  by pat_completeness auto

termination skip_front
  by (relation "measure (\<lambda>(m, c, i). length m - i)") (auto simp: rd_def split: if_splits)

text \<open>The second loop from the byte before \<open>e\<close>; the value is \<open>e\<close> after \<open>e++\<close>.\<close>

fun skip_back :: "cells \<Rightarrow> char \<Rightarrow> nat \<Rightarrow> nat outcome" where
  "skip_back m c 0 = Undefined"
| "skip_back m c (Suc e) = bind_out (rd m e) (\<lambda>d. if c = d then skip_back m c e else Value (Suc e))"

text \<open>The bytes from \<open>s\<close> on, one after the other.\<close>

fun read_all :: "cells \<Rightarrow> nat \<Rightarrow> nat \<Rightarrow> string outcome" where
  "read_all m s 0 = Value []"
| "read_all m s (Suc n) = bind_out (rd m s) (\<lambda>c. map_out ((#) c) (read_all m (s + 1) n))"

text \<open>The bytes are written to the start of a new buffer, which then moves to their end and
  becomes the result.\<close>

definition zs_strip :: "zstring \<Rightarrow> char \<Rightarrow> bool \<Rightarrow> zstring outcome" where
  "zs_strip str c ends =
     (let b = obuffer (z_len str) in
      case z_mem str of
        None \<Rightarrow> Undefined
      | Some m \<Rightarrow>
          bind_out (skip_front m c 0) (\<lambda>s.
          bind_out (skip_back m c (z_len str)) (\<lambda>e.
          bind_out (read_all m s (e - s)) (\<lambda>t.
          let t' = (if ends then t else filter (\<lambda>d. d \<noteq> c) t) in
          case m_data b of
            None \<Rightarrow> Undefined
          | Some d \<Rightarrow>
              bind_out (wr_all d 0 t') (\<lambda>d'.
              bind_out (seek (int (length t')) (b\<lparr>m_data := Some d'\<rparr>)) (\<lambda>b'.
              map_out fst (zs_of_buffer b' True)))))))"


section \<open>Texts\<close>

text \<open>The string holds the text: the bytes it has to read are there.\<close>

definition holds :: "zstring \<Rightarrow> string \<Rightarrow> bool" where
  "holds s a \<longleftrightarrow> z_len s = length a \<and> (\<exists>r. z_mem s = Some (known a @ r))"

lemma holds_cstr: "length a < 4294967296 \<Longrightarrow> holds (zs_of_cstr (Some a)) a"
  by (simp add: holds_def zs_of_cstr_def)

lemma rd_append: "i < length a \<Longrightarrow> rd (known a @ r) i = Value (a ! i)"
  by (rule rd_known_append)

declare find_loop.simps [simp del] skip_front.simps [simp del]

subsection \<open>Searching\<close>

definition first_index :: "char \<Rightarrow> string \<Rightarrow> int" where
  "first_index ch a = (if ch \<in> set a then int (length (takeWhile (\<lambda>c. c \<noteq> ch) a)) else -1)"

definition last_index :: "char \<Rightarrow> string \<Rightarrow> int" where
  "last_index ch a = (if ch \<in> set a then int (length a - 1 - length (takeWhile (\<lambda>c. c \<noteq> ch) (rev a))) else -1)"

lemma find_loop_ok:
  "b \<noteq> [] \<Longrightarrow> find_loop (known (a @ b) @ r) (length (a @ b)) ch (length a) =
     Value (if ch \<in> set b then int (length a) + int (length (takeWhile (\<lambda>c. c \<noteq> ch) b)) else -1)"
proof (induction b arbitrary: a)
  case (Cons d b)
  have r: "rd (known (a @ d # b) @ r) (length a) = Value d"
    using rd_append [of "length a" "a @ d # b" r] by simp
  show ?case
  proof (cases "d = ch \<or> b = []")
    case True
    then show ?thesis using r by (subst find_loop.simps) auto
  next
    case False
    then have "find_loop (known (a @ d # b) @ r) (length (a @ d # b)) ch (length a) =
        find_loop (known ((a @ [d]) @ b) @ r) (length ((a @ [d]) @ b)) ch (length (a @ [d]))"
      using r by (subst find_loop.simps) simp
    with Cons.IH [of "a @ [d]"] False show ?thesis by auto
  qed
qed simp

lemma zs_find_ok: "holds s a \<Longrightarrow> zs_find s ch = Value (first_index ch a)"
  using find_loop_ok [of a "[]" _ ch] by (auto simp: zs_find_def holds_def first_index_def)

lemma rfind_loop_ok:
  "k \<le> length a \<Longrightarrow> rfind_loop (known a @ r) ch k = Value (last_index ch (take k a))"
proof (induction k)
  case (Suc k)
  then have "rd (known a @ r) k = Value (a ! k)" by (simp add: rd_append)
  with Suc show ?case
    by (auto simp: last_index_def take_Suc_conv_app_nth takeWhile_append min_def)
qed (simp add: last_index_def)

lemma zs_rfind_ok: "holds s a \<Longrightarrow> zs_rfind s ch = Value (last_index ch a)"
  using rfind_loop_ok [of "length a" a _ ch] by (auto simp: zs_rfind_def holds_def last_index_def)

lemma takeWhile_length_less: "ch \<in> set a \<Longrightarrow> length (takeWhile (\<lambda>c. c \<noteq> ch) a) < length a"
  by (induction a) auto

lemma first_index_drop:
  "ch \<in> set a \<Longrightarrow> drop (nat (first_index ch a)) a = dropWhile (\<lambda>c. c \<noteq> ch) a \<and> nat (first_index ch a) < length a"
  by (simp add: first_index_def dropWhile_eq_drop takeWhile_length_less)

subsection \<open>Comparing\<close>

definition cut :: "string \<Rightarrow> string" where
  "cut = takeWhile (\<lambda>c. c \<noteq> NUL)"

text \<open>What the order of strings compares: the length, then the bytes up to a NUL.\<close>

definition zkey :: "string \<Rightarrow> nat \<times> nat list" where
  "zkey a = (length a, map ucode (cut a))"

lemma cut_simps [simp]: "cut [] = []" "cut (c # s) = (if c = NUL then [] else c # cut s)"
  by (simp_all add: cut_def)

lemma cut_id [simp]: "NUL \<notin> set a \<Longrightarrow> cut a = a"
  by (induction a) auto

lemma map_ucode_inj: "map ucode a = map ucode b \<longleftrightarrow> a = b"
  by (intro inj_map_eq_map injI) (simp add: char_eq_iff_ucode)

lemma ucode_NUL: "ucode NUL = 0" "ucode c = 0 \<longleftrightarrow> c = NUL"
  by (simp_all add: char_eq_iff_ucode [of _ NUL]) (simp_all add: ucode_def)

lemma strncmp_ok:
  "length p = length q \<Longrightarrow>
   \<exists>d. strncmp (known p @ r) (known q @ r') (length p) = Value d \<and>
     (d < 0 \<longleftrightarrow> map ucode (cut p) < map ucode (cut q)) \<and> (d = 0 \<longleftrightarrow> cut p = cut q)"
proof (induction p q rule: list_induct2)
  case (Cons a p b q)
  show ?case
  proof (cases "a = b")
    case True
    with Cons show ?thesis by auto
  next
    case False
    then have "ucode a \<noteq> ucode b" by (simp add: char_eq_iff_ucode)
    with False show ?thesis by (cases "a = NUL"; cases "b = NUL") (use ucode_NUL(2) [of a] ucode_NUL(2) [of b] in auto)
  qed
qed simp

lemma zkey_eq_iff: "zkey a = zkey b \<longleftrightarrow> length a = length b \<and> cut a = cut b"
  by (simp add: zkey_def map_ucode_inj)

lemma zs_compare_ok:
  assumes "holds s a" and "holds t b"
  shows "\<exists>d. zs_compare s t = Value d \<and> (d < 0 \<longleftrightarrow> zkey a < zkey b) \<and> (d = 0 \<longleftrightarrow> zkey a = zkey b)"
proof (cases "length a = length b")
  case True
  obtain r r' where m: "z_mem s = Some (known a @ r)" "z_mem t = Some (known b @ r')"
    using assms by (auto simp: holds_def)
  from strncmp_ok [OF True, of r r'] True m assms show ?thesis
    by (auto simp: holds_def zs_compare_def zkey_eq_iff zkey_def map_ucode_inj)
next
  case False
  with assms show ?thesis by (auto simp: holds_def zs_compare_def zkey_eq_iff zkey_def)
qed

lemma zs_less_ok: "holds s a \<Longrightarrow> holds t b \<Longrightarrow> zs_less s t = Value (zkey a < zkey b)"
  using zs_compare_ok [of s a t b] by (auto simp: zs_less_def)

lemma zs_less_eq_ok: "holds s a \<Longrightarrow> holds t b \<Longrightarrow> zs_less_eq s t = Value (zkey a \<le> zkey b)"
  using zs_compare_ok [of s a t b] by (auto simp: zs_less_eq_def order_le_less)

lemma zs_eq_ok: "holds s a \<Longrightarrow> holds t b \<Longrightarrow> zs_eq False s t = Value (zkey a = zkey b)"
proof -
  assume h: "holds s a" "holds t b"
  then obtain r r' where m: "z_mem s = Some (known a @ r)" "z_mem t = Some (known b @ r')"
    by (auto simp: holds_def)
  show ?thesis
  proof (cases "length a = length b")
    case True
    from strncmp_ok [OF True, of r r'] True m h show ?thesis
      by (auto simp: zs_eq_def holds_def zkey_eq_iff)
  qed (use h m in \<open>auto simp: zs_eq_def holds_def zkey_eq_iff\<close>)
qed

subsection \<open>Copies and parts\<close>

lemma strndup_ok: "strndup (known a @ r) (length a) = Value (cut a)"
  by (induction a) auto

lemma holds_dup:
  assumes "holds s a" and "NUL \<notin> set a" and "a \<noteq> []" and "length a < 4294967296"
  shows "\<exists>u. zs_dup s = Value u \<and> holds u a \<and> z_own u"
  using assms strndup_ok [of a] by (auto simp: zs_dup_def holds_def zs_view_def)

lemma holds_peek: "holds s a \<Longrightarrow> length a < 4294967296 \<Longrightarrow> holds (zs_peek s) a"
  by (auto simp: holds_def zs_peek_def zs_view_def)

lemma known_drop: "drop k (known a) = known (drop k a)" "take k (known a) = known (take k a)"
  by (simp_all add: known_def drop_map take_map)

lemma holds_part:
  assumes "z_mem s = Some (known a @ r)" and "from + n \<le> length a" and "length a < 4294967296"
  shows "\<exists>p. advance (z_mem s) from = Value p \<and> holds (zs_view p n own) (take n (drop from a))"
proof -
  have "known (drop from a) = known (take n (drop from a)) @ known (drop n (drop from a))"
    by (metis append_take_drop_id known_simps(3))
  with assms show ?thesis
    by (auto simp: advance_def holds_def zs_view_def known_drop min_absorb2)
qed

lemma zs_chunk_ok:
  assumes "holds s a" and "length a < 4294967296" and "ch \<in> set a"
  shows "\<exists>u. zs_chunk s ch False = Value u \<and> holds u (dropWhile (\<lambda>c. c \<noteq> ch) a)"
proof -
  let ?i = "nat (first_index ch a)"
  have i: "drop ?i a = dropWhile (\<lambda>c. c \<noteq> ch) a" "?i < length a" "0 \<le> first_index ch a"
    using first_index_drop [OF assms(3)] assms(3) by (simp_all add: first_index_def)
  obtain r where r: "z_mem s = Some (known a @ r)" "z_len s = length a" using assms(1) by (auto simp: holds_def)
  have "take (length a - ?i) (drop ?i a) = dropWhile (\<lambda>c. c \<noteq> ch) a" by (subst i(1) [symmetric]) simp
  with holds_part [OF r(1), of ?i "length a - ?i" False] assms(2) i(2,3) r(2) show ?thesis
    by (auto simp: zs_chunk_def zs_find_ok [OF assms(1)])
qed

lemma fits_eq: "from \<le> len \<Longrightarrow> len < 4294967296 \<Longrightarrow> (len + 18446744073709551616 - from) mod 18446744073709551616 = len - (from::nat)"
  by (simp only: diff_add_assoc2 mod_add_self2) (rule mod_less, linarith)

lemma zs_substr_ok:
  assumes s: "holds s a" and l: "length a < 4294967296" and n: "0 < n" "from + n \<le> length a"
  shows "\<exists>u. zs_substr s from n True = Value u \<and> holds u (take n (drop from a))"
proof -
  obtain r where r: "z_mem s = Some (known a @ r)" "z_len s = length a" using s by (auto simp: holds_def)
  have "(length a + 18446744073709551616 - from) mod 18446744073709551616 = length a - from"
    by (rule fits_eq) (use n l in simp_all)
  with holds_part [OF r(1), of "from" n False] l n r show ?thesis
    by (auto simp: zs_substr_def Let_def)
qed

lemma zs_substr_rest:
  assumes s: "holds s a" and l: "length a < 4294967296" and n: "from < length a"
  shows "\<exists>u. zs_substr s from 0 True = Value u \<and> holds u (drop from a)"
proof -
  obtain r where r: "z_mem s = Some (known a @ r)" "z_len s = length a" using s by (auto simp: holds_def)
  have "(length a + 18446744073709551616 - from) mod 18446744073709551616 = length a - from"
    by (rule fits_eq) (use n l in simp_all)
  with holds_part [OF r(1), of "from" "length a - from" False] l n r show ?thesis
    by (auto simp: zs_substr_def Let_def)
qed

subsection \<open>Stripping\<close>

lemma skip_front_ok:
  "\<exists>x \<in> set b. x \<noteq> c \<Longrightarrow> skip_front (known (a @ b) @ r) c (length a) =
     Value (length a + length (takeWhile (\<lambda>x. x = c) b))"
proof (induction b arbitrary: a)
  case (Cons d b)
  have r: "rd (known (a @ d # b) @ r) (length a) = Value d"
    using rd_append [of "length a" "a @ d # b" r] by simp
  show ?case
  proof (cases "d = c")
    case True
    then have "skip_front (known (a @ d # b) @ r) c (length a) = skip_front (known ((a @ [d]) @ b) @ r) c (length (a @ [d]))"
      using r by (subst skip_front.simps) simp
    with Cons.IH [of "a @ [d]"] Cons.prems True show ?thesis by auto
  next
    case False
    then show ?thesis using r by (subst skip_front.simps) auto
  qed
qed simp

lemma skip_back_ok:
  "k \<le> length a \<Longrightarrow> \<exists>x \<in> set (take k a). x \<noteq> c \<Longrightarrow> skip_back (known a @ r) c k =
     Value (k - length (takeWhile (\<lambda>x. x = c) (rev (take k a))))"
proof (induction k)
  case (Suc k)
  then have r: "rd (known a @ r) k = Value (a ! k)" by (simp add: rd_append)
  show ?case
  proof (cases "a ! k = c")
    case True
    with Suc r show ?thesis by (auto simp: take_Suc_conv_app_nth)
  next
    case False
    with r Suc.prems show ?thesis by (simp add: take_Suc_conv_app_nth)
  qed
qed simp

lemma skip_back_all: "set (take k a) \<subseteq> {c} \<Longrightarrow> k \<le> length a \<Longrightarrow> skip_back (known a @ r) c k = Undefined"
  by (induction k) (auto simp: take_Suc_conv_app_nth rd_append)

lemma read_all_ok:
  "s + n \<le> length a \<Longrightarrow> read_all (known a @ r) s n = Value (take n (drop s a))"
proof (induction n arbitrary: s)
  case (Suc n)
  then have "drop s a = a ! s # drop (s + 1) a" by (simp add: Cons_nth_drop_Suc)
  with Suc show ?case by (simp add: rd_append)
qed simp

definition trim_text :: "char \<Rightarrow> string \<Rightarrow> string" where
  "trim_text c a = rev (dropWhile (\<lambda>x. x = c) (rev (dropWhile (\<lambda>x. x = c) a)))"

text \<open>What \<open>strip\<close> copies into its buffer.\<close>

definition strip_text :: "char \<Rightarrow> bool \<Rightarrow> string \<Rightarrow> string" where
  "strip_text c ends a = (if ends then trim_text c a else filter (\<lambda>d. d \<noteq> c) a)"

lemma strip_middle:
  assumes "\<exists>x \<in> set a. x \<noteq> c"
  shows "take (length a - length (takeWhile (\<lambda>x. x = c) (rev a)) - length (takeWhile (\<lambda>x. x = c) a))
    (drop (length (takeWhile (\<lambda>x. x = c) a)) a) = trim_text c a"
proof -
  define f where "f = takeWhile (\<lambda>x. x = c) a"
  define d where "d = dropWhile (\<lambda>x. x = c) a"
  have a: "f @ d = a" unfolding f_def d_def by (rule takeWhile_dropWhile_id)
  have "\<forall>x \<in> set f. x = c" unfolding f_def by (blast dest: set_takeWhileD)
  then obtain x where x: "x \<in> set d" "x \<noteq> c" using assms a by (metis Un_iff set_append)
  have "takeWhile (\<lambda>x. x = c) (rev a) = takeWhile (\<lambda>x. x = c) (rev d)"
    unfolding a [symmetric] using x by (simp add: takeWhile_append1)
  moreover have "drop (length f) a = d" "length a = length f + length d" by (simp_all flip: a)
  moreover have "take (length d - k) d = rev (drop k (rev d))" for k by (simp add: rev_drop)
  ultimately show ?thesis
    unfolding f_def [symmetric] trim_text_def d_def [symmetric]
    by (simp add: dropWhile_eq_drop diff_commute)
qed

lemma filter_trim: "filter (\<lambda>d. d \<noteq> c) (trim_text c a) = filter (\<lambda>d. d \<noteq> c) a"
proof -
  have d: "filter (\<lambda>d. d \<noteq> c) (dropWhile (\<lambda>x. x = c) b) = filter (\<lambda>d. d \<noteq> c) b" for b
    by (induction b) simp_all
  show ?thesis by (simp add: trim_text_def rev_filter [symmetric] d)
qed

lemma length_strip_text: "length (strip_text c ends a) \<le> length a"
  using length_dropWhile_le [of "\<lambda>x. x = c" a]
    length_dropWhile_le [of "\<lambda>x. x = c" "rev (dropWhile (\<lambda>x. x = c) a)"]
  by (simp add: strip_text_def trim_text_def)

lemma align_0_iff: "align n = 0 \<longleftrightarrow> 8 dvd n"
  by (auto simp: align_def)

lemma strip_buffer:
  assumes l: "0 < n" "n + 8 < 4294967296" "length t \<le> n"
    and d: "m_data (obuffer n) = Some d" "wr_all d 0 t = Value d'"
  shows "seek (int (length t)) ((obuffer n)\<lparr>m_data := Some d'\<rparr>) =
      (if length t = n \<and> 8 dvd n then Throw OutOfRange
       else Value ((obuffer n)\<lparr>m_data := Some d', m_offset := length t\<rparr>))"
    and "buf_ok ((obuffer n)\<lparr>m_data := Some d', m_offset := length t\<rparr>)"
    and "contents ((obuffer n)\<lparr>m_data := Some d', m_offset := length t\<rparr>) = known t"
proof -
  have o: "buf_ok (obuffer n)" "m_offset (obuffer n) = 0" "m_size (obuffer n) = n + align n"
    using obuffer_ok [of n] l by simp_all
  have n: "length d = n + align n + 1" using o d by (simp add: buf_ok_def)
  have e: "d' = known t @ drop (length t) d" using wr_all_eq [of 0 t d] l n d(2) by simp
  show "seek (int (length t)) ((obuffer n)\<lparr>m_data := Some d'\<rparr>) =
      (if length t = n \<and> 8 dvd n then Throw OutOfRange
       else Value ((obuffer n)\<lparr>m_data := Some d', m_offset := length t\<rparr>))"
    using o l align_0_iff [of n] by (auto simp: seek_def bseek_def)
  show "contents ((obuffer n)\<lparr>m_data := Some d', m_offset := length t\<rparr>) = known t"
    by (simp add: contents_def e)
  show "buf_ok ((obuffer n)\<lparr>m_data := Some d', m_offset := length t\<rparr>)"
    using o l n by (simp add: buf_ok_def e)
qed

lemma zs_strip_eq:
  fixes ends :: bool
  assumes s: "holds s a" and l: "length a + 8 < 4294967296" and x: "\<exists>x \<in> set a. x \<noteq> c"
  defines "t \<equiv> strip_text c ends a"
  shows "\<exists>u. zs_strip s c ends = (if length t = length a \<and> 8 dvd length a then Throw OutOfRange else Value u) \<and>
    holds u t"
proof -
  obtain r where r: "z_mem s = Some (known a @ r)" "z_len s = length a" using s by (auto simp: holds_def)
  let ?f = "length (takeWhile (\<lambda>x. x = c) a)" and ?e = "length a - length (takeWhile (\<lambda>x. x = c) (rev a))"
  have f: "skip_front (known a @ r) c 0 = Value ?f" using skip_front_ok [of a c "[]" r] x by simp
  have e: "skip_back (known a @ r) c (length a) = Value ?e" using skip_back_ok [of "length a" a c r] x by simp
  have m: "read_all (known a @ r) ?f (?e - ?f) = Value (trim_text c a)"
    using read_all_ok [of ?f "?e - ?f" a r] strip_middle [OF x] length_takeWhile_le [of "\<lambda>x. x = c" a] by simp
  have n: "0 < length a" using x by auto
  have "\<exists>d. m_data (obuffer (length a)) = Some d"
    using obuffer_ok [of "length a"] l n by (cases "m_data (obuffer (length a))") (auto simp: buf_ok_def)
  then obtain d where d: "m_data (obuffer (length a)) = Some d" by blast
  have tl: "length t \<le> length a" unfolding t_def by (rule length_strip_text)
  have "\<exists>d'. wr_all d 0 t = Value d'"
    using wr_all_eq [of 0 t d] obuffer_ok [of "length a"] l n d tl by (auto simp: buf_ok_def)
  then obtain d' where d': "wr_all d 0 t = Value d'" by blast
  note b = strip_buffer [OF n l tl d d']
  obtain m' where m': "release ((obuffer (length a))\<lparr>m_data := Some d', m_offset := length t\<rparr>) = Value (m', empty_buffer)"
      "take (length t) m' = known t"
    using release_ok [OF b(2)] b(3) by auto
  have k: "m' = known t @ drop (length t) m'" by (metis append_take_drop_id m'(2))
  have t: "(if ends then trim_text c a else filter (\<lambda>d. d \<noteq> c) (trim_text c a)) = t"
    by (simp add: t_def strip_text_def filter_trim)
  let ?u = "\<lparr>z_mem = Some m', z_len = length t, z_own = True\<rparr>"
  have "zs_strip s c ends = (if length t = length a \<and> 8 dvd length a then Throw OutOfRange else Value ?u)"
    using f e m d d' b(1) m'(1) t by (simp add: zs_strip_def r Let_def zs_of_buffer_def size_buf_def)
  moreover have "holds ?u t" using k by (auto simp: holds_def)
  ultimately show ?thesis by blast
qed

lemma zs_strip_all:
  assumes "holds s a" and "set a \<subseteq> {c}"
  shows "zs_strip s c ends = Undefined"
proof -
  obtain r where r: "z_mem s = Some (known a @ r)" "z_len s = length a" using assms(1) by (auto simp: holds_def)
  have "skip_back (known a @ r) c (length a) = Undefined" using skip_back_all [of "length a" a c r] assms(2) by simp
  moreover have "skip_front m c i \<noteq> Throw e" for m i e
  proof (induction m c i rule: skip_front.induct)
    case (1 m c i)
    then show ?case by (subst skip_front.simps) (auto simp: rd_def split: option.splits)
  qed
  ultimately show ?thesis
    by (cases "skip_front (known a @ r) c 0") (simp_all add: zs_strip_def r Let_def)
qed

section \<open>A key of ordered maps\<close>

definition text_of :: "zstring \<Rightarrow> string" where
  "text_of s = (case z_mem s of None \<Rightarrow> [] | Some m \<Rightarrow> map the (take (z_len s) m))"

definition readable :: "zstring \<Rightarrow> bool" where
  "readable s \<longleftrightarrow> holds s (text_of s)"

lemma holds_text_of: "holds s a \<Longrightarrow> text_of s = a"
  by (auto simp: holds_def text_of_def known_def comp_def)

lemma holds_readable: "holds s a \<Longrightarrow> readable s"
  by (simp add: readable_def holds_text_of)

interpretation zs: keyed_order zs_less "zs_eq False" "\<lambda>s. zkey (text_of s)" readable
  by unfold_locales (simp_all add: readable_def zs_less_ok zs_eq_ok)

section \<open>The properties\<close>

text \<open>C35: operator< of String is a strict total order up to operator==: irreflexive,
  transitive, and any two strings are equal or one is less.\<close>
theorem zstring_map_order:
  assumes "readable s" and "readable t" and "readable u"
  shows "zs_less s s = Value False \<and>
    (zs_less s t = Value True \<and> zs_less t u = Value True \<longrightarrow> zs_less s u = Value True) \<and>
    (zs_less s t = Value True \<or> zs_eq False s t = Value True \<or> zs_less t s = Value True) \<and>
    (zs_less s t = Value True \<longrightarrow> zs_eq False s t = Value False)"
  using zs.less_irrefl [OF assms(1)] zs.less_trans [OF assms] zs.less_total [OF assms(1,2)]
    zs.less_not_eq [OF assms(1,2)]
  by blast

theorem zstring_map_order_witness:
  "zs_less (zs_of_cstr (Some ''b'')) (zs_of_cstr (Some ''ab'')) = Value True"
proof -
  let ?z = "\<lambda>a. zs_of_cstr (Some a)"
  have r: "readable (?z ''b'')" "readable (?z ''aa'')" "readable (?z ''ab'')"
    by (rule holds_readable [OF holds_cstr], simp)+
  have "zs_less (?z ''b'') (?z ''aa'') = Value True" "zs_less (?z ''aa'') (?z ''ab'') = Value True"
    by (simp_all add: zs_less_def zs_compare_def zs_of_cstr_def ucode_def)
  with zstring_map_order [OF r] show ?thesis by blast
qed

text \<open>operator== decides the equality of texts without NUL bytes.\<close>
theorem zstring_eq_iff:
  assumes "holds s a" and "holds t b" and "NUL \<notin> set a" and "NUL \<notin> set b"
  shows "zs_eq False s t = Value (a = b)"
  using zs_eq_ok [OF assms(1,2)] assms(3,4) by (auto simp: zkey_eq_iff)

theorem zstring_eq_iff_witness:
  "zs_eq False (zs_of_cstr (Some ''ab'')) (zs_fill (CHR ''a'') 2) = Value (''ab'' = ''aa'')"
  by (rule zstring_eq_iff) (simp_all add: holds_def zs_of_cstr_def zs_fill_def numeral_2_eq_2)

text \<open>A substring inside the string is a view of its bytes; the whole rest is taken when
  no length is given.\<close>
theorem zstring_substr:
  assumes "holds s a" and "length a < 2 ^ 32" and "from < length a" and "from + n \<le> length a"
  shows "\<exists>u. zs_substr s from n True = Value u \<and>
    holds u (if n = 0 then drop from a else take n (drop from a))"
  using zs_substr_ok [OF assms(1), of n "from"] zs_substr_rest [OF assms(1), of "from"] assms(2-4)
  by (cases "n = 0") simp_all

theorem zstring_substr_witness:
  "\<exists>u. zs_substr (zs_of_cstr (Some ''Hello'')) 1 3 True = Value u \<and>
    holds u (if (3::nat) = 0 then drop 1 ''Hello'' else take 3 (drop 1 ''Hello''))"
  by (rule zstring_substr [OF holds_cstr]) simp_all

text \<open>A substring that starts behind the terminator is not the empty string: the
  difference of the lengths wraps, and the view points outside the string.\<close>
theorem zstring_substr_past_end:
  assumes "length a < 2 ^ 32" and "length a + 1 < from" and "from < 2 ^ 64" and "0 < n" and "n < 2 ^ 32"
    and "from \<le> 2 ^ 64 - 2 ^ 32"
  shows "zs_substr (zs_of_cstr (Some a)) from n zc = Undefined"
proof -
  have "(length a + 18446744073709551616 - from) mod 18446744073709551616 = length a + 18446744073709551616 - from"
    by (rule mod_less) (use assms in linarith)
  moreover have "n \<le> length a + 18446744073709551616 - from" using assms by simp
  ultimately show ?thesis
    using assms by (simp add: zs_substr_def Let_def zs_of_cstr_def advance_def)
qed

theorem zstring_substr_past_end_witness:
  "zs_substr (zs_of_cstr (Some ''abc'')) 9 2 True = Undefined"
  by (rule zstring_substr_past_end) simp_all

text \<open>strip returns the text without the character (at its ends or everywhere), except
  that it throws when nothing is stripped from a text whose length is a multiple of eight.\<close>
theorem zstring_strip:
  assumes "holds s a" and "length a + 8 < 2 ^ 32" and "\<exists>x \<in> set a. x \<noteq> c"
  shows "\<exists>u. zs_strip s c ends =
      (if length (strip_text c ends a) = length a \<and> 8 dvd length a then Throw OutOfRange else Value u) \<and>
    holds u (strip_text c ends a)"
  by (rule zs_strip_eq) (use assms in simp_all)

theorem zstring_strip_witness:
  "\<exists>u. zs_strip (zs_of_cstr (Some ''datafile'')) (CHR '' '') True =
      (if length (strip_text (CHR '' '') True ''datafile'') = length ''datafile'' \<and> 8 dvd length ''datafile''
       then Throw OutOfRange else Value u) \<and>
    holds u (strip_text (CHR '' '') True ''datafile'')"
  by (rule zstring_strip [OF holds_cstr]) simp_all

text \<open>A text of nothing but the character, the empty one included, makes strip read
  before its first byte.\<close>
theorem zstring_strip_all:
  assumes "holds s a" and "set a \<subseteq> {c}"
  shows "zs_strip s c ends = Undefined"
  by (rule zs_strip_all [OF assms])

theorem zstring_strip_all_witness:
  "zs_strip (zs_of_cstr (Some ''  '')) (CHR '' '') True = Undefined"
  by (rule zstring_strip_all [OF holds_cstr]) simp_all

text \<open>chunk returns the text from the first occurrence of the character on.\<close>
theorem zstring_chunk:
  assumes "holds s a" and "length a < 2 ^ 32" and "ch \<in> set a"
  shows "\<exists>u. zs_chunk s ch False = Value u \<and> holds u (dropWhile (\<lambda>c. c \<noteq> ch) a)"
  by (rule zs_chunk_ok) (use assms in simp_all)

theorem zstring_chunk_witness:
  "\<exists>u. zs_chunk (zs_of_cstr (Some ''k=v'')) (CHR ''='') False = Value u \<and>
    holds u (dropWhile (\<lambda>c. c \<noteq> CHR ''='') ''k=v'')"
  by (rule zstring_chunk [OF holds_cstr]) simp_all

end
