(* ===== verification/UrlCode.thy ===== *)
theory UrlCode
  imports Zstring
begin

text \<open>
  The text conversions of \<^verbatim>\<open>suil/utils.cpp\<close>: hexadecimal digits (\<open>i2c\<close> is in \<^verbatim>\<open>Buffer\<close>),
  \<open>hexstr\<close> and \<open>bytes\<close>, \<open>memfind\<close>, URL encoding and decoding with the fixed or computed
  buffers they write to, and the text of a UUID.  \<open>isalnum\<close> is the one of the C locale.  The
  two increments in the loop of \<open>bytes\<close> are taken from left to right.
\<close>

section \<open>Hexadecimal text\<close>

definition c2i :: "char \<Rightarrow> nat outcome" where
  "c2i c =
     (if between CHR ''0'' c CHR ''9'' then Value (ucode c - ucode (CHR ''0''))
      else if between CHR ''a'' c CHR ''f'' then Value (ucode c - ucode (CHR ''W''))
      else if between CHR ''A'' c CHR ''F'' then Value (ucode c - ucode (CHR ''7''))
      else Throw OutOfRange)"

text \<open>\<open>hexstr(in, ilen, out, olen)\<close>: the bytes written to \<open>out\<close>, none for the value 0.\<close>

definition hexstr_raw :: "string option \<Rightarrow> cells option \<Rightarrow> (nat \<times> cells option) outcome" where
  "hexstr_raw buf out =
     (case (buf, out) of
        (Some s, Some m) \<Rightarrow>
          if length m < 2 * length s then Value (0, out)
          else bind_out (hex_digits False s) (\<lambda>t.
                 bind_out (wr_all m 0 t) (\<lambda>m'. Value (length t, Some m')))
      | _ \<Rightarrow> Value (0, out))"

definition hexstr :: "string option \<Rightarrow> zstring outcome" where
  "hexstr buf =
     (case buf of
        None \<Rightarrow> Value zs_null
      | Some s \<Rightarrow>
          bind_out (hexstr_raw buf (Some (replicate (2 + 2 * length s) None))) (\<lambda>(rc, out).
            if rc = 0 then Value zs_null
            else bind_out (wr (the out) rc NUL) (\<lambda>m. Value (zs_view (Some m) rc True))))"

text \<open>The loop of \<open>bytes\<close>: \<open>n\<close> more bytes from the text at \<open>p\<close>, to \<open>out[i]\<close>.\<close>

fun bytes_loop :: "nat \<Rightarrow> cells \<Rightarrow> nat \<Rightarrow> cells \<Rightarrow> nat \<Rightarrow> cells outcome" where
  "bytes_loop 0 m p out i = Value out"
| "bytes_loop (Suc n) m p out i =
     bind_out (rd m p) (\<lambda>c. bind_out (c2i c) (\<lambda>h.
     bind_out (rd m (p + 1)) (\<lambda>d. bind_out (c2i d) (\<lambda>l.
     bind_out (wr out i (char_of ((push_bit 4 h OR l) mod 256))) (\<lambda>out.
     bytes_loop n m (p + 2) out (i + 1))))))"

definition bytes :: "zstring \<Rightarrow> cells option \<Rightarrow> cells option outcome" where
  "bytes str out =
     (let n = z_len str div 2 in
      case out of
        None \<Rightarrow> Throw OtherException
      | Some o1 \<Rightarrow>
          if length o1 < n then Throw OtherException
          else if n = 0 then Value out
          else (case z_mem str of
                  None \<Rightarrow> Undefined
                | Some m \<Rightarrow> map_out Some (bytes_loop n m 0 o1 0)))"

section \<open>Searching memory\<close>

text \<open>\<open>memfind\<close>: the position of the needle, \<open>None\<close> for the null pointer.  A needle of no
  bytes has its first byte read all the same.\<close>

function memfind :: "string \<Rightarrow> string \<Rightarrow> nat \<Rightarrow> nat option outcome" where
  "memfind src needle pos =
     (if pos < length src then
        (case needle of
           [] \<Rightarrow> Undefined
         | c # _ \<Rightarrow>
             if src ! pos \<noteq> c then memfind src needle (pos + 1)
             else if length src - pos < length needle then Value None
             else if take (length needle) (drop pos src) = needle then Value (Some pos)
             else memfind src needle (pos + 1))
      else Value None)"
  by pat_completeness auto

termination memfind
  by (relation "measure (\<lambda>(src, needle, pos). length src - pos)") auto

section \<open>URL encoding\<close>

definition isalnum :: "char \<Rightarrow> bool" where
  "isalnum c \<longleftrightarrow>
     between CHR ''0'' c CHR ''9'' \<or> between CHR ''A'' c CHR ''Z'' \<or> between CHR ''a'' c CHR ''z''"

text \<open>\<open>strchr("-_.~", c)\<close> also finds the terminator.\<close>

definition url_plain :: "char \<Rightarrow> bool" where
  "url_plain c \<longleftrightarrow> isalnum c \<or> c \<in> set (''-_.~'' @ [NUL])"

definition hexchars :: string where
  "hexchars = ''0123456789ABCDEF''"

definition url_escape :: "char \<Rightarrow> string" where
  "url_escape c =
     (if \<not> url_plain c
      then [CHR ''%'', hexchars ! (ucode c div 16), hexchars ! (ucode c mod 16)]
      else [c])"

fun urlencode_loop :: "string \<Rightarrow> cells \<Rightarrow> nat \<Rightarrow> (cells \<times> nat) outcome" where
  "urlencode_loop [] m dst = Value (m, dst)"
| "urlencode_loop (c # src) m dst =
     bind_out (wr_all m dst (url_escape c)) (\<lambda>m. urlencode_loop src m (dst + length (url_escape c)))"

definition urlencode :: "string \<Rightarrow> zstring outcome" where
  "urlencode str =
     bind_out (urlencode_loop str (replicate (length str * 3) None) 0) (\<lambda>(m, dst).
     bind_out (wr m dst NUL) (\<lambda>m. Value (zs_view (Some m) dst True)))"

section \<open>URL decoding\<close>

definition is_hex_char :: "char \<Rightarrow> bool" where
  "is_hex_char c \<longleftrightarrow>
     between CHR ''0'' c CHR ''9'' \<or> between CHR ''a'' c CHR ''f'' \<or> between CHR ''A'' c CHR ''F''"

definition hex_value :: "char \<Rightarrow> nat" where
  "hex_value c =
     (if between CHR ''0'' c CHR ''9'' then ucode c - ucode (CHR ''0'')
      else if between CHR ''a'' c CHR ''f'' then ucode c - ucode (CHR ''a'') + 10
      else ucode c - ucode (CHR ''A'') + 10)"

text \<open>One round of the loop of \<open>__urldecode\<close>: the byte it writes and how far it moves.\<close>

definition urldecode_step :: "string \<Rightarrow> char \<times> nat" where
  "urldecode_step src =
     (if hd src = CHR ''%'' \<and> 2 < length src \<and> is_hex_char (src ! 1) \<and> is_hex_char (src ! 2)
      then (char_of (push_bit 4 (hex_value (src ! 1)) OR hex_value (src ! 2)), 3)
      else if hd src = CHR ''+'' then (CHR '' '', 1)
      else (hd src, 1))"

lemma urldecode_step_pos: "0 < snd (urldecode_step src)"
  by (simp add: urldecode_step_def)

function urldecode_loop :: "string \<Rightarrow> cells \<Rightarrow> nat \<Rightarrow> (cells \<times> nat) outcome" where
  "urldecode_loop src out dest =
     (if src = [] then Value (out, dest)
      else bind_out (wr out dest (fst (urldecode_step src))) (\<lambda>out.
             urldecode_loop (drop (snd (urldecode_step src)) src) out (dest + 1)))"
  by pat_completeness auto

termination urldecode_loop
  by (relation "measure (\<lambda>(src, out, dest). length src)") (auto simp: urldecode_step_pos)

text \<open>\<open>(int)len\<close> is negative from 2^31 on, and then nothing is decoded.\<close>

definition urldecode :: "string \<Rightarrow> zstring outcome" where
  "urldecode src =
     bind_out (urldecode_loop (if length src mod 2 ^ 32 < 2 ^ 31 then take (length src mod 2 ^ 32) src else [])
         (replicate 1024 None) 0)
       (\<lambda>(out, size). zs_dup (zs_view (Some out) size False))"

section \<open>The text of a UUID\<close>

text \<open>\<open>uuidstr(id)\<close>: \<open>UUID\<close> is the static array, which a call with a null \<open>id\<close> fills with the
  next generated one.  The bytes of a non-null \<open>id\<close> are not read.\<close>

fun uuid_bytes :: "string \<Rightarrow> nat \<Rightarrow> string outcome" where
  "uuid_bytes [] i = Value []"
| "uuid_bytes (c # cs) i =
     bind_out (i2c (ucode c div 16 mod 16) False) (\<lambda>h. bind_out (i2c (ucode c mod 16) False) (\<lambda>l.
     bind_out (uuid_bytes cs (i + 1)) (\<lambda>r.
       Value ([h, l] @ (if i = 3 \<or> (4 \<le> i \<and> i < 10 \<and> odd i) then ''-'' else '''') @ r))))"

definition uuidstr :: "string option \<Rightarrow> string \<Rightarrow> string \<Rightarrow> (zstring \<times> string) outcome" where
  "uuidstr given UUID generated =
     (let UUID' = (if given = None then generated else UUID) in
      bind_out (uuid_bytes UUID' 0) (\<lambda>t.
      bind_out (wr_all (replicate 36 None) 0 t) (\<lambda>out.
      bind_out (zs_dup (zs_view (Some out) (length t) False)) (\<lambda>s. Value (s, UUID')))))"

section \<open>Digits and bytes\<close>

lemma c2i_i2c: "k < 16 \<Longrightarrow> \<exists>d. i2c k caps = Value d \<and> c2i d = Value k"
proof -
  assume "k < 16"
  then have "k \<in> set [0..<16]" by simp
  moreover have "list_all (\<lambda>k. case i2c k True of Value d \<Rightarrow> c2i d = Value k | _ \<Rightarrow> False) [0..<16]"
    by code_simp
  moreover have "list_all (\<lambda>k. case i2c k False of Value d \<Rightarrow> c2i d = Value k | _ \<Rightarrow> False) [0..<16]"
    by code_simp
  ultimately show ?thesis by (cases caps; cases "i2c k caps") (fastforce simp: list_all_iff split: outcome.splits)+
qed

lemma nibbles: "push_bit 4 (ucode c div 16) OR ucode c mod 16 = ucode c"
  using nat_shift_or [of "ucode c mod 16" 4 "ucode c div 16"] by (simp add: mult.commute)

lemma nibbles_mod: "char_of (push_bit 4 (ucode c div 16 mod 16) OR ucode c mod 16) = c"
proof -
  have "ucode c div 16 < 16" using ucode_less [of c] by linarith
  then show ?thesis by (simp add: nibbles)
qed

lemma bytes_loop_ok:
  assumes "hex_digits caps s = Value t" and "i + length s \<le> length out"
  shows "bytes_loop (length s) (known (a @ t) @ r) (length a) out i =
    Value (take i out @ known s @ drop (i + length s) out)"
  using assms
proof (induction s arbitrary: a t out i)
  case (Cons c s)
  obtain h where h: "i2c (ucode c div 16 mod 16) caps = Value h" "c2i h = Value (ucode c div 16 mod 16)"
    using c2i_i2c [of "ucode c div 16 mod 16"] by auto
  obtain l where l: "i2c (ucode c mod 16) caps = Value l" "c2i l = Value (ucode c mod 16)"
    using c2i_i2c [of "ucode c mod 16"] by auto
  obtain t' where t: "hex_digits caps s = Value t'" "t = h # l # t'"
    using Cons.prems(1) h l by (auto simp: bind_out_Value_iff)
  have rd: "rd (known (a @ t) @ r) (length a) = Value h" "rd (known (a @ t) @ r) (length a + 1) = Value l"
    using rd_append [of "length a" "a @ t" r] rd_append [of "length a + 1" "a @ t" r] t(2)
    by (simp_all add: nth_append)
  have w: "wr out i c = Value (out[i := Some c])" using Cons.prems(2) by (simp add: wr_def)
  have "bytes_loop (length (c # s)) (known (a @ t) @ r) (length a) out i =
      bytes_loop (length s) (known ((a @ [h, l]) @ t') @ r) (length (a @ [h, l])) (out[i := Some c]) (i + 1)"
    using rd h l w t(2) by (simp del: known_simps add: nibbles_mod)
  also have "\<dots> = Value (take (i + 1) (out[i := Some c]) @ known s @ drop (i + 1 + length s) (out[i := Some c]))"
    by (rule Cons.IH [OF t(1)]) (use Cons.prems(2) in simp)
  also have "take (i + 1) (out[i := Some c]) = take i out @ [Some c]"
    using Cons.prems(2) by (simp add: take_Suc_conv_app_nth)
  finally show ?case by simp
qed simp

lemma bytes_ok:
  assumes "hex_digits caps s = Value t" and "holds u t" and "length s \<le> length out"
  shows "bytes u (Some out) = Value (Some (known s @ drop (length s) out))"
proof -
  have n: "length t = 2 * length s" using hex_digits_total [of caps s] assms(1) by auto
  obtain r where "z_mem u = Some (known t @ r)" "z_len u = length t" using assms(2) by (auto simp: holds_def)
  with bytes_loop_ok [OF assms(1), of 0 out "[]" r] assms(3) n show ?thesis
    by (auto simp: bytes_def Let_def)
qed

lemma hexstr_ok:
  assumes "s \<noteq> []" and "2 * length s < 2 ^ 32"
  shows "\<exists>t u. hex_digits False s = Value t \<and> hexstr (Some s) = Value u \<and> holds u t \<and> z_own u"
proof -
  obtain t where t: "hex_digits False s = Value t" "length t = 2 * length s" using hex_digits_total by blast
  let ?m = "replicate (2 + 2 * length s) None :: cells"
  have "wr_all ?m 0 t = Value (take 0 ?m @ known t @ drop (0 + length t) ?m)"
    by (rule wr_all_eq) (simp add: t(2))
  moreover have "drop (0 + length t) ?m = [None, None]" unfolding drop_replicate t(2) by (simp add: numeral_2_eq_2)
  ultimately have "wr_all ?m 0 t = Value (known t @ [None, None])" by simp
  then have "hexstr (Some s) = Value (zs_view (Some (known t @ [Some NUL, None])) (length t) True)"
    using t assms by (simp add: hexstr_def hexstr_raw_def wr_def list_update_append)
  with t assms(2) show ?thesis by (auto simp: holds_def zs_view_def)
qed

section \<open>URL text\<close>

definition url_text :: "string \<Rightarrow> string" where
  "url_text s = concat (map url_escape s)"

lemma url_escape_ne [simp]: "url_escape c \<noteq> []"
  by (simp add: url_escape_def)

lemma length_url_text: "length (url_text s) \<le> 3 * length s"
  by (induction s) (simp_all add: url_text_def url_escape_def)

declare urldecode_loop.simps [simp del] memfind.simps [simp del]

lemma url_text_full: "length (url_text s) = 3 * length s \<longleftrightarrow> (\<forall>c \<in> set s. \<not> url_plain c)"
proof (induction s)
  case (Cons c s)
  have "length (url_text (c # s)) = length (url_escape c) + length (url_text s)" by (simp add: url_text_def)
  with Cons length_url_text [of s] show ?case by (auto simp: url_escape_def)
qed (simp add: url_text_def)

lemma urlencode_loop_ok:
  "dst + length (url_text s) \<le> length m \<Longrightarrow>
   urlencode_loop s m dst = bind_out (wr_all m dst (url_text s)) (\<lambda>m. Value (m, dst + length (url_text s)))"
proof (induction s arbitrary: m dst)
  case (Cons c s)
  let ?e = "url_escape c"
  have l: "dst + length ?e + length (url_text s) \<le> length m" using Cons.prems by (simp add: url_text_def)
  have "wr_all m dst ?e = Value (take dst m @ known ?e @ drop (dst + length ?e) m)" (is "_ = Value ?m")
    by (rule wr_all_eq) (use l in simp)
  moreover have "urlencode_loop s ?m (dst + length ?e) =
      bind_out (wr_all ?m (dst + length ?e) (url_text s)) (\<lambda>m. Value (m, dst + length ?e + length (url_text s)))"
    by (rule Cons.IH) (use l in simp)
  moreover have "wr_all ?m (dst + length ?e) (url_text s) =
      Value (take (dst + length ?e) ?m @ known (url_text s) @ drop (dst + length ?e + length (url_text s)) ?m)"
    by (rule wr_all_eq) (use l in simp)
  moreover have "wr_all m dst (?e @ url_text s) =
      Value (take dst m @ known (?e @ url_text s) @ drop (dst + length (?e @ url_text s)) m)"
    by (rule wr_all_eq) (use l in simp)
  ultimately show ?case using l by (simp add: url_text_def min_absorb2 ac_simps)
qed (simp add: url_text_def)

lemma hexchars_ok: "k < 16 \<Longrightarrow> is_hex_char (hexchars ! k) \<and> hex_value (hexchars ! k) = k"
proof -
  assume "k < 16"
  then have "k \<in> set [0..<16]" by simp
  moreover have "list_all (\<lambda>k. is_hex_char (hexchars ! k) \<and> hex_value (hexchars ! k) = k) [0..<16]"
    by code_simp
  ultimately show ?thesis by (auto simp: list_all_iff)
qed

lemma plain_chars: "url_plain c \<Longrightarrow> c \<noteq> CHR ''%'' \<and> c \<noteq> CHR ''+''"
  by (auto simp: url_plain_def isalnum_def between_def ucode_def)

lemma urldecode_step_escape:
  "urldecode_step (url_escape c @ r) = (c, length (url_escape c))"
proof (cases "url_plain c")
  case True
  with plain_chars [OF this] show ?thesis by (simp add: url_escape_def urldecode_step_def)
next
  case False
  have k: "ucode c div 16 < 16" "ucode c mod 16 < 16" using ucode_less [of c] by linarith+
  with False hexchars_ok [OF k(1)] hexchars_ok [OF k(2)] nibbles [of c] show ?thesis
    by (simp add: url_escape_def urldecode_step_def)
qed

lemma urldecode_loop_ok:
  "dest + length s \<le> length out \<Longrightarrow>
   urldecode_loop (url_text s) out dest = Value (take dest out @ known s @ drop (dest + length s) out, dest + length s)"
proof (induction s arbitrary: out dest)
  case (Cons c s)
  have e: "url_text (c # s) = url_escape c @ url_text s" "url_text (c # s) \<noteq> []"
    by (simp_all add: url_text_def url_escape_def)
  have "urldecode_loop (url_text (c # s)) out dest = urldecode_loop (url_text s) (out[dest := Some c]) (dest + 1)"
    using Cons.prems e by (subst urldecode_loop.simps) (simp add: urldecode_step_escape wr_def)
  also have "\<dots> = Value (take (dest + 1) (out[dest := Some c]) @ known s @ drop (dest + 1 + length s) (out[dest := Some c]), dest + 1 + length s)"
    by (rule Cons.IH) (use Cons.prems in simp)
  also have "take (dest + 1) (out[dest := Some c]) = take dest out @ [Some c]"
    using Cons.prems by (simp add: take_Suc_conv_app_nth)
  finally show ?case by simp
qed (simp add: url_text_def urldecode_loop.simps)

lemma urldecode_loop_overflow:
  "length out < dest + length s \<Longrightarrow> dest \<le> length out \<Longrightarrow> urldecode_loop (url_text s) out dest = Undefined"
proof (induction s arbitrary: out dest)
  case (Cons c s)
  have e: "url_text (c # s) = url_escape c @ url_text s" "url_text (c # s) \<noteq> []"
    by (simp_all add: url_text_def url_escape_def)
  show ?case
  proof (cases "dest < length out")
    case True
    then have "urldecode_loop (url_text (c # s)) out dest = urldecode_loop (url_text s) (out[dest := Some c]) (dest + 1)"
      using e by (subst urldecode_loop.simps) (simp add: urldecode_step_escape wr_def)
    with Cons.IH [of "out[dest := Some c]" "dest + 1"] Cons.prems True show ?thesis by simp
  qed (use e in \<open>subst urldecode_loop.simps, simp add: urldecode_step_escape wr_def\<close>)
qed simp

lemma urlencode_ok:
  assumes "\<exists>c \<in> set s. url_plain c" and "length s < 2 ^ 30"
  shows "\<exists>u. urlencode s = Value u \<and> holds u (url_text s) \<and> z_own u"
proof -
  let ?m = "replicate (length s * 3) None :: cells" and ?k = "length (url_text s)"
  have k: "?k < length s * 3" using length_url_text [of s] url_text_full [of s] assms(1) by force
  have "urlencode_loop s ?m 0 = bind_out (wr_all ?m 0 (url_text s)) (\<lambda>m. Value (m, 0 + ?k))"
    by (rule urlencode_loop_ok) (use k in simp)
  moreover have "wr_all ?m 0 (url_text s) = Value (take 0 ?m @ known (url_text s) @ drop (0 + ?k) ?m)"
    by (rule wr_all_eq) (use k in simp)
  ultimately have "urlencode s = Value (zs_view (Some ((known (url_text s) @ drop ?k ?m)[?k := Some NUL])) ?k True)"
    using k by (simp add: urlencode_def wr_def)
  moreover have "?k < 2 ^ 32" using k assms(2) by simp
  ultimately show ?thesis by (auto simp: holds_def zs_view_def list_update_append)
qed

lemma urlencode_full:
  assumes "\<forall>c \<in> set s. \<not> url_plain c"
  shows "urlencode s = Undefined"
proof -
  let ?m = "replicate (length s * 3) None :: cells" and ?k = "length (url_text s)"
  have k: "?k = length s * 3" using url_text_full [of s] assms by simp
  have "urlencode_loop s ?m 0 = bind_out (wr_all ?m 0 (url_text s)) (\<lambda>m. Value (m, 0 + ?k))"
    by (rule urlencode_loop_ok) (use k in simp)
  moreover have "wr_all ?m 0 (url_text s) = Value (take 0 ?m @ known (url_text s) @ drop (0 + ?k) ?m)"
    by (rule wr_all_eq) (use k in simp)
  ultimately show ?thesis using k by (simp add: urlencode_def wr_def)
qed

text \<open>Decoding up to the copy of the result.\<close>

lemma urldecode_eq:
  assumes "length s \<le> 1024"
  shows "urldecode (url_text s) =
    zs_dup (zs_view (Some (known s @ replicate (1024 - length s) None)) (length s) False)"
proof -
  let ?m = "replicate 1024 None :: cells"
  have "length (url_text s) < 2147483648" using length_url_text [of s] assms by linarith
  moreover have "urldecode_loop (url_text s) ?m 0 =
      Value (take 0 ?m @ known s @ drop (0 + length s) ?m, 0 + length s)"
    by (rule urldecode_loop_ok) (use assms in simp)
  ultimately show ?thesis by (simp add: urldecode_def)
qed

section \<open>The properties\<close>

text \<open>hexstr writes two digits for each byte, and bytes reads them back, into an output of
  any larger size.\<close>
theorem hexstr_bytes_roundtrip:
  assumes "s \<noteq> []" and "length s < 2 ^ 31" and "length s \<le> length out"
  shows "\<exists>u. hexstr (Some s) = Value u \<and> z_len u = 2 * length s \<and>
    bytes u (Some out) = Value (Some (known s @ drop (length s) out))"
proof -
  have "2 * length s < 2 ^ 32" using assms(2) by simp
  from hexstr_ok [OF assms(1) this] obtain t u
    where u: "hex_digits False s = Value t" "hexstr (Some s) = Value u" "holds u t" by blast
  then have "z_len u = 2 * length s" using hex_digits_total [of False s] by (auto simp: holds_def)
  with u bytes_ok [OF u(1,3) assms(3)] show ?thesis by blast
qed

theorem hexstr_bytes_roundtrip_witness:
  "\<exists>u. hexstr (Some [CHR 0xDE, CHR 0x0A]) = Value u \<and> z_len u = 2 * length [CHR 0xDE, CHR 0x0A] \<and>
     bytes u (Some [None, None, None]) = Value (Some (known [CHR 0xDE, CHR 0x0A] @ drop (length [CHR 0xDE, CHR 0x0A]) [None, None, None]))"
  by (rule hexstr_bytes_roundtrip) simp_all

text \<open>bytes reads the capital digits that hex writes into a buffer as well.\<close>
theorem hex_buf_bytes:
  assumes "buf_ok b" and "contents b = []" and "room (2 * length s) b" and "length s \<le> length out" and "s \<noteq> []"
  shows "\<exists>b' u. hex_buf s True b = Value b' \<and> zs_of_buffer b' True = Value (u, empty_buffer) \<and>
    bytes u (Some out) = Value (Some (known s @ drop (length s) out))"
proof -
  from hex_buf_ok [OF assms(1,3), of True] assms(2) obtain t b'
    where b: "hex_digits True s = Value t" "hex_buf s True b = Value b'" "buf_ok b'" "contents b' = known t"
    by auto
  have n: "length t = 2 * length s" using hex_digits_total [of True s] b(1) by auto
  have l1: "m_offset b' = length t" using length_contents [OF b(3)] b(4) by simp
  have l2: "m_data b' \<noteq> None"
  proof
    assume "m_data b' = None"
    then have "contents b' = []" by (simp add: contents_def)
    with b(4) have "length t = 0" by (simp add: known_def)
    with n assms(5) show False by simp
  qed
  obtain m where m: "release b' = Value (m, empty_buffer)" "take (length t) m = known t"
    using release_ok [OF b(3) l2] b(4) l1 by auto
  have "m = known t @ drop (length t) m" by (metis append_take_drop_id m(2))
  then have "holds \<lparr>z_mem = Some m, z_len = length t, z_own = True\<rparr> t" by (auto simp: holds_def)
  from bytes_ok [OF b(1) this assms(4)] b m(1) l1 l2 show ?thesis
    by (auto simp: zs_of_buffer_def size_buf_def)
qed

theorem hex_buf_bytes_witness:
  "\<exists>b' u. hex_buf ''K'' True (obuffer 8) = Value b' \<and> zs_of_buffer b' True = Value (u, empty_buffer) \<and>
     bytes u (Some [None]) = Value (Some (known ''K'' @ drop (length ''K'') [None]))"
proof (rule hex_buf_bytes)
  show "buf_ok (obuffer 8)" "contents (obuffer 8) = []" by (rule obuffer_ok, simp)+
  show "room (2 * length ''K'') (obuffer 8)" using obuffer_ok(4) [of 8] by (simp add: room_def align_def)
qed simp_all

text \<open>C34: urldecode inverts urlencode on texts of up to 1024 bytes without NUL that urlencode
  encodes within its buffer.\<close>
theorem url_roundtrip:
  assumes "\<exists>c \<in> set s. url_plain c" and "length s \<le> 1024" and "NUL \<notin> set s"
  shows "\<exists>u v. urlencode s = Value u \<and> urldecode (text_of u) = Value v \<and> holds v s"
proof -
  obtain u where u: "urlencode s = Value u" "text_of u = url_text s"
    using urlencode_ok [OF assms(1)] assms(2) holds_text_of by fastforce
  have "s \<noteq> []" using assms(1) by auto
  moreover have "holds (zs_view (Some (known s @ replicate (1024 - length s) None)) (length s) False) s"
    using assms(2) by (simp add: holds_def zs_view_def)
  ultimately obtain v where "urldecode (url_text s) = Value v" "holds v s"
    using holds_dup [of _ s] assms(2,3) urldecode_eq [OF assms(2)] by fastforce
  with u show ?thesis by auto
qed

theorem url_roundtrip_witness:
  "\<exists>u v. urlencode ''a+b/%'' = Value u \<and> urldecode (text_of u) = Value v \<and> holds v ''a+b/%''"
  by (rule url_roundtrip) (simp_all add: url_plain_def isalnum_def between_def ucode_def)

text \<open>A text of characters that are all escaped, the empty one included, makes urlencode
  write its terminator behind the buffer.\<close>
theorem urlencode_overflow:
  assumes "\<forall>c \<in> set s. \<not> url_plain c"
  shows "urlencode s = Undefined"
  by (rule urlencode_full [OF assms])

theorem urlencode_overflow_witness: "urlencode ''/ /'' = Undefined"
  by (rule urlencode_overflow) (simp add: url_plain_def isalnum_def between_def ucode_def)

text \<open>urldecode writes behind its array of 1024 bytes as soon as the decoded text is longer.\<close>
theorem urldecode_overflow:
  assumes "1024 < length s" and "length (url_text s) < 2 ^ 31"
  shows "urldecode (url_text s) = Undefined"
  using urldecode_loop_overflow [of "replicate 1024 None" 0 s] assms by (simp add: urldecode_def)

theorem urldecode_overflow_witness: "urldecode (url_text (replicate 2000 (CHR ''a''))) = Undefined"
proof (rule urldecode_overflow)
  show "length (url_text (replicate 2000 (CHR ''a''))) < 2 ^ 31"
    using length_url_text [of "replicate 2000 (CHR ''a'')"] by simp
qed simp

text \<open>An escaped NUL byte makes urldecode return a string whose length passes its memory:
  strndup stops at the NUL, the length does not.\<close>
theorem urldecode_nul_length:
  assumes "NUL \<notin> set a" and "b \<noteq> []" and "length (a @ NUL # b) \<le> 1024"
  shows "\<exists>u m. urldecode (url_text (a @ NUL # b)) = Value u \<and> z_mem u = Some m \<and> length m < z_len u"
proof -
  let ?s = "a @ NUL # b"
  have "strndup (known ?s @ replicate (1024 - length ?s) None) (length ?s) = Value (cut ?s)"
    by (rule strndup_ok)
  moreover have "cut ?s = a" using assms(1) by (induction a) auto
  ultimately have "urldecode (url_text ?s) = Value (zs_view (Some (known (a @ [NUL]))) (length ?s) True)"
    unfolding urldecode_eq [OF assms(3)] using assms(3) by (simp add: zs_dup_def zs_view_def)
  with assms(2,3) show ?thesis by (cases b) (simp_all add: zs_view_def)
qed

theorem urldecode_nul_length_witness:
  "\<exists>u m. urldecode (url_text (''id='' @ NUL # ''xyz'')) = Value u \<and> z_mem u = Some m \<and> length m < z_len u"
  by (rule urldecode_nul_length) simp_all

end
