(* ===== verification/Base64.thy ===== *)
theory Base64
  imports Buffer
begin

text \<open>
  The base64 encoder and decoder of \<^verbatim>\<open>suil/base64.cpp\<close>, on the buffers they write to.
  Both write from the start of the buffer, whatever its offset is.  The input of the decoder
  is the memory from \<open>in\<close> on, which may be longer than \<open>size\<close>.
\<close>

section \<open>Encoding\<close>

definition b64table :: string where
  "b64table = ''ABCDEFGHIJKLMNOPQRSTUVWXYZabcdefghijklmnopqrstuvwxyz0123456789+/''"

definition b64char :: "u8 \<Rightarrow> char" where
  "b64char w = b64table ! unat w"

definition u8_of :: "char \<Rightarrow> u8" where
  "u8_of c = word_of_nat (ucode c)"

text \<open>The four index expressions of a group of three bytes.\<close>

definition sextet1 :: "char \<Rightarrow> u8" where
  "sextet1 a = drop_bit 2 (u8_of a AND 0xFC)"

definition high2 :: "char \<Rightarrow> u8" where
  "high2 a = push_bit 4 (u8_of a AND 0x03)"

definition sextet2 :: "char \<Rightarrow> char \<Rightarrow> u8" where
  "sextet2 a b = high2 a OR drop_bit 4 (u8_of b AND 0xF0)"

definition high4 :: "char \<Rightarrow> u8" where
  "high4 b = push_bit 2 (u8_of b AND 0x0F)"

definition sextet3 :: "char \<Rightarrow> char \<Rightarrow> u8" where
  "sextet3 b c = high4 b OR drop_bit 6 (u8_of c AND 0xC0)"

definition sextet4 :: "char \<Rightarrow> u8" where
  "sextet4 c = u8_of c AND 0x3F"

text \<open>The loop over the groups and the padding of the last one.\<close>

fun b64_encode_loop :: "string \<Rightarrow> cells \<Rightarrow> nat \<Rightarrow> (cells \<times> nat) outcome" where
  "b64_encode_loop (a # b # c # ds) m it =
     bind_out (wr_all m it [b64char (sextet1 a), b64char (sextet2 a b), b64char (sextet3 b c), b64char (sextet4 c)])
       (\<lambda>m. b64_encode_loop ds m (it + 4))"
| "b64_encode_loop [a] m it =
     bind_out (wr_all m it [b64char (sextet1 a), b64char (high2 a), CHR ''='', CHR ''=''])
       (\<lambda>m. Value (m, it + 4))"
| "b64_encode_loop [a, b] m it =
     bind_out (wr_all m it [b64char (sextet1 a), b64char (sextet2 a b), b64char (high4 b), CHR ''=''])
       (\<lambda>m. Value (m, it + 4))"
| "b64_encode_loop [] m it = Value (m, it)"

definition b64_encode :: "string \<Rightarrow> obuffer \<Rightarrow> obuffer outcome" where
  "b64_encode data ob =
     (let ob1 = reserve (2 + (length data + 2) div 3 * 4) ob in
      case m_data ob1 of
        None \<Rightarrow> Undefined
      | Some m \<Rightarrow>
          bind_out (b64_encode_loop data m 0) (\<lambda>(m1, it).
          bind_out (wr m1 it NUL) (\<lambda>m2.
          bseek (int it) (ob1\<lparr>m_data := Some m2\<rparr>))))"

section \<open>Decoding\<close>

definition ASCII_LOOKUP :: "nat list" where
  "ASCII_LOOKUP = replicate 43 64 @ [62, 64, 64, 64, 63] @ [52..<62] @ replicate 7 64 @ [0..<26] @
     replicate 6 64 @ [26..<52] @ replicate 133 64"

definition byte_at :: "string \<Rightarrow> nat \<Rightarrow> char outcome" where
  "byte_at s i = (if i < length s then Value (s ! i) else Undefined)"

definition b64_value :: "char \<Rightarrow> nat" where
  "b64_value c = ASCII_LOOKUP ! ucode c"

text \<open>One operand of the test for invalid characters.\<close>

definition lookup_at :: "string \<Rightarrow> nat \<Rightarrow> nat outcome" where
  "lookup_at it i =
     bind_out (byte_at it i) (\<lambda>c. if b64_value c = 64 then Throw InvalidArguments else Value (b64_value c))"

definition byte1 :: "nat \<Rightarrow> nat \<Rightarrow> char" where
  "byte1 l0 l1 = char_of ((push_bit 2 l0 OR drop_bit 4 l1) mod 256)"

definition byte2 :: "nat \<Rightarrow> nat \<Rightarrow> char" where
  "byte2 l1 l2 = char_of ((push_bit 4 l1 OR drop_bit 2 l2) mod 256)"

definition byte3 :: "nat \<Rightarrow> nat \<Rightarrow> char" where
  "byte3 l2 l3 = char_of ((push_bit 6 l2 OR l3) mod 256)"

definition wr_opt :: "cells option \<Rightarrow> nat \<Rightarrow> string \<Rightarrow> cells option outcome" where
  "wr_opt m i s = (case m of None \<Rightarrow> Undefined | Some cs \<Rightarrow> map_out Some (wr_all cs i s))"

function b64_decode_loop ::
    "string \<Rightarrow> nat \<Rightarrow> cells option \<Rightarrow> nat \<Rightarrow> (string \<times> nat \<times> cells option \<times> nat) outcome" where
  "b64_decode_loop it sz m pos =
     (if sz > 4 then
        bind_out (lookup_at it 0) (\<lambda>l0. bind_out (lookup_at it 1) (\<lambda>l1.
        bind_out (lookup_at it 2) (\<lambda>l2. bind_out (lookup_at it 3) (\<lambda>l3.
        bind_out (wr_opt m pos [byte1 l0 l1, byte2 l1 l2, byte3 l2 l3]) (\<lambda>m.
        b64_decode_loop (drop 4 it) (sz - 4) m (pos + 3))))))
      else Value (it, sz, m, pos))"
  by pat_completeness auto

termination b64_decode_loop
  by (relation "measure (\<lambda>(it, sz, m, pos). sz)") auto

text \<open>\<open>while ((it[i] != '=') && (ASCII_LOOKUP[it[i]] != 64) && (i++ < 4));\<close>\<close>

function tail_count :: "string \<Rightarrow> nat \<Rightarrow> nat outcome" where
  "tail_count it i =
     bind_out (byte_at it i) (\<lambda>c.
       if c = CHR ''='' \<or> b64_value c = 64 then Value i
       else if i < 4 then tail_count it (i + 1) else Value (i + 1))"
  by pat_completeness auto

termination tail_count
  by (relation "measure (\<lambda>(it, i). 5 - i)") auto

definition value_at :: "string \<Rightarrow> nat \<Rightarrow> nat outcome" where
  "value_at it i = map_out b64_value (byte_at it i)"

text \<open>One of the three conditional writes after the loop.\<close>

definition tail_byte :: "bool \<Rightarrow> (nat \<Rightarrow> nat \<Rightarrow> char) \<Rightarrow> string \<Rightarrow> nat \<Rightarrow> cells option \<times> nat \<Rightarrow> (cells option \<times> nat) outcome" where
  "tail_byte cond f it i st =
     (if cond then
        bind_out (value_at it i) (\<lambda>l. bind_out (value_at it (i + 1)) (\<lambda>l'.
        bind_out (wr_opt (fst st) (snd st) [f l l']) (\<lambda>m. Value (m, snd st + 1))))
      else Value st)"

definition b64_decode_tail :: "string \<Rightarrow> nat \<Rightarrow> cells option \<Rightarrow> nat \<Rightarrow> (cells option \<times> nat) outcome" where
  "b64_decode_tail it sz m pos =
     bind_out (tail_count it 0) (\<lambda>i.
     bind_out (if sz \<noteq> i then bind_out (byte_at it i) (\<lambda>c. Value (c \<noteq> CHR ''='')) else Value False) (\<lambda>bad.
     if bad then Throw InvalidArguments
     else let sz1 = (sz + i + 2 ^ 64 - 4) mod 2 ^ 64 in
       bind_out (tail_byte (sz1 > 1) byte1 it 0 (m, pos)) (\<lambda>st.
       bind_out (tail_byte (sz1 > 2) byte2 it 1 st) (\<lambda>st.
       tail_byte (sz1 > 3) byte3 it 2 st))))"

definition b64_decode :: "string \<Rightarrow> nat \<Rightarrow> obuffer \<Rightarrow> obuffer outcome" where
  "b64_decode mem sz ob =
     (let ob1 = reserve (u32 (u32 (sz div 4) * 3)) ob in
      bind_out (b64_decode_loop mem sz (m_data ob1) 0) (\<lambda>(it, sz1, m, pos).
      bind_out (b64_decode_tail it sz1 m pos) (\<lambda>(m1, pos1).
      seek (int pos1) (ob1\<lparr>m_data := m1\<rparr>))))"

text \<open>\<open>base64::decode(in, len)\<close> into a buffer of its own; the string owns its memory.\<close>

definition b64_decode_string :: "string \<Rightarrow> nat \<Rightarrow> cells outcome" where
  "b64_decode_string mem sz =
     map_out contents (b64_decode mem sz (obuffer (u32 (u32 (sz div 4) * 3))))"

section \<open>The numbers behind the bit operations\<close>

lemma unat_u8_of: "unat (u8_of c) = ucode c"
  by (simp add: u8_of_def unsigned_of_nat take_bit_nat_eq_self_iff)

lemma unat_sextet1: "unat (sextet1 a) = ucode a div 4"
proof -
  have "drop_bit 2 (u8_of a AND 0xFC) = drop_bit 2 (u8_of a) AND 0x3F" by (simp add: drop_bit_and)
  moreover have "unat (drop_bit 2 (u8_of a)) < 64" by (simp add: unat_shr unat_u8_of less_mult_imp_div_less)
  ultimately show ?thesis by (simp add: sextet1_def unat_and_low unat_shr unat_u8_of)
qed

lemma unat_high2: "unat (high2 a) = ucode a mod 4 * 16"
proof -
  have "unat (u8_of a AND 3) = ucode a mod 4" by (simp add: unat_and_low unat_u8_of)
  then show ?thesis using unat_shl [of "u8_of a AND 3" 4] by (simp add: high2_def)
qed

lemma unat_high4: "unat (high4 b) = ucode b mod 16 * 4"
proof -
  have "unat (u8_of b AND 15) = ucode b mod 16" by (simp add: unat_and_low unat_u8_of)
  then show ?thesis using unat_shl [of "u8_of b AND 15" 2] by (simp add: high4_def)
qed

lemma unat_sextet2: "unat (sextet2 a b) = ucode a mod 4 * 16 + ucode b div 16"
proof -
  have "drop_bit 4 (u8_of b AND 0xF0) = drop_bit 4 (u8_of b) AND 0xF" by (simp add: drop_bit_and)
  moreover have "unat (drop_bit 4 (u8_of b)) < 16" by (simp add: unat_shr unat_u8_of less_mult_imp_div_less)
  ultimately have "unat (drop_bit 4 (u8_of b AND 0xF0)) = ucode b div 16" "ucode b div 16 < 16"
    by (simp_all add: unat_and_low unat_shr unat_u8_of)
  moreover have "unat (u8_of a AND 3) = ucode a mod 4" by (simp add: unat_and_low unat_u8_of)
  ultimately show ?thesis
    using unat_shl_or [of "drop_bit 4 (u8_of b AND 0xF0)" 4 "u8_of a AND 3"] by (simp add: sextet2_def high2_def)
qed

lemma unat_sextet3: "unat (sextet3 b c) = ucode b mod 16 * 4 + ucode c div 64"
proof -
  have "drop_bit 6 (u8_of c AND 0xC0) = drop_bit 6 (u8_of c) AND 0x3" by (simp add: drop_bit_and)
  moreover have "unat (drop_bit 6 (u8_of c)) < 4" by (simp add: unat_shr unat_u8_of less_mult_imp_div_less)
  ultimately have "unat (drop_bit 6 (u8_of c AND 0xC0)) = ucode c div 64" "ucode c div 64 < 4"
    by (simp_all add: unat_and_low unat_shr unat_u8_of)
  moreover have "unat (u8_of b AND 15) = ucode b mod 16" by (simp add: unat_and_low unat_u8_of)
  ultimately show ?thesis
    using unat_shl_or [of "drop_bit 6 (u8_of c AND 0xC0)" 2 "u8_of b AND 15"] by (simp add: sextet3_def high4_def)
qed

lemma unat_sextet4: "unat (sextet4 c) = ucode c mod 64"
  by (simp add: sextet4_def unat_and_low unat_u8_of)

section \<open>The reference: RFC 4648\<close>

text \<open>A group is a number of 24 bits, written as four digits to the base 64.\<close>

definition group24 :: "nat \<Rightarrow> nat \<Rightarrow> nat \<Rightarrow> nat" where
  "group24 a b c = a * 65536 + b * 256 + c"

definition digits64 :: "nat \<Rightarrow> string" where
  "digits64 n = map ((!) b64table) [n div 262144, n div 4096 mod 64, n div 64 mod 64, n mod 64]"

fun b64_text :: "string \<Rightarrow> string" where
  "b64_text (a # b # c # ds) = digits64 (group24 (ucode a) (ucode b) (ucode c)) @ b64_text ds"
| "b64_text [a] = take 2 (digits64 (group24 (ucode a) 0 0)) @ ''==''"
| "b64_text [a, b] = take 3 (digits64 (group24 (ucode a) (ucode b) 0)) @ ''=''"
| "b64_text [] = []"

lemma digit_of: "r < m \<Longrightarrow> q < k \<Longrightarrow> (m * (k * p + q) + r) div m mod k = (q :: nat)"
  by simp

lemma group24_digits:
  assumes b: "b < 256" and c: "c < 256"
  shows "group24 a b c div 262144 = a div 4"
    and "group24 a b c div 4096 mod 64 = a mod 4 * 16 + b div 16"
    and "group24 a b c div 64 mod 64 = b mod 16 * 4 + c div 64"
    and "group24 a b c mod 64 = c mod 64"
proof -
  define a1 a0 b1 b0 c1 c0 where "a1 = a div 4" and "a0 = a mod 4" and "b1 = b div 16" and "b0 = b mod 16"
    and "c1 = c div 64" and "c0 = c mod 64"
  note d = this
  have e: "a = 4 * a1 + a0" "b = 16 * b1 + b0" "c = 64 * c1 + c0" by (simp_all add: d)
  have l: "a0 < 4" "b0 < 16" "c0 < 64" "b1 < 16" "c1 < 4" using b c by (simp_all add: d less_mult_imp_div_less)
  have g1: "group24 a b c = 262144 * a1 + (65536 * a0 + (256 * b + c))"
    and g2: "group24 a b c = 4096 * (64 * a1 + (a0 * 16 + b1)) + (256 * b0 + c)"
    and g3: "group24 a b c = 64 * (64 * (16 * a + b1) + (b0 * 4 + c1)) + c0"
    and g4: "group24 a b c = 64 * (1024 * a + 4 * b + c1) + c0"
    using e by (simp_all add: group24_def)
  have "group24 a b c div 262144 = a1" using g1 l b c by simp
  then show "group24 a b c div 262144 = a div 4" by (simp add: d)
  have "group24 a b c div 4096 mod 64 = a0 * 16 + b1"
    unfolding g2 by (rule digit_of) (use l c in linarith)+
  then show "group24 a b c div 4096 mod 64 = a mod 4 * 16 + b div 16" by (simp only: d)
  have "group24 a b c div 64 mod 64 = b0 * 4 + c1"
    unfolding g3 by (rule digit_of) (use l in linarith)+
  then show "group24 a b c div 64 mod 64 = b mod 16 * 4 + c div 64" by (simp only: d)
  have "c0 < 64 \<Longrightarrow> (64 * k + c0) mod 64 = c0" for k by simp
  then have "group24 a b c mod 64 = c0" unfolding g4 using l(3) by blast
  then show "group24 a b c mod 64 = c mod 64" by (simp only: d)
qed

lemmas b64_numbers = b64char_def unat_sextet1 unat_sextet2 unat_sextet3 unat_sextet4 unat_high2 unat_high4
  digits64_def group24_digits

lemma length_b64_text: "length (b64_text s) = (length s + 2) div 3 * 4"
proof (induction s rule: b64_text.induct)
  case (1 a b c ds)
  have "(length ds + 5) div 3 = Suc ((length ds + 2) div 3)" by simp
  with 1 show ?case by (simp add: digits64_def add.commute)
qed (simp_all add: digits64_def)

lemma b64_encode_loop_eq:
  assumes "it + length (b64_text s) \<le> length m"
  shows "b64_encode_loop s m it =
    Value (take it m @ known (b64_text s) @ drop (it + length (b64_text s)) m, it + length (b64_text s))"
  using assms
proof (induction s m it rule: b64_encode_loop.induct)
  case (1 a b c ds m it)
  let ?g = "digits64 (group24 (ucode a) (ucode b) (ucode c))"
  have g: "[b64char (sextet1 a), b64char (sextet2 a b), b64char (sextet3 b c), b64char (sextet4 c)] = ?g"
    by (simp add: b64_numbers)
  have l: "length ?g = 4" by (simp add: digits64_def)
  have "it + length ?g \<le> length m" using 1(2) l by simp
  from wr_all_eq [OF this] have w: "wr_all m it ?g = Value (take it m @ known ?g @ drop (it + 4) m)"
    by (simp only: l)
  have "it + 4 + length (b64_text ds) \<le> length (take it m @ known ?g @ drop (it + 4) m)"
    using 1(2) l by simp
  from 1(1) [OF this] 1(2) l show ?case
    unfolding b64_encode_loop.simps(1) g w
    by (simp add: known_def drop_map [symmetric] add.commute add.left_commute)
next
  case (2 a m it)
  have t: "b64_text [a] = [b64char (sextet1 a), b64char (high2 a), CHR ''='', CHR ''='']"
    by (simp add: b64_numbers)
  from 2 show ?case unfolding b64_encode_loop.simps(2) t by (subst wr_all_eq) simp_all
next
  case (3 a b m it)
  have t: "b64_text [a, b] = [b64char (sextet1 a), b64char (sextet2 a b), b64char (high4 b), CHR ''='']"
    by (simp add: b64_numbers)
  from 3 show ?case unfolding b64_encode_loop.simps(3) t by (subst wr_all_eq) simp_all
qed simp

section \<open>Decoding what the encoder wrote\<close>

lemma lookup_table: "k < 64 \<Longrightarrow> b64_value (b64table ! k) = k"
proof -
  assume k: "k < 64"
  have "map b64_value b64table = [0..<64]"
    by (simp add: b64table_def b64_value_def ASCII_LOOKUP_def ucode_def nth_append) code_simp
  then have "map b64_value b64table ! k = [0..<64] ! k" by (rule arg_cong)
  moreover have "length b64table = 64" by (simp add: b64table_def)
  ultimately show ?thesis using k by simp
qed

lemma lookup_pad: "b64_value CHR ''='' = 64" "b64_value NUL = 64"
  by (simp_all add: b64_value_def ASCII_LOOKUP_def ucode_def nth_append)

lemma table_not_pad: "k < 64 \<Longrightarrow> b64table ! k \<noteq> CHR ''=''"
  using lookup_table [of k] lookup_pad(1) by (metis nat_less_le)

lemma bytes_of_sextets:
  assumes "a < 256" and "b < 256" and "c < 256"
  shows "byte1 (a div 4) (a mod 4 * 16 + b div 16) = char_of a"
    and "byte2 (a mod 4 * 16 + b div 16) (b mod 16 * 4 + c div 64) = char_of b"
    and "byte3 (b mod 16 * 4 + c div 64) (c mod 64) = char_of c"
proof -
  define a1 a0 b1 b0 c1 c0 where "a1 = a div 4" and "a0 = a mod 4" and "b1 = b div 16" and "b0 = b mod 16"
    and "c1 = c div 64" and "c0 = c mod 64"
  note d = this
  have e: "a = 4 * a1 + a0" "b = 16 * b1 + b0" "c = 64 * c1 + c0" by (simp_all add: d)
  have l: "a0 < 4" "b0 < 16" "c0 < 64" "b1 < 16" "c1 < 4" using assms by (simp_all add: d less_mult_imp_div_less)
  have "drop_bit 4 (a0 * 16 + b1) = a0" "drop_bit 2 (b0 * 4 + c1) = b0"
    using l by (simp_all add: drop_bit_eq_div)
  then have "push_bit 2 a1 OR drop_bit 4 (a0 * 16 + b1) = a"
    "push_bit 4 (a0 * 16 + b1) OR drop_bit 2 (b0 * 4 + c1) = 256 * a0 + b"
    "push_bit 6 (b0 * 4 + c1) OR c0 = 256 * b0 + c"
    using nat_shift_or [of a0 2 a1] nat_shift_or [of b0 4 "a0 * 16 + b1"] nat_shift_or [of c0 6 "b0 * 4 + c1"] l e
    by simp_all
  moreover have "x < 256 \<Longrightarrow> (256 * k + x) mod 256 = x" "x < 256 \<Longrightarrow> x mod 256 = x" for k x :: nat by simp_all
  ultimately show "byte1 (a div 4) (a mod 4 * 16 + b div 16) = char_of a"
    "byte2 (a mod 4 * 16 + b div 16) (b mod 16 * 4 + c div 64) = char_of b"
    "byte3 (b mod 16 * 4 + c div 64) (c mod 64) = char_of c"
    using assms by (simp_all only: byte1_def byte2_def byte3_def d)
qed

text \<open>Reading a group of four digits.\<close>

lemma lookup_at_digit: "k < 64 \<Longrightarrow> i < length it \<Longrightarrow> it ! i = b64table ! k \<Longrightarrow> lookup_at it i = Value k"
  by (simp add: lookup_at_def byte_at_def lookup_table)

lemma digits64_eq:
  "digits64 (group24 (ucode a) (ucode b) (ucode c)) =
     [b64table ! (ucode a div 4), b64table ! (ucode a mod 4 * 16 + ucode b div 16),
      b64table ! (ucode b mod 16 * 4 + ucode c div 64), b64table ! (ucode c mod 64)]"
  "digits64 (group24 (ucode a) (ucode b) 0) =
     [b64table ! (ucode a div 4), b64table ! (ucode a mod 4 * 16 + ucode b div 16),
      b64table ! (ucode b mod 16 * 4), b64table ! 0]"
  "digits64 (group24 (ucode a) 0 0) =
     [b64table ! (ucode a div 4), b64table ! (ucode a mod 4 * 16), b64table ! 0, b64table ! 0]"
  by (simp_all add: digits64_def group24_digits)

lemma sextet_bounds:
  "ucode a div 4 < 64" "ucode a mod 4 * 16 + ucode b div 16 < 64" "ucode a mod 4 * 16 < 64"
  "ucode b mod 16 * 4 + ucode c div 64 < 64" "ucode b mod 16 * 4 < 64" "ucode c mod 64 < 64"
proof -
  have "ucode b div 16 < 16" "ucode c div 64 < 4" by (simp_all add: less_mult_imp_div_less)
  moreover have "ucode a mod 4 < 4" "ucode b mod 16 < 16" by simp_all
  ultimately show "ucode a mod 4 * 16 + ucode b div 16 < 64" "ucode b mod 16 * 4 + ucode c div 64 < 64"
    "ucode a mod 4 * 16 < 64" "ucode b mod 16 * 4 < 64" by linarith+
qed (simp_all add: less_mult_imp_div_less)

declare b64_decode_loop.simps [simp del] tail_count.simps [simp del]

lemma b64_decode_group:
  assumes "sz > 4"
  shows "b64_decode_loop (digits64 (group24 (ucode a) (ucode b) (ucode c)) @ it) sz (Some m) pos =
    bind_out (wr_opt (Some m) pos [a, b, c]) (\<lambda>m. b64_decode_loop it (sz - 4) m (pos + 3))"
proof -
  let ?t = "[b64table ! (ucode a div 4), b64table ! (ucode a mod 4 * 16 + ucode b div 16),
      b64table ! (ucode b mod 16 * 4 + ucode c div 64), b64table ! (ucode c mod 64)] @ it"
  have l: "lookup_at ?t 0 = Value (ucode a div 4)" "lookup_at ?t 1 = Value (ucode a mod 4 * 16 + ucode b div 16)"
    "lookup_at ?t 2 = Value (ucode b mod 16 * 4 + ucode c div 64)" "lookup_at ?t 3 = Value (ucode c mod 64)"
    by (rule lookup_at_digit; simp add: sextet_bounds)+
  show ?thesis
    unfolding digits64_eq using assms bytes_of_sextets [of "ucode a" "ucode b" "ucode c"]
    by (subst b64_decode_loop.simps) (simp add: l del: One_nat_def append_Cons)
qed

text \<open>The last group, with its padding and the terminator behind it.\<close>

lemma tail_count_digits:
  assumes "length ds + length ks \<le> 4" and "list_all (\<lambda>k. k < 64) ks" and "x = CHR ''='' \<or> x = NUL"
  shows "tail_count (ds @ map ((!) b64table) ks @ x # r) (length ds) = Value (length ds + length ks)"
  using assms(1,2)
proof (induction ks arbitrary: ds)
  case Nil
  show ?case
    using assms(3) lookup_pad by (subst tail_count.simps) (auto simp: byte_at_def)
next
  case (Cons k ks)
  then have k: "b64table ! k \<noteq> CHR ''=''" "b64_value (b64table ! k) \<noteq> 64"
    using table_not_pad [of k] lookup_table [of k] by auto
  have "tail_count (ds @ map ((!) b64table) (k # ks) @ x # r) (length ds) =
      tail_count ((ds @ [b64table ! k]) @ map ((!) b64table) ks @ x # r) (length (ds @ [b64table ! k]))"
    using Cons.prems k by (subst tail_count.simps) (simp add: byte_at_def)
  with Cons.IH [of "ds @ [b64table ! k]"] Cons.prems show ?case by simp
qed

lemma value_at_digits:
  "i < length ks \<Longrightarrow> list_all (\<lambda>k. k < 64) ks \<Longrightarrow> value_at (map ((!) b64table) ks @ r) i = Value (ks ! i)"
  by (simp add: value_at_def byte_at_def nth_append lookup_table list_all_length)

text \<open>What the tail writes, by the number of digits in it.\<close>

definition wr_seq :: "string \<Rightarrow> cells option \<Rightarrow> nat \<Rightarrow> (cells option \<times> nat) outcome" where
  "wr_seq s m pos = bind_out (wr_opt m pos s) (\<lambda>m. Value (m, pos + length s))"

lemma wr_opt_append:
  "bind_out (wr_opt m pos s) (\<lambda>m. wr_opt m (pos + length s) t) = wr_opt m pos (s @ t)"
proof (induction s arbitrary: m pos)
  case Nil
  show ?case by (cases m) (simp_all add: wr_opt_def)
next
  case (Cons c s)
  show ?case
  proof (cases m)
    case (Some cs)
    have "bind_out (wr_opt (Some cs') (pos + 1) s) (\<lambda>m. wr_opt m (pos + 1 + length s) t) =
        wr_opt (Some cs') (pos + 1) (s @ t)" for cs' by (rule Cons)
    then show ?thesis using Some by (cases "wr cs pos c") (simp_all add: wr_opt_def add.assoc)
  qed (simp add: wr_opt_def)
qed

lemma wr_seq_append:
  "bind_out (wr_opt m pos s) (\<lambda>m. wr_seq t m (pos + length s)) = wr_seq (s @ t) m pos"
  by (simp add: wr_seq_def wr_opt_append [symmetric] bind_out_assoc add.assoc)

lemma b64_tail:
  assumes ks: "list_all (\<lambda>k. k < 64) ks" and x: "x = CHR ''='' \<or> x = NUL" and n: "2 \<le> length ks" "length ks \<le> 4"
    and fin: "length ks = 4 \<or> x = CHR ''=''"
  shows "b64_decode_tail (map ((!) b64table) ks @ x # r) 4 (Some m) pos =
    (let s = [byte1 (ks ! 0) (ks ! 1), byte2 (ks ! 1) (ks ! 2), byte3 (ks ! 2) (ks ! 3)]
     in wr_seq (take (length ks - 1) s) (Some m) pos)"
proof -
  let ?it = "map ((!) b64table) ks @ x # r"
  have t: "tail_count ?it 0 = Value (length ks)" using tail_count_digits [of "[]" ks x r] ks x n by simp
  have v: "i < length ks \<Longrightarrow> value_at ?it i = Value (ks ! i)" for i by (rule value_at_digits [OF _ ks])
  have b: "byte_at ?it (length ks) = Value x" by (simp add: byte_at_def nth_append)
  have w: "bind_out (wr_opt m q [c]) (\<lambda>m. wr_opt m (Suc q) (d # ds)) = wr_opt m q (c # d # ds)"
    for m q c d ds using wr_opt_append [of m q "[c]" "d # ds"] by simp
  have bad: "(if 4 \<noteq> length ks then bind_out (byte_at ?it (length ks)) (\<lambda>c. Value (c \<noteq> CHR ''='')) else Value False) =
      Value False"
    using fin by (auto simp: b)
  have e: "b64_decode_tail ?it 4 (Some m) pos =
      bind_out (tail_byte (length ks > 1) byte1 ?it 0 (Some m, pos)) (\<lambda>st.
      bind_out (tail_byte (length ks > 2) byte2 ?it 1 st) (\<lambda>st. tail_byte (length ks > 3) byte3 ?it 2 st))"
    unfolding b64_decode_tail_def t bind_out.simps bad using n by (simp add: Let_def)
  consider "length ks = 2" | "length ks = 3" | "length ks = 4" using n by linarith
  then show ?thesis
  proof cases
    case 1
    then show ?thesis using v [of 0] v [of 1] by (simp add: e tail_byte_def wr_seq_def)
  next
    case 2
    then show ?thesis using v [of 0] v [of 1] v [of 2]
      by (simp add: e tail_byte_def wr_seq_def bind_out_assoc w [symmetric] numeral_2_eq_2)
  next
    case 3
    then show ?thesis using v [of 0] v [of 1] v [of 2] v [of 3]
      by (simp add: e tail_byte_def wr_seq_def bind_out_assoc w [symmetric] numeral_2_eq_2 numeral_3_eq_3)
  qed
qed

text \<open>The whole decoder on the text of the encoder.\<close>

lemma b64_last_group:
  assumes "0 < length s" and "length s \<le> 3"
  shows "\<exists>ks x r. b64_text s @ [NUL] = map ((!) b64table) ks @ x # r \<and> list_all (\<lambda>k. k < 64) ks \<and>
    (x = CHR ''='' \<or> x = NUL) \<and> 2 \<le> length ks \<and> length ks \<le> 4 \<and> (length ks = 4 \<or> x = CHR ''='') \<and>
    take (length ks - 1) [byte1 (ks ! 0) (ks ! 1), byte2 (ks ! 1) (ks ! 2), byte3 (ks ! 2) (ks ! 3)] = s"
proof -
  consider a where "s = [a]" | a b where "s = [a, b]" | a b c where "s = [a, b, c]"
    using assms by (cases s rule: b64_text.cases) auto
  then show ?thesis
  proof cases
    case 1
    let ?ks = "[ucode a div 4, ucode a mod 4 * 16]"
    show ?thesis using bytes_of_sextets [of "ucode a" 0 0]
      by (intro exI [of _ ?ks] exI [of _ "CHR ''=''"] exI [of _ "''='' @ [NUL]"])
        (simp add: 1 digits64_eq sextet_bounds)
  next
    case 2
    let ?ks = "[ucode a div 4, ucode a mod 4 * 16 + ucode b div 16, ucode b mod 16 * 4]"
    show ?thesis using bytes_of_sextets [of "ucode a" "ucode b" 0]
      by (intro exI [of _ ?ks] exI [of _ "CHR ''=''"] exI [of _ "[NUL]"])
        (simp add: 2 digits64_eq sextet_bounds)
  next
    case 3
    let ?ks = "[ucode a div 4, ucode a mod 4 * 16 + ucode b div 16, ucode b mod 16 * 4 + ucode c div 64, ucode c mod 64]"
    show ?thesis using bytes_of_sextets [of "ucode a" "ucode b" "ucode c"]
      by (intro exI [of _ ?ks] exI [of _ NUL] exI [of _ "[]"])
        (simp add: 3 digits64_eq sextet_bounds numeral_2_eq_2 numeral_3_eq_3)
  qed
qed

lemma b64_decode_last:
  assumes "0 < length s" and "length s \<le> 3"
  shows "bind_out (b64_decode_loop (b64_text s @ [NUL]) (length (b64_text s)) (Some m) pos)
      (\<lambda>(it, sz, m, pos). b64_decode_tail it sz m pos) = wr_seq s (Some m) pos"
proof -
  obtain ks x r where k: "b64_text s @ [NUL] = map ((!) b64table) ks @ x # r" "list_all (\<lambda>k. k < 64) ks"
    "x = CHR ''='' \<or> x = NUL" "2 \<le> length ks" "length ks \<le> 4" "length ks = 4 \<or> x = CHR ''=''"
    "take (length ks - 1) [byte1 (ks ! 0) (ks ! 1), byte2 (ks ! 1) (ks ! 2), byte3 (ks ! 2) (ks ! 3)] = s"
    using b64_last_group [OF assms] by blast
  have "length s + 2 = 3 \<or> length s + 2 = 4 \<or> length s + 2 = 5" using assms by linarith
  then have "length (b64_text s) = 4" unfolding length_b64_text by (elim disjE; simp)
  then show ?thesis
    using b64_tail [OF k(2-6), of r m pos] k(7)
    by (subst b64_decode_loop.simps) (simp add: k(1) Let_def)
qed

lemma b64_decode_text:
  assumes "s \<noteq> []"
  shows "bind_out (b64_decode_loop (b64_text s @ [NUL]) (length (b64_text s)) (Some m) pos)
      (\<lambda>(it, sz, m, pos). b64_decode_tail it sz m pos) = wr_seq s (Some m) pos"
  using assms
proof (induction s arbitrary: m pos rule: b64_text.induct)
  case (1 a b c ds)
  show ?case
  proof (cases "ds = []")
    case False
    let ?g = "digits64 (group24 (ucode a) (ucode b) (ucode c))"
    let ?L = "\<lambda>m pos. b64_decode_loop (b64_text ds @ [NUL]) (length (b64_text ds)) m pos"
    let ?T = "\<lambda>(it, sz, m, pos). b64_decode_tail it sz m pos"
    have l: "length ?g = 4" by (simp add: digits64_def)
    have "0 < length (b64_text ds)" using False by (cases ds rule: b64_text.cases) (simp_all add: digits64_def)
    then have "b64_decode_loop (b64_text (a # b # c # ds) @ [NUL]) (length (b64_text (a # b # c # ds))) (Some m) pos =
        bind_out (wr_opt (Some m) pos [a, b, c]) (\<lambda>m. ?L m (pos + 3))"
      using b64_decode_group [of "length (b64_text (a # b # c # ds))" a b c "b64_text ds @ [NUL]" m pos] l by simp
    moreover have "bind_out (wr_opt (Some m) pos [a, b, c]) (\<lambda>m. bind_out (?L m (pos + 3)) ?T) =
        bind_out (wr_opt (Some m) pos [a, b, c]) (\<lambda>m. wr_seq ds m (pos + 3))"
      using 1(1) [OF False] by (cases "wr_all m pos [a, b, c]") (simp_all add: wr_opt_def del: wr_all.simps)
    ultimately show ?thesis
      using wr_seq_append [of "Some m" pos "[a, b, c]" ds] by (simp only: bind_out_assoc) (simp add: numeral_3_eq_3)
  qed (use b64_decode_last [of "[a, b, c]"] in simp)
next
  case (2 a)
  show ?case by (rule b64_decode_last) simp_all
next
  case (3 a b)
  show ?case by (rule b64_decode_last) simp_all
qed simp

section \<open>The buffers\<close>

lemma b64_encode_contents:
  assumes b: "buf_ok b" and r: "room (2 + (length s + 2) div 3 * 4) b"
  shows "\<exists>b' m. b64_encode s b = Value b' \<and> buf_ok b' \<and> contents b' = known (b64_text s) \<and>
    m_data b' = Some m \<and> rd m (m_offset b') = Value NUL"
proof -
  let ?n = "2 + (length s + 2) div 3 * 4"
  let ?b = "reserve ?n b"
  let ?t = "b64_text s"
  note v = reserve_ok [OF b r]
  obtain m where m: "m_data ?b = Some m" using v(5) by auto
  have l: "length m = m_size ?b + 1" using v(1) m by (simp add: buf_ok_def)
  have n: "length ?t + 2 \<le> m_size ?b" using v(4) by (simp add: length_b64_text)
  have e: "b64_encode_loop s m 0 = Value (known ?t @ drop (length ?t) m, length ?t)"
    using b64_encode_loop_eq [of 0 s m] l n by simp
  let ?m = "(known ?t @ drop (length ?t) m)[length ?t := Some NUL]"
  have w: "wr (known ?t @ drop (length ?t) m) (length ?t) NUL = Value ?m" using l n by (simp add: wr_def)
  have "b64_encode s b = Value (?b\<lparr>m_data := Some ?m, m_offset := length ?t\<rparr>)"
    using m n by (simp add: b64_encode_def Let_def e w bseek_def del: One_nat_def)
  moreover have "take (length ?t) ?m = known ?t" by simp
  moreover have "length ?m = m_size ?b + 1" using l n by simp
  moreover have "rd ?m (length ?t) = Value NUL" using l n by (simp add: rd_def)
  ultimately show ?thesis using v(1) n by (simp add: buf_ok_def contents_def)
qed

lemma full_multiple_of_24:
  fixes n k :: nat
  assumes "n \<le> 3 * k" and "3 * k \<le> n + 2"
  shows "n < 3 * k + align (3 * k) \<longleftrightarrow> n mod 24 \<noteq> 0"
proof (cases "3 * k mod 8 = 0")
  case True
  then have "n < 3 * k \<longleftrightarrow> n mod 24 \<noteq> 0" using assms by presburger
  with True show ?thesis by (simp add: align_def)
next
  case False
  then have "n mod 24 \<noteq> 0" using assms by presburger
  moreover have "0 < align (3 * k)" using False by (simp add: align_def)
  ultimately show ?thesis using assms(1) by simp
qed

lemma b64_decode_contents:
  assumes s: "s \<noteq> []" and n: "length s < 2 ^ 28"
  shows "b64_decode_string (b64_text s @ [NUL]) (length (b64_text s)) =
    (if length s mod 24 = 0 then Throw OutOfRange else Value (known s))"
proof -
  let ?k = "(length s + 2) div 3"
  let ?r = "3 * ?k"
  have k: "length s \<le> ?r" "?r \<le> length s + 2" "0 < ?k" using s by (cases s; simp)+
  have z: "length (b64_text s) div 4 = ?k" by (simp add: length_b64_text)
  have u: "u32 (u32 ?k * 3) = ?r" using n k by (simp add: mult.commute)
  let ?b = "obuffer ?r"
  have b: "buf_ok ?b" "m_offset ?b = 0" "m_size ?b = ?r + align ?r"
    using obuffer_ok [of ?r] n k by auto
  have g: "reserve ?r ?b = ?b" using b by (simp add: reserve_def capacity_ok)
  obtain m where m: "m_data ?b = Some m" using b k by (cases "m_data ?b") (auto simp: buf_ok_def)
  have l: "length m = m_size ?b + 1" using b(1) m by (simp add: buf_ok_def)
  have "wr_seq s (Some m) 0 = Value (Some (known s @ drop (length s) m), length s)"
    using wr_all_eq [of 0 s m] l k b(3) by (simp add: wr_seq_def wr_opt_def)
  moreover have "bind_out x (\<lambda>(it, sz, m, pos). bind_out (b64_decode_tail it sz m pos) f) =
      bind_out (bind_out x (\<lambda>(it, sz, m, pos). b64_decode_tail it sz m pos)) f" for x and f :: "_ \<Rightarrow> obuffer outcome"
    by (cases x) auto
  ultimately have "b64_decode (b64_text s @ [NUL]) (length (b64_text s)) ?b =
      seek (int (length s)) (?b\<lparr>m_data := Some (known s @ drop (length s) m)\<rparr>)"
    unfolding b64_decode_def z u g Let_def m by (simp only: b64_decode_text [OF s]) simp
  moreover have "length s < m_size ?b \<longleftrightarrow> length s mod 24 \<noteq> 0"
    unfolding b(3) by (rule full_multiple_of_24) (use k in simp_all)
  moreover have "b64_decode_string (b64_text s @ [NUL]) (length (b64_text s)) =
      map_out contents (b64_decode (b64_text s @ [NUL]) (length (b64_text s)) ?b)"
    unfolding b64_decode_string_def z u ..
  ultimately show ?thesis
    using b(2) by (simp add: seek_def bseek_def contents_def)
qed

section \<open>The properties\<close>

text \<open>C22: base64::encode writes the RFC 4648 encoding of its input, which is defined by
  24 bit numbers and not by the bit masks of the code, with a terminator behind it, and stays
  inside the buffer.\<close>
theorem base64_encode_rfc4648:
  assumes "length s \<le> 2 ^ 28"
  shows "\<exists>b m. b64_encode s empty_buffer = Value b \<and> buf_ok b \<and> contents b = known (b64_text s) \<and>
    m_data b = Some m \<and> rd m (m_offset b) = Value NUL"
proof (rule b64_encode_contents)
  show "buf_ok empty_buffer" by (simp add: buf_ok_def empty_buffer_def)
  have "(length s + 2) div 3 * 4 \<le> 2 * length s + 4" by simp
  then show "room (2 + (length s + 2) div 3 * 4) empty_buffer"
    using assms by (simp add: room_def empty_buffer_def)
qed

theorem base64_encode_rfc4648_witness:
  "\<exists>b m. b64_encode ''suil'' empty_buffer = Value b \<and> buf_ok b \<and> contents b = known (b64_text ''suil'') \<and>
    m_data b = Some m \<and> rd m (m_offset b) = Value NUL"
  by (rule base64_encode_rfc4648) simp



text \<open>The decoder looks one byte behind a last group without padding. On the first four
  characters of a longer base64 text it throws, and on an empty input it writes through a null
  pointer.\<close>
theorem base64_decode_reads_behind:
  "b64_decode_string (''QUJD'' @ ''QUJD'' @ [NUL]) 4 = Throw InvalidArguments \<and>
   b64_decode_string (''QUJD'' @ [NUL]) 4 = Value (known ''ABC'') \<and>
   b64_decode_string [NUL] 0 = Undefined"
proof -
  have go: "byte_at it i = Value c \<Longrightarrow> c \<noteq> CHR ''='' \<Longrightarrow> b64_value c \<noteq> 64 \<Longrightarrow>
      tail_count it i = (if i < 4 then tail_count it (i + 1) else Value (i + 1))" for it i c
    by (subst tail_count.simps) simp
  have stop: "byte_at it i = Value NUL \<Longrightarrow> tail_count it i = Value i" for it i
    using lookup_pad by (subst tail_count.simps) simp
  have v: "b64_value CHR ''Q'' = 16" "b64_value CHR ''U'' = 20" "b64_value CHR ''J'' = 9" "b64_value CHR ''D'' = 3"
    by (simp_all add: b64_value_def ASCII_LOOKUP_def ucode_def nth_append)
  have "b64_decode_string (''QUJD'' @ ''QUJD'' @ [NUL]) 4 = Throw InvalidArguments"
    by (simp add: b64_decode_string_def b64_decode_def b64_decode_loop.simps [of _ 4] b64_decode_tail_def
        go byte_at_def v Let_def)
  moreover have "b64_decode_string (''QUJD'' @ [NUL]) 4 = Value (known ''ABC'')"
  proof -
    have t: "b64_text ''ABC'' = ''QUJD''"
      by (simp add: digits64_def group24_def ucode_def b64table_def)
    have l: "length ''QUJD'' = 4" by simp
    have "b64_decode_string (b64_text ''ABC'' @ [NUL]) (length (b64_text ''ABC'')) = Value (known ''ABC'')"
      using b64_decode_contents [of "''ABC''"] by simp
    then show ?thesis unfolding t l .
  qed
  moreover have "b64_decode_string [NUL] 0 = Undefined"
    by (simp add: b64_decode_string_def b64_decode_def b64_decode_loop.simps [of _ 0] b64_decode_tail_def
        stop byte_at_def Let_def obuffer_def empty_buffer_def reserve_def capacity_def u32_def tail_byte_def
        value_at_def wr_opt_def lookup_pad)
  ultimately show ?thesis by simp
qed

end
