(* ===== verification/QueryString.thy ===== *)
theory QueryString
  imports UrlCode Base64
begin

text \<open>
  The query string of a request: the C functions of \<^verbatim>\<open>suil/http/qstring.cpp\<close> and the class
  \<open>QueryString\<close> of \<^verbatim>\<open>suil/http.h\<close>.  The URL is a copy in memory, which parsing changes in
  place; a \<open>char *\<close> into it is its offset, a \<open>char const *\<close> that is only read is the memory
  from it on.  \<open>qs_scanvalue\<close> has no caller and is left out.
\<close>

section \<open>The parser\<close>

definition put_at :: "string \<Rightarrow> nat \<Rightarrow> char \<Rightarrow> string outcome" where
  "put_at mem i c = (if i < length mem then Value (mem[i := c]) else Undefined)"

definition QS_ISHEX :: "char \<Rightarrow> bool" where
  "QS_ISHEX c \<longleftrightarrow> between CHR ''0'' c CHR ''9'' \<or> between CHR ''A'' c CHR ''F'' \<or> between CHR ''a'' c CHR ''f''"

definition QS_HEX2DEC :: "char \<Rightarrow> nat" where
  "QS_HEX2DEC c =
     (if between CHR ''0'' c CHR ''9'' then ucode c - 48
      else if between CHR ''A'' c CHR ''F'' then ucode c - 55
      else if between CHR ''a'' c CHR ''f'' then ucode c - 87
      else 0)"

definition QS_ISQSCHR :: "char \<Rightarrow> bool" where
  "QS_ISQSCHR c \<longleftrightarrow> c \<notin> {CHR ''='', CHR ''#'', CHR ''&'', NUL}"

definition hex_pair :: "char \<Rightarrow> char \<Rightarrow> char" where
  "hex_pair h l = char_of ((QS_HEX2DEC h * 16 + QS_HEX2DEC l) mod 256)"

declare bind_out_cong [fundef_cong]

text \<open>\<open>strcspn(p, reject)\<close>\<close>

function strcspn :: "string \<Rightarrow> nat \<Rightarrow> string \<Rightarrow> nat outcome" where
  "strcspn mem p reject =
     (if p < length mem then
        (if mem ! p = NUL \<or> mem ! p \<in> set reject then Value 0 else map_out Suc (strcspn mem (p + 1) reject))
      else Undefined)"
  by pat_completeness auto

termination strcspn
  by (relation "measure (\<lambda>(mem, p, reject). length mem - p)") auto

text \<open>\<open>qs_decode\<close>: the loop on \<open>qs[i]\<close> and \<open>qs[j]\<close>; the value is the memory afterwards.\<close>

function qs_decode :: "string \<Rightarrow> nat \<Rightarrow> nat \<Rightarrow> nat \<Rightarrow> string outcome" where
  "qs_decode mem qs i j =
     (if qs + j < length mem then
        (let c = mem ! (qs + j) in
         if QS_ISQSCHR c then
           (if c = CHR ''+'' then bind_out (put_at mem (qs + i) (CHR '' '')) (\<lambda>mem. qs_decode mem qs (i + 1) (j + 1))
            else if c = CHR ''%'' then
              bind_out (byte_at mem (qs + j + 1)) (\<lambda>h.
              bind_out (if QS_ISHEX h then byte_at mem (qs + j + 2) else Value h) (\<lambda>l.
                if \<not> QS_ISHEX h \<or> \<not> QS_ISHEX l then put_at mem (qs + i) NUL
                else bind_out (put_at mem (qs + i) (hex_pair h l)) (\<lambda>mem. qs_decode mem qs (i + 1) (j + 3))))
            else bind_out (put_at mem (qs + i) c) (\<lambda>mem. qs_decode mem qs (i + 1) (j + 1)))
         else put_at mem (qs + i) NUL)
      else Undefined)"
  by pat_completeness auto

termination qs_decode
  by (relation "measure (\<lambda>(mem, qs, i, j). length mem - (qs + j))")
    (auto simp: put_at_def Let_def bind_out_Value_iff split: if_splits)

text \<open>The loop that finds the pairs, from the pointer \<open>p\<close> and the index \<open>i\<close>: the entries of
  \<open>qs_kv\<close> it sets and the final \<open>i\<close>.\<close>

function split_pairs :: "string \<Rightarrow> nat \<Rightarrow> nat \<Rightarrow> nat \<Rightarrow> (nat list \<times> nat) outcome" where
  "split_pairs mem p i cap =
     (if i < cap then
        bind_out (strcspn mem p ''&'') (\<lambda>j.
        bind_out (byte_at mem (p + j)) (\<lambda>c.
          if c = NUL then Value ([p], i)
          else map_out (\<lambda>(ps, n). (p # ps, n)) (split_pairs mem (p + j + 1) (i + 1) cap)))
      else Value ([], i))"
  by pat_completeness auto

termination split_pairs
  by (relation "measure (\<lambda>(mem, p, i, cap). cap - i)") auto

definition decode_pair :: "string \<Rightarrow> nat \<Rightarrow> string outcome" where
  "decode_pair mem p =
     bind_out (strcspn mem p ''=&#'') (\<lambda>k.
     bind_out (byte_at mem (p + k)) (\<lambda>c.
       if c = CHR ''&'' \<or> c = NUL then put_at mem (p + k) NUL
       else qs_decode mem (p + k + 1) 0 0))"

text \<open>The second loop, for \<open>n\<close> more indices from \<open>j\<close> on; \<open>qs_kv[j]\<close> is read from the array.\<close>

fun decode_pairs :: "string \<Rightarrow> nat list \<Rightarrow> nat \<Rightarrow> nat \<Rightarrow> string outcome" where
  "decode_pairs mem kv j 0 = Value mem"
| "decode_pairs mem kv j (Suc n) =
     (if j < length kv then bind_out (decode_pair mem (kv ! j)) (\<lambda>mem. decode_pairs mem kv (j + 1) n)
      else Undefined)"

definition qs_parse :: "string \<Rightarrow> nat \<Rightarrow> (nat \<times> nat list \<times> string) outcome" where
  "qs_parse mem cap =
     bind_out (strcspn mem 0 ''?#'') (\<lambda>p.
     bind_out (byte_at mem p) (\<lambda>c.
       if c = NUL then Value (0, [], mem)
       else bind_out (split_pairs mem (p + 1) 0 cap) (\<lambda>(kv, i).
              bind_out (decode_pairs mem kv 0 (i + 1)) (\<lambda>mem. Value (i + 1, kv, mem)))))"

section \<open>Looking up\<close>

text \<open>One byte of a URL-encoded text and the pointer behind it.\<close>

definition qs_unit :: "string \<Rightarrow> (char \<times> string) outcome" where
  "qs_unit s =
     (case s of
        [] \<Rightarrow> Undefined
      | c # s1 \<Rightarrow>
          let u = (if \<not> QS_ISQSCHR c then NUL else c) in
          let u = (if u = CHR ''+'' then CHR '' '' else u) in
          if u = CHR ''%'' then
            (case s1 of
               h # l # s2 \<Rightarrow> Value (if QS_ISHEX h \<and> QS_ISHEX l then hex_pair h l else NUL, s2)
             | _ \<Rightarrow> Undefined)
          else Value (u, s1))"

fun qs_strncmp :: "string \<Rightarrow> string \<Rightarrow> nat \<Rightarrow> int outcome" where
  "qs_strncmp s qs 0 = bind_out (byte_at qs 0) (\<lambda>c. Value (if QS_ISQSCHR c then -1 else 0))"
| "qs_strncmp s qs (Suc n) =
     bind_out (qs_unit s) (\<lambda>(u1, s1).
     bind_out (qs_unit qs) (\<lambda>(u2, qs1).
       if u1 \<noteq> u2 then Value (int (ucode u1) - int (ucode u2))
       else if u1 = NUL then Value 0
       else qs_strncmp s1 qs1 n))"

text \<open>\<open>key\<close> is the text up to its terminator; the pointers are the entries of the array.\<close>

fun qs_k2v :: "string \<Rightarrow> string \<Rightarrow> nat list \<Rightarrow> nat \<Rightarrow> nat option outcome" where
  "qs_k2v key mem [] n = Value None"
| "qs_k2v key mem (p # ps) n =
     bind_out (qs_strncmp (key @ [NUL]) (drop p mem) (length key)) (\<lambda>d.
       if d = 0 then
         bind_out (strcspn mem p ''='') (\<lambda>skip.
         bind_out (byte_at mem (p + skip)) (\<lambda>c.
           if n = 0 then Value (Some (p + (if c = CHR ''='' then skip + 1 else skip)))
           else qs_k2v key mem ps (n - 1)))
       else qs_k2v key mem ps n)"

section \<open>The class\<close>

record querystring =
  nparams :: nat
  url :: "string option"
  params :: "nat list option"

definition MAX_KEY_VALUE_PAIRS_COUNT :: nat where
  "MAX_KEY_VALUE_PAIRS_COUNT = 256"

definition qs_empty :: querystring where
  "qs_empty = \<lparr>nparams = 0, url = None, params = None\<rparr>"

definition QueryString :: "string \<Rightarrow> querystring outcome" where
  "QueryString sv =
     (if sv = [] then Value qs_empty
      else let mem = takeWhile (\<lambda>c. c \<noteq> NUL) sv @ [NUL] in
        bind_out (qs_parse mem MAX_KEY_VALUE_PAIRS_COUNT) (\<lambda>(count, kv, mem).
          Value (if count > 0 then \<lparr>nparams = count, url = Some mem, params = Some kv\<rparr>
                 else \<lparr>nparams = 0, url = Some mem, params = None\<rparr>)))"

text \<open>\<open>operator=(QueryString&&)\<close>: this and the other one\<close>

definition qs_move :: "querystring \<Rightarrow> querystring \<Rightarrow> querystring \<times> querystring" where
  "qs_move this qs = (this\<lparr>params := params qs, nparams := nparams qs, url := url qs\<rparr>, qs\<lparr>params := None, nparams := 0, url := None\<rparr>)"

definition qs_clear :: "querystring \<Rightarrow> querystring" where
  "qs_clear q = q\<lparr>params := None, url := None, nparams := 0\<rparr>"

text \<open>The text at a pointer, up to its terminator\<close>

definition cstr_at :: "string \<Rightarrow> nat \<Rightarrow> string outcome" where
  "cstr_at mem p =
     (if NUL \<in> set (drop p mem) then Value (takeWhile (\<lambda>c. c \<noteq> NUL) (drop p mem)) else Undefined)"

text \<open>\<open>strview(nullptr)\<close> is not defined.\<close>

definition qs_get :: "string \<Rightarrow> querystring \<Rightarrow> string outcome" where
  "qs_get name q =
     (case (params q, url q) of
        (Some kv, Some mem) \<Rightarrow>
          bind_out (qs_k2v name mem kv 0) (\<lambda>p. case p of None \<Rightarrow> Undefined | Some p \<Rightarrow> cstr_at mem p)
      | _ \<Rightarrow> Value [])"

lemma qs_k2v_bound: "qs_k2v key mem ps n = Value (Some p) \<Longrightarrow> n < length ps"
proof (induction ps arbitrary: n)
  case (Cons q ps)
  obtain d where d: "qs_strncmp (key @ [NUL]) (drop q mem) (length key) = Value d"
    using Cons.prems by (auto simp: bind_out_Value_iff)
  show ?case
  proof (cases "d = 0 \<and> 0 < n")
    case True
    then have "qs_k2v key mem ps (n - 1) = Value (Some p)"
      using Cons.prems d by (simp add: bind_out_Value_iff) blast
    from Cons.IH [OF this] show ?thesis by simp
  next
    case False
    then show ?thesis using Cons.prems d by (cases "n = 0") (simp_all add: Cons.IH less_SucI)
  qed
qed simp

function get_all_loop :: "string \<Rightarrow> string \<Rightarrow> nat list \<Rightarrow> nat \<Rightarrow> nat list outcome" where
  "get_all_loop key mem kv count =
     (case qs_k2v key mem kv count of
        Value None \<Rightarrow> Value []
      | Value (Some p) \<Rightarrow> map_out ((#) p) (get_all_loop key mem kv (count + 1))
      | Throw e \<Rightarrow> Throw e
      | Undefined \<Rightarrow> Undefined)"
  by pat_completeness auto

termination get_all_loop
proof (relation "measure (\<lambda>(key, mem, kv, count). length kv - count)")
  fix key mem kv count x p
  assume "qs_k2v key mem kv count = Value x" and "x = Some (p :: nat)"
  then have "count < length kv" using qs_k2v_bound by blast
  then show "((key, mem, kv, count + 1), key, mem, kv, count) \<in> measure (\<lambda>(key, mem, kv, count). length kv - count)"
    by simp
qed simp

definition qs_get_all :: "string \<Rightarrow> querystring \<Rightarrow> nat list outcome" where
  "qs_get_all name q =
     (case (params q, url q) of
        (Some kv, Some mem) \<Rightarrow> get_all_loop (name @ ''[]'') mem kv 0
      | _ \<Rightarrow> Value [])"

declare strcspn.simps [simp del] qs_decode.simps [simp del] split_pairs.simps [simp del]
  get_all_loop.simps [simp del]

section \<open>Encoded texts\<close>

lemma hexchars_set: "k < 16 \<Longrightarrow> hexchars ! k \<in> set hexchars"
  by (rule nth_mem) (simp add: hexchars_def)

lemma url_escape_set:
  assumes "x \<in> set (url_escape c)"
  shows "x = c \<and> url_plain c \<or> x = CHR ''%'' \<or> x \<in> set hexchars"
proof -
  have "ucode c div 16 < 16" "ucode c mod 16 < 16" using ucode_less [of c] by linarith+
  then have "hexchars ! (ucode c div 16) \<in> set hexchars" "hexchars ! (ucode c mod 16) \<in> set hexchars"
    by (simp_all only: hexchars_set)
  with assms show ?thesis by (auto simp: url_escape_def split: if_splits)
qed

lemma url_plain_qs: "url_plain c \<Longrightarrow> c \<noteq> NUL \<Longrightarrow> QS_ISQSCHR c"
  by (auto simp: url_plain_def isalnum_def between_def ucode_def QS_ISQSCHR_def)

lemma url_text_chars:
  assumes "x \<in> set (url_text v)" and "NUL \<notin> set v"
  shows "QS_ISQSCHR x"
proof -
  from assms(1) obtain c where c: "c \<in> set v" "x \<in> set (url_escape c)" by (auto simp: url_text_def)
  then have "c \<noteq> NUL" using assms(2) by blast
  with url_escape_set [OF c(2)] url_plain_qs [of c] show ?thesis
    by (auto simp: hexchars_def QS_ISQSCHR_def)
qed

lemma url_text_clean: "NUL \<notin> set v \<Longrightarrow> set (url_text v) \<inter> {NUL, CHR ''='', CHR ''&'', CHR ''#''} = {}"
  using url_text_chars [of _ v] by (auto simp: QS_ISQSCHR_def)

lemma hex_pair_digits:
  "QS_ISHEX (hexchars ! (ucode c div 16)) \<and> QS_ISHEX (hexchars ! (ucode c mod 16)) \<and>
   hex_pair (hexchars ! (ucode c div 16)) (hexchars ! (ucode c mod 16)) = c"
proof -
  have "k < 16 \<Longrightarrow> QS_ISHEX (hexchars ! k) \<and> QS_HEX2DEC (hexchars ! k) = k" for k
  proof -
    assume "k < 16"
    then have "k \<in> set [0..<16]" by simp
    moreover have "list_all (\<lambda>k. QS_ISHEX (hexchars ! k) \<and> QS_HEX2DEC (hexchars ! k) = k) [0..<16]" by code_simp
    ultimately show ?thesis by (auto simp: list_all_iff)
  qed
  moreover have "ucode c div 16 < 16" "ucode c mod 16 < 16" using ucode_less [of c] by linarith+
  ultimately show ?thesis by (simp add: hex_pair_def)
qed

lemma url_escape_cases:
  assumes "c \<noteq> NUL"
  obtains (plain) "url_escape c = [c]" "QS_ISQSCHR c" "c \<noteq> CHR ''+''" "c \<noteq> CHR ''%''"
  | (escaped) h l where "url_escape c = [CHR ''%'', h, l]" "QS_ISHEX h" "QS_ISHEX l" "hex_pair h l = c"
proof (cases "url_plain c")
  case True
  then show ?thesis using plain url_plain_qs [OF True assms] plain_chars [OF True] by (simp add: url_escape_def)
next
  case False
  then show ?thesis using escaped hex_pair_digits [of c] by (simp add: url_escape_def)
qed

section \<open>Decoding in place\<close>

lemma strcspn_ok:
  assumes "set s \<inter> set (NUL # reject) = {}" and "t \<in> set (NUL # reject)"
  shows "strcspn (a @ s @ t # b) (length a) reject = Value (length s)"
  using assms(1)
proof (induction s arbitrary: a)
  case Nil
  then show ?case using assms(2) by (subst strcspn.simps) auto
next
  case (Cons c s)
  then have "c \<noteq> NUL \<and> c \<notin> set reject" by auto
  then show ?case using Cons.IH [of "a @ [c]"] Cons.prems by (subst strcspn.simps) auto
qed

lemma put_at_ok: "put_at (a @ d @ y # r) (length a + length d) c = Value (a @ d @ c # r)"
  by (simp add: put_at_def list_update_append)

text \<open>The bytes between the write and the read position are \<open>g\<close>.\<close>

lemma qs_decode_ok:
  assumes "NUL \<notin> set v" and "\<not> QS_ISQSCHR t"
  shows "\<exists>x. qs_decode (a @ d @ g @ url_text v @ t # b) (length a) (length d) (length d + length g) =
    Value (a @ d @ v @ NUL # x @ b) \<and> length v + length x = length g + length (url_text v)"
  using assms(1)
proof (induction v arbitrary: d g)
  case Nil
  obtain y r where r: "g @ [t] = y # r" by (cases "g @ [t]") simp_all
  have r': "g @ t # b = y # r @ b" using arg_cong [OF r, of "\<lambda>l. l @ b"] by simp
  have "length r = length g" using arg_cong [OF r, of length] by simp
  moreover have "qs_decode (a @ d @ g @ t # b) (length a) (length d) (length d + length g) = Value (a @ d @ NUL # r @ b)"
    (is "qs_decode ?m _ _ _ = _")
  proof -
    have e: "?m = (a @ d @ g) @ t # b" by simp
    have "?m ! (length a + (length d + length g)) = t" unfolding e by (simp add: nth_append)
    moreover have "length a + (length d + length g) < length ?m" by simp
    moreover have "put_at ?m (length a + length d) NUL = Value (a @ d @ NUL # r @ b)" unfolding r' by (rule put_at_ok)
    ultimately show ?thesis using assms(2) by (subst qs_decode.simps) (simp add: Let_def)
  qed
  ultimately show ?case by (auto simp: url_text_def)
next
  case (Cons c v)
  then have c: "c \<noteq> NUL" "NUL \<notin> set v" by auto
  let ?m = "a @ d @ g @ url_text (c # v) @ t # b"
  obtain y r where r: "g @ url_escape c = y # r" by (cases "g @ url_escape c") simp_all
  have m: "?m = a @ d @ y # r @ url_text v @ t # b"
    using arg_cong [OF r, of "\<lambda>l. l @ url_text v @ t # b"] by (simp add: url_text_def)
  have w: "put_at ?m (length a + length d) c = Value (a @ (d @ [c]) @ r @ url_text v @ t # b)"
    unfolding m by (simp add: put_at_ok)
  have l: "length r + 1 = length g + length (url_escape c)" using arg_cong [OF r, of length] by simp
  from c(1) have "qs_decode ?m (length a) (length d) (length d + length g) =
      qs_decode (a @ (d @ [c]) @ r @ url_text v @ t # b) (length a) (length (d @ [c])) (length (d @ [c]) + length r)"
  proof (cases rule: url_escape_cases)
    case plain
    then have "?m = (a @ d @ g) @ c # url_text v @ t # b" by (simp add: url_text_def)
    then have "?m ! (length a + (length d + length g)) = c" by (simp add: nth_append)
    moreover have "length a + (length d + length g) < length ?m" using plain by (simp add: url_text_def)
    ultimately show ?thesis using plain w l by (subst qs_decode.simps) (simp add: Let_def)
  next
    case (escaped h k)
    then have e: "?m = (a @ d @ g) @ CHR ''%'' # h # k # url_text v @ t # b" by (simp add: url_text_def)
    have "?m ! (length a + (length d + length g)) = CHR ''%''" unfolding e by (simp add: nth_append)
    moreover have "byte_at ?m (length a + (length d + length g) + 1) = Value h"
      "byte_at ?m (length a + (length d + length g) + 2) = Value k"
      unfolding e by (simp_all add: byte_at_def nth_append)
    moreover have "length a + (length d + length g) < length ?m" using escaped by (simp add: url_text_def)
    moreover have "length r = length g + 2" using l escaped by simp
    ultimately show ?thesis using escaped w by (subst qs_decode.simps) (simp add: Let_def QS_ISQSCHR_def add.assoc numeral_3_eq_3)
  qed
  with Cons.IH [OF c(2), of "d @ [c]" r] l show ?case by (auto simp: url_text_def)
qed

section \<open>Query texts\<close>

text \<open>An encoded pair with the byte behind it, the text of a query with its terminator, the
  offsets of its pairs, and the pair after decoding: the value and its terminator, then bytes
  left over.\<close>

definition pair_text :: "string \<times> string \<Rightarrow> char \<Rightarrow> string" where
  "pair_text kv t = url_text (fst kv) @ CHR ''='' # url_text (snd kv) @ [t]"

fun query_text :: "(string \<times> string) list \<Rightarrow> string" where
  "query_text [] = []"
| "query_text [kv] = pair_text kv NUL"
| "query_text (kv # kvs) = pair_text kv (CHR ''&'') @ query_text kvs"

fun offsets :: "nat \<Rightarrow> (string \<times> string) list \<Rightarrow> nat list" where
  "offsets p [] = []"
| "offsets p (kv # kvs) = p # offsets (p + length (pair_text kv NUL)) kvs"

definition decoded_pair :: "string \<times> string \<Rightarrow> string \<Rightarrow> bool" where
  "decoded_pair kv y \<longleftrightarrow> length y = length (pair_text kv NUL) \<and>
     (\<exists>x. y = url_text (fst kv) @ CHR ''='' # snd kv @ NUL # x)"

definition clean :: "string \<times> string \<Rightarrow> bool" where
  "clean kv \<longleftrightarrow> NUL \<notin> set (fst kv) \<and> NUL \<notin> set (snd kv)"

lemma length_offsets [simp]: "length (offsets p kvs) = length kvs"
  by (induction kvs arbitrary: p) simp_all

lemma length_pair_text [simp]: "length (pair_text kv t) = length (url_text (fst kv)) + length (url_text (snd kv)) + 2"
  by (simp add: pair_text_def)

lemma pair_text_amp: "clean kv \<Longrightarrow> strcspn (a @ pair_text kv t @ b) (length a) ''&'' = Value (length (pair_text kv NUL) - 1)"
  if "t = NUL \<or> t = CHR ''&''" for t
  using strcspn_ok [of "url_text (fst kv) @ CHR ''='' # url_text (snd kv)" "''&''" t a b]
    url_text_clean [of "fst kv"] url_text_clean [of "snd kv"] that
  by (auto simp: pair_text_def clean_def)

lemma pair_text_at: "byte_at (a @ pair_text kv t @ b) (length a + (length (pair_text kv NUL) - 1)) = Value t"
proof -
  have "a @ pair_text kv t @ b = (a @ url_text (fst kv) @ CHR ''='' # url_text (snd kv)) @ t # b"
    by (simp add: pair_text_def)
  then show ?thesis by (simp add: byte_at_def nth_append)
qed

lemma split_pairs_ok:
  "\<forall>kv \<in> set kvs. clean kv \<Longrightarrow> kvs \<noteq> [] \<Longrightarrow> i < n \<Longrightarrow>
   split_pairs (a @ query_text kvs) (length a) i n =
     Value (if i + length kvs \<le> n then (offsets (length a) kvs, i + length kvs - 1)
            else (take (n - i) (offsets (length a) kvs), n))"
proof (induction kvs arbitrary: a i rule: query_text.induct)
  case (2 kv)
  then show ?case
    using pair_text_amp [of NUL kv a "[]"] pair_text_at [of a kv NUL "[]"]
    by (subst split_pairs.simps) simp
next
  case (3 kv kv' kvs)
  let ?t = "pair_text kv (CHR ''&'')"
  have e: "a @ query_text (kv # kv' # kvs) = a @ ?t @ query_text (kv' # kvs)" by simp
  have c: "strcspn (a @ ?t @ query_text (kv' # kvs)) (length a) ''&'' = Value (length (pair_text kv NUL) - 1)"
    using 3(2) by (intro pair_text_amp) simp_all
  show ?case
  proof (cases "i + 1 < n")
    case True
    have "split_pairs ((a @ ?t) @ query_text (kv' # kvs)) (length (a @ ?t)) (i + 1) n =
     Value (if i + 1 + length (kv' # kvs) \<le> n then (offsets (length (a @ ?t)) (kv' # kvs), i + 1 + length (kv' # kvs) - 1)
            else (take (n - (i + 1)) (offsets (length (a @ ?t)) (kv' # kvs)), n))"
      by (rule 3(1)) (use 3(2) True in simp_all)
    moreover obtain k where "n - i = Suc k" "k = n - (i + 1)" using True by (metis Suc_diff_Suc Suc_eq_plus1 Suc_lessD)
    ultimately show ?thesis
      using c pair_text_at [of a kv "CHR ''&''" "query_text (kv' # kvs)"] 3(4) unfolding e
      by (subst split_pairs.simps) (simp add: add.assoc)
  next
    case False
    then have n: "n = i + 1" using 3(4) by simp
    have "split_pairs m p n n = Value ([], n)" for m p by (subst split_pairs.simps) simp
    then show ?thesis
      using c pair_text_at [of a kv "CHR ''&''" "query_text (kv' # kvs)"] unfolding e n
      by (subst split_pairs.simps) simp
  qed
qed simp

lemma decode_pair_ok:
  assumes "clean kv" and "t = NUL \<or> t = CHR ''&''"
  shows "\<exists>y. decode_pair (a @ pair_text kv t @ b) (length a) = Value (a @ y @ b) \<and> decoded_pair kv y"
proof -
  let ?k = "url_text (fst kv)" and ?v = "url_text (snd kv)"
  have e: "a @ pair_text kv t @ b = a @ ?k @ CHR ''='' # ?v @ t # b" by (simp add: pair_text_def)
  have k: "strcspn (a @ ?k @ CHR ''='' # ?v @ t # b) (length a) ''=&#'' = Value (length ?k)"
    using url_text_clean [of "fst kv"] assms(1) by (intro strcspn_ok) (auto simp: clean_def)
  have c: "byte_at (a @ ?k @ CHR ''='' # ?v @ t # b) (length a + length ?k) = Value (CHR ''='')"
    by (simp add: byte_at_def nth_append)
  have t: "\<not> QS_ISQSCHR t" using assms(2) by (auto simp: QS_ISQSCHR_def)
  have "NUL \<notin> set (snd kv)" using assms(1) by (simp add: clean_def)
  from qs_decode_ok [OF this t, of "a @ ?k @ ''=''" "[]" "[]" b] obtain x
    where "qs_decode (a @ ?k @ CHR ''='' # ?v @ t # b) (length a + length ?k + 1) 0 0 =
        Value (a @ ?k @ CHR ''='' # snd kv @ NUL # x @ b)" "length (snd kv) + length x = length ?v"
    by auto
  with k c show ?thesis unfolding e
    by (auto simp: decode_pair_def decoded_pair_def intro!: exI [of _ "?k @ CHR ''='' # snd kv @ NUL # x"])
qed

lemma decode_pairs_ok:
  "\<forall>kv \<in> set kvs. clean kv \<Longrightarrow> \<exists>ys. decode_pairs (a @ query_text kvs) (ps @ offsets (length a) kvs) (length ps) (length kvs) =
     Value (a @ concat ys) \<and> list_all2 decoded_pair kvs ys"
proof (induction kvs arbitrary: a ps rule: query_text.induct)
  case (2 kv)
  then obtain y where "decode_pair (a @ pair_text kv NUL) (length a) = Value (a @ y) \<and> decoded_pair kv y"
    using decode_pair_ok [of kv NUL a "[]"] by auto
  then show ?case by (intro exI [of _ "[y]"]) (simp add: nth_append)
next
  case (3 kv kv' kvs)
  have "clean kv" using 3(2) by simp
  from decode_pair_ok [OF this, of "CHR ''&''" a "query_text (kv' # kvs)"] obtain y
    where y: "decode_pair (a @ query_text (kv # kv' # kvs)) (length a) = Value ((a @ y) @ query_text (kv' # kvs))"
      "decoded_pair kv y" by auto
  have l: "length (a @ y) = length a + length (pair_text kv NUL)" using y(2) by (simp add: decoded_pair_def)
  have "\<exists>ys. decode_pairs ((a @ y) @ query_text (kv' # kvs)) ((ps @ [length a]) @ offsets (length (a @ y)) (kv' # kvs))
      (length (ps @ [length a])) (length (kv' # kvs)) = Value ((a @ y) @ concat ys) \<and> list_all2 decoded_pair (kv' # kvs) ys"
    by (rule 3(1)) (use 3(2) in simp)
  then obtain ys where ys: "decode_pairs ((a @ y) @ query_text (kv' # kvs)) ((ps @ [length a]) @ offsets (length (a @ y)) (kv' # kvs))
      (length (ps @ [length a])) (length (kv' # kvs)) = Value ((a @ y) @ concat ys)" "list_all2 decoded_pair (kv' # kvs) ys"
    by blast
  have p: "ps @ offsets (length a) (kv # kv' # kvs) = (ps @ [length a]) @ offsets (length (a @ y)) (kv' # kvs)"
    unfolding l by simp
  have "decode_pairs (a @ query_text (kv # kv' # kvs)) (ps @ offsets (length a) (kv # kv' # kvs)) (length ps)
      (length (kv # kv' # kvs)) = Value (a @ concat (y # ys))"
    using y(1) ys(1) unfolding p by (simp del: query_text.simps add: nth_append)
  with y(2) ys(2) show ?case by blast
qed simp

section \<open>Looking up a decoded pair\<close>

text \<open>The characters a key of a look up may have: it is decoded as well.\<close>

definition key_char :: "char \<Rightarrow> bool" where
  "key_char c \<longleftrightarrow> QS_ISQSCHR c \<and> c \<noteq> CHR ''+'' \<and> c \<noteq> CHR ''%''"

definition pair_at :: "string \<Rightarrow> nat \<Rightarrow> string \<times> string \<Rightarrow> bool" where
  "pair_at mem p kv \<longleftrightarrow> (\<exists>x. drop p mem = url_text (fst kv) @ CHR ''='' # snd kv @ NUL # x)"

lemma qs_unit_key: "key_char c \<Longrightarrow> qs_unit (c # s) = Value (c, s)"
  by (simp add: qs_unit_def key_char_def)

lemma qs_unit_stop: "qs_unit (CHR ''='' # s) = Value (NUL, s)"
  by (simp add: qs_unit_def QS_ISQSCHR_def)

lemma qs_unit_escape: "c \<noteq> NUL \<Longrightarrow> qs_unit (url_escape c @ s) = Value (c, s)"
  by (erule url_escape_cases) (simp_all add: qs_unit_def QS_ISQSCHR_def)

lemma url_text_Cons: "url_text (c # s) = url_escape c @ url_text s"
  by (simp add: url_text_def)

lemma qs_strncmp_ok:
  "\<forall>c \<in> set s. key_char c \<Longrightarrow> NUL \<notin> set k \<Longrightarrow>
   \<exists>d. qs_strncmp (s @ z) (url_text k @ CHR ''='' # r) (length s) = Value d \<and> (d = 0 \<longleftrightarrow> s = k)"
proof (induction s arbitrary: k)
  case Nil
  show ?case
  proof (cases k)
    case Nil
    then show ?thesis by (simp add: url_text_def byte_at_def QS_ISQSCHR_def)
  next
    case (Cons c k')
    then obtain x y where x: "url_text k = x # y" by (cases "url_text k") (auto simp: url_text_Cons)
    then have "QS_ISQSCHR x" using url_text_chars [of x k] Nil.prems(2) by simp
    with x Cons show ?thesis by (simp add: byte_at_def)
  qed
next
  case (Cons c s)
  then have c: "key_char c" "c \<noteq> NUL" by (auto simp: key_char_def QS_ISQSCHR_def)
  show ?case
  proof (cases k)
    case Nil
    then show ?thesis using c ucode_NUL(2) [of c]
      by (simp add: url_text_def qs_unit_key qs_unit_stop ucode_NUL(1))
  next
    case (Cons e k')
    have e: "e \<noteq> NUL" "NUL \<notin> set k'" using Cons.prems(2) Cons by auto
    have u: "qs_unit (url_escape e @ url_text k' @ CHR ''='' # r) = Value (e, url_text k' @ CHR ''='' # r)"
      by (rule qs_unit_escape [OF e(1)])
    show ?thesis
    proof (cases "c = e")
      case True
      with Cons.IH [OF _ e(2)] Cons.prems(1) u c Cons show ?thesis by (simp add: url_text_Cons qs_unit_key)
    next
      case False
      then have "ucode c \<noteq> ucode e" by (simp add: char_eq_iff_ucode)
      with False u c Cons show ?thesis by (simp add: url_text_Cons qs_unit_key)
    qed
  qed
qed

lemma pair_at_parts:
  assumes "pair_at mem p kv" and "clean kv"
  shows "strcspn mem p ''='' = Value (length (url_text (fst kv)))"
    and "byte_at mem (p + length (url_text (fst kv))) = Value (CHR ''='')"
    and "cstr_at mem (p + (length (url_text (fst kv)) + 1)) = Value (snd kv)"
proof -
  obtain x where x: "drop p mem = url_text (fst kv) @ CHR ''='' # snd kv @ NUL # x"
    using assms(1) by (auto simp: pair_at_def)
  then have p: "p < length mem" by (metis append_is_Nil_conv drop_all leI list.discI)
  have m: "mem = take p mem @ url_text (fst kv) @ CHR ''='' # snd kv @ NUL # x" by (metis append_take_drop_id x)
  have l: "length (take p mem) = p" using p by simp
  show "strcspn mem p ''='' = Value (length (url_text (fst kv)))"
    using strcspn_ok [of "url_text (fst kv)" "''=''" "CHR ''=''" "take p mem" "snd kv @ NUL # x"]
      url_text_clean [of "fst kv"] assms(2) unfolding m [symmetric] l by (auto simp: clean_def)
  have "mem ! (p + length (url_text (fst kv))) = CHR ''=''"
    using nth_drop [of p mem "length (url_text (fst kv))"] p x by (simp add: nth_append)
  moreover have "p + length (url_text (fst kv)) < length mem"
    using arg_cong [OF x, of length] by simp
  ultimately show "byte_at mem (p + length (url_text (fst kv))) = Value (CHR ''='')" by (simp add: byte_at_def)
  have "drop (p + (length (url_text (fst kv)) + 1)) mem = drop (length (url_text (fst kv)) + 1) (drop p mem)"
    by (simp add: add.commute)
  also have "\<dots> = snd kv @ NUL # x" unfolding x by simp
  finally show "cstr_at mem (p + (length (url_text (fst kv)) + 1)) = Value (snd kv)"
    using assms(2) by (simp add: cstr_at_def clean_def takeWhile_append)
qed

text \<open>The pointers to the values of a key, in the order of the pairs.\<close>

definition value_ptrs :: "string \<Rightarrow> (nat \<times> string \<times> string) list \<Rightarrow> nat list" where
  "value_ptrs key pkvs =
     map (\<lambda>(p, kv). p + (length (url_text (fst kv)) + 1)) (filter (\<lambda>(p, kv). fst kv = key) pkvs)"

lemma qs_k2v_ok:
  assumes key: "\<forall>c \<in> set key. key_char c"
  shows "\<forall>(p, kv) \<in> set pkvs. pair_at mem p kv \<and> clean kv \<Longrightarrow>
   qs_k2v key mem (map fst pkvs) n =
     Value (if n < length (value_ptrs key pkvs) then Some (value_ptrs key pkvs ! n) else None)"
proof (induction pkvs arbitrary: n)
  case (Cons pkv pkvs)
  obtain p kv where pkv: "pkv = (p, kv)" by (cases pkv) simp
  have pa: "pair_at mem p kv" "clean kv" using Cons.prems pkv by auto
  obtain x where x: "drop p mem = url_text (fst kv) @ CHR ''='' # snd kv @ NUL # x"
    using pa(1) by (auto simp: pair_at_def)
  have "NUL \<notin> set (fst kv)" using pa(2) by (simp add: clean_def)
  from qs_strncmp_ok [OF key this, of "[NUL]" "snd kv @ NUL # x"] obtain d
    where d: "qs_strncmp (key @ [NUL]) (drop p mem) (length key) = Value d" "d = 0 \<longleftrightarrow> key = fst kv"
    unfolding x by blast
  show ?case
  proof (cases "fst kv = key")
    case True
    then have "value_ptrs key (pkv # pkvs) = (p + (length (url_text (fst kv)) + 1)) # value_ptrs key pkvs"
      by (simp add: value_ptrs_def pkv)
    then show ?thesis using Cons True d pair_at_parts [OF pa] pkv by (cases n) simp_all
  next
    case False
    then have "value_ptrs key (pkv # pkvs) = value_ptrs key pkvs" by (simp add: value_ptrs_def pkv)
    then show ?thesis using Cons False d pkv by auto
  qed
qed (simp add: value_ptrs_def)

lemma get_all_loop_ok:
  assumes key: "\<forall>c \<in> set key. key_char c" and pkvs: "\<forall>(p, kv) \<in> set pkvs. pair_at mem p kv \<and> clean kv"
  shows "get_all_loop key mem (map fst pkvs) n = Value (drop n (value_ptrs key pkvs))"
proof (induction "length (value_ptrs key pkvs) - n" arbitrary: n)
  case 0
  then show ?case using qs_k2v_ok [OF key pkvs, of n] by (subst get_all_loop.simps) simp
next
  case (Suc m)
  then have n: "n < length (value_ptrs key pkvs)" "m = length (value_ptrs key pkvs) - (n + 1)" by simp_all
  with Suc(1) [OF n(2)] qs_k2v_ok [OF key pkvs, of n] show ?case
    by (subst get_all_loop.simps) (simp add: Cons_nth_drop_Suc)
qed

lemma value_ptrs_texts:
  "\<forall>(p, kv) \<in> set pkvs. pair_at mem p kv \<and> clean kv \<Longrightarrow>
   map (cstr_at mem) (value_ptrs key pkvs) = map (\<lambda>kv. Value (snd kv)) (filter (\<lambda>kv. fst kv = key) (map snd pkvs))"
  by (induction pkvs) (auto simp: value_ptrs_def dest: pair_at_parts(3))

lemma offsets_pairs:
  "list_all2 decoded_pair kvs ys \<Longrightarrow> \<forall>(p, kv) \<in> set (zip (offsets (length a) kvs) kvs). pair_at (a @ concat ys) p kv"
proof (induction kvs ys arbitrary: a rule: list_all2_induct)
  case (Cons kv kvs y ys)
  from Cons(1) obtain x where x: "y = url_text (fst kv) @ CHR ''='' # snd kv @ NUL # x" "length y = length (pair_text kv NUL)"
    by (auto simp: decoded_pair_def)
  from Cons(3) [of "a @ y"] x(2) x(1) show ?case by (auto simp: pair_at_def)
qed simp

section \<open>The properties\<close>

text \<open>A URL with a query, as a client writes it.\<close>

definition url_query :: "(string \<times> string) list \<Rightarrow> string" where
  "url_query kvs = butlast (query_text kvs)"

definition url_path_ok :: "string \<Rightarrow> bool" where
  "url_path_ok path \<longleftrightarrow> set path \<inter> {NUL, CHR ''?'', CHR ''#''} = {}"

lemma query_text_ne: "kvs \<noteq> [] \<Longrightarrow> query_text kvs \<noteq> [] \<and> last (query_text kvs) = NUL"
proof (induction kvs rule: query_text.induct)
  case (3 kv kv' kvs)
  then show ?case by (auto simp: last_append)
qed (simp_all add: pair_text_def)

lemma query_text_eq: "kvs \<noteq> [] \<Longrightarrow> query_text kvs = url_query kvs @ [NUL]"
  using query_text_ne [of kvs] append_butlast_last_id [of "query_text kvs"] by (simp add: url_query_def)

lemma url_query_clean: "\<forall>kv \<in> set kvs. clean kv \<Longrightarrow> NUL \<notin> set (url_query kvs)"
proof -
  have pair: "clean kv \<Longrightarrow> NUL \<notin> set (butlast (pair_text kv NUL)) \<and> NUL \<notin> set (pair_text kv (CHR ''&''))" for kv
    using url_text_clean [of "fst kv"] url_text_clean [of "snd kv"]
    by (auto simp: pair_text_def butlast_append clean_def dest: in_set_butlastD)
  show "\<forall>kv \<in> set kvs. clean kv \<Longrightarrow> NUL \<notin> set (url_query kvs)"
  proof (induction kvs rule: query_text.induct)
    case (3 kv kv' kvs)
    then show ?case using query_text_ne [of "kv' # kvs"] pair [of kv] by (simp add: url_query_def butlast_append)
  qed (simp_all add: url_query_def pair)
qed

lemma QueryString_ok:
  assumes "url_path_ok path" and "kvs \<noteq> []" and "length kvs \<le> 256" and "\<forall>kv \<in> set kvs. clean kv"
  shows "\<exists>mem. QueryString (path @ ''?'' @ url_query kvs) =
      Value \<lparr>nparams = length kvs, url = Some mem, params = Some (offsets (length path + 1) kvs)\<rparr> \<and>
    (\<forall>(p, kv) \<in> set (zip (offsets (length path + 1) kvs) kvs). pair_at mem p kv)"
proof -
  let ?a = "path @ ''?''"
  have "NUL \<notin> set (?a @ url_query kvs)" using assms(1) url_query_clean [OF assms(4)] by (auto simp: url_path_ok_def)
  then have "takeWhile (\<lambda>c. c \<noteq> NUL) (?a @ url_query kvs) = ?a @ url_query kvs" by (auto simp: takeWhile_eq_all_conv)
  then have m: "takeWhile (\<lambda>c. c \<noteq> NUL) (path @ ''?'' @ url_query kvs) @ [NUL] = ?a @ query_text kvs"
    using query_text_eq [OF assms(2)] by simp
  have c: "strcspn (?a @ query_text kvs) 0 ''?#'' = Value (length path)"
    using strcspn_ok [of path "''?#''" "CHR ''?''" "[]" "query_text kvs"] assms(1) by (auto simp: url_path_ok_def)
  have q: "byte_at (?a @ query_text kvs) (length path) = Value (CHR ''?'')" by (simp add: byte_at_def nth_append)
  have p: "split_pairs (?a @ query_text kvs) (length ?a) 0 256 = Value (offsets (length ?a) kvs, length kvs - 1)"
    using split_pairs_ok [OF assms(4,2), of 0 256 ?a] assms(3) by simp
  obtain ys where ys: "decode_pairs (?a @ query_text kvs) (offsets (length ?a) kvs) 0 (length kvs) = Value (?a @ concat ys)"
      "list_all2 decoded_pair kvs ys"
    using decode_pairs_ok [OF assms(4), of ?a "[]"] by auto
  have k: "Suc (length kvs - 1) = length kvs" using assms(2) by (cases kvs) simp_all
  have "qs_parse (?a @ query_text kvs) 256 = Value (length kvs, offsets (length ?a) kvs, ?a @ concat ys)"
    using c q p ys(1) k by (simp add: qs_parse_def del: decode_pairs.simps)
  then have "QueryString (path @ ''?'' @ url_query kvs) =
      Value \<lparr>nparams = length kvs, url = Some (?a @ concat ys), params = Some (offsets (length path + 1) kvs)\<rparr>"
    unfolding QueryString_def m Let_def using assms(2) by (simp add: MAX_KEY_VALUE_PAIRS_COUNT_def)
  then show ?thesis using offsets_pairs [OF ys(2), of ?a] by auto
qed

lemma zip_offsets:
  assumes "\<forall>(p, kv) \<in> set (zip (offsets n kvs) kvs). pair_at mem p kv" and "\<forall>kv \<in> set kvs. clean kv"
  shows "\<forall>(p, kv) \<in> set (zip (offsets n kvs) kvs). pair_at mem p kv \<and> clean kv"
  using assms by (auto dest: set_zip_rightD)

lemma query_lookup:
  assumes "url_path_ok path" and "kvs \<noteq> []" and "length kvs \<le> 256" and "\<forall>kv \<in> set kvs. clean kv"
    and "\<forall>c \<in> set key. key_char c"
  shows "\<exists>q. QueryString (path @ ''?'' @ url_query kvs) = Value q \<and>
    qs_get key q = (case map_of kvs key of Some v \<Rightarrow> Value v | None \<Rightarrow> Undefined)"
proof -
  obtain mem where q: "QueryString (path @ ''?'' @ url_query kvs) =
      Value \<lparr>nparams = length kvs, url = Some mem, params = Some (offsets (length path + 1) kvs)\<rparr>"
    and "\<forall>(p, kv) \<in> set (zip (offsets (length path + 1) kvs) kvs). pair_at mem p kv"
    using QueryString_ok [OF assms(1-4)] by blast
  note z = zip_offsets [OF this(2) assms(4)]
  let ?z = "zip (offsets (length path + 1) kvs) kvs"
  have k: "qs_k2v key mem (offsets (length path + 1) kvs) 0 =
      Value (if value_ptrs key ?z = [] then None else Some (hd (value_ptrs key ?z)))"
    using qs_k2v_ok [OF assms(5) z, of 0] by (simp add: hd_conv_nth)
  have t: "map (cstr_at mem) (value_ptrs key ?z) = map (\<lambda>kv. Value (snd kv)) (filter (\<lambda>kv. fst kv = key) kvs)"
    using value_ptrs_texts [OF z, of key] by simp
  have f: "map_of kvs key = (case filter (\<lambda>kv. fst kv = key) kvs of [] \<Rightarrow> None | kv # _ \<Rightarrow> Some (snd kv))"
    by (induction kvs) auto
  show ?thesis
  proof (cases "value_ptrs key ?z")
    case Nil
    with t have "filter (\<lambda>kv. fst kv = key) kvs = []" by simp
    with Nil k f q show ?thesis by (auto simp: qs_get_def)
  next
    case (Cons p ps)
    with t obtain kv r where "filter (\<lambda>kv. fst kv = key) kvs = kv # r" "cstr_at mem p = Value (snd kv)" by auto
    with Cons k f q show ?thesis by (auto simp: qs_get_def)
  qed
qed

text \<open>The query string of a URL whose parameters were URL-encoded returns, for a key, the
  value of the first pair with that key; a key that is not there makes get build a view of the
  null pointer.\<close>
theorem query_get:
  assumes "url_path_ok path" and "kvs \<noteq> []" and "length kvs \<le> 256" and "\<forall>kv \<in> set kvs. clean kv"
    and "\<forall>c \<in> set key. key_char c"
  shows "\<exists>q. QueryString (path @ ''?'' @ url_query kvs) = Value q \<and>
    qs_get key q = (case map_of kvs key of Some v \<Rightarrow> Value v | None \<Rightarrow> Undefined)"
  by (rule query_lookup [OF assms])

theorem query_get_witness:
  "\<exists>q. QueryString (''/find'' @ ''?'' @ url_query [(''n'', ''1''), (''q'', ''a & b'')]) = Value q \<and>
    qs_get ''q'' q = (case map_of [(''n'', ''1''), (''q'', ''a & b'')] ''q'' of Some v \<Rightarrow> Value v | None \<Rightarrow> Undefined)"
  by (rule query_get) (simp_all add: url_path_ok_def clean_def key_char_def QS_ISQSCHR_def)

text \<open>get_all returns the values of all pairs whose key is the name with two brackets, in
  the order of the URL.\<close>
theorem query_get_all:
  assumes "url_path_ok path" and "kvs \<noteq> []" and "length kvs \<le> 256" and "\<forall>kv \<in> set kvs. clean kv"
    and "\<forall>c \<in> set name. key_char c"
  shows "\<exists>q mem ps. QueryString (path @ ''?'' @ url_query kvs) = Value q \<and> url q = Some mem \<and>
    qs_get_all name q = Value ps \<and>
    map (cstr_at mem) ps = map (\<lambda>kv. Value (snd kv)) (filter (\<lambda>kv. fst kv = name @ ''[]'') kvs)"
proof -
  obtain mem where q: "QueryString (path @ ''?'' @ url_query kvs) =
      Value \<lparr>nparams = length kvs, url = Some mem, params = Some (offsets (length path + 1) kvs)\<rparr>"
    and "\<forall>(p, kv) \<in> set (zip (offsets (length path + 1) kvs) kvs). pair_at mem p kv"
    using QueryString_ok [OF assms(1-4)] by blast
  note z = zip_offsets [OF this(2) assms(4)]
  let ?z = "zip (offsets (length path + 1) kvs) kvs" and ?key = "name @ ''[]''"
  have key: "\<forall>c \<in> set ?key. key_char c" using assms(5) by (simp add: key_char_def QS_ISQSCHR_def)
  have "get_all_loop ?key mem (offsets (length path + 1) kvs) 0 = Value (value_ptrs ?key ?z)"
    using get_all_loop_ok [OF key z, of 0] by simp
  moreover have "map (cstr_at mem) (value_ptrs ?key ?z) = map (\<lambda>kv. Value (snd kv)) (filter (\<lambda>kv. fst kv = ?key) kvs)"
    using value_ptrs_texts [OF z, of ?key] by simp
  ultimately show ?thesis using q by (auto simp: qs_get_all_def)
qed

theorem query_get_all_witness:
  "\<exists>q mem ps. QueryString (''/'' @ ''?'' @ url_query [(''id[]'', ''1''), (''x'', ''y''), (''id[]'', ''2'')]) = Value q \<and>
    url q = Some mem \<and> qs_get_all ''id'' q = Value ps \<and>
    map (cstr_at mem) ps = map (\<lambda>kv. Value (snd kv))
      (filter (\<lambda>kv. fst kv = ''id'' @ ''[]'') [(''id[]'', ''1''), (''x'', ''y''), (''id[]'', ''2'')])"
  by (rule query_get_all) (simp_all add: url_path_ok_def clean_def key_char_def QS_ISQSCHR_def)

lemma put_at_no_throw: "put_at mem i c \<noteq> Throw e"
  by (simp add: put_at_def)

lemma decode_pairs_past: "length kv < j + n \<Longrightarrow> (\<And>m p e. decode_pair m p \<noteq> Throw e) \<Longrightarrow> j \<le> length kv \<Longrightarrow>
  decode_pairs mem kv j n = Undefined"
proof (induction n arbitrary: mem j)
  case (Suc n)
  then show ?case by (cases "decode_pair mem (kv ! j)") auto
qed simp

lemma strcspn_no_throw: "strcspn mem p reject \<noteq> Throw e"
proof (induction mem p reject rule: strcspn.induct)
  case (1 mem p reject)
  then show ?case by (subst strcspn.simps) (cases "strcspn mem (p + 1) reject"; auto)
qed

lemma bind_out_Throw_iff: "bind_out m f = Throw e \<longleftrightarrow> m = Throw e \<or> (\<exists>a. m = Value a \<and> f a = Throw e)"
  by (cases m) simp_all

lemma byte_at_no_throw: "byte_at mem i \<noteq> Throw e"
  by (simp add: byte_at_def)

lemma qs_decode_no_throw: "qs_decode mem qs i j \<noteq> Throw e"
proof (induction mem qs i j rule: qs_decode.induct)
  case (1 mem qs i j)
  show ?case
  proof (cases "qs + j < length mem \<and> QS_ISQSCHR (mem ! (qs + j))")
    case True
    then show ?thesis
      using 1 by (subst qs_decode.simps)
        (auto simp: Let_def put_at_no_throw byte_at_no_throw bind_out_Throw_iff split: if_splits)
  qed (subst qs_decode.simps, auto simp: Let_def put_at_no_throw)
qed

lemma decode_pair_no_throw: "decode_pair mem p \<noteq> Throw e"
  by (simp add: decode_pair_def strcspn_no_throw byte_at_no_throw put_at_no_throw qs_decode_no_throw
      bind_out_Throw_iff)

text \<open>A query with more than 256 pairs: the array of pointers is left before its index, and
  the second loop reads behind it.\<close>
theorem query_overflow:
  assumes "url_path_ok path" and "256 < length kvs" and "\<forall>kv \<in> set kvs. clean kv"
  shows "QueryString (path @ ''?'' @ url_query kvs) = Undefined"
proof -
  let ?a = "path @ ''?''"
  have n: "kvs \<noteq> []" using assms(2) by auto
  have "NUL \<notin> set (?a @ url_query kvs)" using assms(1) url_query_clean [OF assms(3)] by (auto simp: url_path_ok_def)
  then have "takeWhile (\<lambda>c. c \<noteq> NUL) (?a @ url_query kvs) = ?a @ url_query kvs" by (auto simp: takeWhile_eq_all_conv)
  then have m: "takeWhile (\<lambda>c. c \<noteq> NUL) (path @ ''?'' @ url_query kvs) @ [NUL] = ?a @ query_text kvs"
    using query_text_eq [OF n] by simp
  have c: "strcspn (?a @ query_text kvs) 0 ''?#'' = Value (length path)"
    using strcspn_ok [of path "''?#''" "CHR ''?''" "[]" "query_text kvs"] assms(1) by (auto simp: url_path_ok_def)
  have q: "byte_at (?a @ query_text kvs) (length path) = Value (CHR ''?'')" by (simp add: byte_at_def nth_append)
  have p: "split_pairs (?a @ query_text kvs) (length ?a) 0 256 = Value (take 256 (offsets (length ?a) kvs), 256)"
    using split_pairs_ok [OF assms(3) n, of 0 256 ?a] assms(2) by simp
  have "decode_pairs (?a @ query_text kvs) (take 256 (offsets (length ?a) kvs)) 0 257 = Undefined"
    by (rule decode_pairs_past) (simp_all add: decode_pair_no_throw)
  then have "qs_parse (?a @ query_text kvs) 256 = Undefined" using c q p by (simp add: qs_parse_def del: decode_pairs.simps)
  then show ?thesis unfolding QueryString_def m Let_def by (simp add: MAX_KEY_VALUE_PAIRS_COUNT_def)
qed

theorem query_overflow_witness:
  "QueryString (''/'' @ ''?'' @ url_query (replicate 300 (''a'', ''b''))) = Undefined"
  by (rule query_overflow) (simp_all add: url_path_ok_def clean_def)

end
