(* ===== verification/HttpMsg.thy ===== *)
theory HttpMsg
  imports HttpSafe QueryString
begin

text \<open>
  The class \<open>suil::http::parser\<close> of \<^verbatim>\<open>suil/http/parser.h\<close> and the end of
  \<^verbatim>\<open>suil/http/parser.cpp\<close>: an \<open>http_parser\<close> whose callbacks collect the URL, the headers
  and the body of a message.

  The members of the class are the user data of the structure.  The four output buffers are
  represented by their contents; \<open>obuffer_appends\<close> of \<^verbatim>\<open>Buffer\<close> shows that appending
  concatenates up to 2^30 bytes.  \<open>headers\<close> is the sequence of the \<open>emplace\<close> calls since it was
  cleared; which of two equal keys the hash map keeps is up to the map.  \<open>broken\<close> records that an
  operation left the memory it may read.  The virtual functions are those of the class itself.
\<close>

section \<open>The members\<close>

record message =
  msg_url :: "string option"
  msg_headers :: "(string \<times> string) list"
  msg_qps :: querystring
  msg_body :: string
  headers_complete :: bool
  body_complete :: bool
  msg_state :: nat
  hf :: string
  hv :: string
  raw_url :: string
  broken :: bool

definition STATE_FIELD :: nat where "STATE_FIELD = 0"
definition STATE_VALUE :: nat where "STATE_VALUE = 1"

text \<open>\<open>clear(internal)\<close>\<close>

definition clear_msg :: "message \<Rightarrow> message" where
  "clear_msg m = m\<lparr>msg_url := None, raw_url := [], msg_state := 0, headers_complete := False,
     body_complete := False, msg_body := [], hv := [], hf := [], msg_headers := [], msg_qps := qs_clear (msg_qps m)\<rparr>"

text \<open>\<open>String hf(p->hf), hv(p->hv); headers.emplace(move(hf), move(hv))\<close>: the strings take the
  memory of the two buffers.\<close>

definition emplace_header :: "message \<Rightarrow> message" where
  "emplace_header m = m\<lparr>msg_headers := msg_headers m @ [(hf m, hv m)], hf := [], hv := []\<rparr>"

definition header_field_msg :: "string \<Rightarrow> message \<Rightarrow> message" where
  "header_field_msg s m =
     (if msg_state m = STATE_FIELD then
        (let m1 = (if hv m \<noteq> [] then emplace_header m else m)
         in m1\<lparr>hf := hf m1 @ s, msg_state := STATE_VALUE\<rparr>)
      else if msg_state m = STATE_VALUE then m\<lparr>hf := hf m @ s\<rparr>
      else m)"

definition header_value_msg :: "string \<Rightarrow> message \<Rightarrow> message" where
  "header_value_msg s m =
     (if msg_state m = STATE_FIELD then m\<lparr>hv := hv m @ s\<rparr>
      else if msg_state m = STATE_VALUE then m\<lparr>msg_state := 0, hv := hv m @ s\<rparr>
      else m)"

definition headers_complete_msg :: "message \<Rightarrow> message" where
  "headers_complete_msg m =
     (let m1 = (if hf m \<noteq> [] then emplace_header m else m) in m1\<lparr>headers_complete := True\<rparr>)"

text \<open>\<open>on_msg_complete\<close>: when there is no question mark, \<open>pos\<close> is \<open>npos\<close>, which is not the size
  of the URL, and the view \<open>tmp\<close> starts one byte before the URL.\<close>

definition complete_msg :: "message \<Rightarrow> message" where
  "complete_msg m =
     (let path = takeWhile (\<lambda>c. c \<noteq> CHR ''?'') (raw_url m);
          m1 = (if path = [] then m
                else let m1 = m\<lparr>msg_url := Some (takeWhile (\<lambda>c. c \<noteq> NUL) path)\<rparr> in
                  if CHR ''?'' \<in> set (raw_url m) then
                    (case QueryString (drop (length path) (raw_url m)) of
                       Value q \<Rightarrow> m1\<lparr>msg_qps := fst (qs_move (msg_qps m1) q)\<rparr>
                     | _ \<Rightarrow> m1\<lparr>broken := True\<rparr>)
                  else m1\<lparr>broken := True\<rparr>)
      in m1\<lparr>body_complete := True\<rparr>)"

section \<open>The callbacks\<close>

definition on_user :: "(message \<Rightarrow> message) \<Rightarrow> message http_parser \<Rightarrow> int \<times> message http_parser" where
  "on_user f p = (0, p\<lparr>user := f (user p)\<rparr>)"

text \<open>\<open>msg_complete\<close> stores the size of the body in \<open>content_length\<close>.\<close>

definition msg_complete :: "message http_parser \<Rightarrow> int \<times> message http_parser" where
  "msg_complete p = (0, p\<lparr>user := complete_msg (user p), content_length := u32 (length (msg_body (user p)))\<rparr>)"

definition PARSER_SETTINGS :: "message http_parser_settings" where
  "PARSER_SETTINGS =
     \<lparr>on_message_begin = Some (on_user clear_msg),
      on_url = Some (\<lambda>s. on_user (\<lambda>m. m\<lparr>raw_url := raw_url m @ s\<rparr>)),
      on_status = None,
      on_header_field = Some (\<lambda>s. on_user (header_field_msg s)),
      on_header_value = Some (\<lambda>s. on_user (header_value_msg s)),
      on_headers_complete = Some (on_user headers_complete_msg),
      on_body = Some (\<lambda>s. on_user (\<lambda>m. m\<lparr>msg_body := msg_body m @ s\<rparr>)),
      on_message_complete = Some msg_complete\<rparr>"

definition new_msg :: message where
  "new_msg = \<lparr>msg_url = None, msg_headers = [], msg_qps = qs_empty, msg_body = [], headers_complete = False,
     body_complete = False, msg_state = 0, hf = [], hv = [], raw_url = [], broken = False\<rparr>"

definition new_parser :: "http_parser_type \<Rightarrow> message http_parser" where
  "new_parser t = http_parser_init t new_msg"

text \<open>\<open>feed\<close>: \<open>None\<close> is a failed assertion or no return.\<close>

definition feed :: "string \<Rightarrow> message http_parser \<Rightarrow> (bool \<times> message http_parser) option" where
  "feed data p =
     (case http_parser_execute PARSER_SETTINGS data p of
        Some (Done p' nparsed) \<Rightarrow> Some (nparsed = length data, p')
      | _ \<Rightarrow> None)"

definition feed_done :: "message http_parser \<Rightarrow> (bool \<times> message http_parser) option" where
  "feed_done = feed []"

section \<open>The callbacks are lawful\<close>

interpretation msg: http_callbacks PARSER_SETTINGS
proof
  have keeps_user: "keeps p (p\<lparr>user := d\<rparr>)" if "errno p = HPE_OK" for p :: "message http_parser" and d
    using that unfolding keeps_def by (intro exI [of _ d] exI [of _ HPE_OK]) simp
  show "data_lawful (data_callback PARSER_SETTINGS kind)" for kind
    by (cases kind) (auto simp: data_lawful_def PARSER_SETTINGS_def on_user_def keeps_user)
  show "cb_lawful keeps (on_message_begin PARSER_SETTINGS)" "cb_lawful keeps (on_headers_complete PARSER_SETTINGS)"
    by (auto simp: cb_lawful_def PARSER_SETTINGS_def on_user_def keeps_user)
  have u: "u32 n < 18446744073709551616" for n
  proof -
    have "u32 n < 4294967296" by (simp add: u32_def)
    then show ?thesis by linarith
  qed
  have "keeps_but_length p (snd (msg_complete p))" if "errno p = HPE_OK" for p
    using that u unfolding keeps_but_length_def msg_complete_def
    by (intro exI [of _ "complete_msg (user p)"] exI [of _ HPE_OK] exI [of _ "u32 (length (msg_body (user p)))"]) simp
  then show "cb_lawful keeps_but_length (on_message_complete PARSER_SETTINGS)"
    by (simp add: cb_lawful_def PARSER_SETTINGS_def)
qed

section \<open>Collecting headers\<close>

datatype header_event = Field string | Val string

fun run_event :: "header_event \<Rightarrow> message \<Rightarrow> message" where
  "run_event (Field s) = header_field_msg s"
| "run_event (Val s) = header_value_msg s"

text \<open>The calls for a header whose name and value arrive in pieces.\<close>

definition header_events :: "string list \<times> string list \<Rightarrow> header_event list" where
  "header_events h = map Field (fst h) @ map Val (snd h)"

definition joined :: "string list \<times> string list \<Rightarrow> string \<times> string" where
  "joined h = (concat (fst h), concat (snd h))"

lemma fold_fields:
  "msg_state m = STATE_VALUE \<Longrightarrow> fold run_event (map Field ns) m = m\<lparr>hf := hf m @ concat ns\<rparr>"
  by (induction ns arbitrary: m) (simp_all add: header_field_msg_def STATE_VALUE_def STATE_FIELD_def)

lemma fold_values:
  "msg_state m = STATE_FIELD \<Longrightarrow> fold run_event (map Val vs) m = m\<lparr>hv := hv m @ concat vs\<rparr>"
  by (induction vs arbitrary: m) (simp_all add: header_value_msg_def STATE_VALUE_def STATE_FIELD_def)

text \<open>The members the header callbacks change, and the headers counting a pending one.\<close>

definition with_headers :: "(string \<times> string) list \<Rightarrow> string \<Rightarrow> string \<Rightarrow> message \<Rightarrow> message" where
  "with_headers l n v m = m\<lparr>msg_headers := l, hf := n, hv := v, msg_state := STATE_FIELD\<rparr>"

definition pending :: "(string \<times> string) list \<Rightarrow> string \<Rightarrow> string \<Rightarrow> (string \<times> string) list" where
  "pending l n v = (if v \<noteq> [] then l @ [(n, v)] else l)"

lemma fold_header:
  assumes "fst h \<noteq> []" and "snd h \<noteq> []"
  shows "fold run_event (header_events h) (with_headers l n v m) =
    with_headers (pending l n v) ((if v \<noteq> [] then [] else n) @ concat (fst h)) (concat (snd h)) m"
proof -
  obtain a ns b vs where h: "fst h = a # ns" "snd h = b # vs" using assms by (meson neq_Nil_conv)
  let ?n = "if v \<noteq> [] then [] else n"
  let ?m1 = "(with_headers (pending l n v) (?n @ a) [] m)\<lparr>msg_state := STATE_VALUE\<rparr>"
  let ?m2 = "(with_headers (pending l n v) (?n @ a @ concat ns) [] m)\<lparr>msg_state := STATE_VALUE\<rparr>"
  have "header_field_msg a (with_headers l n v m) = ?m1"
    by (simp add: header_field_msg_def with_headers_def pending_def emplace_header_def Let_def)
  moreover have "fold run_event (map Field ns) ?m1 = ?m2"
    by (subst fold_fields) (simp_all add: with_headers_def)
  moreover have "header_value_msg b ?m2 = with_headers (pending l n v) (?n @ a @ concat ns) b m"
    by (simp add: header_value_msg_def with_headers_def STATE_VALUE_def STATE_FIELD_def)
  moreover have "fold run_event (map Val vs) (with_headers (pending l n v) (?n @ a @ concat ns) b m) =
      with_headers (pending l n v) (?n @ a @ concat ns) (b @ concat vs) m"
    by (subst fold_values) (simp_all add: with_headers_def)
  ultimately show ?thesis by (simp add: header_events_def h)
qed

text \<open>Headers whose values have a byte are emplaced one after the other; the last one is pending.\<close>

lemma fold_headers:
  assumes "v = [] \<longleftrightarrow> n = []" and "\<forall>h \<in> set hs. concat (fst h) \<noteq> [] \<and> concat (snd h) \<noteq> []"
  shows "\<exists>l' n' v'. fold run_event (concat (map header_events hs)) (with_headers l n v m) = with_headers l' n' v' m \<and>
    (v' = [] \<longleftrightarrow> n' = []) \<and> pending l' n' v' = pending l n v @ map joined hs"
  using assms
proof (induction hs arbitrary: l n v)
  case (Cons h hs)
  have h: "fst h \<noteq> []" "snd h \<noteq> []" "concat (snd h) \<noteq> []" "concat (fst h) \<noteq> []" using Cons.prems(2) by auto
  have "fold run_event (header_events h) (with_headers l n v m) =
      with_headers (pending l n v) (concat (fst h)) (concat (snd h)) m"
    using fold_header [OF h(1,2)] Cons.prems(1) by simp
  moreover have "\<exists>l' n' v'. fold run_event (concat (map header_events hs))
      (with_headers (pending l n v) (concat (fst h)) (concat (snd h)) m) = with_headers l' n' v' m \<and>
    (v' = [] \<longleftrightarrow> n' = []) \<and> pending l' n' v' = pending (pending l n v) (concat (fst h)) (concat (snd h)) @ map joined hs"
    by (rule Cons.IH) (use h Cons.prems in auto)
  moreover have "pending (pending l n v) (concat (fst h)) (concat (snd h)) = pending l n v @ [joined h]"
    using h(3) by (simp add: pending_def joined_def del: concat_eq_Nil_conv)
  ultimately show ?case by fastforce
next
  case Nil
  then show ?case by (intro exI [of _ l] exI [of _ n] exI [of _ v]) simp
qed

lemma headers_complete_pending:
  assumes "v = [] \<longleftrightarrow> n = []"
  shows "headers_complete_msg (with_headers l n v m) = (with_headers (pending l n v) [] [] m)\<lparr>headers_complete := True\<rparr>"
  using assms by (auto simp: headers_complete_msg_def with_headers_def pending_def emplace_header_def)

end
