(* ===== verification/HttpNames.thy ===== *)
theory HttpNames
  imports HttpSafe "HOL-Library.Sublist"
begin

text \<open>
  The matcher of header names in \<open>http_parser_execute\<close> (states \<open>s_header_field_start\<close> and
  \<open>s_header_field\<close>): which \<open>header_state\<close> a name leads to, as an invariant over the bytes read
  so far.
\<close>

section \<open>Header names\<close>

text \<open>What the matcher of names has found after the lower-case bytes \<open>w\<close>: the names it knows,
  and the comparison in progress.  \<open>index\<close> is the position of the last byte.\<close>

definition known_names :: "string list" where
  "known_names = [''connection'', ''content-length'', ''transfer-encoding'', ''upgrade'']"

definition part_of :: "nat \<Rightarrow> string \<Rightarrow> nat \<Rightarrow> string \<Rightarrow> bool" where
  "part_of k pat i w \<longleftrightarrow> k \<le> length w \<and> length w < length pat \<and> w = take (length w) pat \<and> i = length w - 1"

fun name_inv :: "header_state \<Rightarrow> nat \<Rightarrow> string \<Rightarrow> bool" where
  "name_inv h_general i w = (\<forall>n \<in> set known_names. \<not> prefix w n)"
| "name_inv h_C i w = (w = ''c'' \<and> i = 0)"
| "name_inv h_CO i w = (w = ''co'' \<and> i = 1)"
| "name_inv h_CON i w = (w = ''con'' \<and> i = 2)"
| "name_inv h_matching_connection i w = part_of 4 ''connection'' i w"
| "name_inv h_matching_proxy_connection i w = part_of 1 ''proxy-Connection'' i w"
| "name_inv h_matching_content_length i w = part_of 4 ''content-length'' i w"
| "name_inv h_matching_transfer_encoding i w = part_of 1 ''transfer-encoding'' i w"
| "name_inv h_matching_upgrade i w = part_of 1 ''upgrade'' i w"
| "name_inv h_connection i w = (w = ''connection'')"
| "name_inv h_content_length i w = (w = ''content-length'')"
| "name_inv h_transfer_encoding i w = (w = ''transfer-encoding'')"
| "name_inv h_upgrade i w = (w = ''upgrade'')"
| "name_inv _ i w = False"

lemma prefix_known: "name_inv h_general i w \<Longrightarrow> name_inv h_general i' (w @ [t])"
  by (auto simp: dest: append_prefixD)

text \<open>No name continues a known one.\<close>

lemma longer_unknown: "w \<in> set known_names \<Longrightarrow> name_inv h_general i (w @ [t])"
  by (auto simp: known_names_def)

lemma snoc_eq_pattern:
  assumes "w = take (length w) pat" and "length w < length pat"
  shows "w @ [t] = pat \<longleftrightarrow> t = pat ! length w \<and> length w + 1 = length pat"
proof
  assume "w @ [t] = pat"
  then show "t = pat ! length w \<and> length w + 1 = length pat" by auto
next
  assume t: "t = pat ! length w \<and> length w + 1 = length pat"
  then have "pat = take (Suc (length w)) pat" by simp
  with t assms show "w @ [t] = pat" by (metis take_Suc_conv_app_nth)
qed

lemma match_step_part:
  assumes p: "part_of k pat i w" and "index (parser c) = i" and "length pat < 200" and "0 < k"
  shows "match_step pat hit t c =
    (let c1 = upd (\<lambda>p. p\<lparr>index := i + 1\<rparr>) c in
     if t \<noteq> pat ! length w then Next (set_header_state h_general c1)
     else if w @ [t] = pat then Next (set_header_state hit c1) else Next c1)"
proof -
  have i: "i + 1 = length w" "length w < length pat" using assms by (auto simp: part_of_def)
  have "w = take (length w) pat" using p by (simp add: part_of_def)
  from snoc_eq_pattern [OF this i(2), of t] have e: "w @ [t] = pat \<longleftrightarrow> t = pat ! length w \<and> i + 2 = length pat"
    using i(1) by simp
  have "Suc i mod 256 = Suc i" using i assms(3) by simp
  with i e show ?thesis
    by (cases "t = pat ! length w"; cases "Suc (length w) = length pat")
      (auto simp: match_step_def Let_def upd_def c_string_at_def assms(2))
qed

text \<open>Where the comparison with a pattern leads.\<close>

lemma part_of_next:
  assumes p: "part_of k pat i w" and t: "t = pat ! length w" and n: "w @ [t] \<noteq> pat" and k: "0 < k"
  shows "part_of k pat (i + 1) (w @ [t])"
proof -
  have w: "w = take (length w) pat" "length w < length pat" "k \<le> length w" "i = length w - 1"
    using p by (auto simp: part_of_def)
  have "take (Suc (length w)) pat = w @ [t]" by (metis take_Suc_conv_app_nth t w(1,2))
  moreover have "length w + 1 \<noteq> length pat" using snoc_eq_pattern [OF w(1,2), of t] n t by simp
  ultimately show ?thesis using w(2-4) k by (simp add: part_of_def)
qed

lemma part_of_known:
  assumes p: "part_of k pat i w" and "n \<in> set known_names" and "prefix w n"
    and k: "\<forall>n \<in> set known_names. take k n = take k pat \<longrightarrow> n = pat" and t: "t \<noteq> pat ! length w"
  shows "\<not> prefix (w @ [t]) n"
proof
  assume x: "prefix (w @ [t]) n"
  have w: "w = take (length w) pat" "length w < length pat" "k \<le> length w" using p by (auto simp: part_of_def)
  have "take k n = take k w" using assms(3) w(3) by (auto simp: prefix_def)
  also have "\<dots> = take k pat" by (subst w(1)) (simp add: min_absorb1 w(3))
  finally have "n = pat" using k assms(2) by blast
  then show False using x t by (auto simp: prefix_def)
qed

lemma part_of_miss:
  assumes "part_of k pat i w" and "\<forall>n \<in> set known_names. take k n = take k pat \<longrightarrow> n = pat" and "t \<noteq> pat ! length w"
  shows "name_inv h_general j (w @ [t])"
proof -
  have "\<not> prefix (w @ [t]) n" if "n \<in> set known_names" for n
    using part_of_known [OF assms(1) that _ assms(2,3)] by (auto dest: append_prefixD)
  then show ?thesis by simp
qed

text \<open>A byte of a name that matches a pattern further or leaves it.\<close>

lemma match_step_inv:
  assumes "part_of k pat i w" and "index (parser c) = i" and "length pat < 200" and "0 < k"
    and "\<forall>n \<in> set known_names. take k n = take k pat \<longrightarrow> n = pat"
    and hit: "w @ [t] = pat \<Longrightarrow> name_inv hit (i + 1) pat" and hs: "\<And>w'. part_of k pat (i + 1) w' \<Longrightarrow> name_inv (header_state (parser c)) (i + 1) w'"
  shows "\<exists>h i'. match_step pat hit t c = Next (c\<lparr>parser := (parser c)\<lparr>header_state := h, index := i'\<rparr>\<rparr>) \<and>
    name_inv h i' (w @ [t])"
proof -
  note m = match_step_part [OF assms(1-4), of hit t, unfolded Let_def upd_def]
  consider "t \<noteq> pat ! length w" | "w @ [t] = pat" "t = pat ! length w" | "w @ [t] \<noteq> pat" "t = pat ! length w" by blast
  then show ?thesis
  proof cases
    case 1
    with part_of_miss [OF assms(1,5)] m show ?thesis
      by (intro exI [of _ h_general] exI [of _ "i + 1"]) simp
  next
    case 2
    with hit m show ?thesis by (intro exI [of _ hit] exI [of _ "i + 1"]) simp
  next
    case 3
    with hs [OF part_of_next [OF assms(1) 3(2,1) assms(4)]] m show ?thesis
      by (intro exI [of _ "header_state (parser c)"] exI [of _ "i + 1"]) simp
  qed
qed

lemma header_same: "c = c\<lparr>parser := (parser c)\<lparr>header_state := header_state (parser c), index := index (parser c)\<rparr>\<rparr>"
  by simp

lemma unknown_start:
  assumes "w = ''c'' \<and> t \<noteq> CHR ''o'' \<or> w = ''co'' \<and> t \<noteq> CHR ''n'' \<or> w = ''con'' \<and> t \<noteq> CHR ''n'' \<and> t \<noteq> CHR ''t''"
  shows "name_inv h_general i (w @ [t])"
  using assms by (auto simp: known_names_def)

lemma name_step_early:
  assumes "name_inv (header_state (parser c)) (index (parser c)) w"
    and "header_state (parser c) \<in> {h_general, h_C, h_CO, h_CON}"
  shows "\<exists>h i. header_field_token ch t c = Next (c\<lparr>parser := (parser c)\<lparr>header_state := h, index := i\<rparr>\<rparr>) \<and>
    name_inv h i (w @ [t])"
proof -
  consider (g) "header_state (parser c) = h_general" | (c) "header_state (parser c) = h_C"
    | (co) "header_state (parser c) = h_CO" | (con) "header_state (parser c) = h_CON"
    using assms(2) by blast
  then show ?thesis
  proof cases
    case g
    with assms(1) prefix_known [of 0 w 0 t] show ?thesis
      by (intro exI [of _ h_general] exI [of _ "index (parser c)"]) (simp add: header_field_token_def Let_def)
  next
    case c
    with assms(1) unknown_start [of w t 1] show ?thesis
      by (intro exI [of _ "if t = CHR ''o'' then h_CO else h_general"] exI [of _ 1])
        (simp add: header_field_token_def Let_def upd_def)
  next
    case co
    with assms(1) unknown_start [of w t 2] show ?thesis
      by (intro exI [of _ "if t = CHR ''n'' then h_CON else h_general"] exI [of _ 2])
        (simp add: header_field_token_def Let_def upd_def)
  next
    case con
    with assms(1) unknown_start [of w t 3] show ?thesis
      by (intro exI [of _ "if t = CHR ''n'' then h_matching_connection
          else if t = CHR ''t'' then h_matching_content_length else h_general"] exI [of _ 3])
        (simp add: header_field_token_def Let_def upd_def part_of_def)
  qed
qed

lemma name_step_done:
  assumes "name_inv (header_state (parser c)) (index (parser c)) w" and "ch \<noteq> SP"
    and "header_state (parser c) \<in> {h_connection, h_content_length, h_transfer_encoding, h_upgrade}"
  shows "\<exists>h i. header_field_token ch t c = Next (c\<lparr>parser := (parser c)\<lparr>header_state := h, index := i\<rparr>\<rparr>) \<and>
    name_inv h i (w @ [t])"
proof -
  have "w \<in> set known_names" using assms(1,3) by (auto simp: known_names_def)
  from longer_unknown [OF this, of "index (parser c)" t] assms(2,3) show ?thesis
    by (intro exI [of _ h_general] exI [of _ "index (parser c)"]) (auto simp: header_field_token_def Let_def upd_def)
qed

lemma name_step_matching:
  assumes "name_inv (header_state (parser c)) (index (parser c)) w" and "CHR ''C'' \<notin> set (w @ [t])"
    and "header_state (parser c) \<in> {h_matching_connection, h_matching_proxy_connection, h_matching_content_length,
      h_matching_transfer_encoding, h_matching_upgrade}"
  shows "\<exists>h i. header_field_token ch t c = Next (c\<lparr>parser := (parser c)\<lparr>header_state := h, index := i\<rparr>\<rparr>) \<and>
    name_inv h i (w @ [t])"
proof -
  have n: "index (parser c) = index (parser c)" by simp
  consider (con) "header_state (parser c) = h_matching_connection"
    | (px) "header_state (parser c) = h_matching_proxy_connection" | (cl) "header_state (parser c) = h_matching_content_length"
    | (te) "header_state (parser c) = h_matching_transfer_encoding" | (up) "header_state (parser c) = h_matching_upgrade"
    using assms(3) by blast
  then show ?thesis
  proof cases
    case con
    have p: "part_of 4 ''connection'' (index (parser c)) w" using assms(1) con by simp
    then have "0 < index (parser c) + 1 \<and> (index (parser c) + 1) mod 256 = index (parser c) + 1" by (auto simp: part_of_def)
    then have "header_field_token ch t c = match_step ''connection'' h_connection t c"
      by (simp add: header_field_token_def con Let_def match_step_def upd_def c_string_at_def nth_Cons')
    then show ?thesis using match_step_inv [OF p n, where hit = h_connection and t = t] con by (simp add: known_names_def)
  next
    case px
    have p: "part_of 1 ''proxy-Connection'' (index (parser c)) w" using assms(1) px by simp
    have w: "w @ [t] \<noteq> ''proxy-Connection''" using assms(2) by auto
    have "\<exists>h i. match_step S_PROXY_CONNECTION h_connection t c =
        Next (c\<lparr>parser := (parser c)\<lparr>header_state := h, index := i\<rparr>\<rparr>) \<and> name_inv h i (w @ [t])"
      by (rule match_step_inv [OF p n]) (use w px in \<open>simp_all only: name_inv.simps, simp_all add: known_names_def\<close>)
    with px show ?thesis by (simp add: header_field_token_def Let_def)
  next
    case cl
    have p: "part_of 4 ''content-length'' (index (parser c)) w" using assms(1) cl by simp
    then show ?thesis using match_step_inv [OF p n, where hit = h_content_length and t = t] cl
      by (simp add: known_names_def header_field_token_def Let_def)
  next
    case te
    have p: "part_of 1 ''transfer-encoding'' (index (parser c)) w" using assms(1) te by simp
    then show ?thesis using match_step_inv [OF p n, where hit = h_transfer_encoding and t = t] te
      by (simp add: known_names_def header_field_token_def Let_def)
  next
    case up
    have p: "part_of 1 ''upgrade'' (index (parser c)) w" using assms(1) up by simp
    then show ?thesis using match_step_inv [OF p n, where hit = h_upgrade and t = t] up
      by (simp add: known_names_def header_field_token_def Let_def)
  qed
qed

lemma name_step:
  assumes "name_inv (header_state (parser c)) (index (parser c)) w" and "CHR ''C'' \<notin> set (w @ [t])" and "ch \<noteq> SP"
  shows "\<exists>h i. header_field_token ch t c = Next (c\<lparr>parser := (parser c)\<lparr>header_state := h, index := i\<rparr>\<rparr>) \<and>
    name_inv h i (w @ [t])"
  using name_step_early [OF assms(1)] name_step_matching [OF assms(1,2)] name_step_done [OF assms(1,3)] assms(1)
  by (cases "header_state (parser c)") simp_all

lemma TOKEN_upper: "TOKEN c \<noteq> CHR ''C''"
proof -
  have "length tokens = 256 \<and> CHR ''C'' \<notin> set tokens" by code_simp
  then show ?thesis unfolding TOKEN_def by (metis nth_mem ucode_less)
qed

lemma TOKEN_punct: "TOKEN SP = NUL" "TOKEN CR = NUL" "TOKEN LF = NUL" "TOKEN HT = NUL" "TOKEN CHR '':'' = NUL"
  by code_simp+

lemma token_not: "TOKEN c \<noteq> NUL \<Longrightarrow> c \<noteq> SP \<and> c \<noteq> CR \<and> c \<noteq> LF \<and> c \<noteq> HT \<and> c \<noteq> CHR '':''"
  using TOKEN_punct by metis

section \<open>Whole names\<close>

definition name_ok :: "string \<Rightarrow> bool" where
  "name_ok n \<longleftrightarrow> n \<noteq> [] \<and> (\<forall>c \<in> set n. TOKEN c \<noteq> NUL)"

lemma name_inv_known:
  assumes "name_inv h i w"
  shows "h = h_connection \<longleftrightarrow> w = ''connection''" and "h = h_content_length \<longleftrightarrow> w = ''content-length''"
    and "h = h_transfer_encoding \<longleftrightarrow> w = ''transfer-encoding''" and "h = h_upgrade \<longleftrightarrow> w = ''upgrade''"
  using assms by (cases h; auto simp: known_names_def part_of_def)+

text \<open>The states between the first byte of a name and the byte behind it.\<close>

fun read_name :: "'a env \<Rightarrow> string \<Rightarrow> 'a ctx \<Rightarrow> 'a ctx option" where
  "read_name E [] c = Some c"
| "read_name E (ch # s) c =
     (case exec_state E ch c of Next c' \<Rightarrow> read_name E s (c'\<lparr>pos := pos c' + 1\<rparr>) | _ \<Rightarrow> None)"

lemma read_name_rest:
  assumes "\<forall>c \<in> set s. TOKEN c \<noteq> NUL" and "state (parser c) = s_header_field"
    and "name_inv (header_state (parser c)) (index (parser c)) w" and "CHR ''C'' \<notin> set w"
  shows "\<exists>c'. read_name E s c = Some c' \<and> state (parser c') = s_header_field \<and>
    name_inv (header_state (parser c')) (index (parser c')) (w @ map TOKEN s)"
  using assms
proof (induction s arbitrary: c w)
  case (Cons ch s)
  have t: "TOKEN ch \<noteq> NUL" "CHR ''C'' \<notin> set (w @ [TOKEN ch])"
    using Cons.prems(1,4) TOKEN_upper [of ch] by auto
  obtain h i where s: "header_field_token ch (TOKEN ch) c =
      Next (c\<lparr>parser := (parser c)\<lparr>header_state := h, index := i\<rparr>\<rparr>)" "name_inv h i (w @ [TOKEN ch])"
    using name_step [OF Cons.prems(3) t(2)] token_not [OF t(1)] by blast
  then have "exec_state E ch c = Next (c\<lparr>parser := (parser c)\<lparr>header_state := h, index := i\<rparr>\<rparr>)"
    using Cons.prems(2) t(1) by (simp add: exec_state_def do_s_header_field_def Let_def)
  moreover have "\<exists>c'. read_name E s (c\<lparr>parser := (parser c)\<lparr>header_state := h, index := i\<rparr>, pos := pos c + 1\<rparr>) = Some c' \<and>
      state (parser c') = s_header_field \<and> name_inv (header_state (parser c')) (index (parser c')) ((w @ [TOKEN ch]) @ map TOKEN s)"
    using Cons.prems(1,2) s(2) t(2) by (intro Cons.IH) simp_all
  ultimately show ?case by simp
qed auto

text \<open>After the bytes of a header name, from the start of a header line, the parser has
  recognised connection, content-length, transfer-encoding and upgrade, in any case, and
  nothing else; a proxy-connection header is never recognised.\<close>
theorem http_header_names:
  assumes "name_ok n" and "state (parser c) = s_header_field_start"
  shows "\<exists>c'. read_name E n c = Some c' \<and> state (parser c') = s_header_field \<and>
    (header_state (parser c') = h_connection \<longleftrightarrow> map TOKEN n = ''connection'') \<and>
    (header_state (parser c') = h_content_length \<longleftrightarrow> map TOKEN n = ''content-length'') \<and>
    (header_state (parser c') = h_transfer_encoding \<longleftrightarrow> map TOKEN n = ''transfer-encoding'') \<and>
    (header_state (parser c') = h_upgrade \<longleftrightarrow> map TOKEN n = ''upgrade'')"
proof -
  obtain ch s where n: "n = ch # s" "TOKEN ch \<noteq> NUL" "\<forall>c \<in> set s. TOKEN c \<noteq> NUL"
    using assms(1) by (cases n) (auto simp: name_ok_def)
  let ?h = "if TOKEN ch = CHR ''c'' then h_C else if TOKEN ch = CHR ''p'' then h_matching_proxy_connection
    else if TOKEN ch = CHR ''t'' then h_matching_transfer_encoding
    else if TOKEN ch = CHR ''u'' then h_matching_upgrade else h_general"
  let ?c = "upd (\<lambda>p. p\<lparr>header_state := ?h\<rparr>) (upd (\<lambda>p. p\<lparr>index := 0, state := s_header_field\<rparr>) (MARK M_header_field c))"
  have "exec_state E ch c = Next ?c"
    using assms(2) n(2) token_not [OF n(2)] by (simp add: exec_state_def do_s_header_field_start_def Let_def)
  moreover have "name_inv (header_state (parser ?c)) (index (parser ?c)) [TOKEN ch]" "state (parser ?c) = s_header_field"
    by (simp_all add: upd_def part_of_def known_names_def)
  ultimately show ?thesis
    using read_name_rest [OF n(3), of "?c\<lparr>pos := pos ?c + 1\<rparr>" "[TOKEN ch]" E] n(1) TOKEN_upper [of ch] name_inv_known
    by (fastforce simp del: name_inv.simps)
qed

theorem http_header_names_witness:
  "\<exists>c'. read_name \<lparr>settings = no_callbacks, buf = []\<rparr> ''Content-Length''
      \<lparr>parser = (http_parser_init HTTP_REQUEST ())\<lparr>state := s_header_field_start\<rparr>, mark = (\<lambda>_. None), pos = 0\<rparr> = Some c' \<and>
    header_state (parser c') = h_content_length"
proof -
  have "name_ok ''Content-Length''" by code_simp
  moreover have "map TOKEN ''Content-Length'' = ''content-length''" by code_simp
  ultimately show ?thesis
    using http_header_names [of "''Content-Length''"
      "\<lparr>parser = (http_parser_init HTTP_REQUEST ())\<lparr>state := s_header_field_start\<rparr>, mark = (\<lambda>_. None), pos = 0\<rparr>"
      "\<lparr>settings = no_callbacks, buf = []\<rparr>"]
    by fastforce
qed

end
