(* ===== verification/HttpRequest.thy ===== *)
theory HttpRequest
  imports HttpMsg HttpNames
begin

text \<open>
  Whole requests through \<open>suil::http::parser::feed\<close>: what a client that writes a request line,
  headers and a body by the book makes the parser collect.  \<open>loop\<close> is the byte loop of
  \<open>http_parser_execute\<close> seen as a function of the bytes that are left.
\<close>

section \<open>The byte loop on the bytes that are left\<close>

definition loop :: "message http_parser \<Rightarrow> (mark_kind \<Rightarrow> nat option) \<Rightarrow> string \<Rightarrow> string \<Rightarrow> message step option" where
  "loop p mk a r = exec_loop \<lparr>settings = PARSER_SETTINGS, buf = a @ r\<rparr> \<lparr>parser = p, mark = mk, pos = length a\<rparr>"

lemma loop_end: "loop p mk a [] = Some (Next \<lparr>parser = p, mark = mk, pos = length a\<rparr>)"
  by (simp add: loop_def exec_loop_end)

text \<open>One byte: the case of a state that ends with \<open>break\<close>.\<close>

lemma exec_byte_next: "exec_state E ch c = Next c' \<Longrightarrow> exec_byte E ch c = Some (Next c')"
  by (simp add: exec_byte_run)

lemma exec_byte_reexec: "exec_state E ch c = Reexec c' \<Longrightarrow> exec_byte E ch c = exec_byte E ch c'"
  by (simp add: exec_byte_run [of E ch c])

lemma loop_byte:
  assumes "PARSING_HEADER (state p)" and "nread p < 81920"
    and "exec_byte \<lparr>settings = PARSER_SETTINGS, buf = a @ ch # r\<rparr> ch
           \<lparr>parser = p\<lparr>nread := nread p + 1\<rparr>, mark = mk, pos = length a\<rparr> =
         Some (Next \<lparr>parser = p', mark = mk', pos = length a\<rparr>)"
  shows "loop p mk a (ch # r) = loop p' mk' (a @ [ch]) r"
  using assms by (simp add: loop_def exec_loop_next count_byte_def HTTP_MAX_HEADER_SIZE_def Let_def upd_def)

lemma loop_step:
  assumes "PARSING_HEADER (state p)" and "nread p < 81920"
    and "exec_state \<lparr>settings = PARSER_SETTINGS, buf = a @ ch # r\<rparr> ch
           \<lparr>parser = p\<lparr>nread := nread p + 1\<rparr>, mark = mk, pos = length a\<rparr> =
         Next \<lparr>parser = p', mark = mk', pos = length a\<rparr>"
  shows "loop p mk a (ch # r) = loop p' mk' (a @ [ch]) r"
  using assms by (intro loop_byte exec_byte_next)

text \<open>The parser of a request between its first byte and the end of its headers.\<close>

abbreviation req :: "http_state \<Rightarrow> header_state \<Rightarrow> nat \<Rightarrow> nat \<Rightarrow> nat \<Rightarrow> nat \<Rightarrow> nat \<Rightarrow> http_method \<Rightarrow> bool \<Rightarrow> nat \<Rightarrow>
    message \<Rightarrow> message http_parser" where
  "req st h ix nr mj mi sc m up cl u \<equiv>
     \<lparr>parser_type = HTTP_REQUEST, flags = no_flags, state = st, header_state = h, index = ix, nread = nr,
      content_length = cl, http_major = mj, http_minor = mi, status_code = sc, method = m, errno = HPE_OK,
      upgrade = up, user = u\<rparr>"

lemmas step_simps = exec_state_def upd_def Let_def PARSING_HEADER_def less_eq_http_state_def
  MARK_def STRICT_CHECK_def assertion_def

section \<open>The method\<close>

text \<open>The first byte of a message.\<close>

lemma loop_start:
  assumes p: "parser_type p = HTTP_REQUEST" "state p = s_start_req" "errno p = HPE_OK" "nread p = 0"
    and "first_method ch = Some m" and "IS_ALPHA ch"
  shows "loop p mk a (ch # r) =
    loop (req s_req_method (header_state p) 1 1 (http_major p) (http_minor p) (status_code p) m (upgrade p)
      ULLONG_MAX (clear_msg (user p))) mk (a @ [ch]) r"
proof (rule loop_step)
  have "ch \<noteq> CR" "ch \<noteq> LF" using assms(5) by (auto simp: first_method_def)
  with assms show "exec_state \<lparr>settings = PARSER_SETTINGS, buf = a @ ch # r\<rparr> ch
           \<lparr>parser = p\<lparr>nread := nread p + 1\<rparr>, mark = mk, pos = length a\<rparr> =
         Next \<lparr>parser = req s_req_method (header_state p) 1 1 (http_major p) (http_minor p) (status_code p) m (upgrade p)
      ULLONG_MAX (clear_msg (user p)), mark = mk, pos = length a\<rparr>"
    by (cases p) (simp add: step_simps do_s_start_req_def CALLBACK_NOTIFY_def CALLBACK_NOTIFY_AT_def
      PARSER_SETTINGS_def on_user_def)
qed (use assms in \<open>simp_all add: PARSING_HEADER_def less_eq_http_state_def\<close>)

text \<open>The matcher as a function of the method it has guessed and the bytes.\<close>

fun match_method :: "http_method \<Rightarrow> nat \<Rightarrow> string \<Rightarrow> (http_method \<times> nat) option" where
  "match_method m i [] = Some (m, i)"
| "match_method m i (c # s) =
     (case c_string_at (method_string m) i of
        None \<Rightarrow> None
      | Some d \<Rightarrow>
          if c = d then match_method m (i + 1) s
          else (case switch_method m i c of None \<Rightarrow> None | Some m' \<Rightarrow> match_method m' (i + 1) s))"

lemma match_method_all:
  "\<exists>g. first_method (hd (method_string m)) = Some g \<and> IS_ALPHA (hd (method_string m)) \<and>
    match_method g 1 (tl (method_string m)) = Some (m, length (method_string m))"
  by (cases m) (simp_all add: first_method_def switch_method_def c_string_at_def IS_ALPHA_def LOWER_def between_def ucode_def)

lemma method_chars: "c \<in> set (method_string m) \<Longrightarrow> c \<noteq> NUL \<and> c \<noteq> SP"
  by (cases m) auto

lemma loop_method:
  assumes "match_method g i s = Some (m, n)" and "\<forall>c \<in> set s. c \<noteq> NUL \<and> c \<noteq> SP" and "i + length s < 256"
    and "nr + length s < 81920"
  shows "loop (req s_req_method h i nr mj mi sc g up cl u) mk a (s @ r) =
    loop (req s_req_method h (i + length s) (nr + length s) mj mi sc m up cl u) mk (a @ s) r \<and> n = i + length s"
  using assms
proof (induction s arbitrary: g i nr a)
  case (Cons c s)
  let ?p = "\<lambda>g. req s_req_method h (i + 1) (nr + 1) mj mi sc g up cl u"
  have c: "c \<noteq> NUL" "c \<noteq> SP" using Cons.prems(2) by auto
  obtain d where d: "c_string_at (method_string g) i = Some d" using Cons.prems(1) by (auto split: option.splits)
  obtain g' where g': "match_method g' (i + 1) s = Some (m, n)" "c = d \<and> g' = g \<or> c \<noteq> d \<and> switch_method g i c = Some g'"
    using Cons.prems(1) d by (auto split: if_splits option.splits)
  from g'(2) have "loop (req s_req_method h i nr mj mi sc g up cl u) mk a (c # s @ r) = loop (?p g') mk (a @ [c]) (s @ r)"
    by (rule disjE) (use c d Cons.prems(3,4) in \<open>(intro loop_step; simp add: step_simps do_s_req_method_def)+\<close>)
  with Cons.IH [OF g'(1), of "nr + 1" "a @ [c]"] Cons.prems(2-4) show ?case by simp
qed simp

lemma loop_method_space:
  assumes "nr < 81920" and "i = length (method_string m)"
  shows "loop (req s_req_method h i nr mj mi sc m up cl u) mk a (SP # r) =
    loop (req s_req_spaces_before_url h (i + 1) (nr + 1) mj mi sc m up cl u) mk (a @ [SP]) r"
proof (rule loop_step)
  have "length (method_string m) < 255" by (cases m) simp_all
  then show "exec_state \<lparr>settings = PARSER_SETTINGS, buf = a @ SP # r\<rparr> SP
      \<lparr>parser = (req s_req_method h i nr mj mi sc m up cl u)\<lparr>nread := nread (req s_req_method h i nr mj mi sc m up cl u) + 1\<rparr>,
        mark = mk, pos = length a\<rparr> =
    Next \<lparr>parser = req s_req_spaces_before_url h (i + 1) (nr + 1) mj mi sc m up cl u, mark = mk, pos = length a\<rparr>"
    using assms by (simp add: step_simps do_s_req_method_def c_string_at_def)
qed (use assms in \<open>simp_all add: PARSING_HEADER_def less_eq_http_state_def\<close>)

section \<open>The target\<close>

text \<open>A target in origin form: a path and perhaps a query, without a fragment.\<close>

definition target_char :: "char \<Rightarrow> bool" where
  "target_char c \<longleftrightarrow> IS_URL_CHAR c \<or> c = CHR ''?''"

definition target_ok :: "string \<Rightarrow> bool" where
  "target_ok t \<longleftrightarrow> (\<exists>s. t = CHR ''/'' # s \<and> (\<forall>c \<in> set s. target_char c))"

definition target_states :: "http_state set" where
  "target_states = {s_req_path, s_req_query_string_start, s_req_query_string}"

lemma target_char_not:
  assumes "target_char c"
  shows "c \<noteq> SP \<and> c \<noteq> CR \<and> c \<noteq> LF \<and> c \<noteq> HT \<and> c \<noteq> CHR 0x0C \<and> c \<noteq> NUL \<and> c \<noteq> CHR ''#''"
proof -
  have "\<not> IS_URL_CHAR SP \<and> \<not> IS_URL_CHAR CR \<and> \<not> IS_URL_CHAR LF \<and> \<not> IS_URL_CHAR HT \<and> \<not> IS_URL_CHAR (CHR 0x0C) \<and>
    \<not> IS_URL_CHAR NUL \<and> \<not> IS_URL_CHAR (CHR ''#'')" by code_simp
  with assms show ?thesis by (auto simp: target_char_def)
qed

lemma loop_target_start:
  assumes "nr < 81920" and "m \<noteq> HTTP_CONNECT"
  shows "loop (req s_req_spaces_before_url h i nr mj mi sc m up cl u) (\<lambda>_. None) a (CHR ''/'' # r) =
    loop (req s_req_path h i (nr + 1) mj mi sc m up cl u) ((\<lambda>_. None)(M_url := Some (length a))) (a @ ''/'') r"
  by (rule loop_step)
    (use assms in \<open>simp_all add: step_simps do_s_req_spaces_before_url_def parse_url_char_def\<close>)

lemma target_state_step:
  assumes "st \<in> target_states" and c: "target_char c"
  shows "parse_url_char st c \<in> target_states"
proof -
  have "parse_url_char s_req_path c = (if IS_URL_CHAR c then s_req_path else s_req_query_string_start)"
    "parse_url_query c = s_req_query_string"
    using target_char_not [OF c] c by (simp_all add: parse_url_char_def parse_url_query_def target_char_def) blast+
  moreover have "parse_url_char st c = parse_url_query c" if "st = s_req_query_string_start \<or> st = s_req_query_string"
    by (rule disjE [OF that]) (use target_char_not [OF c] in \<open>simp_all add: parse_url_char_def\<close>)
  ultimately show ?thesis using assms(1) by (auto simp: target_states_def)
qed

lemma exec_target: "state (parser c) \<in> target_states \<Longrightarrow> exec_state E ch c = do_s_req_url E ch c"
  by (auto simp: target_states_def exec_state_def)

lemma target_parsing: "st \<in> target_states \<Longrightarrow> PARSING_HEADER st \<and> st \<noteq> s_dead"
  by (auto simp: target_states_def PARSING_HEADER_def less_eq_http_state_def)

lemma loop_target_chars:
  assumes "\<forall>c \<in> set s. target_char c" and "st \<in> target_states" and "nr + length s < 81920"
  shows "\<exists>st' \<in> target_states. loop (req st h i nr mj mi sc m up cl u) mk a (s @ r) =
    loop (req st' h i (nr + length s) mj mi sc m up cl u) mk (a @ s) r"
  using assms
proof (induction s arbitrary: st nr a)
  case (Cons c s)
  then have c: "target_char c" by simp
  note n = target_char_not [OF c]
  let ?st = "parse_url_char st c"
  have st: "?st \<in> target_states" by (rule target_state_step [OF Cons.prems(2) c])
  have "loop (req st h i nr mj mi sc m up cl u) mk a (c # s @ r) = loop (req ?st h i (nr + 1) mj mi sc m up cl u) mk (a @ [c]) (s @ r)"
    using Cons.prems(2,3) n target_parsing [OF st] target_parsing [OF Cons.prems(2)]
    by (intro loop_step) (simp_all add: exec_target do_s_req_url_def upd_def Let_def)
  with Cons.IH [OF _ st, of "nr + 1" "a @ [c]"] Cons.prems show ?case by simp
qed auto

lemma loop_target_end:
  assumes "st \<in> target_states" and "nr < 81920"
  shows "loop (req st h i nr mj mi sc m up cl u) ((\<lambda>_. None)(M_url := Some (length a))) (a @ t) (SP # r) =
    loop (req s_reqHTTP_start h i (nr + 1) mj mi sc m up cl (u\<lparr>raw_url := raw_url u @ t\<rparr>)) (\<lambda>_. None) ((a @ t) @ [SP]) r"
  using assms target_parsing [OF assms(1)]
  by (intro loop_step) (simp_all add: exec_target do_s_req_url_def CALLBACK_DATA_def CALLBACK_DATA_AT_def assertion_def Let_def
      PARSER_SETTINGS_def on_user_def upd_def)

text \<open>The version and the end of the request line.\<close>

lemma loop_version_steps:
  assumes "nr < 81920"
  shows "loop (req s_reqHTTP_start h i nr mj mi sc m up cl u) mk a (CHR ''H'' # r) = loop (req s_reqHTTP_H h i (nr + 1) mj mi sc m up cl u) mk (a @ ''H'') r"
    and "loop (req s_reqHTTP_H h i nr mj mi sc m up cl u) mk a (CHR ''T'' # r) = loop (req s_reqHTTP_HT h i (nr + 1) mj mi sc m up cl u) mk (a @ ''T'') r"
    and "loop (req s_reqHTTP_HT h i nr mj mi sc m up cl u) mk a (CHR ''T'' # r) = loop (req s_reqHTTP_HTT h i (nr + 1) mj mi sc m up cl u) mk (a @ ''T'') r"
    and "loop (req s_reqHTTP_HTT h i nr mj mi sc m up cl u) mk a (CHR ''P'' # r) = loop (req s_reqHTTPHTTP h i (nr + 1) mj mi sc m up cl u) mk (a @ ''P'') r"
    and "loop (req s_reqHTTPHTTP h i nr mj mi sc m up cl u) mk a (CHR ''/'' # r) = loop (req s_req_firstHTTP_major h i (nr + 1) mj mi sc m up cl u) mk (a @ ''/'') r"
    and "loop (req s_req_firstHTTP_major h i nr mj mi sc m up cl u) mk a (CHR ''1'' # r) = loop (req s_reqHTTP_major h i (nr + 1) 1 mi sc m up cl u) mk (a @ ''1'') r"
    and "loop (req s_reqHTTP_major h i nr mj mi sc m up cl u) mk a (CHR ''.'' # r) = loop (req s_req_firstHTTP_minor h i (nr + 1) mj mi sc m up cl u) mk (a @ ''.'') r"
    and "loop (req s_req_firstHTTP_minor h i nr mj mi sc m up cl u) mk a (CHR ''1'' # r) = loop (req s_reqHTTP_minor h i (nr + 1) mj 1 sc m up cl u) mk (a @ ''1'') r"
    and "loop (req s_reqHTTP_minor h i nr mj mi sc m up cl u) mk a (CR # r) = loop (req s_req_line_almost_done h i (nr + 1) mj mi sc m up cl u) mk (a @ [CR]) r"
    and "loop (req s_req_line_almost_done h i nr mj mi sc m up cl u) mk a (LF # r) = loop (req s_header_field_start h i (nr + 1) mj mi sc m up cl u) mk (a @ [LF]) r"
  by (rule loop_step;
      use assms in \<open>simp add: step_simps do_s_reqHTTP_start_def do_s_reqHTTP_H_def do_s_reqHTTP_HT_def do_s_reqHTTP_HTT_def
        do_s_reqHTTPHTTP_def do_s_req_firstHTTP_major_def do_s_reqHTTP_major_def do_s_req_firstHTTP_minor_def
        do_s_reqHTTP_minor_def do_s_req_line_almost_done_def between_def ucode_def digit_def IS_NUM_def\<close>)+

lemma loop_version:
  assumes "nr + 10 < 81920"
  shows "loop (req s_reqHTTP_start h i nr mj mi sc m up cl u) mk a (''HTTP/1.1'' @ CR # LF # r) =
    loop (req s_header_field_start h i (nr + 10) 1 1 sc m up cl u) mk (a @ ''HTTP/1.1'' @ [CR, LF]) r"
proof -
  have "nr + 10 = Suc (Suc (Suc (Suc (Suc (Suc (Suc (Suc (Suc (Suc nr)))))))))" by simp
  then show ?thesis unfolding \<open>nr + 10 = _\<close> using assms by (simp add: loop_version_steps)
qed

section \<open>Header lines\<close>

definition value_ok :: "string \<Rightarrow> bool" where
  "value_ok v \<longleftrightarrow> v \<noteq> [] \<and> hd v \<noteq> SP \<and> hd v \<noteq> HT \<and> CR \<notin> set v \<and> LF \<notin> set v"

text \<open>Where a line of the headers starts: after the request line, or after a header.\<close>

definition line_start :: "http_state \<Rightarrow> header_state \<Rightarrow> bool" where
  "line_start st h \<longleftrightarrow> st = s_header_field_start \<or>
     st = s_header_value_lws \<and> h \<notin> {h_connection_keep_alive, h_connection_close, h_transfer_encoding_chunked}"

lemma loop_line_start:
  assumes "line_start st h" and "ch \<noteq> SP" and "ch \<noteq> HT" and "nr < 81920"
    and "exec_byte \<lparr>settings = PARSER_SETTINGS, buf = a @ ch # r\<rparr> ch
       \<lparr>parser = req s_header_field_start h i (nr + 1) mj mi sc m up cl u, mark = mk, pos = length a\<rparr> =
       Some (Next \<lparr>parser = p', mark = mk', pos = length a\<rparr>)"
  shows "loop (req st h i nr mj mi sc m up cl u) mk a (ch # r) = loop p' mk' (a @ [ch]) r"
proof (rule loop_byte)
  let ?E = "\<lparr>settings = PARSER_SETTINGS, buf = a @ ch # r\<rparr>"
  let ?c = "\<lambda>st. \<lparr>parser = req st h i (nr + 1) mj mi sc m up cl u, mark = mk, pos = length a\<rparr>"
  have "exec_byte ?E ch (?c s_header_value_lws) = exec_byte ?E ch (?c s_header_field_start)" if "st = s_header_value_lws"
    using assms(1-3) that
    by (intro exec_byte_reexec)
      (cases h; simp add: line_start_def exec_state_def do_s_header_value_lws_def upd_def Let_def)
  then show "exec_byte ?E ch \<lparr>parser = (req st h i nr mj mi sc m up cl u)\<lparr>nread := nread (req st h i nr mj mi sc m up cl u) + 1\<rparr>,
      mark = mk, pos = length a\<rparr> = Some (Next \<lparr>parser = p', mark = mk', pos = length a\<rparr>)"
    using assms(1,5) by (auto simp: line_start_def)
qed (use assms in \<open>auto simp: line_start_def PARSING_HEADER_def less_eq_http_state_def\<close>)

lemma loop_name_start:
  assumes "line_start st h" and t: "TOKEN ch \<noteq> NUL" and "nr < 81920"
  shows "\<exists>h'. loop (req st h i nr mj mi sc m up cl u) (\<lambda>_. None) a (ch # r) =
      loop (req s_header_field h' 0 (nr + 1) mj mi sc m up cl u) ((\<lambda>_. None)(M_header_field := Some (length a))) (a @ [ch]) r \<and>
    name_inv h' 0 [TOKEN ch]"
proof -
  let ?h = "if TOKEN ch = CHR ''c'' then h_C else if TOKEN ch = CHR ''p'' then h_matching_proxy_connection
    else if TOKEN ch = CHR ''t'' then h_matching_transfer_encoding
    else if TOKEN ch = CHR ''u'' then h_matching_upgrade else h_general"
  note n = token_not [OF t]
  have "loop (req st h i nr mj mi sc m up cl u) (\<lambda>_. None) a (ch # r) =
      loop (req s_header_field ?h 0 (nr + 1) mj mi sc m up cl u) ((\<lambda>_. None)(M_header_field := Some (length a))) (a @ [ch]) r"
    using assms n
    by (intro loop_line_start exec_byte_next) (simp_all add: exec_state_def do_s_header_field_start_def upd_def Let_def MARK_def)
  moreover have "name_inv ?h 0 [TOKEN ch]" by (simp add: part_of_def known_names_def)
  ultimately show ?thesis by blast
qed

lemma loop_name:
  assumes "\<forall>c \<in> set s. TOKEN c \<noteq> NUL" and "name_inv h i w" and "CHR ''C'' \<notin> set w" and "nr + length s < 81920"
  shows "\<exists>h' i'. loop (req s_header_field h i nr mj mi sc m up cl u) mk a (s @ r) =
      loop (req s_header_field h' i' (nr + length s) mj mi sc m up cl u) mk (a @ s) r \<and>
    name_inv h' i' (w @ map TOKEN s)"
  using assms
proof (induction s arbitrary: h i w nr a)
  case (Cons c s)
  have t: "TOKEN c \<noteq> NUL" using Cons.prems(1) by simp
  let ?c = "\<lparr>parser = req s_header_field h i (nr + 1) mj mi sc m up cl u, mark = mk, pos = length a\<rparr>"
  have "CHR ''C'' \<notin> set (w @ [TOKEN c])" using Cons.prems(3) TOKEN_upper [of c] by auto
  then obtain h' i' where s: "header_field_token c (TOKEN c) ?c =
      Next (?c\<lparr>parser := (parser ?c)\<lparr>header_state := h', index := i'\<rparr>\<rparr>)" "name_inv h' i' (w @ [TOKEN c])"
    using name_step [of ?c w "TOKEN c" c] Cons.prems(2) token_not [OF t] by auto
  have "loop (req s_header_field h i nr mj mi sc m up cl u) mk a (c # s @ r) =
      loop (req s_header_field h' i' (nr + 1) mj mi sc m up cl u) mk (a @ [c]) (s @ r)"
    using s(1) t Cons.prems(4)
    by (intro loop_step) (simp_all add: PARSING_HEADER_def less_eq_http_state_def exec_state_def do_s_header_field_def Let_def)
  moreover have "\<exists>h'' i''. loop (req s_header_field h' i' (nr + 1) mj mi sc m up cl u) mk (a @ [c]) (s @ r) =
      loop (req s_header_field h'' i'' (nr + 1 + length s) mj mi sc m up cl u) mk ((a @ [c]) @ s) r \<and>
    name_inv h'' i'' ((w @ [TOKEN c]) @ map TOKEN s)"
    using Cons.prems(1,3,4) TOKEN_upper [of c] by (intro Cons.IH [OF _ s(2)]) auto
  ultimately show ?case by auto
qed auto

lemma loop_colon:
  assumes "nr + 1 < 81920"
  shows "loop (req s_header_field h i nr mj mi sc m up cl u) ((\<lambda>_. None)(M_header_field := Some (length a))) (a @ n) ('': '' @ r) =
    loop (req s_header_value_discard_ws h i (nr + 2) mj mi sc m up cl (header_field_msg n u)) (\<lambda>_. None) (a @ n @ '': '') r"
proof -
  have "loop (req s_header_field h i nr mj mi sc m up cl u) ((\<lambda>_. None)(M_header_field := Some (length a))) (a @ n) (CHR '':'' # SP # r) =
    loop (req s_header_value_discard_ws h i (nr + 1) mj mi sc m up cl (header_field_msg n u)) (\<lambda>_. None) ((a @ n) @ '':'') (SP # r)"
    using assms
    by (intro loop_step) (simp_all add: PARSING_HEADER_def less_eq_http_state_def exec_state_def do_s_header_field_def Let_def
      TOKEN_punct CALLBACK_DATA_def CALLBACK_DATA_AT_def assertion_def upd_def PARSER_SETTINGS_def on_user_def)
  moreover have "loop (req s_header_value_discard_ws h i (nr + 1) mj mi sc m up cl (header_field_msg n u)) (\<lambda>_. None) ((a @ n) @ '':'') (SP # r) =
    loop (req s_header_value_discard_ws h i (nr + 1 + 1) mj mi sc m up cl (header_field_msg n u)) (\<lambda>_. None) (((a @ n) @ '':'') @ [SP]) r"
    using assms
    by (intro loop_step) (simp_all add: PARSING_HEADER_def less_eq_http_state_def exec_state_def do_s_header_value_discard_ws_def)
  ultimately show ?thesis by simp
qed

section \<open>Values\<close>

text \<open>What a header adds to the content length.\<close>

definition decimal :: "string \<Rightarrow> nat" where
  "decimal = foldl (\<lambda>n c. n * 10 + digit c) 0"

definition length_after :: "string \<times> string \<Rightarrow> nat \<Rightarrow> nat" where
  "length_after h cl = (if map TOKEN (fst h) = ''content-length'' then decimal (snd h) else cl)"

text \<open>The headers of the theorem: no header that changes the connection or the coding of the
  body, and a content length in digits.\<close>

definition header_ok :: "string \<times> string \<Rightarrow> bool" where
  "header_ok h \<longleftrightarrow> name_ok (fst h) \<and> value_ok (snd h) \<and>
     map TOKEN (fst h) \<notin> {''connection'', ''transfer-encoding'', ''upgrade''} \<and>
     (map TOKEN (fst h) = ''content-length'' \<longrightarrow> list_all IS_NUM (snd h) \<and> decimal (snd h) < 10 ^ 18)"

lemma loop_value_general:
  assumes "CR \<notin> set s" and "LF \<notin> set s" and "nr + length s < 81920"
  shows "loop (req s_header_value h_general i nr mj mi sc m up cl u) mk a (s @ r) =
    loop (req s_header_value h_general i (nr + length s) mj mi sc m up cl u) mk (a @ s) r"
  using assms
proof (induction s arbitrary: nr a)
  case (Cons c s)
  have "loop (req s_header_value h_general i nr mj mi sc m up cl u) mk a (c # s @ r) =
      loop (req s_header_value h_general i (nr + 1) mj mi sc m up cl u) mk (a @ [c]) (s @ r)"
    using Cons.prems
    by (intro loop_step) (auto simp: PARSING_HEADER_def less_eq_http_state_def exec_state_def do_s_header_value_def
      header_value_byte_def Let_def)
  with Cons.IH [of "nr + 1" "a @ [c]"] Cons.prems show ?case by simp
qed simp

lemma foldl_digits_mono: "n \<le> foldl (\<lambda>n c. n * 10 + digit c) n s"
proof (induction s arbitrary: n)
  case (Cons c s)
  from Cons.IH [of "n * 10 + digit c"] show ?case by simp
qed simp

lemma loop_value_digits:
  assumes "list_all IS_NUM s" and "foldl (\<lambda>n c. n * 10 + digit c) cl s < 10 ^ 18" and "nr + length s < 81920"
  shows "loop (req s_header_value h_content_length i nr mj mi sc m up cl u) mk a (s @ r) =
    loop (req s_header_value h_content_length i (nr + length s) mj mi sc m up (foldl (\<lambda>n c. n * 10 + digit c) cl s) u) mk (a @ s) r"
  using assms
proof (induction s arbitrary: nr a cl)
  case (Cons c s)
  have c: "IS_NUM c" "c \<noteq> CR" "c \<noteq> LF" "c \<noteq> SP"
    using Cons.prems(1) by (auto simp: IS_NUM_def between_def ucode_def)
  have n: "cl * 10 + digit c < 10 ^ 18" using foldl_digits_mono [of "cl * 10 + digit c" s] Cons.prems(2) by simp
  have "cl * 10 mod 18446744073709551616 = cl * 10" using n by simp
  moreover have "(cl * 10 + digit c) mod 18446744073709551616 = cl * 10 + digit c" using n by simp
  moreover have "\<not> 1844674407370955160 < cl" using n by simp
  ultimately have "loop (req s_header_value h_content_length i nr mj mi sc m up cl u) mk a (c # s @ r) =
      loop (req s_header_value h_content_length i (nr + 1) mj mi sc m up (cl * 10 + digit c) u) mk (a @ [c]) (s @ r)"
    using c Cons.prems(3)
    by (intro loop_step) (simp_all add: PARSING_HEADER_def less_eq_http_state_def exec_state_def do_s_header_value_def
      header_value_byte_def content_length_digit_def ULLONG_MAX_def Let_def upd_def)
  with Cons.IH [of "cl * 10 + digit c" "nr + 1" "a @ [c]"] Cons.prems show ?case by simp
qed simp

lemma loop_value_start:
  assumes "c \<noteq> SP" "c \<noteq> HT" "c \<noteq> CR" "c \<noteq> LF" and "nr < 81920"
    and "h \<notin> {h_connection, h_content_length, h_transfer_encoding, h_upgrade}"
  shows "loop (req s_header_value_discard_ws h i nr mj mi sc m up cl u) (\<lambda>_. None) a (c # r) =
    loop (req s_header_value h_general 0 (nr + 1) mj mi sc m up cl u) ((\<lambda>_. None)(M_header_value := Some (length a))) (a @ [c]) r"
proof -
  have "do_s_header_value_start c x = Next (set_header_state h_general
      (upd (\<lambda>p. p\<lparr>state := s_header_value, index := 0\<rparr>) (MARK M_header_value x)))"
    if "header_state (parser x) = h" for x :: "message ctx"
    using assms(6) that by (auto simp: do_s_header_value_start_def Let_def split: header_state.split)
  then show ?thesis using assms(1-5)
    by (intro loop_step) (simp_all add: PARSING_HEADER_def less_eq_http_state_def exec_state_def do_s_header_value_discard_ws_def
      upd_def MARK_def)
qed

lemma loop_length_start:
  assumes "IS_NUM c" and "nr < 81920"
  shows "loop (req s_header_value_discard_ws h_content_length i nr mj mi sc m up cl u) (\<lambda>_. None) a (c # r) =
    loop (req s_header_value h_content_length 0 (nr + 1) mj mi sc m up (digit c) u) ((\<lambda>_. None)(M_header_value := Some (length a))) (a @ [c]) r"
proof -
  have "c \<noteq> SP" "c \<noteq> HT" "c \<noteq> CR" "c \<noteq> LF" using assms(1) by (auto simp: IS_NUM_def between_def ucode_def)
  with assms show ?thesis
    by (intro loop_step) (simp_all add: PARSING_HEADER_def less_eq_http_state_def exec_state_def do_s_header_value_discard_ws_def
      do_s_header_value_start_def Let_def upd_def MARK_def)
qed

lemma loop_value_end:
  assumes "nr + 1 < 81920"
  shows "loop (req s_header_value h i nr mj mi sc m up cl u) ((\<lambda>_. None)(M_header_value := Some (length a))) (a @ v) (CR # LF # r) =
    loop (req s_header_value_lws h i (nr + 2) mj mi sc m up cl (header_value_msg v u)) (\<lambda>_. None) (a @ v @ [CR, LF]) r"
proof -
  have "loop (req s_header_value h i nr mj mi sc m up cl u) ((\<lambda>_. None)(M_header_value := Some (length a))) (a @ v) (CR # LF # r) =
    loop (req s_header_almost_done h i (nr + 1) mj mi sc m up cl (header_value_msg v u)) (\<lambda>_. None) ((a @ v) @ [CR]) (LF # r)"
    using assms
    by (intro loop_step) (simp_all add: PARSING_HEADER_def less_eq_http_state_def exec_state_def do_s_header_value_def Let_def
      CALLBACK_DATA_def CALLBACK_DATA_AT_def assertion_def upd_def PARSER_SETTINGS_def on_user_def)
  moreover have "loop (req s_header_almost_done h i (nr + 1) mj mi sc m up cl (header_value_msg v u)) (\<lambda>_. None) ((a @ v) @ [CR]) (LF # r) =
    loop (req s_header_value_lws h i (nr + 1 + 1) mj mi sc m up cl (header_value_msg v u)) (\<lambda>_. None) (((a @ v) @ [CR]) @ [LF]) r"
    using assms
    by (intro loop_step) (simp_all add: PARSING_HEADER_def less_eq_http_state_def exec_state_def do_s_header_almost_done_def
      STRICT_CHECK_def upd_def)
  ultimately show ?thesis by simp
qed

section \<open>A whole header\<close>

definition header_text :: "string \<times> string \<Rightarrow> string" where
  "header_text h = fst h @ '': '' @ snd h @ [CR, LF]"

lemma length_header_text: "length (header_text h) = length (fst h) + length (snd h) + 4"
  by (simp add: header_text_def)

lemma loop_header:
  assumes "line_start st h" and ok: "header_ok x" and "nr + length (header_text x) < 81920"
  shows "\<exists>h' i'. loop (req st h i nr mj mi sc m up cl u) (\<lambda>_. None) a (header_text x @ r) =
      loop (req s_header_value_lws h' i' (nr + length (header_text x)) mj mi sc m up (length_after x cl)
        (fold run_event (header_events ([fst x], [snd x])) u)) (\<lambda>_. None) (a @ header_text x) r \<and>
    line_start s_header_value_lws h'"
proof -
  obtain n v where x: "x = (n, v)" by (cases x) simp
  obtain ch s where n: "n = ch # s" "TOKEN ch \<noteq> NUL" "\<forall>c \<in> set s. TOKEN c \<noteq> NUL"
    using ok by (cases n) (auto simp: x header_ok_def name_ok_def)
  obtain c w where v: "v = c # w" "c \<noteq> SP" "c \<noteq> HT" "c \<noteq> CR" "c \<noteq> LF" "CR \<notin> set w" "LF \<notin> set w"
    using ok by (cases v) (auto simp: x header_ok_def value_ok_def)
  have l: "nr + length s + length w + 6 < 81920" using assms(3) by (simp add: x header_text_def n v)
  let ?u1 = "header_field_msg n u"
  obtain h1 where 1: "loop (req st h i nr mj mi sc m up cl u) (\<lambda>_. None) a (ch # s @ '': '' @ v @ CR # LF # r) =
      loop (req s_header_field h1 0 (nr + 1) mj mi sc m up cl u) ((\<lambda>_. None)(M_header_field := Some (length a))) (a @ [ch])
        (s @ '': '' @ v @ CR # LF # r)" "name_inv h1 0 [TOKEN ch]"
    using loop_name_start [OF assms(1) n(2), of nr i cl mj mi sc m up u a "s @ '': '' @ v @ CR # LF # r"] l by auto
  obtain h2 i2 where 2: "loop (req s_header_field h1 0 (nr + 1) mj mi sc m up cl u) ((\<lambda>_. None)(M_header_field := Some (length a))) (a @ [ch])
        (s @ '': '' @ v @ CR # LF # r) =
      loop (req s_header_field h2 i2 (nr + 1 + length s) mj mi sc m up cl u) ((\<lambda>_. None)(M_header_field := Some (length a)))
        ((a @ [ch]) @ s) ('': '' @ v @ CR # LF # r)" "name_inv h2 i2 ([TOKEN ch] @ map TOKEN s)"
    using loop_name [OF n(3) 1(2), of "nr + 1" cl mj mi sc m up u "(\<lambda>_. None)(M_header_field := Some (length a))" "a @ [ch]"
      "'': '' @ v @ CR # LF # r"] TOKEN_upper [of ch] l by auto
  have 3: "loop (req s_header_field h2 i2 (nr + 1 + length s) mj mi sc m up cl u) ((\<lambda>_. None)(M_header_field := Some (length a)))
        (a @ n) ('': '' @ v @ CR # LF # r) =
      loop (req s_header_value_discard_ws h2 i2 (nr + 1 + length s + 2) mj mi sc m up cl ?u1) (\<lambda>_. None) (a @ n @ '': '')
        (v @ CR # LF # r)"
    by (rule loop_colon) (use l in simp)
  let ?a = "a @ n @ '': ''" and ?nr = "nr + 1 + length s + 2"
  have h2: "h2 = h_content_length \<longleftrightarrow> map TOKEN n = ''content-length''" "h2 \<noteq> h_connection" "h2 \<noteq> h_transfer_encoding"
    "h2 \<noteq> h_upgrade"
    using name_inv_known [OF 2(2)] ok n(1) by (simp_all add: x header_ok_def)
  have "\<exists>h3. h3 \<in> {h_general, h_content_length} \<and>
    loop (req s_header_value_discard_ws h2 i2 ?nr mj mi sc m up cl ?u1) (\<lambda>_. None) ?a (c # w @ CR # LF # r) =
    loop (req s_header_value h3 0 (?nr + 1 + length w) mj mi sc m up (length_after x cl) ?u1)
      ((\<lambda>_. None)(M_header_value := Some (length ?a))) ((?a @ [c]) @ w) (CR # LF # r)"
  proof (cases "h2 = h_content_length")
    case True
    have d: "IS_NUM c" "list_all IS_NUM w" "foldl (\<lambda>n c. n * 10 + digit c) (digit c) w < 10 ^ 18"
      using ok True h2(1) by (simp_all add: x v(1) header_ok_def decimal_def)
    have "length_after x cl = foldl (\<lambda>n c. n * 10 + digit c) (digit c) w"
      using True h2(1) by (simp add: length_after_def x v(1) decimal_def)
    with loop_length_start [OF d(1), of ?nr i2 cl mj mi sc m up ?u1 ?a "w @ CR # LF # r"]
      loop_value_digits [OF d(2,3), of "?nr + 1" 0 mj mi sc m up ?u1 "(\<lambda>_. None)(M_header_value := Some (length ?a))" "?a @ [c]" "CR # LF # r"] l True
    show ?thesis by (intro exI [of _ h_content_length]) simp
  next
    case False
    then have "length_after x cl = cl" using h2(1) by (simp add: length_after_def x)
    with loop_value_start [OF v(2-5), of ?nr h2 i2 cl mj mi sc m up ?u1 ?a "w @ CR # LF # r"]
      loop_value_general [OF v(6,7), of "?nr + 1" 0 cl mj mi sc m up ?u1 "(\<lambda>_. None)(M_header_value := Some (length ?a))" "?a @ [c]" "CR # LF # r"] l False h2(2-4)
    show ?thesis by (intro exI [of _ h_general]) simp
  qed
  then obtain h3 where 4: "h3 \<in> {h_general, h_content_length}"
    "loop (req s_header_value_discard_ws h2 i2 ?nr mj mi sc m up cl ?u1) (\<lambda>_. None) ?a (v @ CR # LF # r) =
    loop (req s_header_value h3 0 (?nr + length v) mj mi sc m up (length_after x cl) ?u1)
      ((\<lambda>_. None)(M_header_value := Some (length ?a))) (?a @ v) (CR # LF # r)"
    by (auto simp: v(1))
  have 5: "loop (req s_header_value h3 0 (?nr + length v) mj mi sc m up (length_after x cl) ?u1)
      ((\<lambda>_. None)(M_header_value := Some (length ?a))) (?a @ v) (CR # LF # r) =
    loop (req s_header_value_lws h3 0 (?nr + length v + 2) mj mi sc m up (length_after x cl) (header_value_msg v ?u1)) (\<lambda>_. None)
      (?a @ v @ [CR, LF]) r"
    by (rule loop_value_end) (use l in \<open>simp add: v(1)\<close>)
  have u: "fold run_event (header_events ([fst x], [snd x])) u = header_value_msg v ?u1"
    by (simp add: header_events_def x)
  have nr: "nr + length (header_text x) = ?nr + length v + 2" by (simp add: header_text_def x n)
  have "line_start s_header_value_lws h3" using 4(1) by (auto simp: line_start_def)
  moreover have "loop (req st h i nr mj mi sc m up cl u) (\<lambda>_. None) a (header_text x @ r) =
      loop (req s_header_value_lws h3 0 (nr + length (header_text x)) mj mi sc m up (length_after x cl)
        (fold run_event (header_events ([fst x], [snd x])) u)) (\<lambda>_. None) (a @ header_text x) r"
    using 1(1) 2(1) 3 4(2) 5 unfolding u nr by (simp add: header_text_def x n(1))
  ultimately show ?thesis by blast
qed

section \<open>The end of the headers and the body\<close>

text \<open>The calls of the header callbacks for headers that arrive in one buffer.\<close>

definition events_of :: "(string \<times> string) list \<Rightarrow> header_event list" where
  "events_of hs = concat (map (\<lambda>h. header_events ([fst h], [snd h])) hs)"

lemma loop_headers:
  assumes "line_start st h" and "\<forall>x \<in> set hs. header_ok x" and "nr + length (concat (map header_text hs)) < 81920"
  shows "\<exists>st' h' i'. loop (req st h i nr mj mi sc m up cl u) (\<lambda>_. None) a (concat (map header_text hs) @ r) =
      loop (req st' h' i' (nr + length (concat (map header_text hs))) mj mi sc m up (fold length_after hs cl)
        (fold run_event (events_of hs) u)) (\<lambda>_. None) (a @ concat (map header_text hs)) r \<and> line_start st' h'"
  using assms
proof (induction hs arbitrary: st h i nr cl u a)
  case (Cons x hs)
  let ?r = "concat (map header_text hs)"
  have x: "header_ok x" "\<forall>x \<in> set hs. header_ok x" using Cons.prems(2) by auto
  have n: "nr + length (header_text x) < 81920" "nr + length (header_text x) + length ?r < 81920" using Cons.prems(3) by simp_all
  obtain h1 i1 where 1: "loop (req st h i nr mj mi sc m up cl u) (\<lambda>_. None) a (header_text x @ ?r @ r) =
      loop (req s_header_value_lws h1 i1 (nr + length (header_text x)) mj mi sc m up (length_after x cl)
        (fold run_event (header_events ([fst x], [snd x])) u)) (\<lambda>_. None) (a @ header_text x) (?r @ r)"
      "line_start s_header_value_lws h1"
    using loop_header [OF Cons.prems(1) x(1) n(1), of i cl mj mi sc m up u a "?r @ r"] by blast
  from Cons.IH [OF 1(2) x(2) n(2), of i1 "length_after x cl" "fold run_event (header_events ([fst x], [snd x])) u" "a @ header_text x"]
    1(1) show ?case by (simp add: events_of_def add.assoc)
qed (auto simp: events_of_def)

lemma loop_blank:
  assumes "line_start st h" and "nr < 81920"
  shows "loop (req st h i nr mj mi sc m up cl u) mk a (CR # r) =
    loop (req s_headers_almost_done h i (nr + 1) mj mi sc m up cl u) mk (a @ [CR]) r"
  using assms
  by (intro loop_line_start exec_byte_next) (simp_all add: exec_state_def do_s_header_field_start_def upd_def)

lemma end_of_headers:
  assumes "m \<noteq> HTTP_CONNECT"
  shows "exec_byte \<lparr>settings = PARSER_SETTINGS, buf = B\<rparr> LF
      \<lparr>parser = req s_headers_almost_done h i nr 1 1 sc m up cl u, mark = mk, pos = n\<rparr> =
    Some (Next \<lparr>parser =
      (if cl = 0 \<or> cl = ULLONG_MAX
       then req s_start_req h i 0 1 1 sc m False (u32 (length (msg_body (headers_complete_msg u)))) (complete_msg (headers_complete_msg u))
       else req s_body_identity h i 0 1 1 sc m False cl (headers_complete_msg u)), mark = mk, pos = n\<rparr>)"
proof -
  let ?E = "\<lparr>settings = PARSER_SETTINGS, buf = B\<rparr>"
  have "exec_byte ?E LF \<lparr>parser = req s_headers_almost_done h i nr 1 1 sc m up cl u, mark = mk, pos = n\<rparr> =
      exec_byte ?E LF \<lparr>parser = req s_headers_done h i nr 1 1 sc m False cl (headers_complete_msg u), mark = mk, pos = n\<rparr>"
    using assms
    by (intro exec_byte_reexec)
      (simp add: exec_state_def do_s_headers_almost_done_def STRICT_CHECK_def no_flags_def call_headers_complete_def
        PARSER_SETTINGS_def on_user_def upd_def)
  also have "\<dots> = Some (Next \<lparr>parser =
      (if cl = 0 \<or> cl = ULLONG_MAX
       then req s_start_req h i 0 1 1 sc m False (u32 (length (msg_body (headers_complete_msg u)))) (complete_msg (headers_complete_msg u))
       else req s_body_identity h i 0 1 1 sc m False cl (headers_complete_msg u)), mark = mk, pos = n\<rparr>)"
    by (intro exec_byte_next)
      (simp add: exec_state_def do_s_headers_done_def STRICT_CHECK_def no_flags_def CALLBACK_NOTIFY_def CALLBACK_NOTIFY_AT_def
        PARSER_SETTINGS_def msg_complete_def new_message_def NEW_MESSAGE_def http_should_keep_alive_def
        http_message_needs_eof_def start_state_def assertion_def upd_def Let_def)
  finally show ?thesis .
qed

lemma loop_body:
  assumes "b \<noteq> []" and "length b < ULLONG_MAX"
  shows "loop (req s_body_identity h i 0 1 1 sc m False (length b) u) (\<lambda>_. None) a (b @ r) =
    loop (req s_start_req h i 0 1 1 sc m False (u32 (length (msg_body u @ b))) (complete_msg (u\<lparr>msg_body := msg_body u @ b\<rparr>)))
      (\<lambda>_. None) (a @ b) r"
proof -
  let ?E = "\<lparr>settings = PARSER_SETTINGS, buf = a @ b @ r\<rparr>"
  let ?u = "u\<lparr>msg_body := msg_body u @ b\<rparr>"
  let ?c = "\<lparr>parser = req s_body_identity h i 0 1 1 sc m False (length b) u, mark = (\<lambda>_. None), pos = length a\<rparr>"
  let ?d = "\<lparr>parser = req s_message_done h i 0 1 1 sc m False 0 ?u, mark = (\<lambda>_. None), pos = length a + length b - 1\<rparr>"
  let ?e = "?d\<lparr>parser := req s_start_req h i 0 1 1 sc m False (u32 (length (msg_body ?u))) (complete_msg ?u)\<rparr>"
  obtain ch b' where b: "b = ch # b'" using assms(1) by (cases b) auto
  have "exec_state ?E ch ?c = Reexec ?d"
    using assms(2) by (simp add: exec_state_def do_s_body_identity_def assertion_def MARK_def upd_def Let_def
      CALLBACK_DATA_AT_def PARSER_SETTINGS_def on_user_def b)
  then have "exec_byte ?E ch ?c = exec_byte ?E ch ?d" by (rule exec_byte_reexec)
  also have "\<dots> = Some (Next ?e)"
    by (intro exec_byte_next)
      (simp add: exec_state_def do_s_message_done_def CALLBACK_NOTIFY_def CALLBACK_NOTIFY_AT_def PARSER_SETTINGS_def
        msg_complete_def new_message_def NEW_MESSAGE_def http_should_keep_alive_def no_flags_def
        http_message_needs_eof_def start_state_def assertion_def upd_def Let_def)
  finally have x: "exec_byte ?E ch ?c = Some (Next ?e)" .
  have "count_byte ?c = Next ?c" by (simp add: count_byte_def PARSING_HEADER_def less_eq_http_state_def)
  moreover have "buf ?E ! pos ?c = ch" by (simp add: b)
  ultimately have "exec_loop ?E ?c = exec_loop ?E (?e\<lparr>pos := pos ?e + 1\<rparr>)"
    using x assms(1) by (subst exec_loop_next) simp_all
  moreover have "?e\<lparr>pos := pos ?e + 1\<rparr> = \<lparr>parser = req s_start_req h i 0 1 1 sc m False (u32 (length (msg_body ?u))) (complete_msg ?u),
      mark = (\<lambda>_. None), pos = length (a @ b)\<rparr>"
    using assms(1) by (cases b) simp_all
  ultimately show ?thesis by (simp add: loop_def)
qed

end
