(* ===== verification/HttpFeed.thy ===== *)
theory HttpFeed
  imports HttpRequest
begin

text \<open>
  Requests written by the book, as \<open>suil::http::parser::feed\<close> reads them, and what the class
  makes of headers without a value and of targets without a query.
\<close>

section \<open>The text of a request\<close>

definition request_head :: "http_method \<Rightarrow> string \<Rightarrow> (string \<times> string) list \<Rightarrow> string" where
  "request_head m t hs = method_string m @ SP # t @ SP # ''HTTP/1.1'' @ CR # LF # concat (map header_text hs) @ [CR, LF]"

definition request_text :: "http_method \<Rightarrow> string \<Rightarrow> (string \<times> string) list \<Rightarrow> string \<Rightarrow> string" where
  "request_text m t hs b = request_head m t hs @ b"

text \<open>A parser at the start of a request.\<close>

definition at_request :: "message http_parser \<Rightarrow> bool" where
  "at_request p \<longleftrightarrow> parser_type p = HTTP_REQUEST \<and> state p = s_start_req \<and> errno p = HPE_OK \<and> nread p = 0"

text \<open>The members of the class after the headers.\<close>

definition after_headers :: "string \<Rightarrow> (string \<times> string) list \<Rightarrow> message \<Rightarrow> message" where
  "after_headers t hs u = (clear_msg u)\<lparr>raw_url := t, msg_headers := hs, headers_complete := True\<rparr>"

lemma events_of_headers: "events_of hs = concat (map header_events (map (\<lambda>h. ([fst h], [snd h])) hs))"
  by (simp add: events_of_def comp_def)

lemma map_joined: "map joined (map (\<lambda>h. ([fst h], [snd h])) hs) = hs"
  by (simp add: joined_def comp_def)

lemma fold_events_of:
  assumes "\<forall>x \<in> set hs. header_ok x" and "v = [] \<longleftrightarrow> n = []"
  shows "\<exists>l' n' v'. fold run_event (events_of hs) (with_headers l n v u) = with_headers l' n' v' u \<and>
    (v' = [] \<longleftrightarrow> n' = []) \<and> pending l' n' v' = pending l n v @ hs"
proof -
  have "\<forall>h \<in> set (map (\<lambda>h. ([fst h], [snd h])) hs). concat (fst h) \<noteq> [] \<and> concat (snd h) \<noteq> []"
    using assms(1) by (auto simp: header_ok_def name_ok_def value_ok_def)
  from fold_headers [OF assms(2) this, of l u] show ?thesis unfolding events_of_headers map_joined .
qed

lemma start_of_headers: "(clear_msg u)\<lparr>raw_url := t\<rparr> = with_headers [] [] [] ((clear_msg u)\<lparr>raw_url := t\<rparr>)"
  by (simp add: with_headers_def clear_msg_def STATE_FIELD_def)

lemma end_of_pending:
  assumes "v = [] \<longleftrightarrow> n = []" and "pending l n v = hs"
  shows "headers_complete_msg (with_headers l n v ((clear_msg u)\<lparr>raw_url := t\<rparr>)) = after_headers t hs u"
  unfolding headers_complete_pending [OF assms(1)] assms(2)
  by (simp add: with_headers_def after_headers_def clear_msg_def STATE_FIELD_def)

lemma events_after_headers:
  assumes "\<forall>x \<in> set hs. header_ok x"
  shows "headers_complete_msg (fold run_event (events_of hs) ((clear_msg u)\<lparr>raw_url := t\<rparr>)) = after_headers t hs u"
proof -
  let ?u = "(clear_msg u)\<lparr>raw_url := t\<rparr>"
  obtain l n v where f: "fold run_event (events_of hs) (with_headers [] [] [] ?u) = with_headers l n v ?u"
    "v = [] \<longleftrightarrow> n = []" "pending l n v = hs"
    using fold_events_of [OF assms, of "[]" "[]" "[]" ?u] by (auto simp: pending_def)
  show ?thesis by (subst start_of_headers, subst f(1), rule end_of_pending [OF f(2,3)])
qed

text \<open>A header without a value between two others: the next name is appended to its name.\<close>

lemma events_after_empty:
  assumes hs: "\<forall>x \<in> set (hs1 @ x # hs2). header_ok x" and n: "n \<noteq> []"
  shows "headers_complete_msg (fold run_event (events_of (x # hs2)) (header_value_msg [] (header_field_msg n
      (fold run_event (events_of hs1) ((clear_msg u)\<lparr>raw_url := t\<rparr>))))) = after_headers t (hs1 @ (n @ fst x, snd x) # hs2) u"
proof -
  let ?u = "(clear_msg u)\<lparr>raw_url := t\<rparr>"
  have x: "fst x \<noteq> []" "snd x \<noteq> []" using hs by (auto simp: header_ok_def name_ok_def value_ok_def)
  obtain l n1 v1 where 1: "fold run_event (events_of hs1) (with_headers [] [] [] ?u) = with_headers l n1 v1 ?u"
    "v1 = [] \<longleftrightarrow> n1 = []" "pending l n1 v1 = hs1"
    using fold_events_of [of hs1 "[]" "[]" "[]" ?u] hs by (auto simp: pending_def)
  have 2: "header_value_msg [] (header_field_msg n (with_headers l n1 v1 ?u)) = with_headers hs1 n [] ?u"
    using fold_header [of "([n], [[]])" l n1 v1 ?u] 1(2,3) by (simp add: header_events_def split: if_splits)
  have 3: "fold run_event (header_events ([fst x], [snd x])) (with_headers hs1 n [] ?u) = with_headers hs1 (n @ fst x) (snd x) ?u"
    using fold_header [of "([fst x], [snd x])" hs1 n "[]" ?u] by (simp add: pending_def)
  obtain l' n' v' where 4: "fold run_event (events_of hs2) (with_headers hs1 (n @ fst x) (snd x) ?u) = with_headers l' n' v' ?u"
    "v' = [] \<longleftrightarrow> n' = []" "pending l' n' v' = hs1 @ (n @ fst x, snd x) # hs2"
    using fold_events_of [of hs2 "snd x" "n @ fst x" hs1 ?u] hs x by (auto simp: pending_def)
  have "events_of (x # hs2) = header_events ([fst x], [snd x]) @ events_of hs2" by (simp add: events_of_def)
  then have "fold run_event (events_of (x # hs2)) (header_value_msg [] (header_field_msg n (fold run_event (events_of hs1) ?u))) =
      with_headers l' n' v' ?u"
    by (subst start_of_headers) (simp only: 1(1) 2 3 4(1) fold_append comp_def)
  then show ?thesis using end_of_pending [OF 4(2,3)] by simp
qed

section \<open>From the first byte to the blank line\<close>

lemma target_no_NUL: "target_ok t \<Longrightarrow> NUL \<notin> set t"
  using target_char_not by (fastforce simp: target_ok_def)

lemma loop_request_line:
  assumes "at_request p" and "m \<noteq> HTTP_CONNECT" and "target_ok t" and n: "length (method_string m) + length t + 12 < 81920"
  shows "\<exists>i. loop p (\<lambda>_. None) a (method_string m @ SP # t @ SP # ''HTTP/1.1'' @ CR # LF # r) =
    loop (req s_header_field_start (header_state p) i (length (method_string m) + length t + 12) 1 1 (status_code p) m (upgrade p)
      ULLONG_MAX ((clear_msg (user p))\<lparr>raw_url := t\<rparr>)) (\<lambda>_. None)
      (a @ method_string m @ SP # t @ SP # ''HTTP/1.1'' @ [CR, LF]) r"
proof -
  let ?u = "clear_msg (user p)" and ?h = "header_state p" and ?mj = "http_major p" and ?mi = "http_minor p"
  let ?M = "method_string m" and ?sc = "status_code p" and ?up = "upgrade p" and ?V = "''HTTP/1.1'' @ CR # LF # r"
  obtain g where g: "first_method (hd ?M) = Some g" "IS_ALPHA (hd ?M)" "match_method g 1 (tl ?M) = Some (m, length ?M)"
    using match_method_all by blast
  have M: "?M = hd ?M # tl ?M" "1 + length (tl ?M) = length ?M" "length ?M < 200" by (cases m; simp)+
  have mc: "\<forall>c \<in> set (tl ?M). c \<noteq> NUL \<and> c \<noteq> SP" using method_chars M(1) by (metis list.set_intros(2))
  obtain s where t: "t = CHR ''/'' # s" "\<forall>c \<in> set s. target_char c" using assms(3) by (auto simp: target_ok_def)
  let ?r = "SP # t @ SP # ?V"
  have 1: "loop p (\<lambda>_. None) a (hd ?M # tl ?M @ ?r) =
      loop (req s_req_method ?h 1 1 ?mj ?mi ?sc g ?up ULLONG_MAX ?u) (\<lambda>_. None) (a @ [hd ?M]) (tl ?M @ ?r)"
    using loop_start [of p "hd ?M" g "\<lambda>_. None" a "tl ?M @ ?r"] assms(1) g(1,2) by (simp add: at_request_def)
  have 2: "loop (req s_req_method ?h 1 1 ?mj ?mi ?sc g ?up ULLONG_MAX ?u) (\<lambda>_. None) (a @ [hd ?M]) (tl ?M @ ?r) =
      loop (req s_req_method ?h (length ?M) (length ?M) ?mj ?mi ?sc m ?up ULLONG_MAX ?u) (\<lambda>_. None) ((a @ [hd ?M]) @ tl ?M) ?r"
    using loop_method [OF g(3) mc, where h = ?h and nr = 1 and mj = ?mj and mi = ?mi and sc = ?sc and up = ?up
      and cl = ULLONG_MAX and u = ?u and mk = "\<lambda>_. None" and a = "a @ [hd ?M]" and r = ?r] M(3)
    unfolding M(2) by simp
  have 3: "loop (req s_req_method ?h (length ?M) (length ?M) ?mj ?mi ?sc m ?up ULLONG_MAX ?u) (\<lambda>_. None) (a @ ?M) ?r =
      loop (req s_req_spaces_before_url ?h (length ?M + 1) (length ?M + 1) ?mj ?mi ?sc m ?up ULLONG_MAX ?u) (\<lambda>_. None) ((a @ ?M) @ [SP])
        (CHR ''/'' # s @ SP # ?V)"
    using M(3) t(1) by (subst loop_method_space) simp_all
  have 4: "loop (req s_req_spaces_before_url ?h (length ?M + 1) (length ?M + 1) ?mj ?mi ?sc m ?up ULLONG_MAX ?u) (\<lambda>_. None) ((a @ ?M) @ [SP])
        (CHR ''/'' # s @ SP # ?V) =
      loop (req s_req_path ?h (length ?M + 1) (length ?M + 2) ?mj ?mi ?sc m ?up ULLONG_MAX ?u)
        ((\<lambda>_. None)(M_url := Some (length ((a @ ?M) @ [SP])))) (((a @ ?M) @ [SP]) @ ''/'') (s @ SP # ?V)"
    using assms(2) M(3) by (subst loop_target_start) simp_all
  obtain st where st: "st \<in> target_states"
    "loop (req s_req_path ?h (length ?M + 1) (length ?M + 2) ?mj ?mi ?sc m ?up ULLONG_MAX ?u)
        ((\<lambda>_. None)(M_url := Some (length ((a @ ?M) @ [SP])))) (((a @ ?M) @ [SP]) @ ''/'') (s @ SP # ?V) =
      loop (req st ?h (length ?M + 1) (length ?M + 2 + length s) ?mj ?mi ?sc m ?up ULLONG_MAX ?u)
        ((\<lambda>_. None)(M_url := Some (length ((a @ ?M) @ [SP])))) ((((a @ ?M) @ [SP]) @ ''/'') @ s) (SP # ?V)"
    using loop_target_chars [OF t(2), of s_req_path "length ?M + 2" ?h "length ?M + 1" ULLONG_MAX ?mj ?mi ?sc m ?up ?u
      "(\<lambda>_. None)(M_url := Some (length ((a @ ?M) @ [SP])))" "((a @ ?M) @ [SP]) @ ''/''" "SP # ?V"] n t(1)
    by (auto simp: target_states_def)
  have 5: "loop (req st ?h (length ?M + 1) (length ?M + 2 + length s) ?mj ?mi ?sc m ?up ULLONG_MAX ?u)
        ((\<lambda>_. None)(M_url := Some (length ((a @ ?M) @ [SP])))) (((a @ ?M) @ [SP]) @ t) (SP # ?V) =
      loop (req s_reqHTTP_start ?h (length ?M + 1) (length ?M + length s + 3) ?mj ?mi ?sc m ?up ULLONG_MAX (?u\<lparr>raw_url := t\<rparr>))
        (\<lambda>_. None) ((((a @ ?M) @ [SP]) @ t) @ [SP]) ?V"
    using n t(1) by (subst loop_target_end [OF st(1)]) (simp_all add: clear_msg_def numeral_3_eq_3)
  have 6: "loop (req s_reqHTTP_start ?h (length ?M + 1) (length ?M + length s + 3) ?mj ?mi ?sc m ?up ULLONG_MAX (?u\<lparr>raw_url := t\<rparr>))
        (\<lambda>_. None) ((((a @ ?M) @ [SP]) @ t) @ [SP]) ?V =
      loop (req s_header_field_start ?h (length ?M + 1) (length ?M + length s + 3 + 10) 1 1 ?sc m ?up ULLONG_MAX (?u\<lparr>raw_url := t\<rparr>))
        (\<lambda>_. None) (((((a @ ?M) @ [SP]) @ t) @ [SP]) @ ''HTTP/1.1'' @ [CR, LF]) r"
    by (rule loop_version) (use n t(1) in simp)
  have nr: "length ?M + length s + 3 + 10 = length ?M + length t + 12" by (simp add: t(1))
  have b: "hd ?M # tl ?M @ ?r = ?M @ SP # t @ SP # ?V" "(a @ [hd ?M]) @ tl ?M = a @ ?M" using M(1) by simp_all
  have c: "(((a @ ?M) @ [SP]) @ ''/'') @ s = ((a @ ?M) @ [SP]) @ t"
    "((((a @ ?M) @ [SP]) @ t) @ [SP]) @ ''HTTP/1.1'' @ [CR, LF] = a @ ?M @ SP # t @ SP # ''HTTP/1.1'' @ [CR, LF]" by (simp_all add: t(1))
  show ?thesis
    by (intro exI [of _ "length ?M + 1"])
      (use 1 [unfolded b] 2 [unfolded b] 3 4 st(2) [unfolded c] 5 6 [unfolded c nr] in \<open>simp only:\<close>)
qed

text \<open>The length the headers declare covers the body.\<close>

definition length_declared :: "(string \<times> string) list \<Rightarrow> string \<Rightarrow> bool" where
  "length_declared hs b \<longleftrightarrow>
     fold length_after hs ULLONG_MAX = length b \<and> length b < ULLONG_MAX \<or> b = [] \<and> fold length_after hs ULLONG_MAX = ULLONG_MAX"

definition request_ok :: "http_method \<Rightarrow> string \<Rightarrow> (string \<times> string) list \<Rightarrow> string \<Rightarrow> bool" where
  "request_ok m t hs b \<longleftrightarrow> m \<noteq> HTTP_CONNECT \<and> target_ok t \<and> list_all header_ok hs \<and> length_declared hs b \<and>
     length (request_head m t hs) \<le> 80 * 1024"

definition received :: "string \<Rightarrow> (string \<times> string) list \<Rightarrow> string \<Rightarrow> message \<Rightarrow> message" where
  "received t hs b u = complete_msg ((after_headers t hs u)\<lparr>msg_body := b\<rparr>)"

lemma loop_finish:
  assumes "line_start st g" and "m \<noteq> HTTP_CONNECT" and n: "nr + 2 \<le> 81920"
    and l: "cl = length b \<and> length b < ULLONG_MAX \<or> b = [] \<and> cl = ULLONG_MAX"
    and u': "headers_complete_msg u = u'" "msg_body u' = []"
  shows "\<exists>h i. loop (req st g j nr 1 1 sc m up cl u) (\<lambda>_. None) a (CR # LF # b @ r) =
    loop (req s_start_req h i 0 1 1 sc m False (u32 (length b)) (complete_msg (u'\<lparr>msg_body := b\<rparr>))) (\<lambda>_. None)
      (a @ CR # LF # b) r"
proof -
  let ?p = "if cl = 0 \<or> cl = ULLONG_MAX then req s_start_req g j 0 1 1 sc m False (u32 (length (msg_body u'))) (complete_msg u')
      else req s_body_identity g j 0 1 1 sc m False cl u'"
  have 1: "loop (req st g j nr 1 1 sc m up cl u) (\<lambda>_. None) a (CR # LF # b @ r) =
      loop (req s_headers_almost_done g j (nr + 1) 1 1 sc m up cl u) (\<lambda>_. None) (a @ [CR]) (LF # b @ r)"
    using n by (intro loop_blank assms(1)) simp
  have 2: "loop (req s_headers_almost_done g j (nr + 1) 1 1 sc m up cl u) (\<lambda>_. None) (a @ [CR]) (LF # b @ r) =
      loop ?p (\<lambda>_. None) ((a @ [CR]) @ [LF]) (b @ r)"
    by (rule loop_byte)
      (use n end_of_headers [OF assms(2)] in \<open>simp_all add: PARSING_HEADER_def less_eq_http_state_def u'(1) [symmetric]\<close>)
  have 3: "\<exists>h i. loop ?p (\<lambda>_. None) ((a @ [CR]) @ [LF]) (b @ r) =
      loop (req s_start_req h i 0 1 1 sc m False (u32 (length b)) (complete_msg (u'\<lparr>msg_body := b\<rparr>))) (\<lambda>_. None)
        (((a @ [CR]) @ [LF]) @ b) r"
  proof (cases "b = []")
    case True
    have c: "cl = 0 \<or> cl = ULLONG_MAX" using l True by auto
    have u: "u'\<lparr>msg_body := b\<rparr> = u'" using True u'(2) by simp
    show ?thesis unfolding if_P [OF c] u u'(2) by (intro exI [of _ g] exI [of _ j]) (simp only: True append_Nil append_Nil2)
  next
    case False
    then have c: "cl = length b" "length b < ULLONG_MAX" "\<not> (cl = 0 \<or> cl = ULLONG_MAX)" using l by auto
    show ?thesis
      using loop_body [OF False c(2), of g j sc m u' "(a @ [CR]) @ [LF]" r]
      unfolding if_not_P [OF c(3)] unfolding c(1) u'(2) by auto
  qed
  have t: "((a @ [CR]) @ [LF]) @ b = a @ CR # LF # b" by simp
  show ?thesis using 3 unfolding t 1 2 .
qed

lemma loop_request:
  assumes p: "at_request p" and ok: "request_ok m t hs b"
  shows "\<exists>h i. loop p (\<lambda>_. None) a (request_text m t hs b @ r) =
    loop (req s_start_req h i 0 1 1 (status_code p) m False (u32 (length b)) (received t hs b (user p))) (\<lambda>_. None)
      (a @ request_text m t hs b) r"
proof -
  let ?H = "concat (map header_text hs)" and ?u = "(clear_msg (user p))\<lparr>raw_url := t\<rparr>"
  let ?sc = "status_code p" and ?up = "upgrade p" and ?n = "length (method_string m) + length t + 12"
  let ?L = "a @ method_string m @ SP # t @ SP # ''HTTP/1.1'' @ [CR, LF]" and ?cl = "fold length_after hs ULLONG_MAX"
  let ?u' = "after_headers t hs (user p)"
  have ok': "m \<noteq> HTTP_CONNECT" "target_ok t" "\<forall>x \<in> set hs. header_ok x" "length_declared hs b" "?n + length ?H + 2 \<le> 81920"
    using ok by (auto simp: request_ok_def request_head_def list_all_iff)
  have n: "?n < 81920" "?n + length ?H < 81920" using ok'(5) by simp_all
  obtain i where 1: "loop p (\<lambda>_. None) a (method_string m @ SP # t @ SP # ''HTTP/1.1'' @ CR # LF # ?H @ CR # LF # b @ r) =
      loop (req s_header_field_start (header_state p) i ?n 1 1 ?sc m ?up ULLONG_MAX ?u) (\<lambda>_. None) ?L (?H @ CR # LF # b @ r)"
    using loop_request_line [OF p ok'(1,2) n(1), of a "?H @ CR # LF # b @ r"] by blast
  have ls: "line_start s_header_field_start (header_state p)" by (simp add: line_start_def)
  obtain st h j where 2: "loop (req s_header_field_start (header_state p) i ?n 1 1 ?sc m ?up ULLONG_MAX ?u) (\<lambda>_. None) ?L (?H @ CR # LF # b @ r) =
      loop (req st h j (?n + length ?H) 1 1 ?sc m ?up ?cl (fold run_event (events_of hs) ?u)) (\<lambda>_. None) (?L @ ?H) (CR # LF # b @ r)"
      "line_start st h"
    using loop_headers [OF ls ok'(3) n(2)] by blast
  have b: "msg_body ?u' = []" by (simp add: after_headers_def clear_msg_def)
  note 3 = loop_finish [OF 2(2) ok'(1,5) ok'(4) [unfolded length_declared_def] events_after_headers [OF ok'(3)] b,
      of j ?sc ?up "?L @ ?H" r]
  have t: "request_text m t hs b @ r = method_string m @ SP # t @ SP # ''HTTP/1.1'' @ CR # LF # ?H @ CR # LF # b @ r"
    "(?L @ ?H) @ CR # LF # b = a @ request_text m t hs b" by (simp_all add: request_text_def request_head_def)
  show ?thesis using 3 unfolding t received_def 1 2(1) .
qed

lemma feed_loop:
  assumes "errno p = HPE_OK" and "state p = s_start_req" and "data \<noteq> []" and "errno p' = HPE_OK"
    and "loop p (\<lambda>_. None) [] data = loop p' (\<lambda>_. None) data []"
  shows "feed data p = Some (True, p')"
proof -
  have "initial_marks (state p) = (\<lambda>_. None)"
    using assms(2) by (auto simp: initial_marks_def url_states_def fun_eq_iff split: mark_kind.split)
  moreover have "exec_loop \<lparr>settings = PARSER_SETTINGS, buf = data\<rparr> \<lparr>parser = p, mark = (\<lambda>_. None), pos = 0\<rparr> =
      Some (Next \<lparr>parser = p', mark = (\<lambda>_. None), pos = length data\<rparr>)"
    using assms(5) unfolding loop_end by (simp add: loop_def)
  ultimately show ?thesis
    using assms(1,3,4) by (simp add: feed_def Let_def http_parser_execute_def final_callbacks_def marks_set_def assertion_def
      CALLBACK_DATA_NOADVANCE_def CALLBACK_DATA_AT_def finish_def)
qed

lemma received_at_request: "at_request (req s_start_req h i 0 1 1 sc m False n u)"
  by (simp add: at_request_def)

lemma feed_request:
  assumes p: "at_request p" and ok: "request_ok m t hs b"
  shows "\<exists>h i. feed (request_text m t hs b) p =
    Some (True, req s_start_req h i 0 1 1 (status_code p) m False (u32 (length b)) (received t hs b (user p)))"
proof -
  obtain h i where "loop p (\<lambda>_. None) [] (request_text m t hs b) =
    loop (req s_start_req h i 0 1 1 (status_code p) m False (u32 (length b)) (received t hs b (user p))) (\<lambda>_. None)
      (request_text m t hs b) []"
    using loop_request [OF p ok, of "[]" "[]"] by auto
  moreover have "request_text m t hs b \<noteq> []" by (simp add: request_text_def request_head_def)
  ultimately show ?thesis using p by (intro exI feed_loop) (simp_all add: at_request_def)
qed

lemma complete_msg_keeps:
  "raw_url (complete_msg u) = raw_url u" "msg_headers (complete_msg u) = msg_headers u" "msg_body (complete_msg u) = msg_body u"
  "headers_complete (complete_msg u) = headers_complete u" "body_complete (complete_msg u)"
  by (simp_all add: complete_msg_def Let_def split: outcome.split)

section \<open>A header without a value\<close>

definition empty_header_text :: "string \<Rightarrow> string" where
  "empty_header_text n = n @ '':'' @ [CR, LF]"

lemma loop_empty_header:
  assumes "line_start st g" and "name_ok n" and "nr + length (empty_header_text n) < 81920"
  shows "\<exists>h i'. loop (req st g i nr mj mi sc m up cl u) (\<lambda>_. None) a (empty_header_text n @ r) =
    loop (req s_header_value_discard_lws h i' (nr + length (empty_header_text n)) mj mi sc m up cl (header_field_msg n u)) (\<lambda>_. None)
      (a @ empty_header_text n) r"
proof -
  obtain ch s where n: "n = ch # s" "TOKEN ch \<noteq> NUL" "\<forall>c \<in> set s. TOKEN c \<noteq> NUL"
    using assms(2) by (cases n) (auto simp: name_ok_def)
  let ?mk = "(\<lambda>_. None)(M_header_field := Some (length a))" and ?u = "header_field_msg n u"
  have l: "nr + length s + 4 < 81920" using assms(3) by (simp add: empty_header_text_def n)
  obtain h1 where 1: "loop (req st g i nr mj mi sc m up cl u) (\<lambda>_. None) a (ch # s @ CHR '':'' # CR # LF # r) =
      loop (req s_header_field h1 0 (nr + 1) mj mi sc m up cl u) ?mk (a @ [ch]) (s @ CHR '':'' # CR # LF # r)" "name_inv h1 0 [TOKEN ch]"
    using loop_name_start [OF assms(1) n(2), of nr i cl mj mi sc m up u a "s @ CHR '':'' # CR # LF # r"] l by auto
  obtain h2 i2 where 2: "loop (req s_header_field h1 0 (nr + 1) mj mi sc m up cl u) ?mk (a @ [ch]) (s @ CHR '':'' # CR # LF # r) =
      loop (req s_header_field h2 i2 (nr + 1 + length s) mj mi sc m up cl u) ?mk ((a @ [ch]) @ s) (CHR '':'' # CR # LF # r)"
    using loop_name [OF n(3) 1(2), of "nr + 1" cl mj mi sc m up u ?mk "a @ [ch]" "CHR '':'' # CR # LF # r"] TOKEN_upper [of ch] l by auto
  have 3: "loop (req s_header_field h2 i2 (nr + 1 + length s) mj mi sc m up cl u) ?mk (a @ n) (CHR '':'' # CR # LF # r) =
      loop (req s_header_value_discard_ws h2 i2 (nr + length s + 2) mj mi sc m up cl ?u) (\<lambda>_. None) ((a @ n) @ [CHR '':'']) (CR # LF # r)"
    using l by (intro loop_step) (simp_all add: PARSING_HEADER_def less_eq_http_state_def exec_state_def do_s_header_field_def Let_def
      TOKEN_punct CALLBACK_DATA_def CALLBACK_DATA_AT_def assertion_def upd_def PARSER_SETTINGS_def on_user_def)
  have 4: "loop (req s_header_value_discard_ws h2 i2 (nr + length s + 2) mj mi sc m up cl ?u) (\<lambda>_. None) ((a @ n) @ [CHR '':'']) (CR # LF # r) =
      loop (req s_header_value_discard_ws_almost_done h2 i2 (nr + length s + 3) mj mi sc m up cl ?u) (\<lambda>_. None)
        (((a @ n) @ [CHR '':'']) @ [CR]) (LF # r)"
    using l by (intro loop_step) (simp_all add: PARSING_HEADER_def less_eq_http_state_def exec_state_def do_s_header_value_discard_ws_def upd_def)
  have 5: "loop (req s_header_value_discard_ws_almost_done h2 i2 (nr + length s + 3) mj mi sc m up cl ?u) (\<lambda>_. None)
        (((a @ n) @ [CHR '':'']) @ [CR]) (LF # r) =
      loop (req s_header_value_discard_lws h2 i2 (nr + length s + 4) mj mi sc m up cl ?u) (\<lambda>_. None)
        ((((a @ n) @ [CHR '':'']) @ [CR]) @ [LF]) r"
    using l by (intro loop_step) (simp_all add: PARSING_HEADER_def less_eq_http_state_def exec_state_def
      do_s_header_value_discard_ws_almost_done_def STRICT_CHECK_def upd_def)
  have t: "(a @ [ch]) @ s = a @ n" "ch # s @ CHR '':'' # CR # LF # r = empty_header_text n @ r"
    "(((a @ n) @ [CHR '':'']) @ [CR]) @ [LF] = a @ empty_header_text n" "nr + length s + 4 = nr + length (empty_header_text n)"
    by (simp_all add: n(1) empty_header_text_def)
  show ?thesis
    by (intro exI [of _ h2] exI [of _ i2]) (use 1(1) [unfolded t] 2 [unfolded t] 3 4 5 [unfolded t] in \<open>simp only:\<close>)
qed

lemma loop_after_empty:
  assumes "ch \<noteq> SP" and "ch \<noteq> HT" and "nr < 81920"
  shows "loop (req s_header_value_discard_lws g i nr mj mi sc m up cl u) (\<lambda>_. None) a (ch # r) =
    loop (req s_header_field_start g i nr mj mi sc m up cl (header_value_msg [] u)) (\<lambda>_. None) a (ch # r)"
proof -
  let ?E = "\<lparr>settings = PARSER_SETTINGS, buf = a @ ch # r\<rparr>"
  let ?c = "\<lambda>st u. \<lparr>parser = req st g i (nr + 1) mj mi sc m up cl u, mark = (\<lambda>_. None), pos = length a\<rparr>"
  have "exec_byte ?E ch (?c s_header_value_discard_lws u) = exec_byte ?E ch (?c s_header_field_start (header_value_msg [] u))"
    using assms(1,2) by (intro exec_byte_reexec)
      (simp add: exec_state_def do_s_header_value_discard_lws_def CALLBACK_DATA_NOADVANCE_def CALLBACK_DATA_AT_def MARK_def
        assertion_def upd_def Let_def PARSER_SETTINGS_def on_user_def)
  then show ?thesis unfolding loop_def
    using assms(3) by (subst (1 2) exec_loop_next)
      (simp_all add: count_byte_def PARSING_HEADER_def less_eq_http_state_def HTTP_MAX_HEADER_SIZE_def upd_def Let_def)
qed

text \<open>A request with such a header between the headers \<open>hs1\<close> and \<open>x # hs2\<close>.\<close>

definition request_with_empty :: "http_method \<Rightarrow> string \<Rightarrow> (string \<times> string) list \<Rightarrow> string \<Rightarrow> (string \<times> string) list \<Rightarrow> string \<Rightarrow> string" where
  "request_with_empty m t hs1 n hs2 b = method_string m @ SP # t @ SP # ''HTTP/1.1'' @ CR # LF # concat (map header_text hs1) @
     empty_header_text n @ concat (map header_text hs2) @ CR # LF # b"

lemma feed_request_with_empty:
  assumes p: "at_request p" and ok: "request_ok m t (hs1 @ x # hs2) b" "name_ok n"
    and n: "length (request_with_empty m t hs1 n (x # hs2) []) \<le> 80 * 1024"
  shows "\<exists>h i. feed (request_with_empty m t hs1 n (x # hs2) b) p =
    Some (True, req s_start_req h i 0 1 1 (status_code p) m False (u32 (length b))
      (received t (hs1 @ (n @ fst x, snd x) # hs2) b (user p)))"
proof -
  let ?H1 = "concat (map header_text hs1)" and ?H2 = "concat (map header_text (x # hs2))" and ?u = "(clear_msg (user p))\<lparr>raw_url := t\<rparr>"
  let ?sc = "status_code p" and ?up = "upgrade p" and ?n = "length (method_string m) + length t + 12"
  let ?L = "[] @ method_string m @ SP # t @ SP # ''HTTP/1.1'' @ [CR, LF]" and ?E = "empty_header_text n" and ?B = "CR # LF # b @ []"
  let ?u' = "after_headers t (hs1 @ (n @ fst x, snd x) # hs2) (user p)"
  let ?cl1 = "fold length_after hs1 ULLONG_MAX" and ?u1 = "fold run_event (events_of hs1) ?u"
  let ?u2 = "header_value_msg [] (header_field_msg n ?u1)" and ?n2 = "?n + length ?H1 + length ?E"
  have ok': "m \<noteq> HTTP_CONNECT" "target_ok t" "\<forall>x \<in> set (hs1 @ x # hs2). header_ok x" "length_declared (hs1 @ x # hs2) b"
    using ok by (auto simp: request_ok_def list_all_iff)
  have l: "?n2 + length ?H2 + 2 \<le> 81920" using n by (simp add: request_with_empty_def)
  have n: "?n < 81920" "?n + length ?H1 < 81920" "?n2 < 81920" "?n2 + length ?H2 < 81920" using l by simp_all
  obtain i where 1: "loop p (\<lambda>_. None) [] (method_string m @ SP # t @ SP # ''HTTP/1.1'' @ CR # LF # ?H1 @ ?E @ ?H2 @ ?B) =
      loop (req s_header_field_start (header_state p) i ?n 1 1 ?sc m ?up ULLONG_MAX ?u) (\<lambda>_. None) ?L (?H1 @ ?E @ ?H2 @ ?B)"
    using loop_request_line [OF p ok'(1,2) n(1), of "[]" "?H1 @ ?E @ ?H2 @ ?B"] by blast
  have ls: "line_start s_header_field_start g" for g by (simp add: line_start_def)
  have h1: "\<forall>x \<in> set hs1. header_ok x" and h2: "\<forall>x \<in> set (x # hs2). header_ok x" using ok'(3) by auto
  obtain st h j where 2: "loop (req s_header_field_start (header_state p) i ?n 1 1 ?sc m ?up ULLONG_MAX ?u) (\<lambda>_. None) ?L (?H1 @ ?E @ ?H2 @ ?B) =
      loop (req st h j (?n + length ?H1) 1 1 ?sc m ?up ?cl1 ?u1) (\<lambda>_. None) (?L @ ?H1) (?E @ ?H2 @ ?B)"
      "line_start st h"
    using loop_headers [OF ls h1 n(2)] by blast
  obtain g k where 3: "loop (req st h j (?n + length ?H1) 1 1 ?sc m ?up ?cl1 ?u1) (\<lambda>_. None) (?L @ ?H1) (?E @ ?H2 @ ?B) =
      loop (req s_header_value_discard_lws g k ?n2 1 1 ?sc m ?up ?cl1 (header_field_msg n ?u1)) (\<lambda>_. None) ((?L @ ?H1) @ ?E) (?H2 @ ?B)"
    using loop_empty_header [OF 2(2) ok(2) n(3), of j ?cl1 1 1 ?sc m ?up ?u1 "?L @ ?H1" "?H2 @ ?B"] by blast
  obtain ch s where ch: "?H2 @ ?B = ch # s" "TOKEN ch \<noteq> NUL"
    using h2 by (cases "fst x") (auto simp: header_text_def header_ok_def name_ok_def)
  have 4: "loop (req s_header_value_discard_lws g k ?n2 1 1 ?sc m ?up ?cl1 (header_field_msg n ?u1)) (\<lambda>_. None) ((?L @ ?H1) @ ?E) (?H2 @ ?B) =
      loop (req s_header_field_start g k ?n2 1 1 ?sc m ?up ?cl1 ?u2) (\<lambda>_. None) ((?L @ ?H1) @ ?E) (?H2 @ ?B)"
    unfolding ch(1) using token_not [OF ch(2)] n(3) by (intro loop_after_empty) simp_all
  obtain st' h' j' where 5: "loop (req s_header_field_start g k ?n2 1 1 ?sc m ?up ?cl1 ?u2) (\<lambda>_. None) ((?L @ ?H1) @ ?E) (?H2 @ ?B) =
      loop (req st' h' j' (?n2 + length ?H2) 1 1 ?sc m ?up (fold length_after (x # hs2) ?cl1) (fold run_event (events_of (x # hs2)) ?u2)) (\<lambda>_. None)
        (((?L @ ?H1) @ ?E) @ ?H2) ?B" "line_start st' h'"
    using loop_headers [OF ls h2 n(4)] by blast
  have b: "msg_body ?u' = []" by (simp add: after_headers_def clear_msg_def)
  have d: "fold length_after (x # hs2) ?cl1 = fold length_after (hs1 @ x # hs2) ULLONG_MAX" by simp
  have ne: "n \<noteq> []" using ok(2) by (simp add: name_ok_def)
  obtain h6 i6 where 6: "loop (req st' h' j' (?n2 + length ?H2) 1 1 ?sc m ?up (fold length_after (x # hs2) ?cl1)
      (fold run_event (events_of (x # hs2)) ?u2)) (\<lambda>_. None) (((?L @ ?H1) @ ?E) @ ?H2) ?B =
    loop (req s_start_req h6 i6 0 1 1 ?sc m False (u32 (length b)) (complete_msg (?u'\<lparr>msg_body := b\<rparr>))) (\<lambda>_. None)
      ((((?L @ ?H1) @ ?E) @ ?H2) @ CR # LF # b) []"
    using loop_finish [OF 5(2) ok'(1) l ok'(4) [unfolded length_declared_def, folded d] events_after_empty [OF ok'(3) ne] b] by blast
  have t: "method_string m @ SP # t @ SP # ''HTTP/1.1'' @ CR # LF # ?H1 @ ?E @ ?H2 @ ?B = request_with_empty m t hs1 n (x # hs2) b"
    "(((?L @ ?H1) @ ?E) @ ?H2) @ CR # LF # b = request_with_empty m t hs1 n (x # hs2) b" by (simp_all add: request_with_empty_def)
  have "loop p (\<lambda>_. None) [] (request_with_empty m t hs1 n (x # hs2) b) =
      loop (req s_start_req h6 i6 0 1 1 ?sc m False (u32 (length b)) (received t (hs1 @ (n @ fst x, snd x) # hs2) b (user p))) (\<lambda>_. None)
        (request_with_empty m t hs1 n (x # hs2) b) []"
    using 1 2(1) 3 4 5(1) 6 unfolding t received_def by (simp only:)
  moreover have "request_with_empty m t hs1 n (x # hs2) b \<noteq> []" by (simp add: request_with_empty_def)
  ultimately show ?thesis using p by (intro exI feed_loop) (simp_all add: at_request_def)
qed

text \<open>Two requests that satisfy the hypotheses.\<close>

lemma sample_request:
  "request_ok HTTP_POST ''/a?k=v%20w'' [(''Host'', ''b''), (''Content-Length'', ''2'')] ''hi''"
proof -
  have "target_ok ''/a?k=v%20w''"
    unfolding target_ok_def by (intro exI [of _ "''a?k=v%20w''"] conjI) (simp, code_simp)
  moreover have "name_ok ''Host'' \<and> map TOKEN ''Host'' = ''host'' \<and> name_ok ''Content-Length'' \<and> map TOKEN ''Content-Length'' = ''content-length''"
    by code_simp
  ultimately show ?thesis
    by (simp add: request_ok_def request_head_def header_ok_def value_ok_def length_declared_def length_after_def decimal_def
      digit_def ucode_def IS_NUM_def between_def ULLONG_MAX_def header_text_def)
qed

lemma new_parser_at_request: "at_request (new_parser HTTP_REQUEST)"
  by (simp add: at_request_def new_parser_def http_parser_init_def)

lemma sample_get: "request_ok HTTP_GET ''/x'' [] []"
proof -
  have "target_ok ''/x''" unfolding target_ok_def by (intro exI [of _ "''x''"] conjI) (simp, code_simp)
  then show ?thesis by (simp add: request_ok_def request_head_def length_declared_def)
qed

lemma sample_query: "''/a'' @ ''?'' @ url_query [(''k'', ''v w'')] = ''/a?k=v%20w''"
  by code_simp

section \<open>The message\<close>



text \<open>C33: The query of a request line that a client wrote with URL-encoded parameters is the query
  string of the message: get returns the value of the first pair with the key.\<close>
theorem http_request_query:
  assumes "at_request p" and "request_ok m (path @ ''?'' @ url_query kvs) hs b"
    and "CHR ''?'' \<notin> set path" and "kvs \<noteq> []" and "length kvs \<le> 256" and "\<forall>kv \<in> set kvs. clean kv"
    and "\<forall>c \<in> set key. key_char c"
  shows "\<exists>p'. feed (request_text m (path @ ''?'' @ url_query kvs) hs b) p = Some (True, p') \<and>
    msg_url (user p') = Some path \<and> broken (user p') = broken (user p) \<and>
    qs_get key (msg_qps (user p')) = (case map_of kvs key of Some v \<Rightarrow> Value v | None \<Rightarrow> Undefined)"
proof -
  let ?t = "path @ ''?'' @ url_query kvs" and ?u = "user p"
  obtain q where q: "QueryString (''?'' @ url_query kvs) = Value q"
    "qs_get key q = (case map_of kvs key of Some v \<Rightarrow> Value v | None \<Rightarrow> Undefined)"
    using query_lookup [of "[]" kvs key] assms(4-7) by (auto simp: url_path_ok_def)
  have t: "takeWhile (\<lambda>c. c \<noteq> CHR ''?'') ?t = path" "drop (length path) ?t = ''?'' @ url_query kvs"
    using assms(3) by (simp_all add: takeWhile_append)
  have ne: "path \<noteq> []" and nul: "takeWhile (\<lambda>c. c \<noteq> NUL) path = path"
    using assms(2) target_no_NUL [of ?t] by (auto simp: request_ok_def target_ok_def takeWhile_eq_all_conv)
  have "received ?t hs b ?u = (after_headers ?t hs ?u)\<lparr>msg_body := b, msg_url := Some path,
      msg_qps := fst (qs_move (msg_qps (after_headers ?t hs ?u)) q), body_complete := True\<rparr>"
    using ne nul t q(1) by (simp add: received_def complete_msg_def Let_def after_headers_def)
  then have "msg_url (received ?t hs b ?u) = Some path" "broken (received ?t hs b ?u) = broken ?u"
    "qs_get key (msg_qps (received ?t hs b ?u)) = qs_get key q"
    by (simp_all add: after_headers_def clear_msg_def qs_move_def qs_get_def)
  with q(2) feed_request [OF assms(1,2)] show ?thesis by fastforce
qed

theorem http_request_query_witness:
  "\<exists>p'. feed (request_text HTTP_POST (''/a'' @ ''?'' @ url_query [(''k'', ''v w'')]) [(''Host'', ''b''), (''Content-Length'', ''2'')] ''hi'')
      (new_parser HTTP_REQUEST) = Some (True, p') \<and>
    msg_url (user p') = Some ''/a'' \<and> broken (user p') = broken (user (new_parser HTTP_REQUEST)) \<and>
    qs_get ''k'' (msg_qps (user p')) = (case map_of [(''k'', ''v w'')] ''k'' of Some v \<Rightarrow> Value v | None \<Rightarrow> Undefined)"
  by (rule http_request_query [OF new_parser_at_request])
    (use sample_request in \<open>simp_all only: sample_query\<close>, simp_all add: clean_def key_char_def QS_ISQSCHR_def)

text \<open>The target without a question mark, which is what most requests have: the view that
  on_msg_complete gives to the query string starts one byte before the URL.\<close>
theorem http_request_no_query:
  assumes "at_request p" and "request_ok m t hs b" and "CHR ''?'' \<notin> set t"
  shows "\<exists>p'. feed (request_text m t hs b) p = Some (True, p') \<and> msg_url (user p') = Some t \<and> broken (user p')"
proof -
  have t: "takeWhile (\<lambda>c. c \<noteq> CHR ''?'') t = t" using assms(3) by (auto simp: takeWhile_eq_all_conv)
  have "target_ok t" using assms(2) by (simp add: request_ok_def)
  then have ne: "t \<noteq> []" and nul: "takeWhile (\<lambda>c. c \<noteq> NUL) t = t"
    using target_no_NUL [of t] by (auto simp: target_ok_def takeWhile_eq_all_conv)
  have "msg_url (received t hs b (user p)) = Some t \<and> broken (received t hs b (user p))"
    using ne assms(3) by (simp add: received_def complete_msg_def Let_def after_headers_def t nul)
  with feed_request [OF assms(1,2)] show ?thesis by fastforce
qed

theorem http_request_no_query_witness:
  "\<exists>p'. feed (request_text HTTP_GET ''/x'' [] []) (new_parser HTTP_REQUEST) = Some (True, p') \<and>
    msg_url (user p') = Some ''/x'' \<and> broken (user p')"
  by (rule http_request_no_query [OF new_parser_at_request sample_get]) simp

section \<open>Requests one behind the other\<close>

type_synonym request = "http_method \<times> string \<times> (string \<times> string) list \<times> string"

definition request_bytes :: "request \<Rightarrow> string" where
  "request_bytes = (\<lambda>(m, t, hs, b). request_text m t hs b)"

definition ok_request :: "request \<Rightarrow> bool" where
  "ok_request = (\<lambda>(m, t, hs, b). request_ok m t hs b)"

lemma loop_requests:
  assumes "at_request p" and "\<forall>x \<in> set rs. ok_request x"
  shows "\<exists>p'. loop p (\<lambda>_. None) a (concat (map request_bytes rs)) = loop p' (\<lambda>_. None) (a @ concat (map request_bytes rs)) [] \<and> at_request p' \<and>
    (\<forall>m t hs b. rs \<noteq> [] \<and> last rs = (m, t, hs, b) \<longrightarrow> method p' = m \<and> (\<exists>u. user p' = received t hs b u))"
  using assms
proof (induction rs arbitrary: p a)
  case (Cons x rs)
  obtain m t hs b where x: "x = (m, t, hs, b)" by (cases x)
  obtain h i where 1: "loop p (\<lambda>_. None) a (request_bytes x @ concat (map request_bytes rs)) =
      loop (req s_start_req h i 0 1 1 (status_code p) m False (u32 (length b)) (received t hs b (user p))) (\<lambda>_. None)
        (a @ request_bytes x) (concat (map request_bytes rs))"
    using loop_request [OF Cons.prems(1), of m t hs b a "concat (map request_bytes rs)"] Cons.prems(2) by (auto simp: x ok_request_def request_bytes_def)
  let ?p = "req s_start_req h i 0 1 1 (status_code p) m False (u32 (length b)) (received t hs b (user p))"
  show ?case
  proof (cases "rs = []")
    case True
    with 1 show ?thesis by (intro exI [of _ ?p]) (auto simp: x at_request_def)
  next
    case False
    have "\<forall>x \<in> set rs. ok_request x" using Cons.prems(2) by simp
    from Cons.IH [OF received_at_request [of h i "u32 (length b)" "status_code p" m "received t hs b (user p)"] this, of "a @ request_bytes x"] 1
    show ?thesis using False by auto
  qed
qed auto

text \<open>Requests that arrive in one buffer are all read, but only the last one is left in the
  parser: each start of a message clears what the one before had collected.\<close>
theorem http_pipelined_last:
  assumes "at_request p" and "\<forall>x \<in> set rs. ok_request x" and "rs \<noteq> []" and "last rs = (m, t, hs, b)"
  shows "\<exists>p'. feed (concat (map request_bytes rs)) p = Some (True, p') \<and> at_request p' \<and> method p' = m \<and>
    raw_url (user p') = t \<and> msg_headers (user p') = hs \<and> msg_body (user p') = b"
proof -
  obtain p' u where p': "loop p (\<lambda>_. None) [] (concat (map request_bytes rs)) = loop p' (\<lambda>_. None) (concat (map request_bytes rs)) []"
    "at_request p'" "method p' = m" "user p' = received t hs b u"
    using loop_requests [OF assms(1,2), of "[]"] assms(3,4) by auto
  have "concat (map request_bytes rs) \<noteq> []"
    using assms(3) by (cases rs) (auto simp: request_bytes_def request_text_def request_head_def split: prod.splits)
  with p'(1,2) assms(1) have "feed (concat (map request_bytes rs)) p = Some (True, p')"
    by (intro feed_loop) (simp_all add: at_request_def)
  with p'(2-4) show ?thesis by (auto simp: received_def complete_msg_keeps after_headers_def clear_msg_def)
qed

theorem http_pipelined_last_witness:
  "\<exists>p'. feed (concat (map request_bytes [(HTTP_POST, ''/a?k=v%20w'', [(''Host'', ''b''), (''Content-Length'', ''2'')], ''hi''),
      (HTTP_GET, ''/x'', [], [])])) (new_parser HTTP_REQUEST) = Some (True, p') \<and> at_request p' \<and> method p' = HTTP_GET \<and>
    raw_url (user p') = ''/x'' \<and> msg_headers (user p') = [] \<and> msg_body (user p') = []"
  by (rule http_pipelined_last [OF new_parser_at_request]) (simp_all add: ok_request_def sample_request sample_get)

text \<open>A header without a value is lost: its name is put before the name of the header that
  follows, which is then not found under its own name.\<close>
theorem http_header_merge:
  assumes "at_request p" and "request_ok m t (hs1 @ x # hs2) b" and "name_ok n"
    and "length (request_with_empty m t hs1 n (x # hs2) []) \<le> 80 * 1024"
  shows "\<exists>p'. feed (request_with_empty m t hs1 n (x # hs2) b) p = Some (True, p') \<and>
    msg_headers (user p') = hs1 @ (n @ fst x, snd x) # hs2"
  using feed_request_with_empty [OF assms]
  by (fastforce simp: received_def complete_msg_keeps after_headers_def clear_msg_def)

theorem http_header_merge_witness:
  "\<exists>p'. feed (request_with_empty HTTP_POST ''/a?k=v%20w'' [] ''Accept'' [(''Host'', ''b''), (''Content-Length'', ''2'')] ''hi'')
      (new_parser HTTP_REQUEST) = Some (True, p') \<and>
    msg_headers (user p') = [(''AcceptHost'', ''b''), (''Content-Length'', ''2'')]"
proof -
  have "name_ok ''Accept''" by code_simp
  then show ?thesis
    using http_header_merge [OF new_parser_at_request, of HTTP_POST "''/a?k=v%20w''" "[]" "(''Host'', ''b'')" "[(''Content-Length'', ''2'')]" "''hi''" "''Accept''"]
      sample_request
    by (simp add: request_with_empty_def empty_header_text_def header_text_def)
qed

section \<open>Any data\<close>

text \<open>feed returns for every data, without a failed assertion, and keeps the parser well
  formed unless it reports an error.\<close>
theorem parser_feed_safe:
  assumes "wf_parser 0 p"
  shows "\<exists>r p'. feed data p = Some (r, p') \<and> (errno p' = HPE_OK \<or> errno p' = HPE_PAUSED \<longrightarrow> wf_parser 0 p') \<and>
    (errno p = HPE_OK \<and> errno p' = HPE_OK \<longrightarrow> r \<or> upgrade p')"
  using msg.execute_ok [OF assms, of data] assms unfolding result_ok_def feed_def
  by (cases "errno p = HPE_OK") auto

theorem parser_feed_safe_witness: "\<exists>r p'. feed ''GARBAGE'' (new_parser HTTP_REQUEST) = Some (r, p')"
  unfolding new_parser_def using parser_feed_safe [OF wf_parser_init] by blast

end
