(* ===== verification/Wire.thy ===== *)
theory Wire
  imports UrlCode
begin

text \<open>
  The binary wire format of \<^verbatim>\<open>suil/wire.h\<close> and \<^verbatim>\<open>suil/varint.h\<close> and the boards it is written to.

  The operators of \<open>Wire\<close> call the virtual functions \<open>forward\<close> and \<open>reverse\<close>; here they are the
  fields of a record that the operators take, and what the operators need of them is the locale
  \<open>wire_device\<close>, which \<open>Breadboard\<close> interprets.  The template operators are one function over a
  description of the type that is written.  The host is little endian.
\<close>

section \<open>64-bit numbers in memory\<close>

fun le_nat :: "string \<Rightarrow> nat" where
  "le_nat [] = 0"
| "le_nat (c # m) = ucode c + 256 * le_nat m"

definition load64 :: "string \<Rightarrow> u64" where
  "load64 m = word_of_nat (le_nat m)"

fun le_bytes :: "nat \<Rightarrow> nat \<Rightarrow> string" where
  "le_bytes 0 n = []"
| "le_bytes (Suc k) n = char_of (n mod 256) # le_bytes k (n div 256)"

definition store64 :: "u64 \<Rightarrow> string" where
  "store64 w = le_bytes 8 (unat w)"

text \<open>\<open>htobe64\<close> and \<open>be64toh\<close>\<close>

definition swap64 :: "u64 \<Rightarrow> u64" where
  "swap64 w = load64 (rev (store64 w))"

lemma length_le_bytes [simp]: "length (le_bytes k n) = k"
  by (induction k arbitrary: n) simp_all

lemma length_store64 [simp]: "length (store64 w) = 8"
  by (simp add: store64_def)

lemma le_nat_bytes: "le_nat (le_bytes k n) = n mod 256 ^ k"
proof (induction k arbitrary: n)
  case (Suc k)
  then show ?case by (simp add: ucode_def mod_mult2_eq)
qed simp

lemma le_nat_less: "le_nat m < 256 ^ length m"
proof (induction m)
  case (Cons c m)
  then have "256 * le_nat m + 255 < 256 * 256 ^ length m" by linarith
  moreover have "ucode c \<le> 255" by (rule ucode_le)
  ultimately have "ucode c + 256 * le_nat m < 256 * 256 ^ length m" by linarith
  then show ?case by simp
qed simp

lemma le_bytes_nat: "le_bytes (length m) (le_nat m) = m"
proof (induction m)
  case (Cons c m)
  have "(ucode c + 256 * le_nat m) mod 256 = ucode c" "(ucode c + 256 * le_nat m) div 256 = le_nat m" by simp_all
  with Cons show ?case by simp
qed simp

lemma le_nat_append: "le_nat (m @ n) = le_nat m + 256 ^ length m * le_nat n"
  by (induction m) (simp_all add: algebra_simps)

lemma le_nat_zeros: "le_nat (replicate k NUL) = 0"
  by (induction k) (simp_all add: ucode_def)

lemma load_store64 [simp]: "load64 (store64 w) = w"
proof -
  have "unat w < 256 ^ 8" using unsigned_less [of w] by simp
  then show ?thesis by (simp add: load64_def store64_def le_nat_bytes)
qed

lemma store_load64: "length m = 8 \<Longrightarrow> store64 (load64 m) = m"
  using le_nat_less [of m] le_bytes_nat [of m] by (simp add: store64_def load64_def unat_of_nat take_bit_nat_def)

lemma swap_swap64 [simp]: "swap64 (swap64 w) = w"
  by (simp add: swap64_def store_load64)

section \<open>VarInt\<close>

text \<open>\<open>mData\<close> is the eight bytes of the number, the most significant first.\<close>

record varint =
  mData :: string

definition vi_read :: "varint \<Rightarrow> u64" where
  "vi_read v = swap64 (load64 (mData v))"

definition vi_write :: "u64 \<Rightarrow> varint \<Rightarrow> varint" where
  "vi_write w v = v\<lparr>mData := store64 (swap64 w)\<rparr>"

definition VarInt :: "u64 \<Rightarrow> varint" where
  "VarInt w = vi_write w \<lparr>mData = []\<rparr>"

text \<open>\<open>while (tmp > 0) { tmp >>= 8; sz++; }\<close> with an eight bit counter\<close>

function length_loop :: "u64 \<Rightarrow> nat \<Rightarrow> nat" where
  "length_loop tmp sz = (if 0 < tmp then length_loop (drop_bit 8 tmp) ((sz + 1) mod 256) else sz)"
  by pat_completeness auto
termination
  by (relation "measure (\<lambda>(tmp, _). unat tmp)")
    (auto simp: unat_shr word_gt_0 unat_gt_0)

declare length_loop.simps [simp del]

definition vi_length :: "varint \<Rightarrow> nat" where
  "vi_length v = length_loop (vi_read v) 0"

lemma read_VarInt [simp]: "vi_read (VarInt w) = w"
  by (simp add: vi_read_def VarInt_def vi_write_def)

lemma vi_read_write [simp]: "vi_read (vi_write w v) = w"
  by (simp add: vi_read_def vi_write_def)

text \<open>The number of bytes of a number without its leading zeros.\<close>

lemma length_loop_eq:
  "sz + k < 256 \<Longrightarrow> unat w < 256 ^ k \<Longrightarrow> (k = 0 \<or> 256 ^ (k - 1) \<le> unat w) \<Longrightarrow> length_loop w sz = sz + k"
proof (induction k arbitrary: w sz)
  case 0
  then show ?case by (subst length_loop.simps) (simp add: word_gt_0 unat_eq_0)
next
  case (Suc k)
  then have "0 < w" by (metis Suc_neq_Zero diff_Suc_1 not_gr_zero power_not_zero unat_0 word_gt_0 zero_neq_numeral le_zero_eq)
  moreover have "length_loop (drop_bit 8 w) (sz + 1) = (sz + 1) + k"
  proof (rule Suc.IH)
    show "unat (drop_bit 8 w) < 256 ^ k" using Suc.prems(2) by (simp add: unat_shr less_mult_imp_div_less mult.commute)
    show "k = 0 \<or> 256 ^ (k - 1) \<le> unat (drop_bit 8 w)"
    proof (cases k)
      case (Suc j)
      have "256 ^ j = 256 ^ Suc j div (256 :: nat)" by simp
      also have "\<dots> \<le> unat w div 256" using Suc.prems(3) Suc by (intro div_le_mono) simp
      finally show ?thesis using Suc by (simp add: unat_shr)
    qed simp
  qed (use Suc.prems(1) in simp)
  ultimately show ?case using Suc.prems(1) by (subst length_loop.simps) simp
qed

lemma byte_count: "n < 256 ^ 8 \<Longrightarrow> \<exists>k \<le> 8. n < 256 ^ k \<and> (k = 0 \<or> 256 ^ (k - 1) \<le> (n :: nat))"
proof (intro exI conjI)
  let ?k = "LEAST k. n < 256 ^ k"
  assume n: "n < 256 ^ 8"
  show "?k \<le> 8" using n by (rule Least_le)
  show "n < 256 ^ ?k" using n by (rule LeastI)
  show "?k = 0 \<or> 256 ^ (?k - 1) \<le> n"
    using not_less_Least [of "?k - 1" "\<lambda>k. n < 256 ^ k"] by (cases "?k = 0") auto
qed

lemma vi_length_bound: "vi_length v \<le> 8 \<and> unat (vi_read v) < 256 ^ vi_length v"
proof -
  have "unat (vi_read v) < 256 ^ 8" using unsigned_less [of "vi_read v"] by simp
  then obtain k where k: "k \<le> 8" "unat (vi_read v) < 256 ^ k" "k = 0 \<or> 256 ^ (k - 1) \<le> unat (vi_read v)"
    using byte_count by blast
  then have "vi_length v = k" using length_loop_eq [of 0 k "vi_read v"] by (simp add: vi_length_def)
  with k show ?thesis by simp
qed

lemma vi_length_eq:
  assumes "unat (vi_read v) < 256 ^ k" and "k = 0 \<or> 256 ^ (k - 1) \<le> unat (vi_read v)" and "k \<le> 8"
  shows "vi_length v = k"
  using length_loop_eq [of 0 k "vi_read v"] assms by (simp add: vi_length_def)

section \<open>The operators of Wire\<close>

text \<open>The virtual functions: \<open>forward\<close> and the two forms of \<open>reverse\<close>, which copy the bytes or
  return a pointer to them.\<close>

record 'b wire_ops =
  forward :: "string \<Rightarrow> 'b \<Rightarrow> (nat \<times> 'b) outcome"
  reverse :: "nat \<Rightarrow> 'b \<Rightarrow> (string \<times> 'b) outcome"
  reverse_view :: "nat \<Rightarrow> 'b \<Rightarrow> (string \<times> 'b) outcome"

definition push :: "'b wire_ops \<Rightarrow> string \<Rightarrow> 'b \<Rightarrow> (bool \<times> 'b) outcome" where
  "push W e b = map_out (\<lambda>(n, b). (n = length e, b)) (forward W e b)"

definition pull :: "'b wire_ops \<Rightarrow> nat \<Rightarrow> 'b \<Rightarrow> (string \<times> 'b) outcome" where
  "pull W n b = reverse W n b"

definition put_varint :: "'b wire_ops \<Rightarrow> varint \<Rightarrow> 'b \<Rightarrow> 'b outcome" where
  "put_varint W vi b =
     (let sz = vi_length vi in
      bind_out (push W [char_of sz] b) (\<lambda>(_, b).
      map_out snd (push W (take sz (store64 (vi_read vi))) b)))"

text \<open>The bytes are pulled into a variable of eight bytes, however many the length byte says.\<close>

definition get_varint :: "'b wire_ops \<Rightarrow> varint \<Rightarrow> 'b \<Rightarrow> (varint \<times> 'b) outcome" where
  "get_varint W vi b =
     bind_out (pull W 1 b) (\<lambda>(e, b).
       let sz = ucode (hd e) in
       bind_out (pull W sz b) (\<lambda>(e, b).
         if sz > 8 then Undefined
         else Value (vi_write (load64 (e @ replicate (8 - sz) NUL)) vi, b)))"

text \<open>\<open>Data(p, size)\<close> keeps the size in 32 bits.\<close>

definition data_of :: "string \<Rightarrow> string" where
  "data_of s = take (u32 (length s)) s"

definition put_data :: "'b wire_ops \<Rightarrow> string \<Rightarrow> 'b \<Rightarrow> 'b outcome" where
  "put_data W d b =
     bind_out (put_varint W (VarInt (word_of_nat (length d))) b) (\<lambda>b. map_out snd (push W d b))"

definition get_data :: "'b wire_ops \<Rightarrow> string \<Rightarrow> 'b \<Rightarrow> (string \<times> 'b) outcome" where
  "get_data W d b =
     bind_out (get_varint W (VarInt 0) b) (\<lambda>(tmp, b).
       let sz = unat (vi_read tmp) in
       if sz \<noteq> 0 then map_out (\<lambda>(e, b). (data_of e, b)) (reverse_view W sz b)
       else Value (d, b))"

definition put_blob :: "'b wire_ops \<Rightarrow> string \<Rightarrow> 'b \<Rightarrow> 'b outcome" where
  "put_blob W s b =
     bind_out (put_varint W (VarInt (word_of_nat (length s))) b) (\<lambda>b. map_out snd (push W s b))"

text \<open>\<open>Blob<N>::copy\<close> at the start of the blob\<close>

definition blob_copy :: "string \<Rightarrow> string \<Rightarrow> string outcome" where
  "blob_copy s blob = (if length s > length blob then Throw InvalidArguments else Value (s @ drop (length s) blob))"

definition get_blob :: "'b wire_ops \<Rightarrow> string \<Rightarrow> 'b \<Rightarrow> (string \<times> 'b) outcome" where
  "get_blob W blob b =
     bind_out (get_varint W (VarInt 0) b) (\<lambda>(tmp, b).
       let sz = unat (vi_read tmp) in
       if sz \<noteq> 0 then
         bind_out (reverse_view W sz b) (\<lambda>(e, b). map_out (\<lambda>blob. (blob, b)) (blob_copy e blob))
       else Value (blob, b))"

text \<open>\<open>std::string\<close>; a C string is written the same way\<close>

definition put_string :: "'b wire_ops \<Rightarrow> string \<Rightarrow> 'b \<Rightarrow> 'b outcome" where
  "put_string W str = put_data W (data_of str)"

definition get_string :: "'b wire_ops \<Rightarrow> string \<Rightarrow> 'b \<Rightarrow> (string \<times> 'b) outcome" where
  "get_string W str b =
     bind_out (get_data W [] b) (\<lambda>(rv, b). Value (if rv \<noteq> [] then rv else str, b))"

text \<open>Arithmetic types of \<open>k\<close> bytes.\<close>

definition put_num :: "'b wire_ops \<Rightarrow> nat \<Rightarrow> u64 \<Rightarrow> 'b \<Rightarrow> 'b outcome" where
  "put_num W k val b = map_out snd (forward W (take k (store64 val)) b)"

definition get_num :: "'b wire_ops \<Rightarrow> nat \<Rightarrow> 'b \<Rightarrow> (u64 \<times> 'b) outcome" where
  "get_num W k b = map_out (\<lambda>(e, b). (load64 (e @ replicate (8 - k) NUL), b)) (reverse W k b)"

section \<open>Types and values\<close>

text \<open>The C++ types the template operators are instantiated at.  A field of an \<open>iod::sio\<close>
  (\<open>TSio\<close>) or of a meta type (\<open>TMeta\<close>) has the attribute \<open>unwire\<close> or not.\<close>

datatype wire_type =
    TNum nat | TVarInt | TString | TBlob nat | TVector wire_type
  | TSio "(bool \<times> wire_type) list" | TMeta "(bool \<times> wire_type) list"

datatype wire_value =
    VNum u64 | VVarInt u64 | VString string | VBlob string | VVector "wire_value list" | VObject "wire_value list"

text \<open>\<open>always\<close> is the member that \<open>operator()\<close> sets; a meta type asks \<open>isFilterOn()\<close> instead, which
  is its negation.\<close>

fun put :: "'b wire_ops \<Rightarrow> bool \<Rightarrow> wire_type \<Rightarrow> wire_value \<Rightarrow> 'b \<Rightarrow> 'b outcome"
  and put_items :: "'b wire_ops \<Rightarrow> bool \<Rightarrow> wire_type \<Rightarrow> wire_value list \<Rightarrow> 'b \<Rightarrow> 'b outcome"
  and put_fields :: "'b wire_ops \<Rightarrow> bool \<Rightarrow> bool \<Rightarrow> (bool \<times> wire_type) list \<Rightarrow> wire_value list \<Rightarrow> 'b \<Rightarrow> 'b outcome"
where
  "put W always (TNum k) (VNum w) b = put_num W k w b"
| "put W always TVarInt (VVarInt w) b = put_varint W (VarInt w) b"
| "put W always TString (VString s) b = put_string W s b"
| "put W always (TBlob n) (VBlob s) b = put_blob W s b"
| "put W always (TVector t) (VVector vs) b =
     bind_out (put_varint W (VarInt (word_of_nat (length vs))) b) (put_items W always t vs)"
| "put W always (TSio fs) (VObject vs) b = put_fields W always always fs vs b"
| "put W always (TMeta fs) (VObject vs) b = put_fields W always (\<not> always) fs vs b"
| "put W always _ _ b = Undefined"
| "put_items W always t [] b = Value b"
| "put_items W always t (v # vs) b = bind_out (put W always t v b) (put_items W always t vs)"
| "put_fields W always everything [] [] b = Value b"
| "put_fields W always everything ((unwire, t) # fs) (v # vs) b =
     bind_out (if \<not> unwire \<or> everything then put W always t v b else Value b) (put_fields W always everything fs vs)"
| "put_fields W always everything _ _ b = Undefined"

text \<open>What a variable of the type holds before it is read.\<close>

fun initial :: "wire_type \<Rightarrow> wire_value" where
  "initial (TNum k) = VNum 0"
| "initial TVarInt = VVarInt 0"
| "initial TString = VString []"
| "initial (TBlob n) = VBlob (replicate n NUL)"
| "initial (TVector t) = VVector []"
| "initial (TSio fs) = VObject (map (\<lambda>(_, t). initial t) fs)"
| "initial (TMeta fs) = VObject (map (\<lambda>(_, t). initial t) fs)"

text \<open>Reading into a variable that holds a value: entries are appended to a vector, and a field
  that is not on the wire keeps its value.\<close>

fun get :: "'b wire_ops \<Rightarrow> bool \<Rightarrow> wire_type \<Rightarrow> wire_value \<Rightarrow> 'b \<Rightarrow> (wire_value \<times> 'b) outcome"
  and get_items :: "'b wire_ops \<Rightarrow> bool \<Rightarrow> wire_type \<Rightarrow> nat \<Rightarrow> wire_value list \<Rightarrow> 'b \<Rightarrow> (wire_value list \<times> 'b) outcome"
  and get_fields :: "'b wire_ops \<Rightarrow> bool \<Rightarrow> bool \<Rightarrow> (bool \<times> wire_type) list \<Rightarrow> wire_value list \<Rightarrow> 'b \<Rightarrow> (wire_value list \<times> 'b) outcome"
where
  "get W always (TNum k) (VNum w) b = map_out (\<lambda>(w, b). (VNum w, b)) (get_num W k b)"
| "get W always TVarInt (VVarInt w) b = map_out (\<lambda>(vi, b). (VVarInt (vi_read vi), b)) (get_varint W (VarInt w) b)"
| "get W always TString (VString s) b = map_out (\<lambda>(s, b). (VString s, b)) (get_string W s b)"
| "get W always (TBlob n) (VBlob s) b = map_out (\<lambda>(s, b). (VBlob s, b)) (get_blob W s b)"
| "get W always (TVector t) (VVector vs) b =
     bind_out (get_varint W (VarInt 0) b) (\<lambda>(sz, b).
       map_out (\<lambda>(vs, b). (VVector vs, b)) (get_items W always t (unat (vi_read sz)) vs b))"
| "get W always (TSio fs) (VObject vs) b = map_out (\<lambda>(vs, b). (VObject vs, b)) (get_fields W always always fs vs b)"
| "get W always (TMeta fs) (VObject vs) b = map_out (\<lambda>(vs, b). (VObject vs, b)) (get_fields W always (\<not> always) fs vs b)"
| "get W always _ _ b = Undefined"
| "get_items W always t 0 vs b = Value (vs, b)"
| "get_items W always t (Suc n) vs b =
     bind_out (get W always t (initial t) b) (\<lambda>(v, b). get_items W always t n (vs @ [v]) b)"
| "get_fields W always everything [] [] b = Value ([], b)"
| "get_fields W always everything ((unwire, t) # fs) (v # vs) b =
     bind_out (if \<not> unwire \<or> everything then get W always t v b else Value (v, b)) (\<lambda>(v, b).
       map_out (\<lambda>(vs, b). (v # vs, b)) (get_fields W always everything fs vs b))"
| "get_fields W always everything _ _ b = Undefined"

end
