(* ===== verification/WireSpec.thy ===== *)
theory WireSpec
  imports Wire
begin

text \<open>
  The format of the wire as byte strings (\<open>encode\<close>), the contract of a device
  (locale \<open>wire_device\<close>), and what the operators of \<open>Wire\<close> do on every device that keeps it:
  they append the encoding of a value, or throw when it does not fit, and read it back.
\<close>

section \<open>The format\<close>

definition varint_bytes :: "nat \<Rightarrow> string" where
  "varint_bytes n = (let k = vi_length (VarInt (word_of_nat n)) in char_of k # le_bytes k n)"

fun encode :: "bool \<Rightarrow> wire_type \<Rightarrow> wire_value \<Rightarrow> string"
  and encode_fields :: "bool \<Rightarrow> bool \<Rightarrow> (bool \<times> wire_type) list \<Rightarrow> wire_value list \<Rightarrow> string"
where
  "encode al (TNum k) (VNum w) = le_bytes k (unat w)"
| "encode al TVarInt (VVarInt w) = varint_bytes (unat w)"
| "encode al TString (VString s) = varint_bytes (length s) @ s"
| "encode al (TBlob n) (VBlob s) = varint_bytes (length s) @ s"
| "encode al (TVector t) (VVector vs) = varint_bytes (length vs) @ concat (map (encode al t) vs)"
| "encode al (TSio fs) (VObject vs) = encode_fields al al fs vs"
| "encode al (TMeta fs) (VObject vs) = encode_fields al (\<not> al) fs vs"
| "encode al _ _ = []"
| "encode_fields al ev ((u, t) # fs) (v # vs) = (if \<not> u \<or> ev then encode al t v else []) @ encode_fields al ev fs vs"
| "encode_fields al ev _ _ = []"

text \<open>The values of a type: numbers fit their size, the sizes of strings fit 32 bits.\<close>

fun has_type :: "wire_type \<Rightarrow> wire_value \<Rightarrow> bool"
  and have_types :: "(bool \<times> wire_type) list \<Rightarrow> wire_value list \<Rightarrow> bool"
where
  "has_type (TNum k) (VNum w) \<longleftrightarrow> k \<le> 8 \<and> unat w < 256 ^ k"
| "has_type TVarInt (VVarInt w) \<longleftrightarrow> True"
| "has_type TString (VString s) \<longleftrightarrow> length s < 2 ^ 32"
| "has_type (TBlob n) (VBlob s) \<longleftrightarrow> length s = n \<and> n < 2 ^ 64"
| "has_type (TVector t) (VVector vs) \<longleftrightarrow> list_all (has_type t) vs \<and> length vs < 2 ^ 64"
| "has_type (TSio fs) (VObject vs) \<longleftrightarrow> have_types fs vs"
| "has_type (TMeta fs) (VObject vs) \<longleftrightarrow> have_types fs vs"
| "has_type _ _ \<longleftrightarrow> False"
| "have_types [] [] \<longleftrightarrow> True"
| "have_types ((u, t) # fs) (v # vs) \<longleftrightarrow> has_type t v \<and> have_types fs vs"
| "have_types _ _ \<longleftrightarrow> False"

text \<open>What of a value is on the wire: the other fields are those of a new variable.\<close>

fun visible :: "bool \<Rightarrow> wire_type \<Rightarrow> wire_value \<Rightarrow> wire_value"
  and visible_fields :: "bool \<Rightarrow> bool \<Rightarrow> (bool \<times> wire_type) list \<Rightarrow> wire_value list \<Rightarrow> wire_value list"
where
  "visible al (TVector t) (VVector vs) = VVector (map (visible al t) vs)"
| "visible al (TSio fs) (VObject vs) = VObject (visible_fields al al fs vs)"
| "visible al (TMeta fs) (VObject vs) = VObject (visible_fields al (\<not> al) fs vs)"
| "visible al t v = v"
| "visible_fields al ev ((u, t) # fs) (v # vs) =
     (if \<not> u \<or> ev then visible al t v else initial t) # visible_fields al ev fs vs"
| "visible_fields al ev _ vs = vs"

lemma take_le_bytes: "k \<le> j \<Longrightarrow> take k (le_bytes j n) = le_bytes k n"
proof (induction k arbitrary: j n)
  case (Suc k)
  then show ?case by (cases j) simp_all
qed simp

lemma load_le_bytes:
  assumes "k \<le> 8" and "unat w < 256 ^ k"
  shows "load64 (le_bytes k (unat w) @ replicate (8 - k) NUL) = w"
  using assms by (simp add: load64_def le_nat_append le_nat_bytes le_nat_zeros)

lemma varint_bytes_eq:
  "\<exists>k \<le> 8. unat w < 256 ^ k \<and> vi_length (VarInt w) = k \<and> varint_bytes (unat w) = [char_of k] @ le_bytes k (unat w)"
  using vi_length_bound [of "VarInt w"] by (simp add: varint_bytes_def Let_def)

section \<open>The contract of a device\<close>

locale wire_device =
  fixes W :: "'b wire_ops"
    and content :: "'b \<Rightarrow> string"
    and room :: "'b \<Rightarrow> nat"
    and inv :: "'b \<Rightarrow> bool"
  assumes forward_ok: "inv b \<Longrightarrow> length e \<le> room b \<Longrightarrow> \<exists>b'. forward W e b = Value (length e, b') \<and> inv b' \<and>
      content b' = content b @ e \<and> room b' = room b - length e"
    and forward_full: "inv b \<Longrightarrow> room b < length e \<Longrightarrow> \<exists>x. forward W e b = Throw x"
    and reverse_ok: "inv b \<Longrightarrow> n \<le> length (content b) \<Longrightarrow> \<exists>b'. reverse W n b = Value (take n (content b), b') \<and> inv b' \<and>
      content b' = drop n (content b) \<and> room b' = room b"
    and reverse_short: "inv b \<Longrightarrow> length (content b) < n \<Longrightarrow> \<exists>x. reverse W n b = Throw x"
    and reverse_view: "reverse_view W = reverse W"
begin

text \<open>\<open>f\<close> appends the bytes \<open>e\<close>, or throws when they do not fit.\<close>

definition writes :: "('b \<Rightarrow> 'b outcome) \<Rightarrow> string \<Rightarrow> bool" where
  "writes f e \<longleftrightarrow> (\<forall>b. inv b \<longrightarrow>
     (if length e \<le> room b
      then \<exists>b'. f b = Value b' \<and> inv b' \<and> content b' = content b @ e \<and> room b' = room b - length e
      else \<exists>x. f b = Throw x))"

text \<open>\<open>f\<close> reads the bytes \<open>e\<close> as \<open>x\<close>, and throws when it finds only a beginning of them.\<close>

definition reads :: "('b \<Rightarrow> ('c \<times> 'b) outcome) \<Rightarrow> string \<Rightarrow> 'c \<Rightarrow> bool" where
  "reads f e x \<longleftrightarrow> (\<forall>b r. inv b \<longrightarrow> content b = e @ r \<longrightarrow>
      (\<exists>b'. f b = Value (x, b') \<and> inv b' \<and> content b' = r \<and> room b' = room b)) \<and>
    (\<forall>b r. inv b \<longrightarrow> content b @ r = e \<longrightarrow> r \<noteq> [] \<longrightarrow> (\<exists>ex. f b = Throw ex))"

lemma writes_nil: "writes Value []"
  by (simp add: writes_def)

lemma writes_forward: "writes (\<lambda>b. map_out snd (forward W e b)) e"
  using forward_ok [of _ e] forward_full [of _ e] by (force simp: writes_def)

lemma writes_bind:
  assumes "writes f d" and "writes g e"
  shows "writes (\<lambda>b. bind_out (f b) g) (d @ e)"
  unfolding writes_def
proof (intro allI impI)
  fix b assume b: "inv b"
  show "if length (d @ e) \<le> room b then \<exists>b'. bind_out (f b) g = Value b' \<and> inv b' \<and> content b' = content b @ d @ e \<and>
      room b' = room b - length (d @ e) else \<exists>x. bind_out (f b) g = Throw x"
  proof (cases "length d \<le> room b")
    case True
    then obtain b1 where b1: "f b = Value b1" "inv b1" "content b1 = content b @ d" "room b1 = room b - length d"
      using assms(1) b unfolding writes_def by (auto split: if_splits)
    with True assms(2) show ?thesis unfolding writes_def by (auto split: if_splits)
  next
    case False
    then show ?thesis using assms(1) b unfolding writes_def by (auto split: if_splits)
  qed
qed

lemma reads_value: "reads (\<lambda>b. Value (x, b)) [] x"
  by (simp add: reads_def)

lemma reads_reverse: "length e = n \<Longrightarrow> reads (reverse W n) e e"
proof -
  assume n: "length e = n"
  have "\<exists>b'. reverse W n b = Value (e, b') \<and> inv b' \<and> content b' = r \<and> room b' = room b"
    if "inv b" "content b = e @ r" for b r
    using reverse_ok [OF that(1), of n] n that(2) by simp
  moreover have "\<exists>x. reverse W n b = Throw x" if "inv b" "content b @ r = e" "r \<noteq> []" for b r
    using reverse_short [OF that(1), of n] that(2,3) n by auto
  ultimately show ?thesis by (simp add: reads_def)
qed

lemma reads_bind:
  assumes f: "reads f d x" and g: "reads (g x) e y"
  shows "reads (\<lambda>b. bind_out (f b) (\<lambda>(x, b). g x b)) (d @ e) y"
  unfolding reads_def
proof (intro conjI allI impI)
  fix b r assume b: "inv b" "content b = (d @ e) @ r"
  then obtain b1 where b1: "f b = Value (x, b1)" "inv b1" "content b1 = e @ r" "room b1 = room b"
    using f unfolding reads_def by (metis append.assoc)
  with g show "\<exists>b'. bind_out (f b) (\<lambda>(x, b). g x b) = Value (y, b') \<and> inv b' \<and> content b' = r \<and> room b' = room b"
    unfolding reads_def by (metis bind_out.simps(1) case_prod_conv)
next
  fix b r assume b: "inv b" "content b @ r = d @ e" "r \<noteq> []"
  show "\<exists>ex. bind_out (f b) (\<lambda>(x, b). g x b) = Throw ex"
  proof (cases "length d \<le> length (content b)")
    case True
    then obtain c where c: "content b = d @ c" "c @ r = e" using b(2) by (metis append_eq_append_conv_if append_eq_conv_conj append_take_drop_id)
    then obtain b1 where b1: "f b = Value (x, b1)" "inv b1" "content b1 = c" using f b(1) unfolding reads_def by blast
    with g c(2) b(3) show ?thesis unfolding reads_def by fastforce
  next
    case False
    then obtain r' where r': "content b @ r' = d" "r' \<noteq> []" using b(2)
      by (metis append_eq_append_conv_if append_Nil2 append_take_drop_id length_take linorder_not_le min_def order_refl)
    then show ?thesis using f b(1) unfolding reads_def by fastforce
  qed
qed

lemma reads_map: "reads f e x \<Longrightarrow> reads (\<lambda>b. map_out (\<lambda>(x, b). (h x, b)) (f b)) e (h x)"
  unfolding reads_def by fastforce

lemma reads_cong: "reads f e x \<Longrightarrow> (\<And>b. f b = g b) \<Longrightarrow> reads g e x"
  unfolding reads_def by simp

end

section \<open>The operators on any device\<close>

context wire_device begin

lemma writes_cong:
  assumes "writes f e" and "\<And>b. f b = g b"
  shows "writes g e"
proof -
  have "f = g" using assms(2) by (rule ext)
  with assms(1) show ?thesis by simp
qed

lemma map_push: "map_out snd (push W e b) = map_out snd (forward W e b)"
  by (cases "forward W e b") (simp_all add: push_def split: prod.split)

lemma bind_push: "bind_out (push W e b) (\<lambda>(_, b). f b) = bind_out (map_out snd (forward W e b)) f"
  by (cases "forward W e b") (simp_all add: push_def split: prod.split)

lemma writes_varint: "writes (put_varint W (VarInt w)) (varint_bytes (unat w))"
proof -
  obtain k where k: "k \<le> 8" "vi_length (VarInt w) = k" "varint_bytes (unat w) = [char_of k] @ le_bytes k (unat w)"
    using varint_bytes_eq by blast
  have "take k (store64 w) = le_bytes k (unat w)" using k(1) by (simp add: store64_def take_le_bytes)
  then have "put_varint W (VarInt w) b =
      bind_out (map_out snd (forward W [char_of k] b)) (\<lambda>b. map_out snd (forward W (le_bytes k (unat w)) b))" for b
    by (simp add: put_varint_def k(2) bind_push map_push)
  then show ?thesis unfolding k(3)
    by (intro writes_cong [OF writes_bind [OF writes_forward writes_forward]]) simp
qed

lemma reads_varint: "reads (get_varint W vi) (varint_bytes (unat w)) (vi_write w vi)"
proof -
  obtain k where k: "k \<le> 8" "unat w < 256 ^ k" "varint_bytes (unat w) = [char_of k] @ le_bytes k (unat w)"
    using varint_bytes_eq by blast
  let ?h = "\<lambda>e. vi_write (load64 (e @ replicate (8 - k) NUL)) vi"
  let ?g = "\<lambda>e b. let sz = ucode (hd e) in bind_out (pull W sz b) (\<lambda>(e, b).
         if sz > 8 then Undefined else Value (vi_write (load64 (e @ replicate (8 - sz) NUL)) vi, b))"
  have u: "ucode (char_of k) = k" using k(1) by (simp add: ucode_char_of)
  have "reads (\<lambda>b. map_out (\<lambda>(e, b). (?h e, b)) (reverse W k b)) (le_bytes k (unat w)) (?h (le_bytes k (unat w)))"
    by (intro reads_map reads_reverse) simp
  then have "reads (?g [char_of k]) (le_bytes k (unat w)) (vi_write w vi)"
    unfolding load_le_bytes [OF k(1,2)]
  proof (rule reads_cong)
    fix b
    show "map_out (\<lambda>(e, b). (?h e, b)) (reverse W k b) = ?g [char_of k] b"
      using k(1) by (cases "reverse W k b") (auto simp: u pull_def Let_def)
  qed
  then have "reads (\<lambda>b. bind_out (reverse W 1 b) (\<lambda>(e, b). ?g e b)) ([char_of k] @ le_bytes k (unat w)) (vi_write w vi)"
    by (rule reads_bind [where f = "reverse W 1", OF reads_reverse, rotated]) simp
  then show ?thesis unfolding k(3) by (rule reads_cong) (simp add: get_varint_def pull_def)
qed

lemma unat_length: "n < 2 ^ 64 \<Longrightarrow> unat (word_of_nat n :: u64) = n"
  by (simp add: unat_of_nat take_bit_nat_def)

lemma writes_data:
  assumes "length s < 2 ^ 64"
  shows "writes (put_data W s) (varint_bytes (length s) @ s)"
proof -
  have "writes (\<lambda>b. bind_out (put_varint W (VarInt (word_of_nat (length s))) b) (\<lambda>b. map_out snd (forward W s b)))
      (varint_bytes (length s) @ s)"
    using writes_bind [OF writes_varint writes_forward] unat_length [OF assms] by metis
  then show ?thesis by (rule writes_cong) (simp add: put_data_def map_push)
qed

lemma writes_blob:
  assumes "length s < 2 ^ 64"
  shows "writes (put_blob W s) (varint_bytes (length s) @ s)"
  by (rule writes_cong [OF writes_data [OF assms]]) (simp add: put_blob_def put_data_def)

text \<open>Reading a size and then, unless it is 0, that many bytes.\<close>

lemma reads_sized:
  assumes "length s < 2 ^ 64"
    and "s \<noteq> [] \<Longrightarrow> reads (f (length s)) s x" and "s = [] \<Longrightarrow> x = d"
  shows "reads (\<lambda>b. bind_out (get_varint W (VarInt 0) b) (\<lambda>(tmp, b).
       let sz = unat (vi_read tmp) in if sz \<noteq> 0 then f sz b else Value (d, b))) (varint_bytes (length s) @ s) x"
proof (rule reads_bind)
  let ?w = "word_of_nat (length s) :: u64"
  show "reads (get_varint W (VarInt 0)) (varint_bytes (length s)) (vi_write ?w (VarInt 0))"
    using reads_varint [of "VarInt 0" ?w] unat_length [OF assms(1)] by simp
  show "reads (\<lambda>b. let sz = unat (vi_read (vi_write ?w (VarInt 0))) in if sz \<noteq> 0 then f sz b else Value (d, b)) s x"
    using assms(2,3) unat_length [OF assms(1)] reads_value [of d] by (cases "s = []") (simp_all add: Let_def)
qed

lemma reads_string:
  assumes "length s < 2 ^ 32"
  shows "reads (get_string W []) (varint_bytes (length s) @ s) s"
proof -
  let ?f = "\<lambda>sz b. map_out (\<lambda>(e, b). (data_of e, b)) (reverse_view W sz b)"
  have "data_of s = s" using assms by (simp add: data_of_def u32_def)
  then have "reads (?f (length s)) s s"
    using reads_map [OF reads_reverse [OF refl, of s], of data_of] by (simp add: reverse_view)
  then have "reads (get_data W []) (varint_bytes (length s) @ s) s"
    using assms by (intro reads_cong [OF reads_sized [where f = ?f and d = "[]"]]) (simp_all add: get_data_def)
  then have "reads (\<lambda>b. map_out (\<lambda>(rv, b). (if rv \<noteq> [] then rv else [], b)) (get_data W [] b)) (varint_bytes (length s) @ s)
      (if s \<noteq> [] then s else [])" by (rule reads_map)
  moreover have "map_out (\<lambda>(rv, b). (if rv \<noteq> [] then rv else [], b)) (get_data W [] b) = get_string W [] b" for b
    by (cases "get_data W [] b") (auto simp: get_string_def)
  ultimately show ?thesis by (auto intro: reads_cong split: if_splits)
qed

lemma reads_blob:
  assumes "length s = n" and "n < 2 ^ 64"
  shows "reads (get_blob W (replicate n NUL)) (varint_bytes n @ s) s"
proof -
  let ?f = "\<lambda>sz b. bind_out (reverse_view W sz b) (\<lambda>(e, b). map_out (\<lambda>blob. (blob, b)) (blob_copy e (replicate n NUL)))"
  have "reads (\<lambda>b. map_out (\<lambda>blob. (blob, b)) (blob_copy s (replicate n NUL))) [] s"
    using reads_value [of s] assms(1) by (simp add: blob_copy_def)
  then have "reads (?f n) (s @ []) s"
    by (intro reads_bind [where f = "reverse_view W n"]) (simp_all add: reverse_view reads_reverse assms(1))
  then have "reads (?f (length s)) s s" using assms(1) by simp
  then show ?thesis
    using assms by (intro reads_cong [OF reads_sized [where f = ?f and d = "replicate n NUL" and s = s, unfolded assms(1)]])
      (simp_all add: get_blob_def)
qed

lemma writes_items:
  "\<forall>v \<in> set vs. writes (put W al t v) (encode al t v) \<Longrightarrow> writes (put_items W al t vs) (concat (map (encode al t) vs))"
proof (induction vs)
  case Nil
  have "put_items W al t [] = Value" by (rule ext) simp
  then show ?case using writes_nil by simp
next
  case (Cons v vs)
  then have "writes (\<lambda>b. bind_out (put W al t v b) (put_items W al t vs)) (encode al t v @ concat (map (encode al t) vs))"
    by (intro writes_bind) simp_all
  then show ?case by simp
qed

theorem writes_put:
  "has_type t v \<Longrightarrow> writes (put W al t v) (encode al t v)"
  "have_types fs vs \<Longrightarrow> writes (put_fields W al ev fs vs) (encode_fields al ev fs vs)"
proof (induction t v and fs vs arbitrary: and ev rule: has_type_have_types.induct)
  case (1 k w)
  then have "take k (store64 w) = le_bytes k (unat w)" by (simp add: store64_def take_le_bytes)
  then show ?case using writes_forward [of "le_bytes k (unat w)"] by (simp add: put_num_def)
next
  case (2 w)
  then show ?case using writes_varint [of w] by simp
next
  case (3 s)
  then have "data_of s = s" by (simp add: data_of_def u32_def)
  with 3 show ?case using writes_data [of s] by (simp add: put_string_def)
next
  case (4 n s)
  then show ?case using writes_blob [of s] by simp
next
  case (5 t vs)
  then have "writes (\<lambda>b. bind_out (put_varint W (VarInt (word_of_nat (length vs))) b) (put_items W al t vs))
      (varint_bytes (length vs) @ concat (map (encode al t) vs))"
    using writes_bind [OF writes_varint writes_items [of vs al t], of "word_of_nat (length vs)"] unat_length [of "length vs"]
    by (auto simp: list_all_iff)
  then show ?case by simp
next
  case (6 fs vs)
  then show ?case by simp
next
  case (7 fs vs)
  then show ?case by simp
next
  case 9
  then show ?case by (simp add: writes_nil)
next
  case (10 u t fs v vs)
  let ?f = "\<lambda>b. if \<not> u \<or> ev then put W al t v b else Value b"
  have "writes ?f (if \<not> u \<or> ev then encode al t v else [])"
    using 10 writes_nil by (cases "\<not> u \<or> ev") (simp_all del: de_Morgan_conj)
  from writes_bind [OF this, of "put_fields W al ev fs vs"] 10 show ?case
    by simp
qed simp_all

lemma reads_items:
  "\<forall>v \<in> set vs. reads (get W al t (initial t)) (encode al t v) (visible al t v) \<Longrightarrow>
   reads (get_items W al t (length vs) acc) (concat (map (encode al t) vs)) (acc @ map (visible al t) vs)"
proof (induction vs arbitrary: acc)
  case Nil
  then show ?case using reads_value [of acc] by simp
next
  case (Cons v vs)
  have v: "reads (get W al t (initial t)) (encode al t v) (visible al t v)"
    and vs: "reads (get_items W al t (length vs) (acc @ [visible al t v])) (concat (map (encode al t) vs))
      ((acc @ [visible al t v]) @ map (visible al t) vs)"
    using Cons.IH [of "acc @ [visible al t v]"] Cons.prems by simp_all
  have "reads (\<lambda>b. bind_out (get W al t (initial t) b) (\<lambda>(x, b). get_items W al t (length vs) (acc @ [x]) b))
      (encode al t v @ concat (map (encode al t) vs)) ((acc @ [visible al t v]) @ map (visible al t) vs)"
    by (rule reads_bind [OF v]) (rule vs)
  then show ?case by simp
qed

lemma vi_read_of_nat: "n < 2 ^ 64 \<Longrightarrow> unat (vi_read (vi_write (word_of_nat n) vi)) = n"
  by (simp add: unat_length)

theorem reads_get:
  "has_type t v \<Longrightarrow> reads (get W al t (initial t)) (encode al t v) (visible al t v)"
  "have_types fs vs \<Longrightarrow> reads (get_fields W al ev fs (map (\<lambda>(_, t). initial t) fs)) (encode_fields al ev fs vs) (visible_fields al ev fs vs)"
proof (induction t v and fs vs arbitrary: and ev rule: has_type_have_types.induct)
  case (1 k w)
  then have "reads (get_num W k) (le_bytes k (unat w)) w"
    using reads_map [OF reads_reverse [of "le_bytes k (unat w)" k], of "\<lambda>e. load64 (e @ replicate (8 - k) NUL)"]
    by (auto simp: load_le_bytes intro: reads_cong simp: get_num_def)
  from reads_map [OF this, of VNum] show ?case by simp
next
  case (2 w)
  from reads_map [OF reads_varint [of "VarInt 0" w], of "\<lambda>vi. VVarInt (vi_read vi)"] show ?case by simp
next
  case (3 s)
  then have "length s < 2 ^ 32" by simp
  from reads_map [OF reads_string [OF this], of VString] show ?case by simp
next
  case (4 n s)
  then have "length s = n" "n < 2 ^ 64" by simp_all
  from reads_map [OF reads_blob [OF this], of VBlob] 4 show ?case by simp
next
  case (5 t vs)
  then have n: "length vs < 2 ^ 64" and "\<forall>v \<in> set vs. reads (get W al t (initial t)) (encode al t v) (visible al t v)"
    by (auto simp: list_all_iff)
  from reads_items [OF this(2), of "[]"]
  have "reads (\<lambda>b. get_items W al t (unat (vi_read (vi_write (word_of_nat (length vs)) (VarInt 0)))) [] b)
      (concat (map (encode al t) vs)) (map (visible al t) vs)" unfolding vi_read_of_nat [OF n] by simp
  note items = reads_map [OF this, of VVector]
  have sz: "reads (get_varint W (VarInt 0)) (varint_bytes (length vs)) (vi_write (word_of_nat (length vs)) (VarInt 0))"
    using reads_varint [of "VarInt 0" "word_of_nat (length vs)"] unat_length [OF n] by simp
  have "reads (\<lambda>b. bind_out (get_varint W (VarInt 0) b) (\<lambda>(sz, b).
       map_out (\<lambda>(vs, b). (VVector vs, b)) (get_items W al t (unat (vi_read sz)) [] b)))
      (varint_bytes (length vs) @ concat (map (encode al t) vs)) (VVector (map (visible al t) vs))"
    by (rule reads_bind [OF sz]) (rule items)
  then show ?case by simp
next
  case (6 fs vs)
  then have "reads (get_fields W al al fs (map (\<lambda>(_, t). initial t) fs)) (encode_fields al al fs vs) (visible_fields al al fs vs)" by simp
  from reads_map [OF this, of VObject] show ?case by simp
next
  case (7 fs vs)
  then have "reads (get_fields W al (\<not> al) fs (map (\<lambda>(_, t). initial t) fs)) (encode_fields al (\<not> al) fs vs) (visible_fields al (\<not> al) fs vs)" by simp
  from reads_map [OF this, of VObject] show ?case by simp
next
  case (10 u t fs v vs)
  let ?f = "\<lambda>b. if \<not> u \<or> ev then get W al t (initial t) b else Value (initial t, b)"
  let ?v = "if \<not> u \<or> ev then visible al t v else initial t"
  have f: "reads ?f (if \<not> u \<or> ev then encode al t v else []) ?v"
    using 10 reads_value by (cases "\<not> u \<or> ev") (simp_all del: de_Morgan_conj)
  have "reads (get_fields W al ev fs (map (\<lambda>(_, t). initial t) fs)) (encode_fields al ev fs vs) (visible_fields al ev fs vs)"
    using 10 by simp
  note tail = reads_map [OF this, of "(#) ?v"]
  have "reads (\<lambda>b. bind_out (?f b) (\<lambda>(x, b). map_out (\<lambda>(vs, b). (x # vs, b)) (get_fields W al ev fs (map (\<lambda>(_, t). initial t) fs) b)))
      ((if \<not> u \<or> ev then encode al t v else []) @ encode_fields al ev fs vs) (?v # visible_fields al ev fs vs)"
    by (rule reads_bind [OF f]) (rule tail)
  then show ?case by simp
next
  case 9
  have "get_fields W al ev [] [] = (\<lambda>b. Value ([], b))" for ev by (rule ext) simp
  then show ?case using reads_value [of "[]"] by simp
qed simp_all

end

end
