(* ===== verification/Board.thy ===== *)
theory Board
  imports WireSpec
begin

text \<open>
  \<open>Breadboard\<close> and \<open>Heapboard\<close> of \<^verbatim>\<open>suil/wire.h\<close>: a window \<open>H\<close> to \<open>T\<close> of unread bytes in a
  memory that is said to have \<open>M\<close> bytes.  The numbers are of the type \<open>size_t\<close>, and their
  differences wrap around.
\<close>

section \<open>Breadboard\<close>

record breadboard =
  sink :: "cells option"
  H :: nat
  T :: nat
  M :: nat

definition u64 :: "nat \<Rightarrow> nat" where
  "u64 n = n mod 2 ^ 64"

definition sub64 :: "nat \<Rightarrow> nat \<Rightarrow> nat" where
  "sub64 a b = u64 (a + 2 ^ 64 - b)"

text \<open>\<open>memcpy\<close> from and to the memory at an offset.\<close>

fun rd_all :: "cells \<Rightarrow> nat \<Rightarrow> nat \<Rightarrow> string outcome" where
  "rd_all m i 0 = Value []"
| "rd_all m i (Suc n) = bind_out (rd m i) (\<lambda>c. map_out ((#) c) (rd_all m (i + 1) n))"

definition copy_out :: "cells option \<Rightarrow> nat \<Rightarrow> nat \<Rightarrow> string outcome" where
  "copy_out p i n = (if n = 0 then Value [] else case p of None \<Rightarrow> Undefined | Some m \<Rightarrow> rd_all m i n)"

definition copy_in :: "cells option \<Rightarrow> nat \<Rightarrow> string \<Rightarrow> cells option outcome" where
  "copy_in p i e = (if e = [] then Value p else case p of None \<Rightarrow> Undefined | Some m \<Rightarrow> map_out Some (wr_all m i e))"

definition Breadboard :: "cells option \<Rightarrow> nat \<Rightarrow> breadboard" where
  "Breadboard buf sz = \<lparr>sink = buf, H = 0, T = 0, M = sz\<rparr>"

definition bb_forward :: "string \<Rightarrow> 'a breadboard_scheme \<Rightarrow> (nat \<times> 'a breadboard_scheme) outcome" where
  "bb_forward e b =
     (if sub64 (M b) (T b) < length e then Throw OtherException
      else bind_out (copy_in (sink b) (T b) e) (\<lambda>m.
        Value (length e, b\<lparr>sink := m, T := u64 (T b + length e)\<rparr>)))"

definition bb_reverse :: "nat \<Rightarrow> 'a breadboard_scheme \<Rightarrow> (string \<times> 'a breadboard_scheme) outcome" where
  "bb_reverse es b =
     (if es \<le> sub64 (T b) (H b) then
        bind_out (copy_out (sink b) (H b) es) (\<lambda>e. Value (e, b\<lparr>H := u64 (H b + es)\<rparr>))
      else Throw OtherException)"

definition BREADBOARD :: "'a breadboard_scheme wire_ops" where
  "BREADBOARD = \<lparr>forward = bb_forward, reverse = bb_reverse, reverse_view = bb_reverse\<rparr>"

definition bb_size :: "'a breadboard_scheme \<Rightarrow> nat" where
  "bb_size b = sub64 (T b) (H b)"

definition bb_move :: "nat \<Rightarrow> 'a breadboard_scheme \<Rightarrow> bool \<times> 'a breadboard_scheme" where
  "bb_move n b = (if n \<le> bb_size b then (True, b\<lparr>H := u64 (H b + n)\<rparr>) else (False, b))"

definition bb_reset :: "'a breadboard_scheme \<Rightarrow> 'a breadboard_scheme" where
  "bb_reset b = b\<lparr>H := 0, T := 0\<rparr>"

text \<open>\<open>raw()\<close> is a view; its bytes are read when it is used.\<close>

definition bb_raw :: "'a breadboard_scheme \<Rightarrow> string outcome" where
  "bb_raw b = copy_out (sink b) (H b) (u32 (bb_size b))"

text \<open>A board is written to a wire as the bytes it holds; a board cannot be written to itself.\<close>

definition put_board :: "'b wire_ops \<Rightarrow> bool \<Rightarrow> 'a breadboard_scheme \<Rightarrow> 'b \<Rightarrow> 'b outcome" where
  "put_board W same bb w = (if same then Throw OtherException else bind_out (bb_raw bb) (\<lambda>d. put_data W d w))"

definition toHexStr :: "'a breadboard_scheme \<Rightarrow> obuffer \<Rightarrow> obuffer outcome" where
  "toHexStr b ob =
     bind_out (bb_raw b) (\<lambda>s.
       let ob = reserve (length s * 2 + 2) ob in
       case m_data ob of
         None \<Rightarrow> Undefined
       | Some m \<Rightarrow>
           bind_out (hexstr_raw (Some s) (Some (take (capacity ob) (drop (m_offset ob) m)))) (\<lambda>(sz, out).
             seek (int sz) (ob\<lparr>m_data :=
               Some (take (m_offset ob) m @ the out @ drop (m_offset ob + capacity ob) m)\<rparr>)))"

definition fromHexStr :: "zstring \<Rightarrow> 'a breadboard_scheme \<Rightarrow> (bool \<times> 'a breadboard_scheme) outcome" where
  "fromHexStr str b =
     (if z_len str div 2 > sub64 (M b) (T b) then Value (False, b)
      else case sink b of
        None \<Rightarrow> Throw OtherException
      | Some m \<Rightarrow>
          bind_out (bytes str (Some (take (sub64 (M b) (T b)) (drop (T b) m)))) (\<lambda>out.
            Value (True, b\<lparr>sink := Some (take (T b) m @ the out @ drop (T b + sub64 (M b) (T b)) m),
              T := u64 (T b + z_len str div 2)\<rparr>)))"

text \<open>The operators for \<open>String\<close>: the text that is read is duplicated with \<open>dup\<close>.\<close>

definition put_zs :: "'b wire_ops \<Rightarrow> zstring \<Rightarrow> 'b \<Rightarrow> 'b outcome" where
  "put_zs W s b = bind_out (copy_out (z_mem s) 0 (z_len s)) (\<lambda>d. put_data W d b)"

definition get_zs :: "'b wire_ops \<Rightarrow> zstring \<Rightarrow> 'b \<Rightarrow> (zstring \<times> 'b) outcome" where
  "get_zs W s b =
     bind_out (get_data W [] b) (\<lambda>(tmp, b).
       if tmp \<noteq> [] then map_out (\<lambda>s. (s, b)) (zs_dup (zs_view (Some (known tmp)) (length tmp) False))
       else Value (s, b))"

section \<open>Heapboard\<close>

text \<open>The members \<open>data\<close> and \<open>sink\<close> are always equal and are one pointer here.\<close>

record heapboard = breadboard +
  own :: bool

definition Heapboard_new :: "nat \<Rightarrow> heapboard" where
  "Heapboard_new n = \<lparr>sink = Some (replicate n None), H = 0, T = 0, M = n, own = True\<rparr>"

definition Heapboard_of :: "cells option \<Rightarrow> nat \<Rightarrow> heapboard" where
  "Heapboard_of buf n = \<lparr>sink = buf, H = 0, T = n, M = n, own = False\<rparr>"

definition hb_clear :: "heapboard \<Rightarrow> heapboard" where
  "hb_clear b =
     (let b1 = (if own b \<and> sink b \<noteq> None then b\<lparr>M := T b, H := T b, own := False\<rparr> else b)
      in b1\<lparr>sink := None\<rparr>)"

definition hb_copyfrom :: "cells option \<Rightarrow> nat \<Rightarrow> heapboard \<Rightarrow> heapboard outcome" where
  "hb_copyfrom data sz b =
     (case data of
        Some m \<Rightarrow>
          if sz > 0 then
            (if sz \<le> length m then Value ((hb_clear b)\<lparr>sink := Some (take sz m), M := sz, own := True, H := 0, T := sz\<rparr>)
             else Undefined)
          else Value b
      | None \<Rightarrow> Value b)"

definition hb_copy :: "heapboard \<Rightarrow> heapboard \<Rightarrow> heapboard outcome" where
  "hb_copy this hb = (case sink hb of None \<Rightarrow> Value this | Some m \<Rightarrow> hb_copyfrom (Some m) (M hb) this)"

text \<open>The move constructor and the move assignment; the second result is what is left of the
  argument.\<close>

definition moved_from :: "heapboard \<Rightarrow> heapboard" where
  "moved_from hb = hb\<lparr>sink := None, own := False, M := 0, H := 0, T := 0\<rparr>"

definition hb_move_new :: "heapboard \<Rightarrow> heapboard \<times> heapboard" where
  "hb_move_new hb = ((Heapboard_of (sink hb) (M hb))\<lparr>own := own hb, H := H hb, T := T hb\<rparr>, moved_from hb)"

definition hb_move_assign :: "heapboard \<Rightarrow> heapboard \<Rightarrow> heapboard \<times> heapboard" where
  "hb_move_assign this hb = (this\<lparr>sink := sink hb, own := own hb, H := H hb, T := T hb\<rparr>, moved_from hb)"

definition hb_seal :: "heapboard \<Rightarrow> (bool \<times> heapboard) outcome" where
  "hb_seal b =
     (let tmp = bb_size b in
      if own b \<and> tmp \<noteq> 0 \<and> tmp < sub64 (M b) (M b div 2) then
        bind_out (copy_out (sink b) (H b) tmp) (\<lambda>s.
          Value (True, (hb_clear b)\<lparr>sink := Some (known s), own := True, M := M b, T := T b, H := H b\<rparr>))
      else Value (False, b))"

text \<open>The result of \<open>release\<close> is the memory at the pointer, a size of 32 bits, and the ownership.\<close>

definition hb_release :: "heapboard \<Rightarrow> ((cells option \<times> nat \<times> bool) \<times> heapboard) outcome" where
  "hb_release b =
     (if bb_size b \<noteq> 0 then
        bind_out (hb_seal b) (\<lambda>(_, b).
          Value ((sink b, u32 (bb_size b), own b), hb_clear (b\<lparr>own := False\<rparr>)))
      else Value ((None, 0, False), b))"

section \<open>A Breadboard is a device\<close>

definition bb_content :: "'a breadboard_scheme \<Rightarrow> string" where
  "bb_content b = (case sink b of None \<Rightarrow> [] | Some m \<Rightarrow> map the (take (T b - H b) (drop (H b) m)))"

definition bb_room :: "'a breadboard_scheme \<Rightarrow> nat" where
  "bb_room b = M b - T b"

text \<open>The window lies in the memory, and its bytes were written.\<close>

definition bb_ok :: "'a breadboard_scheme \<Rightarrow> bool" where
  "bb_ok b \<longleftrightarrow> H b \<le> T b \<and> T b \<le> M b \<and> M b < 2 ^ 64 \<and>
     (\<exists>m. sink b = Some m \<and> M b \<le> length m \<and> (\<forall>i. H b \<le> i \<and> i < T b \<longrightarrow> m ! i \<noteq> None))"

lemma sub64_less:
  assumes "b \<le> a" and "a < 2 ^ 64"
  shows "sub64 a b = a - b"
proof -
  have e: "a + 2 ^ 64 - b = (a - b) + 2 ^ 64" using assms by linarith
  have "a - b < 2 ^ 64" using assms by linarith
  then show ?thesis unfolding sub64_def u64_def e by simp
qed

lemma u64_small: "n < 2 ^ 64 \<Longrightarrow> u64 n = n"
  by (simp add: u64_def)

lemma rd_all_ok:
  "i + n \<le> length m \<Longrightarrow> \<forall>j. i \<le> j \<and> j < i + n \<longrightarrow> m ! j \<noteq> None \<Longrightarrow>
   rd_all m i n = Value (map the (take n (drop i m)))"
proof (induction n arbitrary: i)
  case (Suc n)
  then have "rd_all m (i + 1) n = Value (map the (take n (drop (i + 1) m)))" by simp
  moreover have "drop i m = m ! i # drop (Suc i) m" using Suc.prems(1) by (simp add: Cons_nth_drop_Suc)
  moreover obtain c where "m ! i = Some c" using Suc.prems(2) by auto
  ultimately show ?case using Suc.prems(1) by (simp add: rd_def)
qed simp

lemma rd_all_past: "i < length m \<or> 0 < n \<Longrightarrow> length m < i + n \<Longrightarrow> rd_all m i n = Undefined"
proof (induction n arbitrary: i)
  case (Suc n)
  show ?case
  proof (cases "i < length m")
    case True
    with Suc.prems have "rd_all m (i + 1) n = Undefined" by (intro Suc.IH) auto
    then show ?thesis by (cases "m ! i") (simp_all add: rd_def)
  qed (simp add: rd_def)
qed simp

lemma rd_all_known:
  assumes "n \<le> length s"
  shows "rd_all (x @ known s @ y) (length x) n = Value (take n s)"
proof -
  have "(x @ known s @ y) ! j \<noteq> None" if "length x \<le> j" "j < length x + n" for j
  proof -
    have "j - length x < length s" using that assms by linarith
    then show ?thesis using that by (simp add: nth_append known_def)
  qed
  with assms have "rd_all (x @ known s @ y) (length x) n = Value (map the (take n (drop (length x) (x @ known s @ y))))"
    by (intro rd_all_ok) auto
  with assms show ?thesis by (simp add: known_def take_map comp_def)
qed

text \<open>A well-formed board in terms of its memory: what is before the window, the window, what is
  behind it.\<close>

lemma bb_ok_parts:
  assumes "bb_ok b"
  obtains x y where "sink b = Some (x @ known (bb_content b) @ y)" "length x = H b"
    "T b = H b + length (bb_content b)" "bb_room b \<le> length y" "M b = T b + bb_room b" "M b < 2 ^ 64"
proof -
  obtain m where m: "sink b = Some m" "M b \<le> length m" "\<forall>i. H b \<le> i \<and> i < T b \<longrightarrow> m ! i \<noteq> None"
    and b: "H b \<le> T b" "T b \<le> M b" "M b < 2 ^ 64" using assms by (auto simp: bb_ok_def)
  let ?w = "take (T b - H b) (drop (H b) m)"
  have "known (map the ?w) = ?w"
    using m(2,3) b unfolding known_def by (intro nth_equalityI) (auto simp: less_diff_conv)
  moreover have "m = take (H b) m @ ?w @ drop (T b) m"
    using b(1) by (metis append_take_drop_id drop_drop le_add_diff_inverse2)
  ultimately have "sink b = Some (take (H b) m @ known (bb_content b) @ drop (T b) m)"
    using m(1) by (simp add: bb_content_def)
  then show thesis
    using m b by (intro that [of "take (H b) m" "drop (T b) m"]) (auto simp: bb_content_def bb_room_def)
qed

lemma bb_okI:
  assumes "sink b = Some (x @ known s @ y)" and "length x = H b" and "T b = H b + length s" and "T b \<le> M b" and "M b < 2 ^ 64"
    and "M b \<le> T b + length y"
  shows "bb_ok b" and "bb_content b = s"
proof -
  show "bb_ok b"
    using assms by (auto simp: bb_ok_def nth_append known_def)
  show "bb_content b = s"
    using assms by (simp add: bb_content_def known_def comp_def)
qed

interpretation board: wire_device BREADBOARD bb_content bb_room bb_ok
proof
  fix b :: "'a breadboard_scheme" and e :: string and n
  assume b: "bb_ok b"
  then obtain x y where p: "sink b = Some (x @ known (bb_content b) @ y)" "length x = H b"
    "T b = H b + length (bb_content b)" "bb_room b \<le> length y" "M b = T b + bb_room b" "M b < 2 ^ 64"
    by (rule bb_ok_parts)
  have room: "sub64 (M b) (T b) = bb_room b" and have_: "sub64 (T b) (H b) = length (bb_content b)"
    using p by (simp_all add: sub64_less)
  {
    assume e: "length e \<le> bb_room b"
    let ?b = "b\<lparr>sink := Some (x @ known (bb_content b @ e) @ drop (length e) y), T := T b + length e\<rparr>"
    have "copy_in (sink b) (T b) e = Value (sink ?b)"
      using e p by (simp add: copy_in_def wr_all_eq)
    then have "forward BREADBOARD e b = Value (length e, ?b)"
      using e p room by (simp add: BREADBOARD_def bb_forward_def u64_small)
    moreover have "bb_ok ?b" "bb_content ?b = bb_content b @ e"
      using e p by (auto intro: bb_okI [where x = x and s = "bb_content b @ e" and y = "drop (length e) y"])
    moreover have "bb_room ?b = bb_room b - length e" by (simp add: bb_room_def)
    ultimately show "\<exists>b'. forward BREADBOARD e b = Value (length e, b') \<and> bb_ok b' \<and>
        bb_content b' = bb_content b @ e \<and> bb_room b' = bb_room b - length e" by blast
  }
  {
    assume "bb_room b < length e"
    then show "\<exists>x. forward BREADBOARD e b = Throw x"
      using room by (simp add: BREADBOARD_def bb_forward_def)
  }
  {
    assume n: "n \<le> length (bb_content b)"
    let ?b = "b\<lparr>H := H b + n\<rparr>" and ?c = "bb_content b"
    have "copy_out (sink b) (H b) n = Value (take n ?c)"
      using rd_all_known [OF n, of x y] p(1,2) by (simp add: copy_out_def)
    then have "reverse BREADBOARD n b = Value (take n ?c, ?b)"
      using n p have_ by (simp add: BREADBOARD_def bb_reverse_def u64_small)
    moreover have s: "sink ?b = Some ((x @ known (take n ?c)) @ known (drop n ?c) @ y)"
      using p(1) by (simp flip: known_simps(3))
    have "bb_ok ?b" "bb_content ?b = drop n ?c"
      using n p by (auto intro!: bb_okI [OF s])
    moreover have "bb_room ?b = bb_room b" by (simp add: bb_room_def)
    ultimately show "\<exists>b'. reverse BREADBOARD n b = Value (take n (bb_content b), b') \<and> bb_ok b' \<and>
        bb_content b' = drop n (bb_content b) \<and> bb_room b' = bb_room b" by blast
  }
  {
    assume "length (bb_content b) < n"
    then show "\<exists>x. reverse BREADBOARD n b = Throw x"
      using have_ by (simp add: BREADBOARD_def bb_reverse_def)
  }
qed (simp add: BREADBOARD_def)

section \<open>Boards and values for the examples\<close>

definition empty_board :: breadboard where
  "empty_board = Breadboard (Some (replicate 64 None)) 64"

definition sample_board :: "string \<Rightarrow> breadboard" where
  "sample_board s = \<lparr>sink = Some (known s @ replicate 64 None), H = 0, T = length s, M = length s + 64\<rparr>"

lemma empty_board_ok: "bb_ok empty_board" "bb_content empty_board = []" "bb_room empty_board = 64"
  by (simp_all add: empty_board_def Breadboard_def bb_ok_def bb_content_def bb_room_def)

lemma sample_board_ok:
  assumes "length s < 2 ^ 32"
  shows "bb_ok (sample_board s)" and "bb_content (sample_board s) = s" and "bb_room (sample_board s) = 64"
proof -
  have sk: "sink (sample_board s) = Some ([] @ known s @ replicate 64 None)" by (simp add: sample_board_def)
  show "bb_ok (sample_board s)" "bb_content (sample_board s) = s"
    by (rule bb_okI [OF sk]; use assms in \<open>simp add: sample_board_def\<close>)+
  show "bb_room (sample_board s) = 64" by (simp add: sample_board_def bb_room_def)
qed



lemma length_varint_bytes: "length (varint_bytes n) \<le> 9"
  using vi_length_bound [of "VarInt (word_of_nat n)"] by (simp add: varint_bytes_def Let_def)


section \<open>Values on a board\<close>



text \<open>Writing a value appends its encoding, or throws when the encoding does not fit.\<close>
theorem wire_put:
  assumes "bb_ok b" and "has_type t v"
  shows "if length (encode al t v) \<le> bb_room b
    then \<exists>b'. put BREADBOARD al t v b = Value b' \<and> bb_ok b' \<and> bb_content b' = bb_content b @ encode al t v \<and>
      bb_room b' = bb_room b - length (encode al t v)
    else \<exists>x. put BREADBOARD al t v b = Throw x"
  by (rule board.writes_put(1) [unfolded board.writes_def, rule_format, OF assms(2,1)])

theorem wire_put_witness: "\<exists>x. put BREADBOARD True TString (VString (replicate 100 (CHR ''a''))) empty_board = Throw x"
  using wire_put [OF empty_board_ok(1), of TString "VString (replicate 100 (CHR ''a''))" True] empty_board_ok(3) by simp

text \<open>A value of which only a beginning has arrived is never read: the read throws.\<close>
theorem wire_get_truncated:
  assumes "bb_ok b" and "has_type t v" and "bb_content b @ r = encode al t v" and "r \<noteq> []"
  shows "\<exists>x. get BREADBOARD al t (initial t) b = Throw x"
  by (rule board.reads_get(1) [unfolded board.reads_def, THEN conjunct2, rule_format, OF assms(2,1,3,4)])

theorem wire_get_truncated_witness: "\<exists>x. get BREADBOARD True TString (initial TString) (sample_board []) = Throw x"
  by (rule wire_get_truncated [of _ _ "VString ''x''" "encode True TString (VString ''x'')" True])
    (simp_all add: sample_board_ok varint_bytes_def Let_def)

text \<open>The length byte of a number is not checked: more than eight bytes are copied over the
  variable of eight bytes that holds the number.\<close>
theorem wire_varint_overflow:
  assumes "bb_ok b" and "bb_content b = c # r" and "8 < ucode c" and "ucode c \<le> length r"
  shows "get_varint BREADBOARD vi b = Undefined"
proof -
  obtain b1 where b1: "reverse BREADBOARD 1 b = Value ([c], b1)" "bb_ok b1" "bb_content b1 = r"
    using board.reverse_ok [OF assms(1), of 1] assms(2) by auto
  obtain b2 where "reverse BREADBOARD (ucode c) b1 = Value (take (ucode c) r, b2)"
    using board.reverse_ok [OF b1(2), of "ucode c"] b1(3) assms(4) by auto
  with b1(1) assms(3) show ?thesis by (simp add: get_varint_def pull_def)
qed

theorem wire_varint_overflow_witness: "get_varint BREADBOARD (VarInt 0) (sample_board (CHR 0x0A # replicate 10 (CHR ''A''))) = Undefined"
  by (rule wire_varint_overflow [of _ "CHR 0x0A" "replicate 10 (CHR ''A'')"]) (simp_all add: sample_board_ok ucode_def)

text \<open>A String that is written and read back has the length that was written and, up to a first
  NUL byte, its text: what is behind a NUL byte is not in its memory.\<close>
theorem wire_zstring:
  assumes "bb_ok b" and "bb_content b = []" and "holds s a" and "a \<noteq> []" and "length a < 2 ^ 32" and "length a + 9 \<le> bb_room b"
  shows "\<exists>b1 u b2. put_zs BREADBOARD s b = Value b1 \<and> get_zs BREADBOARD s0 b1 = Value (u, b2) \<and> bb_content b2 = [] \<and>
    z_len u = length a \<and> z_mem u = Some (known (cut a @ [NUL]))"
proof -
  obtain r where s: "z_len s = length a" "z_mem s = Some (known a @ r)" using assms(3) by (auto simp: holds_def)
  have "copy_out (z_mem s) 0 (z_len s) = Value a"
    using rd_all_known [of "length a" a "[]" r] s by (simp add: copy_out_def)
  then have p: "put_zs BREADBOARD s b = put BREADBOARD True TString (VString a) b"
    using assms(5) by (simp add: put_zs_def put_string_def data_of_def u32_def)
  have t: "has_type TString (VString a)" using assms(5) by simp
  have "length (encode True TString (VString a)) \<le> bb_room b"
    using assms(6) length_varint_bytes [of "length a"] by simp
  from board.writes_put(1) [unfolded board.writes_def, rule_format, OF t assms(1), of True] this
  obtain b1 where 1: "put BREADBOARD True TString (VString a) b = Value b1" "bb_ok b1" "bb_content b1 = encode True TString (VString a)"
    using assms(2) by auto
  obtain b2 where 2: "get_string BREADBOARD [] b1 = Value (a, b2)" "bb_content b2 = []"
    using board.reads_string [unfolded board.reads_def, THEN conjunct1, rule_format, OF assms(5) 1(2), of "[]"] 1(3) by auto
  have "get_string BREADBOARD [] b1 = get_data BREADBOARD [] b1"
    by (cases "get_data BREADBOARD [] b1") (auto simp: get_string_def)
  with 2(1) have g: "get_data BREADBOARD [] b1 = Value (a, b2)" by simp
  have "zs_dup (zs_view (Some (known a)) (length a) False) = Value (zs_view (Some (known (cut a @ [NUL]))) (length a) True)"
    using strndup_ok [of a "[]"] assms(4,5) by (simp add: zs_dup_def zs_view_def)
  then have "get_zs BREADBOARD s0 b1 = Value (zs_view (Some (known (cut a @ [NUL]))) (length a) True, b2)"
    using assms(4) by (simp add: get_zs_def g)
  moreover have "z_len (zs_view m (length a) True) = length a \<and> z_mem (zs_view m (length a) True) = m" for m
    using assms(5) by (simp add: zs_view_def)
  ultimately show ?thesis using p 1(1) 2(2) by metis
qed

theorem wire_zstring_witness:
  "\<exists>b1 u b2. put_zs BREADBOARD (zs_of_cstr (Some ''suil'')) empty_board = Value b1 \<and> get_zs BREADBOARD zs_null b1 = Value (u, b2) \<and>
    z_mem u = Some (known (''suil'' @ [NUL]))"
proof -
  have "cut ''suil'' = ''suil''" by (simp add: cut_def)
  then show ?thesis
    using wire_zstring [OF empty_board_ok(1,2) holds_cstr, of "''suil''" zs_null] empty_board_ok(3) by auto
qed

section \<open>Reachable boards\<close>

lemma bytes_loop_keeps:
  assumes "bytes_loop n m p out i = Value out'" and "i + n \<le> length out"
  shows "length out' = length out \<and> (\<forall>j < length out. i \<le> j \<and> j < i + n \<longrightarrow> out' ! j \<noteq> None) \<and> (\<forall>j < i. out' ! j = out ! j)"
  using assms
proof (induction n arbitrary: p out i)
  case (Suc n)
  then obtain c where c: "bytes_loop n m (p + 2) (out[i := Some c]) (i + 1) = Value out'"
    by (auto simp: bind_out_Value_iff wr_def split: if_splits)
  from Suc.IH [OF this] Suc.prems(2)
  have o: "length out' = length out" "\<forall>j < length out. i + 1 \<le> j \<and> j < i + 1 + n \<longrightarrow> out' ! j \<noteq> None"
    "\<forall>j < i + 1. out' ! j = out[i := Some c] ! j" by auto
  have "out' ! j \<noteq> None" if "j < length out" "i \<le> j" "j < i + Suc n" for j
    using o(2,3) that by (cases "j = i") auto
  with o show ?case by auto
qed auto

lemma bytes_keeps:
  assumes "bytes str (Some out) = Value out'"
  shows "\<exists>o'. out' = Some o' \<and> length o' = length out \<and> (\<forall>j < z_len str div 2. o' ! j \<noteq> None)"
proof (cases "z_len str div 2 = 0")
  case True
  with assms show ?thesis by (auto simp: bytes_def Let_def split: if_splits)
next
  case False
  let ?n = "z_len str div 2"
  have n: "?n \<le> length out" using assms by (auto simp: bytes_def Let_def split: if_splits)
  obtain m where "z_mem str = Some m" using assms False n by (cases "z_mem str") (simp_all add: bytes_def Let_def)
  with assms False n have "map_out Some (bytes_loop ?n m 0 out 0) = Value out'" by (simp add: bytes_def Let_def)
  then obtain o' where "bytes_loop ?n m 0 out 0 = Value o'" "out' = Some o'" by (cases "bytes_loop ?n m 0 out 0") auto
  with bytes_loop_keeps [of ?n m 0 out 0 o'] n show ?thesis by auto
qed

text \<open>The boards that the operations of the class make of a buffer of \<open>n\<close> bytes.\<close>

inductive reachable :: "nat \<Rightarrow> breadboard \<Rightarrow> bool" for n where
  new: "length m = n \<Longrightarrow> n < 2 ^ 64 \<Longrightarrow> reachable n (Breadboard (Some m) n)"
| forward: "reachable n b \<Longrightarrow> bb_forward e b = Value (k, b') \<Longrightarrow> reachable n b'"
| reverse: "reachable n b \<Longrightarrow> bb_reverse k b = Value (e, b') \<Longrightarrow> reachable n b'"
| move: "reachable n b \<Longrightarrow> bb_move k b = (r, b') \<Longrightarrow> reachable n b'"
| reset: "reachable n b \<Longrightarrow> reachable n (bb_reset b)"
| from_hex: "reachable n b \<Longrightarrow> fromHexStr str b = Value (r, b') \<Longrightarrow> reachable n b'"

lemma bb_reset_ok: "bb_ok b \<Longrightarrow> bb_ok (bb_reset b)"
  by (auto simp: bb_ok_def bb_reset_def)

lemma bb_move_ok:
  assumes "bb_ok b" and "bb_move n b = (r, b')"
  shows "bb_ok b' \<and> M b' = M b"
proof -
  have "bb_size b = T b - H b" using assms(1) by (auto simp: bb_ok_def bb_size_def intro: sub64_less)
  then show ?thesis using assms
    by (auto simp: bb_move_def bb_ok_def u64_small split: if_splits)
qed

lemma fromHexStr_ok:
  assumes "bb_ok b" and "fromHexStr str b = Value (r, b')"
  shows "bb_ok b' \<and> M b' = M b"
proof -
  obtain m where m: "sink b = Some m" "M b \<le> length m" "\<forall>i. H b \<le> i \<and> i < T b \<longrightarrow> m ! i \<noteq> None"
    and b: "H b \<le> T b" "T b \<le> M b" "M b < 2 ^ 64" using assms(1) by (auto simp: bb_ok_def)
  let ?n = "z_len str div 2" and ?k = "M b - T b"
  have k: "sub64 (M b) (T b) = ?k" using b by (simp add: sub64_less)
  show ?thesis
  proof (cases "?n > ?k")
    case True
    then show ?thesis using assms k by (simp add: fromHexStr_def)
  next
    case False
    then obtain out where out: "bytes str (Some (take ?k (drop (T b) m))) = Value out"
      "b' = b\<lparr>sink := Some (take (T b) m @ the out @ drop (T b + ?k) m), T := u64 (T b + ?n)\<rparr>"
      using assms(2) k m(1) by (auto simp: fromHexStr_def bind_out_Value_iff)
    obtain o' where o': "out = Some o'" "length o' = ?k" "\<forall>j < ?n. o' ! j \<noteq> None"
      using bytes_keeps [OF out(1)] m(2) b by auto
    let ?m = "take (T b) m @ o' @ drop (T b + ?k) m"
    have u: "u64 (T b + ?n) = T b + ?n" using False b by (intro u64_small) simp
    have "?m ! i \<noteq> None" if "H b \<le> i" "i < T b + ?n" for i
    proof (cases "i < T b")
      case True
      then show ?thesis using m b that by (simp add: nth_append)
    next
      case False
      then have "i - T b < ?n" using that by linarith
      then show ?thesis using m(2) b o' False \<open>\<not> ?n > ?k\<close> by (simp add: nth_append)
    qed
    then show ?thesis using False b m(2) o'(1,2) u by (auto simp: out(2) bb_ok_def)
  qed
qed

text \<open>C6: Every board that is made of a buffer keeps its window inside the buffer, with all bytes of
  the window written, whatever operations are called on it.\<close>
theorem board_invariant:
  assumes "reachable n b"
  shows "bb_ok b \<and> M b = n"
  using assms
proof induction
  case (new m)
  then show ?case by (simp add: Breadboard_def bb_ok_def)
next
  case (forward b e k b')
  then have "bb_forward e b \<noteq> Throw x" for x by simp
  then have "length e \<le> bb_room b"
    using board.forward_full [of b e] forward(2,3) by (fastforce simp: BREADBOARD_def not_le)
  then show ?case
    using board.forward_ok [of b e] forward by (auto simp: BREADBOARD_def bb_forward_def bind_out_Value_iff split: if_splits)
next
  case (reverse b k e b')
  then have "k \<le> length (bb_content b)"
    using board.reverse_short [of b k] by (fastforce simp: BREADBOARD_def not_le)
  then show ?case
    using board.reverse_ok [of b k] reverse by (auto simp: BREADBOARD_def bb_reverse_def bind_out_Value_iff split: if_splits)
next
  case (move b k r b')
  then show ?case using bb_move_ok by metis
next
  case (reset b)
  then show ?case using bb_reset_ok [of b] by (simp add: bb_reset_def)
next
  case (from_hex b str r b')
  then show ?case using fromHexStr_ok by metis
qed

theorem board_invariant_witness: "bb_ok (bb_reset empty_board)"
  using board_invariant [OF reachable.reset [OF reachable.new, of "replicate 64 None" 64]] by (simp add: empty_board_def)

section \<open>Hexadecimal text of a board\<close>

lemma bb_raw_ok: "bb_ok b \<Longrightarrow> length (bb_content b) < 2 ^ 32 \<Longrightarrow> bb_raw b = Value (bb_content b)"
proof -
  assume b: "bb_ok b" and n: "length (bb_content b) < 2 ^ 32"
  obtain x y where p: "sink b = Some (x @ known (bb_content b) @ y)" "length x = H b"
    "T b = H b + length (bb_content b)" "M b = T b + bb_room b" "M b < 2 ^ 64"
    using bb_ok_parts [OF b] by metis
  have "bb_size b = length (bb_content b)" using p by (simp add: bb_size_def sub64_less)
  with n p rd_all_known [of "length (bb_content b)" "bb_content b" x y] show ?thesis
    by (simp add: bb_raw_def copy_out_def)
qed

lemma toHexStr_ok:
  assumes b: "bb_ok b" and n: "length (bb_content b) < 2 ^ 30" and ob: "buf_ok ob" "room (length (bb_content b) * 2 + 2) ob"
  shows "\<exists>t ob'. hex_digits False (bb_content b) = Value t \<and> toHexStr b ob = Value ob' \<and> buf_ok ob' \<and> contents ob' = contents ob @ known t"
proof -
  let ?s = "bb_content b" and ?k = "length (bb_content b) * 2 + 2" and ?o = "m_offset ob"
  let ?r = "reserve ?k ob"
  obtain t where t: "hex_digits False ?s = Value t" "length t = 2 * length ?s" using hex_digits_total by blast
  obtain m where m: "m_data ?r = Some m" using reserve_ok(5) [OF ob] by auto
  have r: "buf_ok ?r" "contents ?r = contents ob" "m_offset ?r = ?o" "?o + ?k \<le> m_size ?r" using reserve_ok(1-4) [OF ob] by auto
  have lm: "length m = m_size ?r + 1" "m_size ?r < 2 ^ 32" "?o \<le> m_size ?r" using r(1,3) m by (auto simp: buf_ok_def)
  have c: "capacity ?r = m_size ?r - ?o" using capacity_ok [OF r(1)] r(3) by simp
  define w where "w = take (capacity ?r) (drop ?o m)"
  have w: "length w = m_size ?r - ?o" using lm(1,3) c by (simp add: w_def)
  then have "2 * length ?s \<le> length w" using r(4) by linarith
  then have h: "hexstr_raw (Some ?s) (Some w) = Value (length t, Some (known t @ drop (length t) w))"
    using wr_all_eq [of 0 t w] t by (simp add: hexstr_raw_def)
  let ?m = "take ?o m @ (known t @ drop (length t) w) @ drop (?o + capacity ?r) m"
  let ?ob = "?r\<lparr>m_data := Some ?m, m_offset := ?o + length t\<rparr>"
  have "seek (int (length t)) (?r\<lparr>m_data := Some ?m\<rparr>) = Value ?ob"
    using r(3,4) t(2) by (simp add: seek_def bseek_def nat_add_distrib)
  then have "toHexStr b ob = Value ?ob"
    using bb_raw_ok [OF b] n h m r(3) by (simp add: toHexStr_def Let_def w_def)
  moreover have "length ?m = length m" using w t(2) r(4) lm c by simp
  then have "buf_ok ?ob" using r(1,4) t(2) m lm by (simp add: buf_ok_def)
  moreover have "contents ?ob = take ?o m @ known t" using lm by (simp add: contents_def)
  moreover have "take ?o m = contents ob" using r(2,3) m by (simp add: contents_def)
  ultimately show ?thesis using t(1) by auto
qed

lemma fromHexStr_content:
  assumes b: "bb_ok b" and h: "hex_digits False s = Value t" "holds u t" "length s \<le> bb_room b"
  shows "\<exists>b'. fromHexStr u b = Value (True, b') \<and> bb_ok b' \<and> bb_content b' = bb_content b @ s"
proof -
  obtain x y where p: "sink b = Some (x @ known (bb_content b) @ y)" "length x = H b"
    "T b = H b + length (bb_content b)" "bb_room b \<le> length y" "M b = T b + bb_room b" "M b < 2 ^ 64"
    using b by (rule bb_ok_parts)
  have n: "z_len u div 2 = length s" using h(1,2) hex_digits_total [of False s] by (auto simp: holds_def)
  have k: "sub64 (M b) (T b) = bb_room b" using p by (simp add: sub64_less)
  have "bytes u (Some (take (bb_room b) y)) = Value (Some (known s @ drop (length s) (take (bb_room b) y)))"
    using p(4) h(3) by (intro bytes_ok [OF h(1,2)]) simp
  moreover have "drop (T b) (x @ known (bb_content b) @ y) = y" using p(2,3) by simp
  moreover have "take (T b) (x @ known (bb_content b) @ y) = x @ known (bb_content b)" using p(2,3) by simp
  moreover have "drop (T b + bb_room b) (x @ known (bb_content b) @ y) = drop (bb_room b) y" using p(2,3) by simp
  moreover have "drop (length s) (take (bb_room b) y) @ drop (bb_room b) y = drop (length s) y"
    using h(3) p(4) by (metis append_take_drop_id drop_append length_take min_absorb2 diff_is_0_eq drop0)
  ultimately have f: "fromHexStr u b = Value (True, b\<lparr>sink := Some (x @ known (bb_content b @ s) @ drop (length s) y), T := T b + length s\<rparr>)"
    using p(1,3,5,6) k n h(3) by (simp add: fromHexStr_def u64_small)
  let ?b = "b\<lparr>sink := Some (x @ known (bb_content b @ s) @ drop (length s) y), T := T b + length s\<rparr>"
  have sk: "sink ?b = Some (x @ known (bb_content b @ s) @ drop (length s) y)" by simp
  have "bb_ok ?b" "bb_content ?b = bb_content b @ s"
    by (rule bb_okI [OF sk]; use p(2-6) h(3) in simp)+
  with f show ?thesis by blast
qed

text \<open>The hexadecimal text of a board, read into another board with room for it, appends the
  bytes of the first.\<close>
theorem board_hex_roundtrip:
  assumes "bb_ok b" and "length (bb_content b) < 2 ^ 30" and "buf_ok ob" and "room (length (bb_content b) * 2 + 2) ob"
    and "bb_ok b2" and "length (bb_content b) \<le> bb_room b2"
  shows "\<exists>t ob' b'. toHexStr b ob = Value ob' \<and> contents ob' = contents ob @ known t \<and>
    fromHexStr (zs_view (Some (known t)) (length t) False) b2 = Value (True, b') \<and> bb_ok b' \<and> bb_content b' = bb_content b2 @ bb_content b"
proof -
  obtain t ob' where t: "hex_digits False (bb_content b) = Value t" "toHexStr b ob = Value ob'" "contents ob' = contents ob @ known t"
    using toHexStr_ok [OF assms(1-4)] by blast
  have "length t = 2 * length (bb_content b)" using t(1) hex_digits_total [of False "bb_content b"] by auto
  then have "holds (zs_view (Some (known t)) (length t) False) t" using assms(2) by (simp add: holds_def zs_view_def)
  from fromHexStr_content [OF assms(5) t(1) this assms(6)] t(2,3) show ?thesis by blast
qed

theorem board_hex_roundtrip_witness:
  "\<exists>t ob' b'. toHexStr (sample_board ''suil'') (obuffer 0) = Value ob' \<and> contents ob' = known t \<and>
    fromHexStr (zs_view (Some (known t)) (length t) False) empty_board = Value (True, b') \<and> bb_content b' = ''suil''"
proof -
  have "length ''suil'' < (2 :: nat) ^ 32" by simp
  note b = sample_board_ok [OF this]
  have ob: "buf_ok (obuffer 0)" "contents (obuffer 0) = []" using obuffer_lean [of 0] by auto
  have "room 10 (obuffer 0)" by (simp add: room_def obuffer_def empty_buffer_def)
  then show ?thesis
    using board_hex_roundtrip [OF b(1) _ ob(1) _ empty_board_ok(1)] b(2) ob(2) empty_board_ok(2,3) by auto
qed

section \<open>Heapboards that leave their memory\<close>

lemma wr_all_past: "e \<noteq> [] \<Longrightarrow> length m < i + length e \<Longrightarrow> wr_all m i e = Undefined"
proof (induction e arbitrary: m i)
  case (Cons c e)
  show ?case
  proof (cases "i < length m")
    case True
    with Cons.prems have "wr_all (m[i := Some c]) (i + 1) e = Undefined" by (intro Cons.IH) auto
    with True show ?thesis by (simp add: wr_def)
  qed (simp add: wr_def)
qed simp

lemma bb_forward_past:
  assumes "sink b = Some m" and "e \<noteq> []" and "length m < T b + length e" and "length e \<le> sub64 (M b) (T b)"
  shows "bb_forward e b = Undefined"
  using assms by (simp add: bb_forward_def copy_in_def wr_all_past)

text \<open>seal moves the bytes to a memory of exactly their size and puts the old window and the old
  capacity back: the next byte that is written lies behind the memory.\<close>
theorem heapboard_seal:
  assumes "bb_ok b" and "hb_seal b = Value (True, b')" and "e \<noteq> []" and "length e \<le> bb_room b"
  shows "bb_forward e b' = Undefined"
proof -
  obtain x y where p: "sink b = Some (x @ known (bb_content b) @ y)" "length x = H b"
    "T b = H b + length (bb_content b)" "M b = T b + bb_room b" "M b < 2 ^ 64"
    using bb_ok_parts [OF assms(1)] by metis
  have s: "bb_size b = length (bb_content b)" using p by (simp add: bb_size_def sub64_less)
  have "copy_out (sink b) (H b) (bb_size b) = Value (bb_content b)"
    using p(1,2) s rd_all_known [of "length (bb_content b)" "bb_content b" x y] by (simp add: copy_out_def)
  then have b': "sink b' = Some (known (bb_content b))" "T b' = T b" "M b' = M b"
    using assms(2) by (auto simp: hb_seal_def Let_def split: if_splits)
  have "sub64 (M b') (T b') = bb_room b" using b' p by (simp add: sub64_less)
  moreover have "0 < length e" using assms(3) by simp
  ultimately show ?thesis using b' p(3) assms(3,4) by (intro bb_forward_past [of b' "known (bb_content b)"]) simp_all
qed

theorem heapboard_seal_witness:
  "\<exists>b'. hb_seal \<lparr>sink = Some (known ''ab'' @ replicate 8 None), H = 0, T = 2, M = 10, own = True\<rparr> = Value (True, b') \<and>
    bb_forward ''c'' b' = Undefined"
proof -
  let ?b = "\<lparr>sink = Some (known ''ab'' @ replicate 8 None), H = 0, T = 2, M = 10, own = True\<rparr>"
  have sk: "sink ?b = Some ([] @ known ''ab'' @ replicate 8 None)" by simp
  have "bb_ok ?b" by (rule bb_okI [OF sk]) simp_all
  moreover have "\<exists>b'. hb_seal ?b = Value (True, b')"
  proof -
    have "sub64 2 0 = 2" "sub64 10 5 = 5" by (simp_all add: sub64_less)
    moreover have "copy_out (sink ?b) 0 2 = Value ''ab''" by (simp add: copy_out_def numeral_2_eq_2 rd_def)
    ultimately show ?thesis by (simp add: hb_seal_def bb_size_def)
  qed
  then obtain b' where b': "hb_seal ?b = Value (True, b')" ..
  ultimately have "bb_forward ''c'' b' = Undefined" by (intro heapboard_seal [of ?b]) (simp_all add: bb_room_def)
  with b' show ?thesis by blast
qed

text \<open>The move assignment takes the memory and the window of a board but keeps its own capacity:
  a board that was larger writes behind the memory it was given.\<close>
theorem heapboard_move_assign:
  assumes "bb_ok b" and "sink b = Some m" and "length m = M b" and "M this < 2 ^ 64"
    and "M b < T b + length e" and "T b + length e \<le> M this"
  shows "bb_forward e (fst (hb_move_assign this b)) = Undefined"
proof -
  let ?b = "fst (hb_move_assign this b)"
  have b: "sink ?b = Some m" "T ?b = T b" "M ?b = M this" using assms(2) by (simp_all add: hb_move_assign_def)
  have "T b \<le> M b" using assms(1) by (simp add: bb_ok_def)
  then have "e \<noteq> []" using assms(5) by auto
  then show ?thesis
    using b assms by (intro bb_forward_past [of ?b m]) (simp_all add: sub64_less)
qed

theorem heapboard_move_assign_witness:
  "bb_forward ''abc'' (fst (hb_move_assign (Heapboard_new 64) (Heapboard_new 2))) = Undefined"
  by (rule heapboard_move_assign [of _ "replicate 2 None"]) (simp_all add: Heapboard_new_def bb_ok_def)

end
