(* ===== verification/Routing.thy ===== *)
theory Routing
  imports HttpTypes Outcome "HOL-Library.Sublist"
begin

text \<open>
  The routing trie of \<^verbatim>\<open>suil/http/routing.h\<close> and \<^verbatim>\<open>suil/http/routing.cpp\<close>, with the route
  parameters of \<^verbatim>\<open>suil/http/common.h\<close>.

  The nodes are the vector \<open>m_nodes\<close>, the children of a node an association list: the hash map of
  the code has no order that could be relied on.  \<open>strtod\<close> is a parameter, the integer conversions of
  the C library are written out.  A parameter \<open>pos\<close> of the code is the rest of the URL here.
\<close>

section \<open>Route parameters\<close>

datatype ParamType = P_INT | P_UINT | P_DOUBLE | P_STRING | P_PATH

fun type_index :: "ParamType \<Rightarrow> nat" where
  "type_index P_INT = 0"
| "type_index P_UINT = 1"
| "type_index P_DOUBLE = 2"
| "type_index P_STRING = 3"
| "type_index P_PATH = 4"

definition param_types :: "ParamType list" where
  "param_types = [P_INT, P_UINT, P_DOUBLE, P_STRING, P_PATH]"

text \<open>A container: the values below \<open>back\<close>, and the capacity in eight bits, which is 0 while there
  is no memory.\<close>

record 'v params_container =
  items :: "'v list"
  cap :: nat

definition no_items :: "'v params_container" where
  "no_items = \<lparr>items = [], cap = 0\<rparr>"

definition pc_grow :: "'v params_container \<Rightarrow> 'v params_container" where
  "pc_grow pc =
     (if cap pc = 0 then pc\<lparr>cap := 8\<rparr>
      else if length (items pc) = cap pc then pc\<lparr>cap := cap pc * 2 mod 256\<rparr>
      else pc)"

definition pc_push :: "'v \<Rightarrow> 'v params_container \<Rightarrow> 'v params_container outcome" where
  "pc_push v pc =
     (let pc = pc_grow pc in
      if length (items pc) < cap pc then Value (pc\<lparr>items := items pc @ [v]\<rparr>) else Undefined)"

definition pc_pop :: "'v params_container \<Rightarrow> 'v params_container" where
  "pc_pop pc = (if items pc \<noteq> [] then pc\<lparr>items := butlast (items pc)\<rparr> else pc)"

definition pc_get :: "nat \<Rightarrow> 'v params_container \<Rightarrow> 'v outcome" where
  "pc_get i pc = (if cap pc \<noteq> 0 \<and> i < length (items pc) then Value (items pc ! i) else Throw OtherException)"

record 'd routing_params =
  int_params :: "int params_container"
  uint_params :: "nat params_container"
  double_params :: "'d params_container"
  string_params :: "string params_container"

definition no_params :: "'d routing_params" where
  "no_params = \<lparr>int_params = no_items, uint_params = no_items, double_params = no_items, string_params = no_items\<rparr>"

datatype 'd param_value = PInt int | PUint nat | PDouble 'd | PString string

fun push_param :: "'d param_value \<Rightarrow> 'd routing_params \<Rightarrow> 'd routing_params outcome" where
  "push_param (PInt v) ps = map_out (\<lambda>c. ps\<lparr>int_params := c\<rparr>) (pc_push v (int_params ps))"
| "push_param (PUint v) ps = map_out (\<lambda>c. ps\<lparr>uint_params := c\<rparr>) (pc_push v (uint_params ps))"
| "push_param (PDouble v) ps = map_out (\<lambda>c. ps\<lparr>double_params := c\<rparr>) (pc_push v (double_params ps))"
| "push_param (PString v) ps = map_out (\<lambda>c. ps\<lparr>string_params := c\<rparr>) (pc_push v (string_params ps))"

fun pop_param :: "'d param_value \<Rightarrow> 'd routing_params \<Rightarrow> 'd routing_params" where
  "pop_param (PInt v) ps = ps\<lparr>int_params := pc_pop (int_params ps)\<rparr>"
| "pop_param (PUint v) ps = ps\<lparr>uint_params := pc_pop (uint_params ps)\<rparr>"
| "pop_param (PDouble v) ps = ps\<lparr>double_params := pc_pop (double_params ps)\<rparr>"
| "pop_param (PString v) ps = ps\<lparr>string_params := pc_pop (string_params ps)\<rparr>"

section \<open>Reading a parameter\<close>

definition digits_value :: "string \<Rightarrow> nat" where
  "digits_value = foldl (\<lambda>n c. n * 10 + (ucode c - ucode (CHR ''0''))) 0"

text \<open>The results of \<open>strtoll\<close> and \<open>strtoull\<close> in base 10, for a text without leading space: the
  value, the number of bytes read, and whether \<open>errno\<close> is \<open>ERANGE\<close>.\<close>

definition strtoll :: "string \<Rightarrow> int \<times> nat \<times> bool" where
  "strtoll s =
     (let sgn = (case s of c # _ \<Rightarrow> c = CHR ''+'' \<or> c = CHR ''-'' | [] \<Rightarrow> False);
          neg = (case s of c # _ \<Rightarrow> c = CHR ''-'' | [] \<Rightarrow> False);
          ds = takeWhile IS_NUM (if sgn then tl s else s);
          v = (if neg then - int (digits_value ds) else int (digits_value ds)) in
      if ds = [] then (0, 0, False)
      else if v > 2 ^ 63 - 1 then (2 ^ 63 - 1, length ds + of_bool sgn, True)
      else if v < - (2 ^ 63) then (- (2 ^ 63), length ds + of_bool sgn, True)
      else (v, length ds + of_bool sgn, False))"

definition strtoull :: "string \<Rightarrow> nat \<times> nat \<times> bool" where
  "strtoull s =
     (let sgn = (case s of c # _ \<Rightarrow> c = CHR ''+'' \<or> c = CHR ''-'' | [] \<Rightarrow> False);
          neg = (case s of c # _ \<Rightarrow> c = CHR ''-'' | [] \<Rightarrow> False);
          ds = takeWhile IS_NUM (if sgn then tl s else s);
          v = digits_value ds in
      if ds = [] then (0, 0, False)
      else if v > 2 ^ 64 - 1 then (2 ^ 64 - 1, length ds + of_bool sgn, True)
      else ((if neg then (2 ^ 64 - v) mod 2 ^ 64 else v), length ds + of_bool sgn, False))"

text \<open>What the branch of \<open>find\<close> for a type of parameter reads at the start of the rest of the URL.\<close>

definition converted :: "('v \<Rightarrow> 'd param_value) \<Rightarrow> 'v \<times> nat \<times> bool \<Rightarrow> ('d param_value \<times> nat) option" where
  "converted mk r = (case r of (v, n, erange) \<Rightarrow> if \<not> erange \<and> n \<noteq> 0 then Some (mk v, n) else None)"

fun take_param :: "(string \<Rightarrow> 'd \<times> nat \<times> bool) \<Rightarrow> ParamType \<Rightarrow> string \<Rightarrow> ('d param_value \<times> nat) option" where
  "take_param strtod t [] = None"
| "take_param strtod P_INT (c # s) =
     (if IS_NUM c \<or> c = CHR ''+'' \<or> c = CHR ''-'' then converted PInt (strtoll (c # s)) else None)"
| "take_param strtod P_UINT (c # s) =
     (if IS_NUM c \<or> c = CHR ''+'' then converted PUint (strtoull (c # s)) else None)"
| "take_param strtod P_DOUBLE (c # s) =
     (if IS_NUM c \<or> c = CHR ''+'' \<or> c = CHR ''-'' \<or> c = CHR ''.'' then converted PDouble (strtod (c # s)) else None)"
| "take_param strtod P_STRING (c # s) =
     (let sv = takeWhile (\<lambda>c. c \<noteq> CHR ''/'') (c # s) in
      if sv \<noteq> [] then Some (PString (take (length sv mod 2 ^ 32) sv), length sv) else None)"
| "take_param strtod P_PATH (c # s) = Some (PString (take (length (c # s) mod 2 ^ 32) (c # s)), length (c # s))"

lemma take_param_pos: "take_param sd t s = Some (v, n) \<Longrightarrow> 0 < n \<and> s \<noteq> []"
  by (cases "(sd, t, s)" rule: take_param.cases)
    (auto simp: converted_def Let_def split: if_splits prod.splits)

section \<open>The trie\<close>

record node =
  rule_index :: nat
  param_childrens :: "nat list"
  children :: "(string \<times> nat) list"

type_synonym trie = "node list"

definition new_node :: node where
  "new_node = \<lparr>rule_index = 0, param_childrens = replicate 5 0, children = []\<rparr>"

definition Trie :: trie where
  "Trie = [new_node]"

definition issimple :: "node \<Rightarrow> bool" where
  "issimple n \<longleftrightarrow> rule_index n = 0 \<and> list_all (\<lambda>x. x = 0) (param_childrens n)"

text \<open>The names of the parameters in a rule, in the order they are tried.\<close>

definition paramTraits :: "(ParamType \<times> string) list" where
  "paramTraits = [(P_INT, ''{int}''), (P_UINT, ''{uint}''), (P_DOUBLE, ''{float}''), (P_DOUBLE, ''{double}''),
     (P_STRING, ''{str}''), (P_STRING, ''{string}''), (P_PATH, ''{path}'')]"

definition param_at :: "string \<Rightarrow> (ParamType \<times> string) option" where
  "param_at url = List.find (\<lambda>(t, name). prefix name url) paramTraits"

text \<open>The child for a parameter or a character, created when it is not there.\<close>

definition param_child :: "ParamType \<Rightarrow> nat \<Rightarrow> trie \<Rightarrow> nat \<times> trie" where
  "param_child t idx T =
     (let c = param_childrens (T ! idx) ! type_index t in
      if c \<noteq> 0 then (c, T)
      else (length T, (T @ [new_node])[idx := (T ! idx)\<lparr>param_childrens := (param_childrens (T ! idx))[type_index t := length T]\<rparr>]))"

definition char_child :: "char \<Rightarrow> nat \<Rightarrow> trie \<Rightarrow> nat \<times> trie" where
  "char_child c idx T =
     (case map_of (children (T ! idx)) [c] of
        Some k \<Rightarrow> (k, T)
      | None \<Rightarrow> (length T, (T @ [new_node])[idx := (T ! idx)\<lparr>children := ([c], length T) # children (T ! idx)\<rparr>]))"

text \<open>The loop of \<open>add\<close>.  After a brace that starts none of the names the loop comes back to the
  same brace: \<open>None\<close> is a call that does not return.\<close>

partial_function (option) add_loop :: "string \<Rightarrow> nat \<Rightarrow> trie \<Rightarrow> (nat \<times> trie) option" where
  "add_loop url idx T =
     (case url of
        [] \<Rightarrow> Some (idx, T)
      | c # rest \<Rightarrow>
          if c = CHR ''{'' then
            (case param_at url of
               Some (t, name) \<Rightarrow> (case param_child t idx T of (k, T') \<Rightarrow> add_loop (drop (length name) url) k T')
             | None \<Rightarrow> add_loop url idx T)
          else (case char_child c idx T of (k, T') \<Rightarrow> add_loop rest k T'))"

text \<open>\<open>add\<close>: \<open>Throw\<close> is the exception for a rule that is there already.\<close>

definition add :: "string \<Rightarrow> nat \<Rightarrow> trie \<Rightarrow> trie outcome option" where
  "add url rule T =
     (case add_loop url 0 T of
        None \<Rightarrow> None
      | Some (idx, T) \<Rightarrow>
          Some (if rule_index (T ! idx) \<noteq> 0 then Throw OtherException
                else Value (T[idx := (T ! idx)\<lparr>rule_index := rule\<rparr>])))"

section \<open>Finding a rule\<close>

text \<open>\<open>update_found\<close>\<close>

definition update_found :: "nat \<times> 'p \<Rightarrow> nat \<times> 'p \<Rightarrow> nat \<times> 'p" where
  "update_found acc ret = (if fst ret \<noteq> 0 \<and> (fst acc = 0 \<or> fst acc > fst ret) then ret else acc)"

text \<open>The result is the rule, its parameters, and what is left in the parameters of the caller: the
  end of the URL moves them into the result.\<close>

function find_rule :: "(string \<Rightarrow> 'd \<times> nat \<times> bool) \<Rightarrow> trie \<Rightarrow> string \<Rightarrow> nat \<Rightarrow> 'd routing_params \<Rightarrow>
    ((nat \<times> 'd routing_params) \<times> 'd routing_params) outcome"
  and find_params :: "(string \<Rightarrow> 'd \<times> nat \<times> bool) \<Rightarrow> trie \<Rightarrow> string \<Rightarrow> nat \<Rightarrow> ParamType list \<Rightarrow> nat \<times> 'd routing_params \<Rightarrow>
    'd routing_params \<Rightarrow> ((nat \<times> 'd routing_params) \<times> 'd routing_params) outcome"
  and find_children :: "(string \<Rightarrow> 'd \<times> nat \<times> bool) \<Rightarrow> trie \<Rightarrow> string \<Rightarrow> (string \<times> nat) list \<Rightarrow> nat \<times> 'd routing_params \<Rightarrow>
    'd routing_params \<Rightarrow> ((nat \<times> 'd routing_params) \<times> 'd routing_params) outcome"
where
  "find_rule sd T s n ps =
     (if s = [] then Value ((rule_index (T ! n), ps), no_params)
      else bind_out (find_params sd T s n param_types (0, no_params) ps) (\<lambda>(acc, ps).
             find_children sd T s (children (T ! n)) acc ps))"
| "find_params sd T s n [] acc ps = Value (acc, ps)"
| "find_params sd T s n (t # ts) acc ps =
     (let c = param_childrens (T ! n) ! type_index t in
      case (if c = 0 then None else take_param sd t s) of
        None \<Rightarrow> find_params sd T s n ts acc ps
      | Some (v, len) \<Rightarrow>
          bind_out (push_param v ps) (\<lambda>ps.
          bind_out (find_rule sd T (drop len s) c ps) (\<lambda>(ret, ps).
            find_params sd T s n ts (update_found acc ret) (pop_param v ps))))"
| "find_children sd T s [] acc ps = Value (acc, ps)"
| "find_children sd T s ((fragment, c) # kvs) acc ps =
     (if fragment = [] then Undefined
      else if prefix fragment s then
        bind_out (find_rule sd T (drop (length fragment) s) c ps) (\<lambda>(ret, ps).
          find_children sd T s kvs (update_found acc ret) ps)
      else find_children sd T s kvs acc ps)"
  by pat_completeness auto
termination
proof (relation "measures [\<lambda>x. case x of Inl (_, _, s, _) \<Rightarrow> length s | Inr (Inl (_, _, s, _)) \<Rightarrow> length s | Inr (Inr (_, _, s, _)) \<Rightarrow> length s,
    \<lambda>x. case x of Inl _ \<Rightarrow> 1 | _ \<Rightarrow> 0,
    \<lambda>x. case x of Inl _ \<Rightarrow> 0 | Inr (Inl (_, _, _, _, ts, _)) \<Rightarrow> length ts | Inr (Inr (_, _, _, kvs, _)) \<Rightarrow> length kvs]", goal_cases)
qed (auto dest!: take_param_pos simp: prefix_def split: if_splits)

declare find_rule.simps [simp del]

section \<open>Merging the characters of a path\<close>

text \<open>\<open>merged[key] = value\<close>\<close>

definition map_put :: "string \<Rightarrow> nat \<Rightarrow> (string \<times> nat) list \<Rightarrow> (string \<times> nat) list" where
  "map_put k v m = (if k \<in> fst ` set m then map (\<lambda>kv. if fst kv = k then (k, v) else kv) m else m @ [(k, v)])"

definition merged :: "trie \<Rightarrow> (string \<times> nat) list \<Rightarrow> (string \<times> nat) list" where
  "merged T kids = fold (\<lambda>(f, c). fold (\<lambda>(g, d). map_put (f @ g) d) (children (T ! c))) kids []"

fun each_node :: "(nat \<Rightarrow> trie \<Rightarrow> trie option) \<Rightarrow> nat list \<Rightarrow> trie \<Rightarrow> trie option" where
  "each_node f [] T = Some T"
| "each_node f (x # xs) T = (case f x T of None \<Rightarrow> None | Some T \<Rightarrow> each_node f xs T)"

text \<open>The first argument bounds the depth of the recursion.\<close>

fun optimize_node :: "nat \<Rightarrow> nat \<Rightarrow> trie \<Rightarrow> trie option" where
  "optimize_node 0 n T = None"
| "optimize_node (Suc fuel) n T =
     (case each_node (optimize_node fuel) (filter (\<lambda>x. x \<noteq> 0) (param_childrens (T ! n))) T of
        None \<Rightarrow> None
      | Some T \<Rightarrow>
          (let kids = children (T ! n) in
           if kids = [] then Some T
           else if list_all (\<lambda>(_, c). issimple (T ! c)) kids
             then optimize_node fuel n (T[n := (T ! n)\<lparr>children := merged T kids\<rparr>])
           else each_node (optimize_node fuel) (map snd kids) T))"

definition validate_trie :: "nat \<Rightarrow> trie \<Rightarrow> trie outcome option" where
  "validate_trie fuel T =
     (if \<not> issimple (T ! 0) then Some (Throw OtherException)
      else map_option Value (optimize_node fuel 0 T))"

end
