(* ===== verification/RoutingSpec.thy ===== *)
theory RoutingSpec
  imports Routing
begin

text \<open>
  What \<open>find\<close> returns: the lowest rule among the ends of the URL in the trie, and its parameters as
  long as no end was met before.  Then what the trie means: the rules that were added, and that
  \<open>optimize\<close> does not change it.
\<close>

section \<open>The values in the containers\<close>

type_synonym 'd route_vals = "int list \<times> nat list \<times> 'd list \<times> string list"

definition pvals :: "'d routing_params \<Rightarrow> 'd route_vals" where
  "pvals ps = (items (int_params ps), items (uint_params ps), items (double_params ps), items (string_params ps))"

fun add_val :: "'d param_value \<Rightarrow> 'd route_vals \<Rightarrow> 'd route_vals" where
  "add_val (PInt v) (is, us, ds, ss) = (is @ [v], us, ds, ss)"
| "add_val (PUint v) (is, us, ds, ss) = (is, us @ [v], ds, ss)"
| "add_val (PDouble v) (is, us, ds, ss) = (is, us, ds @ [v], ss)"
| "add_val (PString v) (is, us, ds, ss) = (is, us, ds, ss @ [v])"

definition no_vals :: "'d route_vals" where
  "no_vals = ([], [], [], [])"

text \<open>A container that can hold up to 128 values.\<close>

definition pc_ok :: "nat \<Rightarrow> 'v params_container \<Rightarrow> bool" where
  "pc_ok m pc \<longleftrightarrow> cap pc \<in> {0, 8, 16, 32, 64, 128} \<and> length (items pc) \<le> cap pc \<and> length (items pc) \<le> m"

definition ps_ok :: "nat \<Rightarrow> 'd routing_params \<Rightarrow> bool" where
  "ps_ok m ps \<longleftrightarrow> pc_ok m (int_params ps) \<and> pc_ok m (uint_params ps) \<and> pc_ok m (double_params ps) \<and> pc_ok m (string_params ps)"

lemma pc_push_ok:
  assumes "pc_ok m pc" and "m < 128"
  shows "\<exists>pc'. pc_push v pc = Value pc' \<and> pc_ok (Suc m) pc' \<and> items pc' = items pc @ [v]"
proof -
  have p: "cap pc \<in> {0, 8, 16, 32, 64, 128}" "length (items pc) \<le> cap pc" "length (items pc) \<le> m"
    using assms(1) by (simp_all add: pc_ok_def)
  have g: "cap (pc_grow pc) \<in> {8, 16, 32, 64, 128}" "length (items pc) < cap (pc_grow pc)" "items (pc_grow pc) = items pc"
    using p assms(2) by (auto simp: pc_grow_def)
  then have "pc_push v pc = Value ((pc_grow pc)\<lparr>items := items pc @ [v]\<rparr>)" by (simp add: pc_push_def Let_def)
  with g p(3) show ?thesis by (auto simp: pc_ok_def)
qed

lemma pc_ok_mono: "pc_ok m pc \<Longrightarrow> m \<le> k \<Longrightarrow> pc_ok k pc"
  by (auto simp: pc_ok_def)

lemma ps_ok_mono: "ps_ok m ps \<Longrightarrow> m \<le> k \<Longrightarrow> ps_ok k ps"
  by (auto simp: ps_ok_def intro: pc_ok_mono)

lemma push_param_ok:
  assumes "ps_ok m ps" and "m < 128"
  shows "\<exists>ps'. push_param v ps = Value ps' \<and> ps_ok (Suc m) ps' \<and> pvals ps' = add_val v (pvals ps)"
proof -
  have p: "pc_ok m (int_params ps)" "pc_ok m (uint_params ps)" "pc_ok m (double_params ps)" "pc_ok m (string_params ps)"
    using assms(1) by (simp_all add: ps_ok_def)
  note q = pc_ok_mono [OF p(1), of "Suc m"] pc_ok_mono [OF p(2), of "Suc m"] pc_ok_mono [OF p(3), of "Suc m"] pc_ok_mono [OF p(4), of "Suc m"]
  show ?thesis
  proof (cases v)
    case (PInt x)
    obtain c where "pc_push x (int_params ps) = Value c" "pc_ok (Suc m) c" "items c = items (int_params ps) @ [x]"
      using pc_push_ok [OF p(1) assms(2)] by blast
    with q show ?thesis by (simp add: PInt ps_ok_def pvals_def)
  next
    case (PUint x)
    obtain c where "pc_push x (uint_params ps) = Value c" "pc_ok (Suc m) c" "items c = items (uint_params ps) @ [x]"
      using pc_push_ok [OF p(2) assms(2)] by blast
    with q show ?thesis by (simp add: PUint ps_ok_def pvals_def)
  next
    case (PDouble x)
    obtain c where "pc_push x (double_params ps) = Value c" "pc_ok (Suc m) c" "items c = items (double_params ps) @ [x]"
      using pc_push_ok [OF p(3) assms(2)] by blast
    with q show ?thesis by (simp add: PDouble ps_ok_def pvals_def)
  next
    case (PString x)
    obtain c where "pc_push x (string_params ps) = Value c" "pc_ok (Suc m) c" "items c = items (string_params ps) @ [x]"
      using pc_push_ok [OF p(4) assms(2)] by blast
    with q show ?thesis by (simp add: PString ps_ok_def pvals_def)
  qed
qed

lemma pc_pop_items: "items (pc_pop pc) = butlast (items pc)"
  by (simp add: pc_pop_def)

lemma pop_param_vals: "pvals ps = add_val v q \<Longrightarrow> pvals (pop_param v ps) = q"
proof (cases v; cases q)
qed (simp_all add: pvals_def pc_pop_items)

lemma pop_param_empty: "pvals ps = no_vals \<Longrightarrow> pvals (pop_param v ps) = no_vals"
  by (cases v) (simp_all add: pvals_def pc_pop_items no_vals_def)

lemma pc_pop_ok: "pc_ok m pc \<Longrightarrow> pc_ok m (pc_pop pc)"
  by (auto simp: pc_ok_def pc_pop_def)

lemma pop_param_ok: "ps_ok m ps \<Longrightarrow> ps_ok m (pop_param v ps)"
  by (cases v) (simp_all add: ps_ok_def pc_pop_ok)

text \<open>The bound from the values.\<close>

definition vals_le :: "nat \<Rightarrow> 'd route_vals \<Rightarrow> bool" where
  "vals_le m q = (case q of (is, us, ds, ss) \<Rightarrow> length is \<le> m \<and> length us \<le> m \<and> length ds \<le> m \<and> length ss \<le> m)"

lemma pc_ok_shrink: "pc_ok k pc \<Longrightarrow> length (items pc) \<le> m \<Longrightarrow> pc_ok m pc"
  by (simp add: pc_ok_def)

lemma ps_ok_shrink: "ps_ok k ps \<Longrightarrow> vals_le m (pvals ps) \<Longrightarrow> ps_ok m ps"
  by (simp add: ps_ok_def pc_ok_shrink [of k] vals_le_def pvals_def)

lemma ps_ok_vals: "ps_ok m ps \<Longrightarrow> vals_le m (pvals ps)"
  by (simp add: ps_ok_def pc_ok_def vals_le_def pvals_def)

lemma no_params_ok [simp]: "ps_ok m no_params" "pvals no_params = no_vals" "vals_le m no_vals"
  by (simp_all add: ps_ok_def pc_ok_def no_params_def no_items_def pvals_def no_vals_def vals_le_def)

section \<open>The ends of a URL in the trie\<close>

text \<open>In the order \<open>find\<close> meets them: the rule of the node, 0 when it has none, and the parameters on
  the way to it.\<close>

function ends :: "(string \<Rightarrow> 'd \<times> nat \<times> bool) \<Rightarrow> trie \<Rightarrow> string \<Rightarrow> nat \<Rightarrow> (nat \<times> 'd param_value list) list"
  and ends_params :: "(string \<Rightarrow> 'd \<times> nat \<times> bool) \<Rightarrow> trie \<Rightarrow> string \<Rightarrow> nat \<Rightarrow> ParamType list \<Rightarrow> (nat \<times> 'd param_value list) list"
  and ends_children :: "(string \<Rightarrow> 'd \<times> nat \<times> bool) \<Rightarrow> trie \<Rightarrow> string \<Rightarrow> (string \<times> nat) list \<Rightarrow> (nat \<times> 'd param_value list) list"
where
  "ends sd T s n = (if s = [] then [(rule_index (T ! n), [])]
     else ends_params sd T s n param_types @ ends_children sd T s (children (T ! n)))"
| "ends_params sd T s n [] = []"
| "ends_params sd T s n (t # ts) =
     (let c = param_childrens (T ! n) ! type_index t in
      case (if c = 0 then None else take_param sd t s) of
        None \<Rightarrow> []
      | Some (v, len) \<Rightarrow> map (\<lambda>(r, vs). (r, v # vs)) (ends sd T (drop len s) c)) @ ends_params sd T s n ts"
| "ends_children sd T s [] = []"
| "ends_children sd T s ((f, c) # kvs) =
     (if f \<noteq> [] \<and> prefix f s then ends sd T (drop (length f) s) c else []) @ ends_children sd T s kvs"
  by pat_completeness auto
termination
proof (relation "measures [\<lambda>x. case x of Inl (_, _, s, _) \<Rightarrow> length s | Inr (Inl (_, _, s, _)) \<Rightarrow> length s | Inr (Inr (_, _, s, _)) \<Rightarrow> length s,
    \<lambda>x. case x of Inl _ \<Rightarrow> 1 | _ \<Rightarrow> 0,
    \<lambda>x. case x of Inl _ \<Rightarrow> 0 | Inr (Inl (_, _, _, _, ts)) \<Rightarrow> length ts | Inr (Inr (_, _, _, kvs)) \<Rightarrow> length kvs]", goal_cases)
qed (auto dest!: take_param_pos simp: prefix_def split: if_splits)

declare ends.simps [simp del]

text \<open>The lowest rule of a list of rules, where 0 is none.\<close>

definition lower :: "nat \<Rightarrow> nat \<Rightarrow> nat" where
  "lower a r = (if r \<noteq> 0 \<and> (a = 0 \<or> a > r) then r else a)"

fun best :: "nat list \<Rightarrow> nat" where
  "best [] = 0"
| "best (r # rs) = lower r (best rs)"

lemma lower_simps [simp]: "lower 0 r = r" "lower a 0 = a"
  by (simp_all add: lower_def)

lemma lower_assoc: "lower (lower a b) c = lower a (lower b c)"
  by (simp add: lower_def)

lemma best_append: "best (rs @ ss) = lower (best rs) (best ss)"
  by (induction rs) (simp_all add: lower_assoc)

lemma best_zero: "best rs = 0 \<longleftrightarrow> (\<forall>r \<in> set rs. r = 0)"
  by (induction rs) (auto simp: lower_def)

lemma best_in: "best rs \<noteq> 0 \<Longrightarrow> best rs \<in> set rs"
  by (induction rs) (auto simp: lower_def split: if_splits)

lemma best_le: "r \<in> set rs \<Longrightarrow> r \<noteq> 0 \<Longrightarrow> best rs \<noteq> 0 \<and> best rs \<le> r"
  by (induction rs) (auto simp: lower_def split: if_splits)

lemma fst_update_found: "fst (update_found acc ret) = lower (fst acc) (fst ret)"
  by (simp add: update_found_def lower_def)

lemma update_found_same: "fst (update_found acc ret) = fst acc \<Longrightarrow> update_found acc ret = acc"
  by (auto simp: update_found_def split: if_splits)

lemma lower_eq_left: "lower (lower a b) c = a \<Longrightarrow> lower a b = a"
  by (auto simp: lower_def split: if_splits)

section \<open>What find returns\<close>

text \<open>A trie whose indexes are in range, with a bound for the parameters on the way to a node that
  fits the containers.\<close>

definition depths :: "(nat \<Rightarrow> nat) \<Rightarrow> trie \<Rightarrow> bool" where
  "depths d T \<longleftrightarrow> (\<forall>n < length T. d n \<le> 128 \<and>
     (\<forall>t. param_childrens (T ! n) ! type_index t \<noteq> 0 \<longrightarrow>
        param_childrens (T ! n) ! type_index t < length T \<and> d n < d (param_childrens (T ! n) ! type_index t)) \<and>
     (\<forall>(f, c) \<in> set (children (T ! n)). f \<noteq> [] \<and> c < length T \<and> d n \<le> d c))"

lemma depths_param:
  "depths d T \<Longrightarrow> n < length T \<Longrightarrow> param_childrens (T ! n) ! type_index t = c \<Longrightarrow> c \<noteq> 0 \<Longrightarrow> c < length T \<and> d n < d c \<and> d c \<le> 128"
  unfolding depths_def by blast

lemma depths_child: "depths d T \<Longrightarrow> n < length T \<Longrightarrow> (f, c) \<in> set (children (T ! n)) \<Longrightarrow> f \<noteq> [] \<and> c < length T \<and> d n \<le> d c"
  unfolding depths_def by blast

text \<open>From the accumulated result and the parameters before a part of the search to those after it.\<close>

definition searched :: "nat \<Rightarrow> (nat \<times> 'd param_value list) list \<Rightarrow> 'd routing_params \<Rightarrow> nat \<times> 'd routing_params \<Rightarrow>
    nat \<times> 'd routing_params \<Rightarrow> 'd routing_params \<Rightarrow> bool" where
  "searched m es ps acc acc' ps' \<longleftrightarrow>
     ps_ok m ps' \<and> pvals ps' = (if es = [] then pvals ps else no_vals) \<and>
     fst acc' = lower (fst acc) (best (map fst es)) \<and> (fst acc' = fst acc \<longrightarrow> acc' = acc) \<and>
     (ps_ok 128 (snd acc) \<longrightarrow> ps_ok 128 (snd acc')) \<and>
     (\<forall>r vs rest. es = (r, vs) # rest \<longrightarrow> r \<noteq> 0 \<longrightarrow> fst acc' = r \<longrightarrow> r \<noteq> fst acc \<longrightarrow>
        pvals (snd acc') = fold add_val vs (pvals ps))"

lemma searched_first:
  "searched m es ps acc acc' ps' \<Longrightarrow> es = (r, vs) # rest \<Longrightarrow> r \<noteq> 0 \<Longrightarrow> fst acc' = r \<Longrightarrow> r \<noteq> fst acc \<Longrightarrow>
   pvals (snd acc') = fold add_val vs (pvals ps)"
  unfolding searched_def by blast

lemma searchedI:
  assumes "ps_ok m ps'" and "pvals ps' = (if es = [] then pvals ps else no_vals)"
    and "fst acc' = lower (fst acc) (best (map fst es))" and "fst acc' = fst acc \<Longrightarrow> acc' = acc"
    and "ps_ok 128 (snd acc) \<Longrightarrow> ps_ok 128 (snd acc')"
    and "\<And>r vs rest. es = (r, vs) # rest \<Longrightarrow> r \<noteq> 0 \<Longrightarrow> fst acc' = r \<Longrightarrow> r \<noteq> fst acc \<Longrightarrow>
      pvals (snd acc') = fold add_val vs (pvals ps)"
  shows "searched m es ps acc acc' ps'"
  using assms unfolding searched_def by blast

lemma searched_nil: "ps_ok m ps \<Longrightarrow> searched m [] ps acc acc ps"
  by (simp add: searched_def)

lemma searched_append:
  assumes 1: "searched m es ps acc acc1 ps1" and 2: "searched m fs ps1 acc1 acc2 ps2"
  shows "searched m (es @ fs) ps acc acc2 ps2"
proof -
  have f: "fst acc2 = lower (fst acc) (best (map fst (es @ fs)))"
    using 1 2 by (simp add: searched_def best_append lower_assoc)
  have same: "acc2 = acc" if "fst acc2 = fst acc"
  proof -
    have a: "fst acc1 = lower (fst acc) (best (map fst es))" "fst acc2 = lower (fst acc1) (best (map fst fs))"
      using 1 2 by (simp_all add: searched_def)
    then have "lower (lower (fst acc) (best (map fst es))) (best (map fst fs)) = fst acc" using that by simp
    then have "fst acc1 = fst acc" unfolding a(1) by (rule lower_eq_left)
    with 1 2 that show ?thesis by (simp add: searched_def)
  qed
  have "pvals (snd acc2) = fold add_val vs (pvals ps)"
    if "es @ fs = (r, vs) # rest" "r \<noteq> 0" "fst acc2 = r" "r \<noteq> fst acc" for r vs rest
  proof (cases es)
    case Nil
    then have "acc1 = acc" "pvals ps1 = pvals ps" using 1 by (simp_all add: searched_def)
    with searched_first [OF 2, of r vs rest] that Nil show ?thesis by simp
  next
    case (Cons e es')
    then have es: "es = (r, vs) # es'" using that(1) by simp
    have "r \<in> set (map fst es)" using es by simp
    then have b: "best (map fst es) \<noteq> 0" "best (map fst es) \<le> r" using best_le that(2) by blast+
    have "fst acc1 = lower (fst acc) (best (map fst es))" "fst acc2 = lower (fst acc1) (best (map fst fs))"
      using 1 2 by (simp_all add: searched_def)
    with b that(3) have "fst acc1 = r" by (auto simp: lower_def split: if_splits)
    moreover from this that 2 have "acc2 = acc1" by (simp add: searched_def)
    ultimately show ?thesis using searched_first [OF 1 es that(2)] that(4) by simp
  qed
  then show ?thesis using 1 2 f same by (intro searchedI) (auto simp: searched_def)
qed

text \<open>One call of \<open>find\<close> for a child.\<close>

definition found_ok :: "nat \<Rightarrow> (nat \<times> 'd param_value list) list \<Rightarrow> 'd routing_params \<Rightarrow> nat \<times> 'd routing_params \<Rightarrow> 'd routing_params \<Rightarrow> bool" where
  "found_ok m es ps ret ps' \<longleftrightarrow>
     ps_ok m ps' \<and> pvals ps' = (if es = [] then pvals ps else no_vals) \<and> fst ret = best (map fst es) \<and> ps_ok 128 (snd ret) \<and>
     (\<forall>r vs rest. es = (r, vs) # rest \<longrightarrow> r \<noteq> 0 \<longrightarrow> fst ret = r \<longrightarrow> pvals (snd ret) = fold add_val vs (pvals ps))"

lemma found_first:
  "found_ok m es ps ret ps' \<Longrightarrow> es = (r, vs) # rest \<Longrightarrow> r \<noteq> 0 \<Longrightarrow> fst ret = r \<Longrightarrow> pvals (snd ret) = fold add_val vs (pvals ps)"
  unfolding found_ok_def by blast

lemma update_found_new: "fst (update_found acc ret) \<noteq> fst acc \<Longrightarrow> update_found acc ret = ret"
  by (auto simp: update_found_def split: if_splits)

lemma searched_child:
  assumes f: "found_ok k es ps ret ps'" and ps: "ps_ok m ps"
  shows "searched m es ps acc (update_found acc ret) ps'"
proof (rule searchedI)
  show v: "pvals ps' = (if es = [] then pvals ps else no_vals)" using f by (simp add: found_ok_def)
  have "ps_ok k ps'" using f by (simp add: found_ok_def)
  moreover have "vals_le m (pvals ps')" unfolding v using ps_ok_vals [OF ps] by simp
  ultimately show "ps_ok m ps'" by (rule ps_ok_shrink)
  show "fst (update_found acc ret) = lower (fst acc) (best (map fst es))" using f by (simp add: fst_update_found found_ok_def)
  show "update_found acc ret = acc" if "fst (update_found acc ret) = fst acc" using that by (rule update_found_same)
  show "ps_ok 128 (snd (update_found acc ret))" if "ps_ok 128 (snd acc)"
    using that f by (simp add: update_found_def found_ok_def)
  show "pvals (snd (update_found acc ret)) = fold add_val vs (pvals ps)"
    if "es = (r, vs) # rest" "r \<noteq> 0" "fst (update_found acc ret) = r" "r \<noteq> fst acc" for r vs rest
    using found_first [OF f that(1,2)] update_found_new [of acc ret] that(3,4) by simp
qed

lemma searched_param:
  assumes f: "found_ok k es ps1 ret ps'" and ps: "ps_ok m ps" "pvals ps1 = add_val v (pvals ps)"
  shows "searched m (map (\<lambda>(r, vs). (r, v # vs)) es) ps acc (update_found acc ret) (pop_param v ps')"
proof (rule searchedI)
  have e: "map fst (map (\<lambda>(r, vs). (r, v # vs)) es) = map fst es" by (simp add: comp_def case_prod_unfold)
  have "pvals ps' = (if es = [] then add_val v (pvals ps) else no_vals)" using f ps(2) by (simp add: found_ok_def)
  then have v: "pvals (pop_param v ps') = (if es = [] then pvals ps else no_vals)"
    using pop_param_vals [of ps' v "pvals ps"] pop_param_empty [of ps' v] by (simp split: if_splits)
  then show "pvals (pop_param v ps') = (if map (\<lambda>(r, vs). (r, v # vs)) es = [] then pvals ps else no_vals)" by simp
  have "ps_ok k (pop_param v ps')" using f by (simp add: found_ok_def pop_param_ok)
  moreover have "vals_le m (pvals (pop_param v ps'))" unfolding v using ps_ok_vals [OF ps(1)] by simp
  ultimately show "ps_ok m (pop_param v ps')" by (rule ps_ok_shrink)
  show "fst (update_found acc ret) = lower (fst acc) (best (map fst (map (\<lambda>(r, vs). (r, v # vs)) es)))"
    unfolding e using f by (simp add: fst_update_found found_ok_def)
  show "update_found acc ret = acc" if "fst (update_found acc ret) = fst acc" using that by (rule update_found_same)
  show "ps_ok 128 (snd (update_found acc ret))" if "ps_ok 128 (snd acc)"
    using that f by (simp add: update_found_def found_ok_def)
  show "pvals (snd (update_found acc ret)) = fold add_val vs (pvals ps)"
    if "map (\<lambda>(r, vs). (r, v # vs)) es = (r, vs) # rest" "r \<noteq> 0" "fst (update_found acc ret) = r" "r \<noteq> fst acc" for r vs rest
  proof (cases es)
    case (Cons x es')
    note es_map = that(1)
    obtain ws where es: "es = (r, ws) # es'" "vs = v # ws" using es_map Cons by (cases x) auto
    have "fst ret = r" "update_found acc ret = ret" using update_found_new [of acc ret] that(3,4) by simp_all
    with found_first [OF f es(1) that(2)] es(2) ps(2) show ?thesis by simp
  qed (use that(1) in simp)
qed

lemma find_ends:
  "depths d T \<Longrightarrow> n < length T \<Longrightarrow> ps_ok (d n) ps \<Longrightarrow>
   \<exists>ret ps'. find_rule sd T s n ps = Value (ret, ps') \<and> found_ok (d n) (ends sd T s n) ps ret ps'"
  "depths d T \<Longrightarrow> n < length T \<Longrightarrow> ps_ok (d n) ps \<Longrightarrow>
   \<exists>acc' ps'. find_params sd T s n ts acc ps = Value (acc', ps') \<and> searched (d n) (ends_params sd T s n ts) ps acc acc' ps'"
  "depths d T \<Longrightarrow> ps_ok m ps \<Longrightarrow> \<forall>(f, c) \<in> set kvs. f \<noteq> [] \<and> c < length T \<and> m \<le> d c \<Longrightarrow>
   \<exists>acc' ps'. find_children sd T s kvs acc ps = Value (acc', ps') \<and> searched m (ends_children sd T s kvs) ps acc acc' ps'"
proof (induction sd T s n ps and sd T s n ts acc ps and sd T s kvs acc ps arbitrary: d and d and d m
    rule: find_rule_find_params_find_children.induct)
  case (1 sd T s n ps)
  show ?case
  proof (cases "s = []")
    case True
    have "d n \<le> 128" using "1.prems"(1,2) by (simp add: depths_def)
    then have "ps_ok 128 ps" using ps_ok_mono [OF "1.prems"(3)] by blast
    then show ?thesis using True "1.prems" by (subst find_rule.simps, subst ends.simps) (auto simp: found_ok_def)
  next
    case False
    obtain acc1 ps1 where 1: "find_params sd T s n param_types (0, no_params) ps = Value (acc1, ps1)"
      "searched (d n) (ends_params sd T s n param_types) ps (0, no_params) acc1 ps1"
      using "1.IH"(1) [OF False "1.prems"] by blast
    have "ps_ok (d n) ps1" using 1(2) by (simp add: searched_def)
    moreover have "\<forall>(f, c) \<in> set (children (T ! n)). f \<noteq> [] \<and> c < length T \<and> d n \<le> d c"
      using depths_child [OF "1.prems"(1,2)] by blast
    ultimately obtain acc2 ps2 where 2: "find_children sd T s (children (T ! n)) acc1 ps1 = Value (acc2, ps2)"
      "searched (d n) (ends_children sd T s (children (T ! n))) ps1 acc1 acc2 ps2"
      using "1.IH"(2) [OF False "1.prems"(1)] by blast
    have "searched (d n) (ends sd T s n) ps (0, no_params) acc2 ps2"
      using searched_append [OF 1(2) 2(2)] False by (subst ends.simps) simp
    then have "found_ok (d n) (ends sd T s n) ps acc2 ps2" by (auto simp: searched_def found_ok_def)
    moreover have "find_rule sd T s n ps = Value (acc2, ps2)"
      using 1(1) 2(1) False by (subst find_rule.simps) simp
    ultimately show ?thesis by blast
  qed
next
  case (2 sd T s n acc ps)
  then show ?case by (simp add: searched_nil)
next
  case (3 sd T s n t ts acc ps)
  let ?c = "param_childrens (T ! n) ! type_index t"
  let ?o = "if ?c = 0 then None else take_param sd t s"
  show ?case
  proof (cases ?o)
    case None
    with "3.IH"(1) [OF refl None "3.prems"] show ?thesis by (simp add: Let_def)
  next
    case (Some vl)
    obtain v len where vl: "vl = (v, len)" by (cases vl)
    then have c: "?c \<noteq> 0" using Some by (auto split: if_splits)
    note dc = depths_param [OF "3.prems"(1,2) refl c]
    obtain ps1 where ps1: "push_param v ps = Value ps1" "ps_ok (Suc (d n)) ps1" "pvals ps1 = add_val v (pvals ps)"
      using push_param_ok [OF "3.prems"(3), of v] dc by auto
    have "ps_ok (d ?c) ps1" using ps_ok_mono [OF ps1(2)] dc by simp
    then obtain ret ps2 where 1: "find_rule sd T (drop len s) ?c ps1 = Value (ret, ps2)"
      "found_ok (d ?c) (ends sd T (drop len s) ?c) ps1 ret ps2"
      using "3.IH"(2) [OF refl Some vl [symmetric], of d ps1] "3.prems"(1) dc by blast
    note 2 = searched_param [OF 1(2) "3.prems"(3) ps1(3), of acc]
    then have "ps_ok (d n) (pop_param v ps2)" by (simp add: searched_def)
    then obtain acc3 ps3 where 3: "find_params sd T s n ts (update_found acc ret) (pop_param v ps2) = Value (acc3, ps3)"
      "searched (d n) (ends_params sd T s n ts) (pop_param v ps2) (update_found acc ret) acc3 ps3"
      using "3.IH"(3) [OF refl Some vl [symmetric] "3.prems"(1,2)] by blast
    have "find_params sd T s n (t # ts) acc ps = Value (acc3, ps3)"
      using Some ps1(1) 1(1) 3(1) by (simp add: vl Let_def)
    moreover have "ends_params sd T s n (t # ts) = map (\<lambda>(r, vs). (r, v # vs)) (ends sd T (drop len s) ?c) @ ends_params sd T s n ts"
      using Some by (simp add: vl Let_def)
    ultimately show ?thesis using searched_append [OF 2 3(2)] by auto
  qed
next
  case (4 sd T s acc ps)
  then show ?case by (simp add: searched_nil)
next
  case (5 sd T s f c kvs acc ps)
  have f: "f \<noteq> []" "c < length T" "m \<le> d c" and kvs: "\<forall>(f, c) \<in> set kvs. f \<noteq> [] \<and> c < length T \<and> m \<le> d c"
    using "5.prems"(3) by auto
  show ?case
  proof (cases "prefix f s")
    case False
    with "5.IH"(3) [OF f(1) False "5.prems"(1,2) kvs] f(1) show ?thesis by simp
  next
    case True
    have "ps_ok (d c) ps" using ps_ok_mono [OF "5.prems"(2) f(3)] .
    then obtain ret ps1 where 1: "find_rule sd T (drop (length f) s) c ps = Value (ret, ps1)"
      "found_ok (d c) (ends sd T (drop (length f) s) c) ps ret ps1"
      using "5.IH"(1) [OF f(1) True "5.prems"(1) f(2)] by blast
    note 2 = searched_child [OF 1(2) "5.prems"(2), of acc]
    then have "ps_ok m ps1" by (simp add: searched_def)
    then obtain acc3 ps3 where 3: "find_children sd T s kvs (update_found acc ret) ps1 = Value (acc3, ps3)"
      "searched m (ends_children sd T s kvs) ps1 (update_found acc ret) acc3 ps3"
      using "5.IH"(2) [OF f(1) True "5.prems"(1) _ kvs] by blast
    have "find_children sd T s ((f, c) # kvs) acc ps = Value (acc3, ps3)" using f(1) True 1(1) 3(1) by simp
    moreover have "ends_children sd T s ((f, c) # kvs) = ends sd T (drop (length f) s) c @ ends_children sd T s kvs"
      using f(1) True by simp
    ultimately show ?thesis using searched_append [OF 2 3(2)] by auto
  qed
qed

end
