(* ===== verification/RoutingTrie.thy ===== *)
theory RoutingTrie
  imports RoutingSpec
begin

text \<open>
  \<open>optimize\<close> merges the edges of a path: it comes to an end on every trie that \<open>add\<close> can build, and
  the rules a URL ends at, with their parameters, stay the same.
\<close>

section \<open>The ends as a set\<close>

lemma set_param_types: "set param_types = UNIV"
proof -
  have "t \<in> set param_types" for t by (cases t) (simp_all add: param_types_def)
  then show ?thesis by auto
qed

lemma set_ends_params:
  "e \<in> set (ends_params sd T s n ts) \<longleftrightarrow>
   (\<exists>t \<in> set ts. param_childrens (T ! n) ! type_index t \<noteq> 0 \<and> (\<exists>v len vs. take_param sd t s = Some (v, len) \<and>
      e = (fst e, v # vs) \<and> (fst e, vs) \<in> set (ends sd T (drop len s) (param_childrens (T ! n) ! type_index t))))"
proof (induction ts)
  case (Cons t ts)
  let ?c = "param_childrens (T ! n) ! type_index t"
  show ?case
  proof (cases "if ?c = 0 then None else take_param sd t s")
    case None
    then show ?thesis using Cons.IH by (auto simp: Let_def split: if_splits)
  next
    case (Some vl)
    obtain v len where vl: "vl = (v, len)" by (cases vl)
    have c: "?c \<noteq> 0" "take_param sd t s = Some (v, len)" using Some vl by (auto split: if_splits)
    have "e \<in> set (map (\<lambda>(r, vs). (r, v # vs)) (ends sd T (drop len s) ?c)) \<longleftrightarrow>
        (\<exists>vs. e = (fst e, v # vs) \<and> (fst e, vs) \<in> set (ends sd T (drop len s) ?c))"
      by force
    then show ?thesis using Cons.IH c by (simp add: Let_def)
  qed
qed simp

lemma set_ends_children:
  "e \<in> set (ends_children sd T s kvs) \<longleftrightarrow> (\<exists>(f, c) \<in> set kvs. f \<noteq> [] \<and> prefix f s \<and> e \<in> set (ends sd T (drop (length f) s) c))"
  by (induction kvs) auto

lemma ends_nil: "set (ends sd T [] n) = {(rule_index (T ! n), [])}"
  by (simp add: ends.simps)

lemma ends_cons:
  assumes "s \<noteq> []"
  shows "e \<in> set (ends sd T s n) \<longleftrightarrow>
   (\<exists>t. param_childrens (T ! n) ! type_index t \<noteq> 0 \<and> (\<exists>v len vs. take_param sd t s = Some (v, len) \<and>
      e = (fst e, v # vs) \<and> (fst e, vs) \<in> set (ends sd T (drop len s) (param_childrens (T ! n) ! type_index t)))) \<or>
   (\<exists>(f, c) \<in> set (children (T ! n)). f \<noteq> [] \<and> prefix f s \<and> e \<in> set (ends sd T (drop (length f) s) c))"
  using assms by (subst ends.simps) (simp add: set_ends_params set_ends_children set_param_types)

text \<open>The ends that have a rule.\<close>

definition hits :: "(string \<Rightarrow> 'd \<times> nat \<times> bool) \<Rightarrow> trie \<Rightarrow> string \<Rightarrow> nat \<Rightarrow> (nat \<times> 'd param_value list) set" where
  "hits sd T s n = {e \<in> set (ends sd T s n). fst e \<noteq> 0}"

lemma hits_nil: "hits sd T [] n = (if rule_index (T ! n) = 0 then {} else {(rule_index (T ! n), [])})"
  by (auto simp: hits_def ends_nil)

lemma hits_cons:
  "s \<noteq> [] \<Longrightarrow> e \<in> hits sd T s n \<longleftrightarrow>
   (\<exists>t. param_childrens (T ! n) ! type_index t \<noteq> 0 \<and> (\<exists>v len vs. take_param sd t s = Some (v, len) \<and>
      e = (fst e, v # vs) \<and> (fst e, vs) \<in> hits sd T (drop len s) (param_childrens (T ! n) ! type_index t))) \<or>
   (\<exists>(f, c) \<in> set (children (T ! n)). f \<noteq> [] \<and> prefix f s \<and> e \<in> hits sd T (drop (length f) s) c)"
  unfolding hits_def by (auto simp: ends_cons)

lemma best_hits: "best (map fst (ends sd T s n)) = (if hits sd T s n = {} then 0 else Min (fst ` hits sd T s n))"
proof (cases "hits sd T s n = {}")
  case True
  then show ?thesis by (auto simp: hits_def best_zero)
next
  case False
  let ?b = "best (map fst (ends sd T s n))"
  obtain e where "e \<in> hits sd T s n" using False by blast
  then have "?b \<noteq> 0" using best_le [of "fst e" "map fst (ends sd T s n)"] by (simp add: hits_def)
  then have "?b \<in> fst ` hits sd T s n" using best_in [of "map fst (ends sd T s n)"] by (force simp: hits_def)
  moreover have "?b \<le> r" if "r \<in> fst ` hits sd T s n" for r
    using that best_le [of r "map fst (ends sd T s n)"] by (auto simp: hits_def)
  moreover have "finite (fst ` hits sd T s n)" by (simp add: hits_def)
  ultimately show ?thesis using False by (metis Min_eqI)
qed

section \<open>Well-formed tries\<close>

text \<open>The keys of a node are not empty, and none is the beginning of another.\<close>

definition keys_ok :: "(string \<times> nat) list \<Rightarrow> bool" where
  "keys_ok kvs \<longleftrightarrow> distinct (map fst kvs) \<and> [] \<notin> fst ` set kvs \<and>
     (\<forall>f \<in> fst ` set kvs. \<forall>g \<in> fst ` set kvs. prefix f g \<longrightarrow> f = g)"

definition node_ok :: "nat \<Rightarrow> trie \<Rightarrow> bool" where
  "node_ok n T \<longleftrightarrow> length (param_childrens (T ! n)) = 5 \<and>
     (\<forall>c \<in> set (param_childrens (T ! n)). c \<noteq> 0 \<longrightarrow> n < c \<and> c < length T) \<and>
     (\<forall>c \<in> snd ` set (children (T ! n)). n < c \<and> c < length T) \<and> keys_ok (children (T ! n))"

definition trie_ok :: "trie \<Rightarrow> bool" where
  "trie_ok T \<longleftrightarrow> (\<forall>n < length T. node_ok n T)"

text \<open>The list that \<open>merged\<close> puts into the new map.\<close>

definition merge_list :: "trie \<Rightarrow> (string \<times> nat) list \<Rightarrow> (string \<times> nat) list" where
  "merge_list T kids = concat (map (\<lambda>(f, c). map (\<lambda>(g, d). (f @ g, d)) (children (T ! c))) kids)"

lemma fold_map_put: "distinct (map fst (m @ l)) \<Longrightarrow> fold (\<lambda>(k, v). map_put k v) l m = m @ l"
proof (induction l arbitrary: m)
  case (Cons kv l)
  obtain k v where kv: "kv = (k, v)" by (cases kv)
  have "k \<notin> fst ` set m" using Cons.prems by (auto simp: kv)
  then have "map_put k v m = m @ [kv]" by (simp add: map_put_def kv)
  with Cons.IH [of "m @ [kv]"] Cons.prems show ?case by (simp add: kv)
qed simp

lemma merged_fold: "fold (\<lambda>(f, c). fold (\<lambda>(g, d). map_put (f @ g) d) (children (T ! c))) kids m = fold (\<lambda>(k, v). map_put k v) (merge_list T kids) m"
proof (induction kids arbitrary: m)
  case (Cons fc kids)
  obtain f c where fc: "fc = (f, c)" by (cases fc)
  have "fold (\<lambda>(g, d). map_put (f @ g) d) l m = fold (\<lambda>(k, v). map_put k v) (map (\<lambda>(g, d). (f @ g, d)) l) m" for l m
    by (induction l arbitrary: m) (auto split: prod.splits)
  with Cons.IH show ?case by (simp add: merge_list_def fc)
qed (simp add: merge_list_def)

lemma set_merge_list: "(h, d) \<in> set (merge_list T kids) \<longleftrightarrow> (\<exists>f c g. (f, c) \<in> set kids \<and> (g, d) \<in> set (children (T ! c)) \<and> h = f @ g)"
  by (force simp: merge_list_def)

lemma keys_ok_unique: "keys_ok kvs \<Longrightarrow> (f, c) \<in> set kvs \<Longrightarrow> (f, d) \<in> set kvs \<Longrightarrow> c = d"
  unfolding keys_ok_def by (metis eq_key_imp_eq_value)

text \<open>The keys of the merged map are again such keys.\<close>

lemma merge_prefix:
  assumes kids: "keys_ok kids" and ch: "\<forall>c \<in> snd ` set kids. keys_ok (children (T ! c))"
    and 1: "(f, c) \<in> set kids" "(g, d) \<in> set (children (T ! c))" and 2: "(f', c') \<in> set kids" "(g', d') \<in> set (children (T ! c'))"
    and p: "prefix (f @ g) (f' @ g')"
  shows "f = f' \<and> c = c' \<and> g = g'"
proof -
  have "prefix f f' \<or> prefix f' f" using p by (metis prefix_append prefix_order.trans prefix_prefix prefix_same_cases append_prefixD)
  then have "f = f'" using kids 1(1) 2(1) by (force simp: keys_ok_def)
  then have c: "c = c'" using keys_ok_unique [OF kids] 1(1) 2(1) by blast
  have "prefix g g'" using p \<open>f = f'\<close> by simp
  then have "g = g'" using ch 1 2(2) c by (force simp: keys_ok_def)
  with \<open>f = f'\<close> c show ?thesis by blast
qed

lemma merge_distinct:
  assumes "keys_ok kids" and "\<forall>c \<in> snd ` set kids. keys_ok (children (T ! c))"
  shows "distinct (map fst (merge_list T kids))"
  using assms
proof (induction kids)
  case (Cons fc kids)
  obtain f c where fc: "fc = (f, c)" by (cases fc)
  have k: "keys_ok kids" using Cons.prems(1) by (auto simp: keys_ok_def)
  have "distinct (map fst (children (T ! c)))" using Cons.prems(2) fc by (simp add: keys_ok_def)
  moreover have "map fst (map (\<lambda>(g, d). (f @ g, d)) l) = map ((@) f) (map fst l)" for l :: "(string \<times> nat) list"
    by (simp add: comp_def case_prod_unfold)
  ultimately have "distinct (map fst (map (\<lambda>(g, d). (f @ g, d)) (children (T ! c))))"
    by (simp only:) (simp add: distinct_map inj_on_def)
  moreover have "distinct (map fst (merge_list T kids))" using Cons.IH [OF k] Cons.prems(2) by simp
  moreover have "fst ` set (map (\<lambda>(g, d). (f @ g, d)) (children (T ! c))) \<inter> fst ` set (merge_list T kids) = {}"
  proof (rule equals0I)
    fix h assume "h \<in> fst ` set (map (\<lambda>(g, d). (f @ g, d)) (children (T ! c))) \<inter> fst ` set (merge_list T kids)"
    then obtain g d f' c' g' d' where h: "(g, d) \<in> set (children (T ! c))" "(f', c') \<in> set kids" "(g', d') \<in> set (children (T ! c'))"
      "f @ g = f' @ g'" by (force simp: set_merge_list)
    then have "f = f'" using merge_prefix [OF Cons.prems, of f c g d f' c' g' d'] fc by simp
    with h(2) Cons.prems(1) fc show False by (force simp: keys_ok_def)
  qed
  moreover have "merge_list T (fc # kids) = map (\<lambda>(g, d). (f @ g, d)) (children (T ! c)) @ merge_list T kids"
    by (simp add: fc merge_list_def)
  ultimately show ?case by (simp only: map_append distinct_append set_map simp_thms)
qed (simp add: merge_list_def)

lemma merged_eq:
  assumes "keys_ok kids" and "\<forall>c \<in> snd ` set kids. keys_ok (children (T ! c))"
  shows "merged T kids = merge_list T kids"
  using fold_map_put [of "[]" "merge_list T kids"] merge_distinct [OF assms] merged_fold [of T kids "[]"]
  by (simp add: merged_def)

lemma merge_keys_ok:
  assumes "keys_ok kids" and "\<forall>c \<in> snd ` set kids. keys_ok (children (T ! c))"
  shows "keys_ok (merged T kids)"
  unfolding merged_eq [OF assms] keys_ok_def
proof (intro conjI ballI impI)
  show "distinct (map fst (merge_list T kids))" by (rule merge_distinct [OF assms])
  show "[] \<notin> fst ` set (merge_list T kids)" using assms by (force simp: set_merge_list keys_ok_def)
  fix h h' assume h: "h \<in> fst ` set (merge_list T kids)" "h' \<in> fst ` set (merge_list T kids)" and p: "prefix h h'"
  from h obtain f c g d f' c' g' d' where "(f, c) \<in> set kids" "(g, d) \<in> set (children (T ! c))" "h = f @ g"
    "(f', c') \<in> set kids" "(g', d') \<in> set (children (T ! c'))" "h' = f' @ g'" by (force simp: set_merge_list)
  with merge_prefix [OF assms, of f c g d f' c' g' d'] p show "h = h'" by simp
qed

section \<open>One merge\<close>

definition merge_at :: "nat \<Rightarrow> trie \<Rightarrow> trie" where
  "merge_at n T = T[n := (T ! n)\<lparr>children := merged T (children (T ! n))\<rparr>]"

definition simple_kids :: "nat \<Rightarrow> trie \<Rightarrow> bool" where
  "simple_kids n T \<longleftrightarrow> (\<forall>c \<in> snd ` set (children (T ! n)). issimple (T ! c))"

lemma merge_at_simps [simp]:
  "length (merge_at n T) = length T"
  "m \<noteq> n \<Longrightarrow> merge_at n T ! m = T ! m"
  "n < length T \<Longrightarrow> rule_index (merge_at n T ! m) = rule_index (T ! m)"
  "n < length T \<Longrightarrow> param_childrens (merge_at n T ! m) = param_childrens (T ! m)"
  by (cases "m = n"; simp add: merge_at_def)+

lemma trie_ok_node: "trie_ok T \<Longrightarrow> n < length T \<Longrightarrow> node_ok n T"
  by (simp add: trie_ok_def)

lemma type_index_less: "type_index t < 5"
  by (cases t) simp_all

lemma node_ok_param:
  "node_ok n T \<Longrightarrow> param_childrens (T ! n) ! type_index t \<noteq> 0 \<Longrightarrow>
   n < param_childrens (T ! n) ! type_index t \<and> param_childrens (T ! n) ! type_index t < length T"
  using type_index_less [of t] nth_mem [of "type_index t" "param_childrens (T ! n)"] by (simp add: node_ok_def)

lemma node_ok_child: "node_ok n T \<Longrightarrow> (f, c) \<in> set (children (T ! n)) \<Longrightarrow> n < c \<and> c < length T \<and> f \<noteq> []"
  by (force simp: node_ok_def keys_ok_def)

lemma node_ok_keys: "node_ok n T \<Longrightarrow> keys_ok (children (T ! n))"
  by (simp add: node_ok_def)

lemma kids_keys_ok:
  "trie_ok T \<Longrightarrow> n < length T \<Longrightarrow> \<forall>c \<in> snd ` set (children (T ! n)). keys_ok (children (T ! c))"
proof
  fix c assume ok: "trie_ok T" "n < length T" and c: "c \<in> snd ` set (children (T ! n))"
  then have "c < length T" using trie_ok_node [OF ok] by (auto simp: node_ok_def)
  then show "keys_ok (children (T ! c))" using node_ok_keys trie_ok_node [OF ok(1)] by blast
qed

lemma children_merge_at:
  "trie_ok T \<Longrightarrow> n < length T \<Longrightarrow> children (merge_at n T ! n) = merge_list T (children (T ! n))"
  using merged_eq [OF node_ok_keys [OF trie_ok_node] kids_keys_ok] by (simp add: merge_at_def)

text \<open>What a URL ends at below a node without rule and parameters.\<close>

lemma simple_params: "node_ok n T \<Longrightarrow> issimple (T ! n) \<Longrightarrow> param_childrens (T ! n) ! type_index t = 0"
  unfolding node_ok_def issimple_def by (cases t) (auto simp: list_all_length)

lemma simple_hits:
  assumes "node_ok c T" and "issimple (T ! c)"
  shows "e \<in> hits sd T s c \<longleftrightarrow> (\<exists>(g, d) \<in> set (children (T ! c)). prefix g s \<and> e \<in> hits sd T (drop (length g) s) d)"
proof (cases "s = []")
  case True
  then show ?thesis using assms node_ok_child [OF assms(1)] by (auto simp: hits_nil issimple_def)
next
  case False
  have "e \<in> hits sd T s c \<longleftrightarrow>
      (\<exists>(g, d) \<in> set (children (T ! c)). g \<noteq> [] \<and> prefix g s \<and> e \<in> hits sd T (drop (length g) s) d)"
    unfolding hits_cons [OF False] using simple_params [OF assms] by simp
  then show ?thesis using node_ok_child [OF assms(1)] by blast
qed

lemma merge_list_hits:
  assumes ok: "trie_ok T" "n < length T" and simple: "simple_kids n T"
  shows "(\<exists>(f, c) \<in> set (children (T ! n)). f \<noteq> [] \<and> prefix f s \<and> e \<in> hits sd T (drop (length f) s) c) \<longleftrightarrow>
    (\<exists>(h, d) \<in> set (merge_list T (children (T ! n))). h \<noteq> [] \<and> prefix h s \<and> e \<in> hits sd T (drop (length h) s) d)"
    (is "?L \<longleftrightarrow> ?R")
proof -
  have c: "f \<noteq> [] \<and> node_ok c T \<and> issimple (T ! c)" if "(f, c) \<in> set (children (T ! n))" for f c
    using that node_ok_child [OF trie_ok_node [OF ok] that] trie_ok_node [OF ok(1)] simple by (force simp: simple_kids_def)
  show ?thesis
  proof
    assume ?L
    then obtain f c where f: "(f, c) \<in> set (children (T ! n))" "f \<noteq> []" "prefix f s" "e \<in> hits sd T (drop (length f) s) c" by blast
    with c [OF f(1)] simple_hits obtain g d where g: "(g, d) \<in> set (children (T ! c))" "prefix g (drop (length f) s)"
      "e \<in> hits sd T (drop (length g) (drop (length f) s)) d" by blast
    have "(f @ g, d) \<in> set (merge_list T (children (T ! n)))" using f(1) g(1) by (auto simp: set_merge_list)
    moreover have "prefix (f @ g) s" using f(3) g(2) by (auto simp: prefix_def)
    ultimately show ?R using f(2) g(3) by (force simp: add.commute)
  next
    assume ?R
    then obtain h d where h: "(h, d) \<in> set (merge_list T (children (T ! n)))" "prefix h s" "e \<in> hits sd T (drop (length h) s) d" by blast
    then obtain f k g where f: "(f, k) \<in> set (children (T ! n))" "(g, d) \<in> set (children (T ! k))" "h = f @ g"
      by (auto simp: set_merge_list)
    have "prefix f s" "prefix g (drop (length f) s)" using h(2) f(3) by (auto simp: prefix_def)
    moreover have "e \<in> hits sd T (drop (length g) (drop (length f) s)) d" using h(3) f(3) by (simp add: add.commute)
    ultimately have "e \<in> hits sd T (drop (length f) s) k" using simple_hits [of k T] c [OF f(1)] f(2) by blast
    then show ?L using f(1) c [OF f(1)] \<open>prefix f s\<close> by blast
  qed
qed

lemma prefix_shorter: "prefix f s \<Longrightarrow> f \<noteq> [] \<Longrightarrow> length (drop (length f) s) < length s"
  by (auto simp: prefix_def)

lemma hits_merge_at:
  assumes ok: "trie_ok T" "n < length T" and simple: "simple_kids n T"
  shows "m < length T \<Longrightarrow> hits sd (merge_at n T) s m = hits sd T s m"
proof (induction "length s" arbitrary: s m rule: less_induct)
  case less
  have IH: "hits sd (merge_at n T) r k = hits sd T r k" if "length r < length s" "k < length T" for r k
    using less.hyps that by blast
  show ?case
  proof (cases "s = []")
    case True
    then show ?thesis using ok(2) by (simp add: hits_nil)
  next
    case False
    have par: "hits sd (merge_at n T) (drop len s) (param_childrens (T ! m) ! type_index t) =
        hits sd T (drop len s) (param_childrens (T ! m) ! type_index t)"
      if "param_childrens (T ! m) ! type_index t \<noteq> 0" "take_param sd t s = Some (v, len)" for t v len
      using IH node_ok_param [OF trie_ok_node [OF ok(1) less.prems] that(1)] take_param_pos [OF that(2)] by simp
    have kid: "hits sd (merge_at n T) (drop (length f) s) c = hits sd T (drop (length f) s) c"
      if "f \<noteq> []" "prefix f s" "c < length T" for f c
      using IH prefix_shorter that by blast
    let ?K = "\<lambda>S l e. \<exists>(f, c) \<in> set l. f \<noteq> [] \<and> prefix f s \<and> e \<in> hits sd S (drop (length f) s) c"
    have "?K (merge_at n T) (children (merge_at n T ! m)) e \<longleftrightarrow> ?K T (children (T ! m)) e" for e
    proof (cases "m = n")
      case True
      have d: "d < length T" if "(h, d) \<in> set (merge_list T (children (T ! n)))" for h d
      proof -
        obtain f c g where "(f, c) \<in> set (children (T ! n))" "(g, d) \<in> set (children (T ! c))" using \<open>(h, d) \<in> _\<close> by (auto simp: set_merge_list)
        then show ?thesis using node_ok_child trie_ok_node [OF ok(1)] ok(2) by blast
      qed
      have "?K (merge_at n T) (merge_list T (children (T ! n))) e \<longleftrightarrow> ?K T (merge_list T (children (T ! n))) e"
        using d kid by blast
      then show ?thesis using merge_list_hits [OF ok simple, of s e sd] children_merge_at [OF ok] True by simp
    next
      case False
      then show ?thesis using node_ok_child [OF trie_ok_node [OF ok(1) less.prems]] kid by (simp, blast)
    qed
    then have kids: "(\<exists>(f, c) \<in> set (children (merge_at n T ! m)). f \<noteq> [] \<and> prefix f s \<and> e \<in> hits sd (merge_at n T) (drop (length f) s) c) \<longleftrightarrow>
      (\<exists>(f, c) \<in> set (children (T ! m)). f \<noteq> [] \<and> prefix f s \<and> e \<in> hits sd T (drop (length f) s) c)" for e .
    have pars: "(\<exists>t. param_childrens (merge_at n T ! m) ! type_index t \<noteq> 0 \<and> (\<exists>v len vs. take_param sd t s = Some (v, len) \<and>
        e = (fst e, v # vs) \<and> (fst e, vs) \<in> hits sd (merge_at n T) (drop len s) (param_childrens (merge_at n T ! m) ! type_index t))) \<longleftrightarrow>
      (\<exists>t. param_childrens (T ! m) ! type_index t \<noteq> 0 \<and> (\<exists>v len vs. take_param sd t s = Some (v, len) \<and>
        e = (fst e, v # vs) \<and> (fst e, vs) \<in> hits sd T (drop len s) (param_childrens (T ! m) ! type_index t)))" for e
      unfolding merge_at_simps(4) [OF ok(2)] using par by (intro ex_cong1 conj_cong refl) simp
    show ?thesis by (intro set_eqI) (simp only: hits_cons [OF False] kids pars)
  qed
qed

text \<open>Merging leaves no more ends than there were; those without a rule can disappear.\<close>

lemma ends_merge_at:
  assumes ok: "trie_ok T" "n < length T"
  shows "m < length T \<Longrightarrow> set (ends sd (merge_at n T) s m) \<subseteq> set (ends sd T s m)"
proof (induction "length s" arbitrary: s m rule: less_induct)
  case less
  have IH: "e \<in> set (ends sd T r k)" if "e \<in> set (ends sd (merge_at n T) r k)" "length r < length s" "k < length T" for r k e
    using less.hyps that by blast
  show ?case
  proof (cases "s = []")
    case True
    then show ?thesis using ok(2) by (simp add: ends_nil)
  next
    case False
    have kid: "\<exists>(f, c) \<in> set (children (T ! m)). f \<noteq> [] \<and> prefix f s \<and> e \<in> set (ends sd T (drop (length f) s) c)"
      if h: "(h, d) \<in> set (children (merge_at n T ! m))" "h \<noteq> []" "prefix h s" "e \<in> set (ends sd (merge_at n T) (drop (length h) s) d)" for h d e
    proof (cases "m = n")
      case True
      then obtain f c g where f: "(f, c) \<in> set (children (T ! n))" "(g, d) \<in> set (children (T ! c))" "h = f @ g"
        using h(1) children_merge_at [OF ok] by (auto simp: set_merge_list)
      note fc = node_ok_child [OF trie_ok_node [OF ok] f(1)]
      then have gd: "d < length T" "g \<noteq> []" using node_ok_child [OF trie_ok_node [OF ok(1)] f(2)] by blast+
      have "e \<in> set (ends sd T (drop (length g) (drop (length f) s)) d)"
        using IH [OF h(4) prefix_shorter [OF h(3,2)] gd(1)] f(3) by (simp add: add.commute)
      moreover have p: "prefix f s" "prefix g (drop (length f) s)" using h(3) f(3) by (auto simp: prefix_def)
      moreover have "drop (length f) s \<noteq> []" using p(2) gd(2) by (auto simp: prefix_def)
      ultimately have "e \<in> set (ends sd T (drop (length f) s) c)" using f(2) gd(2) ends_cons [of "drop (length f) s"] by blast
      then show ?thesis using f(1) fc p(1) True by blast
    next
      case False
      then have d: "(h, d) \<in> set (children (T ! m))" using h(1) by simp
      then have "d < length T" using node_ok_child [OF trie_ok_node [OF ok(1) less.prems]] by blast
      then have "e \<in> set (ends sd T (drop (length h) s) d)" using IH [OF h(4) prefix_shorter [OF h(3,2)]] by blast
      with d h(2,3) show ?thesis by blast
    qed
    have par: "(r, vs) \<in> set (ends sd T (drop len s) (param_childrens (T ! m) ! type_index t))"
      if "param_childrens (T ! m) ! type_index t \<noteq> 0" "take_param sd t s = Some (v, len)"
        "(r, vs) \<in> set (ends sd (merge_at n T) (drop len s) (param_childrens (T ! m) ! type_index t))" for t v len r vs
      using IH [OF that(3)] node_ok_param [OF trie_ok_node [OF ok(1) less.prems] that(1)] take_param_pos [OF that(2)] by simp
    show ?thesis
    proof
      fix e assume "e \<in> set (ends sd (merge_at n T) s m)"
      then show "e \<in> set (ends sd T s m)"
        unfolding ends_cons [OF False] merge_at_simps(4) [OF ok(2)] using par kid by blast
    qed
  qed
qed

lemma merge_at_child:
  assumes "trie_ok T" and "n < length T" and "(h, d) \<in> set (merge_list T (children (T ! n)))"
  shows "\<exists>f c. (f, c) \<in> set (children (T ! n)) \<and> c < d \<and> d < length T"
proof -
  obtain f c g where f: "(f, c) \<in> set (children (T ! n))" "(g, d) \<in> set (children (T ! c))" using assms(3) by (auto simp: set_merge_list)
  then show ?thesis using node_ok_child [OF trie_ok_node] assms(1,2) by blast
qed

lemma trie_ok_merge_at:
  assumes ok: "trie_ok T" "n < length T"
  shows "trie_ok (merge_at n T)"
proof -
  have "node_ok m (merge_at n T)" if "m < length T" for m
  proof (cases "m = n")
    case True
    have "n < d \<and> d < length T" if d: "d \<in> snd ` set (merge_list T (children (T ! n)))" for d
    proof -
      obtain h where h: "(h, d) \<in> set (merge_list T (children (T ! n)))" using d by auto
      obtain f c where "(f, c) \<in> set (children (T ! n))" "c < d" "d < length T" using merge_at_child [OF ok h] by blast
      then show ?thesis using node_ok_child [OF trie_ok_node [OF ok]] by fastforce
    qed
    moreover have "keys_ok (merge_list T (children (T ! n)))"
      using merge_keys_ok [OF node_ok_keys [OF trie_ok_node [OF ok]] kids_keys_ok [OF ok]]
        merged_eq [OF node_ok_keys [OF trie_ok_node [OF ok]] kids_keys_ok [OF ok]] by simp
    ultimately show ?thesis using trie_ok_node [OF ok] ok(2) unfolding True by (simp add: node_ok_def children_merge_at [OF ok])
  next
    case False
    then show ?thesis using trie_ok_node [OF ok(1) that] ok(2) by (simp add: node_ok_def)
  qed
  then show ?thesis by (simp add: trie_ok_def)
qed

lemma depths_merge_at:
  assumes ok: "trie_ok T" "n < length T" and d: "depths d T"
  shows "depths d (merge_at n T)"
proof -
  have k: "f \<noteq> [] \<and> c < length T \<and> d m \<le> d c" if m: "m < length T" "(f, c) \<in> set (children (merge_at n T ! m))" for m f c
  proof (cases "m = n")
    case True
    then obtain f' c' g where g: "(f', c') \<in> set (children (T ! n))" "(g, c) \<in> set (children (T ! c'))" "f = f' @ g"
      using m(2) children_merge_at [OF ok] by (auto simp: set_merge_list)
    note 1 = depths_child [OF d ok(2) g(1)]
    note 2 = depths_child [OF d _ g(2)]
    show ?thesis using 1 2 g(3) True by simp
  next
    case False
    then show ?thesis using depths_child [OF d m(1)] m(2) by simp
  qed
  show ?thesis using d k unfolding depths_def by (simp add: ok(2)) blast
qed

section \<open>Optimize\<close>

text \<open>What an operation on the part of the trie from node \<open>n\<close> on keeps.\<close>

definition same :: "(string \<Rightarrow> 'd \<times> nat \<times> bool) \<Rightarrow> nat \<Rightarrow> trie \<Rightarrow> trie \<Rightarrow> bool" where
  "same sd n T T' \<longleftrightarrow> length T' = length T \<and> trie_ok T' \<and> (\<forall>m < n. T' ! m = T ! m) \<and>
     (\<forall>m < length T. \<forall>s. hits sd T' s m = hits sd T s m \<and> set (ends sd T' s m) \<subseteq> set (ends sd T s m)) \<and> (\<forall>d. depths d T \<longrightarrow> depths d T')"

lemma same_refl: "trie_ok T \<Longrightarrow> same sd n T T"
  by (simp add: same_def)

lemma same_facts: "same sd n T T' \<Longrightarrow> length T' = length T \<and> trie_ok T' \<and> (\<forall>m < n. T' ! m = T ! m)"
  by (simp add: same_def)

lemma same_trans: "same sd n T1 T2 \<Longrightarrow> same sd n T2 T3 \<Longrightarrow> same sd n T1 T3"
  unfolding same_def by (intro conjI) (simp_all, blast)

lemma same_mono: "same sd m T T' \<Longrightarrow> n \<le> m \<Longrightarrow> same sd n T T'"
  by (auto simp: same_def)

lemma same_merge_at: "trie_ok T \<Longrightarrow> n < length T \<Longrightarrow> simple_kids n T \<Longrightarrow> same sd n T (merge_at n T)"
  by (simp add: same_def trie_ok_merge_at hits_merge_at ends_merge_at depths_merge_at)

lemma same_each_node:
  assumes "\<And>x T T'. n < x \<Longrightarrow> x < length T \<Longrightarrow> trie_ok T \<Longrightarrow> f x T = Some T' \<Longrightarrow> same sd x T T'"
  shows "each_node f xs T = Some T' \<Longrightarrow> \<forall>x \<in> set xs. n < x \<and> x < length T \<Longrightarrow> trie_ok T \<Longrightarrow> same sd (Suc n) T T'"
proof (induction xs arbitrary: T)
  case (Cons x xs)
  then obtain T1 where T1: "f x T = Some T1" "each_node f xs T1 = Some T'" by (auto split: option.splits)
  have 1: "same sd (Suc n) T T1" using assms [of x T T1] Cons.prems T1(1) by (auto intro: same_mono)
  then have "same sd (Suc n) T1 T'" using Cons.IH [OF T1(2)] Cons.prems by (simp add: same_def)
  with 1 show ?case by (rule same_trans)
qed (simp add: same_refl)

lemma param_nodes: "node_ok n T \<Longrightarrow> \<forall>x \<in> set (filter (\<lambda>x. x \<noteq> 0) (param_childrens (T ! n))). n < x \<and> x < length T"
  by (simp add: node_ok_def)

lemma child_nodes: "node_ok n T \<Longrightarrow> \<forall>x \<in> set (map snd (children (T ! n))). n < x \<and> x < length T"
  by (simp add: node_ok_def)

lemma simple_kids_iff: "list_all (\<lambda>(_, c). issimple (T ! c)) (children (T ! n)) \<longleftrightarrow> simple_kids n T"
  by (auto simp: simple_kids_def list_all_iff)

lemma optimize_node_Suc:
  "optimize_node (Suc fuel) n T =
     (case each_node (optimize_node fuel) (filter (\<lambda>x. x \<noteq> 0) (param_childrens (T ! n))) T of
        None \<Rightarrow> None
      | Some T \<Rightarrow>
          if children (T ! n) = [] then Some T
          else if simple_kids n T then optimize_node fuel n (merge_at n T)
          else each_node (optimize_node fuel) (map snd (children (T ! n))) T)"
  by (simp add: simple_kids_iff merge_at_def Let_def split: option.split)

lemma optimize_same:
  "optimize_node fuel n T = Some T' \<Longrightarrow> trie_ok T \<Longrightarrow> n < length T \<Longrightarrow> same sd n T T'"
proof (induction fuel arbitrary: n T T')
  case (Suc fuel)
  have f: "same sd x S S'" if "n < x" "x < length S" "trie_ok S" "optimize_node fuel x S = Some S'" for x S S'
    using Suc.IH that by blast
  obtain T1 where T1: "each_node (optimize_node fuel) (filter (\<lambda>x. x \<noteq> 0) (param_childrens (T ! n))) T = Some T1"
    using Suc.prems(1) unfolding optimize_node_Suc by (auto split: option.splits)
  have 1: "same sd (Suc n) T T1"
    by (rule same_each_node [OF f T1 param_nodes [OF trie_ok_node [OF Suc.prems(2,3)]] Suc.prems(2)])
  then have ok: "trie_ok T1" "n < length T1" using Suc.prems(3) by (simp_all add: same_def)
  consider "children (T1 ! n) = []" "T' = T1" | "simple_kids n T1" "optimize_node fuel n (merge_at n T1) = Some T'"
    | "each_node (optimize_node fuel) (map snd (children (T1 ! n))) T1 = Some T'"
    using Suc.prems(1) T1 unfolding optimize_node_Suc by (auto split: if_splits)
  then have 2: "same sd n T1 T'"
  proof cases
    case 1
    then show ?thesis using ok(1) by (simp add: same_refl)
  next
    case 2
    have "same sd n (merge_at n T1) T'" using Suc.IH [OF 2(2)] trie_ok_merge_at [OF ok] ok(2) by simp
    with same_merge_at [OF ok 2(1)] show ?thesis by (rule same_trans)
  next
    case 3
    show ?thesis by (rule same_mono [OF same_each_node [OF f 3 child_nodes [OF trie_ok_node [OF ok]] ok(1)]]) simp_all
  qed
  show ?case by (rule same_trans [OF same_mono [OF 1] 2]) simp
qed simp

section \<open>Optimize comes to an end\<close>

text \<open>The recursion goes to a higher node, or stays at a node whose lowest child has become higher.\<close>

definition work :: "nat \<Rightarrow> trie \<Rightarrow> nat" where
  "work n T = (length T - n) * (length T + 1) +
     (if children (T ! n) = [] then 0 else length T - Min (snd ` set (children (T ! n))))"

lemma work_higher: "n < x \<Longrightarrow> x < length T \<Longrightarrow> work x T < (length T - n) * (length T + 1)"
proof -
  assume n: "n < x" "x < length T"
  have "work x T \<le> (length T - x) * (length T + 1) + length T" by (simp add: work_def)
  also have "\<dots> < Suc (length T - x) * (length T + 1)" by simp
  also have "\<dots> \<le> (length T - n) * (length T + 1)" using n by (intro mult_le_mono1) simp
  finally show ?thesis .
qed

lemma work_merge:
  assumes ok: "trie_ok T" "n < length T" and ch: "children (T ! n) \<noteq> []"
  shows "work n (merge_at n T) < work n T"
proof -
  let ?K = "snd ` set (children (T ! n))"
  have fin: "finite ?K" "?K \<noteq> {}" using ch by simp_all
  have "Min ?K < length T" using Min_in [OF fin] child_nodes [OF trie_ok_node [OF ok]] by auto
  then have pos: "0 < length T - Min ?K" by simp
  show ?thesis
  proof (cases "merge_list T (children (T ! n)) = []")
    case True
    then show ?thesis using pos ch by (simp add: work_def children_merge_at [OF ok])
  next
    case False
    let ?M = "snd ` set (merge_list T (children (T ! n)))"
    have "Min ?M \<in> ?M" using False by (intro Min_in) simp_all
    then obtain h where "(h, Min ?M) \<in> set (merge_list T (children (T ! n)))" by auto
    from merge_at_child [OF ok this] obtain f c where "(f, c) \<in> set (children (T ! n))" "c < Min ?M" by blast
    then have "Min ?K < Min ?M" using fin(1) by (metis Min_le image_eqI le_less_trans snd_conv)
    then have "length T - Min ?M < length T - Min ?K" using pos by (intro diff_less_mono2) simp_all
    then show ?thesis unfolding work_def merge_at_simps(1) children_merge_at [OF ok] if_not_P [OF False] if_not_P [OF ch]
      by (rule add_strict_left_mono)
  qed
qed

lemma each_node_returns:
  assumes "\<And>x T. n < x \<Longrightarrow> x < length T \<Longrightarrow> trie_ok T \<Longrightarrow> length T = l \<Longrightarrow>
    \<exists>T'. f x T = Some T' \<and> trie_ok T' \<and> length T' = length T"
  shows "\<forall>x \<in> set xs. n < x \<and> x < length T \<Longrightarrow> trie_ok T \<Longrightarrow> length T = l \<Longrightarrow>
    \<exists>T'. each_node f xs T = Some T'"
proof (induction xs arbitrary: T)
  case (Cons x xs)
  then obtain T1 where "f x T = Some T1" "trie_ok T1" "length T1 = length T" using assms [of x T] by auto
  with Cons.IH [of T1] Cons.prems show ?case by simp
qed simp

lemma optimize_returns:
  "trie_ok T \<Longrightarrow> n < length T \<Longrightarrow> work n T < fuel \<Longrightarrow> \<exists>T'. optimize_node fuel n T = Some T'"
proof (induction fuel arbitrary: n T)
  case (Suc fuel)
  let ?l = "length T"
  have f: "\<exists>S'. optimize_node fuel x S = Some S' \<and> trie_ok S' \<and> length S' = length S"
    if "n < x" "x < length S" "trie_ok S" "length S = ?l" for x S
  proof -
    note S = that
    have "work x S < (?l - n) * (?l + 1)" using work_higher [OF that(1,2)] that(4) by simp
    also have "\<dots> \<le> fuel" using Suc.prems(3) by (simp add: work_def)
    finally obtain S' where "optimize_node fuel x S = Some S'" using Suc.IH S by blast
    with optimize_same [OF this S(3,2)] show ?thesis by (auto simp: same_def)
  qed
  have fs: "same sd x S S'" if "n < x" "x < length S" "trie_ok S" "optimize_node fuel x S = Some S'" for sd :: "string \<Rightarrow> unit \<times> nat \<times> bool" and x S S'
    using optimize_same that by blast
  note pn = param_nodes [OF trie_ok_node [OF Suc.prems(1,2)]]
  obtain T1 where T1: "each_node (optimize_node fuel) (filter (\<lambda>x. x \<noteq> 0) (param_childrens (T ! n))) T = Some T1"
    using each_node_returns [of n ?l "optimize_node fuel", OF f pn Suc.prems(1) refl] by blast
  have s1: "same (\<lambda>_. ((), 0, False)) (Suc n) T T1" by (rule same_each_node [OF fs T1 pn Suc.prems(1)])
  have 1: "length T1 = ?l" "trie_ok T1" "T1 ! n = T ! n" using same_facts [OF s1] by blast+
  then have n: "n < length T1" using Suc.prems(2) by simp
  have w: "work n T1 = work n T" using 1 by (simp add: work_def)
  show ?case
  proof (cases "children (T1 ! n) = [] \<or> \<not> simple_kids n T1")
    case True
    obtain T' where "each_node (optimize_node fuel) (map snd (children (T1 ! n))) T1 = Some T'"
      using each_node_returns [of n ?l "optimize_node fuel", OF f child_nodes [OF trie_ok_node [OF 1(2) n]] 1(2,1)] by blast
    with T1 True show ?thesis unfolding optimize_node_Suc by (cases "children (T1 ! n) = []") simp_all
  next
    case False
    then have "work n (merge_at n T1) < fuel" using work_merge [OF 1(2) n] w Suc.prems(3) by simp
    then obtain T' where "optimize_node fuel n (merge_at n T1) = Some T'"
      using Suc.IH [of "merge_at n T1" n] trie_ok_merge_at [OF 1(2) n] n by auto
    then show ?thesis using T1 False unfolding optimize_node_Suc by simp
  qed
qed simp

lemma work_head: "work 0 T < (length T + 1) ^ 2"
proof -
  have "work 0 T \<le> length T * (length T + 1) + length T" by (simp add: work_def)
  then show ?thesis by (simp add: power2_eq_square)
qed

lemma optimize_head:
  assumes "trie_ok T" and "T \<noteq> []" and "(length T + 1) ^ 2 \<le> fuel"
  shows "\<exists>T'. optimize_node fuel 0 T = Some T' \<and> same sd 0 T T'"
proof -
  have "work 0 T < fuel" using work_head [of T] assms(3) by simp
  then obtain T' where "optimize_node fuel 0 T = Some T'" using optimize_returns [OF assms(1)] assms(2) by blast
  with optimize_same [OF this assms(1)] assms(2) show ?thesis by blast
qed

end
