(* ===== verification/RoutingRules.thy ===== *)
theory RoutingRules
  imports RoutingTrie
begin

text \<open>
  The rules of a trie.  A rule is a list of characters and parameters; \<open>add\<close> puts it into the trie
  without changing the others, and \<open>find\<close> returns the lowest rule that the URL matches.
\<close>

section \<open>Rules as lists of tokens\<close>

datatype token = Lit char | Par ParamType

lemma param_at_name: "param_at url = Some (t, name) \<Longrightarrow> name \<noteq> [] \<and> url \<noteq> []"
  by (auto simp: param_at_def paramTraits_def find_Some_iff prefix_def less_Suc_eq nth_Cons' split: if_splits)

function parse_rule :: "string \<Rightarrow> token list option" where
  "parse_rule [] = Some []"
| "parse_rule (c # rest) =
     (if c = CHR ''{'' then
        (case param_at (c # rest) of
           Some (t, name) \<Rightarrow> map_option ((#) (Par t)) (parse_rule (drop (length name) (c # rest)))
         | None \<Rightarrow> None)
      else map_option ((#) (Lit c)) (parse_rule rest))"
  by pat_completeness auto
termination
  by (relation "measure length") (auto dest: param_at_name)

text \<open>The values a URL gives to the parameters of a rule.\<close>

fun route_match :: "(string \<Rightarrow> 'd \<times> nat \<times> bool) \<Rightarrow> token list \<Rightarrow> string \<Rightarrow> 'd param_value list option" where
  "route_match sd [] s = (if s = [] then Some [] else None)"
| "route_match sd (Lit c # ts) s = (case s of d # r \<Rightarrow> if d = c then route_match sd ts r else None | [] \<Rightarrow> None)"
| "route_match sd (Par t # ts) s =
     (case take_param sd t s of
        Some (v, len) \<Rightarrow> map_option ((#) v) (route_match sd ts (drop len s))
      | None \<Rightarrow> None)"

section \<open>Tries built by add\<close>

text \<open>The node a token leads to.\<close>

fun step :: "trie \<Rightarrow> nat \<Rightarrow> token \<Rightarrow> nat option" where
  "step T n (Lit c) = map_of (children (T ! n)) [c]"
| "step T n (Par t) = (let c = param_childrens (T ! n) ! type_index t in if c = 0 then None else Some c)"

fun walk :: "trie \<Rightarrow> nat \<Rightarrow> token list \<Rightarrow> nat option" where
  "walk T n [] = Some n"
| "walk T n (t # ts) = Option.bind (step T n t) (\<lambda>k. walk T k ts)"

lemma walk_append: "walk T n (ts @ us) = Option.bind (walk T n ts) (\<lambda>k. walk T k us)"
  by (induction ts arbitrary: n) (simp_all add: Option.bind_assoc)

definition rule_of :: "trie \<Rightarrow> token list \<Rightarrow> nat" where
  "rule_of T ts = (case walk T 0 ts of Some k \<Rightarrow> rule_index (T ! k) | None \<Rightarrow> 0)"

definition npar :: "token list \<Rightarrow> nat" where
  "npar ts = length (filter (\<lambda>t. case t of Par _ \<Rightarrow> True | Lit _ \<Rightarrow> False) ts)"

lemma npar_simps [simp]: "npar [] = 0" "npar (Lit c # ts) = npar ts" "npar (Par t # ts) = Suc (npar ts)" "npar (ts @ us) = npar ts + npar us"
  by (simp_all add: npar_def)

text \<open>Every node is reached by exactly one path, each edge has one character, and no path has more
  than 128 parameters.\<close>

definition single_keys :: "trie \<Rightarrow> bool" where
  "single_keys T \<longleftrightarrow> (\<forall>n < length T. \<forall>f \<in> fst ` set (children (T ! n)). length f = 1)"

definition built :: "trie \<Rightarrow> bool" where
  "built T \<longleftrightarrow> T \<noteq> [] \<and> trie_ok T \<and> single_keys T \<and>
     (\<forall>p q k. walk T 0 p = Some k \<longrightarrow> walk T 0 q = Some k \<longrightarrow> p = q) \<and>
     (\<forall>k < length T. \<exists>p. walk T 0 p = Some k) \<and>
     (\<forall>p k. walk T 0 p = Some k \<longrightarrow> npar p \<le> 128)"

lemma builtD:
  assumes "built T"
  shows "T \<noteq> []" and "trie_ok T" and "single_keys T"
    and "walk T 0 p = Some k \<Longrightarrow> walk T 0 q = Some k \<Longrightarrow> p = q"
    and "j < length T \<Longrightarrow> \<exists>p. walk T 0 p = Some j" and "walk T 0 p = Some k \<Longrightarrow> npar p \<le> 128"
  using assms unfolding built_def by blast+

lemma step_range: "trie_ok T \<Longrightarrow> n < length T \<Longrightarrow> step T n t = Some k \<Longrightarrow> n < k \<and> k < length T"
proof (cases t)
  case (Lit c)
  assume "trie_ok T" "n < length T" "step T n t = Some k"
  then have "([c], k) \<in> set (children (T ! n))" by (simp add: Lit map_of_SomeD)
  then show ?thesis using node_ok_child [OF trie_ok_node [OF \<open>trie_ok T\<close> \<open>n < length T\<close>]] by blast
next
  case (Par u)
  assume "trie_ok T" "n < length T" "step T n t = Some k"
  then show ?thesis using node_ok_param [OF trie_ok_node, of T n u] by (auto simp: Par Let_def split: if_splits)
qed

lemma walk_range: "trie_ok T \<Longrightarrow> n < length T \<Longrightarrow> walk T n ts = Some k \<Longrightarrow> k < length T"
proof (induction ts arbitrary: n)
  case (Cons t ts)
  then obtain j where j: "step T n t = Some j" "walk T j ts = Some k" by (auto simp: bind_eq_Some_conv)
  with Cons.IH [of j] step_range [OF Cons.prems(1,2) j(1)] Cons.prems(1) show ?case by simp
qed simp

lemma built_walk_range: "built T \<Longrightarrow> walk T 0 p = Some k \<Longrightarrow> k < length T"
  using walk_range [of T 0] by (simp add: builtD)

lemma step_Lit_iff:
  assumes "trie_ok T" and "n < length T"
  shows "step T n (Lit c) = Some k \<longleftrightarrow> ([c], k) \<in> set (children (T ! n))"
proof -
  have "distinct (map fst (children (T ! n)))" using node_ok_keys [OF trie_ok_node [OF assms]] by (simp add: keys_ok_def)
  then show ?thesis by simp
qed

lemma no_param_children [simp]: "replicate 5 0 ! type_index t = (0 :: nat)"
  by (simp add: type_index_less)

lemma built_Trie: "built Trie"
proof -
  have w: "walk Trie 0 ts = Some k \<longleftrightarrow> ts = [] \<and> k = 0" for ts k
  proof (cases ts)
    case (Cons t us)
    have "step Trie 0 t = None" by (cases t) (simp_all add: Trie_def new_node_def)
    then show ?thesis by (simp add: Cons)
  qed auto
  have "node_ok 0 Trie" by (simp add: node_ok_def Trie_def new_node_def keys_ok_def)
  then show ?thesis unfolding built_def w by (simp add: Trie_def trie_ok_def single_keys_def new_node_def)
qed

lemma rule_of_Trie: "rule_of Trie ts = 0"
proof (cases "walk Trie 0 ts")
  case (Some k)
  then have "k = 0" using built_walk_range [OF built_Trie Some] by (simp add: Trie_def)
  with Some show ?thesis by (simp add: rule_of_def Trie_def new_node_def)
qed (simp add: rule_of_def)

section \<open>A new node\<close>

fun edge_node :: "token \<Rightarrow> nat \<Rightarrow> node \<Rightarrow> node" where
  "edge_node (Lit c) k nd = nd\<lparr>children := ([c], k) # children nd\<rparr>"
| "edge_node (Par t) k nd = nd\<lparr>param_childrens := (param_childrens nd)[type_index t := k]\<rparr>"

definition extend :: "token \<Rightarrow> nat \<Rightarrow> trie \<Rightarrow> trie" where
  "extend t n T = (T @ [new_node])[n := edge_node t (length T) (T ! n)]"

lemma length_extend [simp]: "length (extend t n T) = Suc (length T)"
  by (simp add: extend_def)

lemma nth_extend:
  "n < length T \<Longrightarrow> m \<le> length T \<Longrightarrow>
   extend t n T ! m = (if m = n then edge_node t (length T) (T ! n) else if m = length T then new_node else T ! m)"
  by (auto simp: extend_def nth_append nth_list_update)

lemma rule_index_edge [simp]: "rule_index (edge_node t k nd) = rule_index nd"
  by (cases t) simp_all

lemma type_index_inj [simp]: "type_index t = type_index u \<longleftrightarrow> t = u"
  by (cases t; cases u) simp_all

lemma step_extend:
  assumes "trie_ok T" and "n < length T" and "m \<le> length T"
  shows "step (extend t n T) m u = (if m = n \<and> u = t then Some (length T) else if m = length T then None else step T m u)"
proof -
  have "length (param_childrens (T ! n)) = 5" using trie_ok_node [OF assms(1,2)] by (simp add: node_ok_def)
  moreover have "length T \<noteq> 0" using assms(2) by auto
  ultimately show ?thesis using assms(2,3)
    by (cases t; cases u) (auto simp: nth_extend new_node_def Let_def nth_list_update type_index_less)
qed

lemma new_node_ok: "node_ok (length T) (extend t n T) " if "n < length T"
  using that by (simp add: node_ok_def nth_extend new_node_def keys_ok_def)

lemma node_ok_later:
  "node_ok m T \<Longrightarrow> T' ! m = T ! m \<Longrightarrow> length T \<le> length T' \<Longrightarrow> node_ok m T'"
  unfolding node_ok_def by (auto dest: order.strict_trans2)

lemma single_keys_ok:
  "distinct (map fst kvs) \<Longrightarrow> \<forall>f \<in> fst ` set kvs. length f = 1 \<Longrightarrow> keys_ok kvs"
proof -
  assume *: "distinct (map fst kvs)" "\<forall>f \<in> fst ` set kvs. length f = 1"
  have "f = g" if f: "f \<in> fst ` set kvs" "g \<in> fst ` set kvs" "prefix f g" for f g
  proof -
    have "length f = 1" "length g = 1" using *(2) f(1,2) by blast+
    with f(3) show ?thesis by (auto simp: prefix_def)
  qed
  moreover have "[] \<notin> fst ` set kvs" using *(2) by force
  ultimately show ?thesis using *(1) unfolding keys_ok_def by blast
qed

lemma extended_node_ok:
  assumes ok: "trie_ok T" "n < length T" and single: "single_keys T" and new: "step T n t = None"
  shows "node_ok n (extend t n T)"
proof -
  note node = trie_ok_node [OF ok]
  have nd: "extend t n T ! n = edge_node t (length T) (T ! n)" using ok(2) by (simp add: nth_extend)
  show ?thesis
  proof (cases t)
    case (Lit c)
    have "[c] \<notin> fst ` set (children (T ! n))" using new by (simp add: Lit map_of_eq_None_iff)
    moreover have "distinct (map fst (children (T ! n)))" using node by (simp add: node_ok_def keys_ok_def)
    ultimately have "keys_ok (([c], length T) # children (T ! n))"
      using single ok(2) by (intro single_keys_ok) (auto simp: single_keys_def)
    then show ?thesis using node ok(2) unfolding node_ok_def nd by (auto simp: Lit)
  next
    case (Par u)
    have "c \<in> set (param_childrens (T ! n)) \<or> c = length T" if "c \<in> set ((param_childrens (T ! n))[type_index u := length T])" for c
      using that set_update_subset_insert by fastforce
    then have "\<forall>c \<in> set ((param_childrens (T ! n))[type_index u := length T]). c \<noteq> 0 \<longrightarrow> n < c \<and> c < Suc (length T)"
      using node ok(2) unfolding node_ok_def by (metis less_SucI lessI)
    then show ?thesis using node unfolding node_ok_def nd by (auto simp: Par)
  qed
qed

lemma trie_ok_extend:
  assumes ok: "trie_ok T" "n < length T" and single: "single_keys T" and new: "step T n t = None"
  shows "trie_ok (extend t n T)"
proof -
  have "node_ok m (extend t n T)" if m: "m < Suc (length T)" for m
  proof -
    consider "m = n" | "m = length T" | "m < length T" "m \<noteq> n" using m by linarith
    then show ?thesis
    proof cases
      case 1
      then show ?thesis using extended_node_ok [OF assms] by simp
    next
      case 2
      then show ?thesis using new_node_ok [OF ok(2)] by simp
    next
      case 3
      show ?thesis by (rule node_ok_later [OF trie_ok_node [OF ok(1) 3(1)]]) (use 3 ok(2) in \<open>simp_all add: nth_extend\<close>)
    qed
  qed
  then show ?thesis by (simp add: trie_ok_def)
qed

lemma single_keys_extend: "single_keys T \<Longrightarrow> n < length T \<Longrightarrow> single_keys (extend t n T)"
  unfolding single_keys_def by (cases t) (auto simp: nth_extend less_Suc_eq_le new_node_def le_less)

lemma walk_extend:
  assumes b: "built T" and p: "walk T 0 p = Some n" and new: "step T n t = None"
  shows "walk (extend t n T) 0 q = (if q = p @ [t] then Some (length T) else walk T 0 q)"
proof (induction q rule: rev_induct)
  case Nil
  then show ?case by simp
next
  case (snoc u q)
  note n = built_walk_range [OF b p]
  note st = step_extend [OF builtD(2) [OF b] n]
  show ?case
  proof (cases "q = p @ [t]")
    case True
    then have "walk T 0 (q @ [u]) = None" using p new by (simp add: walk_append)
    moreover have "walk (extend t n T) 0 (q @ [u]) = None"
      unfolding walk_append snoc using True st [of "length T" t u] n by simp
    ultimately show ?thesis using True by simp
  next
    case False
    show ?thesis
    proof (cases "walk T 0 q")
      case None
      then have "q \<noteq> p" using p by auto
      then show ?thesis using snoc False None by (simp add: walk_append)
    next
      case (Some k)
      then have k: "k < length T" "k = n \<longleftrightarrow> q = p" using built_walk_range [OF b] builtD(4) [OF b] p by auto
      then show ?thesis using snoc False Some st [of k t u] by (auto simp: walk_append)
    qed
  qed
qed

lemma built_extend:
  assumes b: "built T" and p: "walk T 0 p = Some n" and new: "step T n t = None" and small: "npar (p @ [t]) \<le> 128"
  shows "built (extend t n T)"
proof -
  note n = built_walk_range [OF b p]
  note w = walk_extend [OF b p new]
  have pt: "walk T 0 (p @ [t]) = None" using p new by (simp add: walk_append)
  have old: "k < length T" if "walk T 0 q = Some k" for q k using built_walk_range [OF b that] .
  have "q = r" if "walk (extend t n T) 0 q = Some k" "walk (extend t n T) 0 r = Some k" for q r k
    using that old builtD(4) [OF b] by (auto simp: w split: if_splits)
  moreover have "\<exists>q. walk (extend t n T) 0 q = Some k" if "k < length (extend t n T)" for k
  proof (cases "k = length T")
    case True
    then show ?thesis using w by auto
  next
    case False
    then obtain q where "walk T 0 q = Some k" using builtD(5) [OF b, of k] \<open>k < length (extend t n T)\<close> by auto
    then have "walk (extend t n T) 0 q = Some k" using w [of q] pt by auto
    then show ?thesis ..
  qed
  moreover have "npar q \<le> 128" if "walk (extend t n T) 0 q = Some k" for q k
    using that small builtD(6) [OF b] by (auto simp: w split: if_splits)
  moreover have "extend t n T \<noteq> []" by (metis length_extend list.size(3) nat.distinct(1))
  ultimately show ?thesis
    using trie_ok_extend [OF builtD(2) [OF b] n builtD(3) [OF b] new] single_keys_extend [OF builtD(3) [OF b] n]
    unfolding built_def by blast
qed

lemma rule_of_extend:
  assumes b: "built T" and p: "walk T 0 p = Some n" and new: "step T n t = None"
  shows "rule_of (extend t n T) q = rule_of T q"
proof -
  note n = built_walk_range [OF b p]
  have pt: "walk T 0 (p @ [t]) = None" using p new by (simp add: walk_append)
  show ?thesis
  proof (cases "q = p @ [t]")
    case True
    then show ?thesis using pt n by (simp add: rule_of_def walk_extend [OF assms] nth_extend new_node_def)
  next
    case False
    have "rule_index (extend t n T ! k) = rule_index (T ! k)" if "walk T 0 q = Some k" for k
      using built_walk_range [OF b that] n by (simp add: nth_extend)
    with False show ?thesis by (auto simp: rule_of_def walk_extend [OF assms] split: option.split)
  qed
qed

section \<open>What add does\<close>

text \<open>The paths of a trie.\<close>

definition reach :: "trie \<Rightarrow> token list set" where
  "reach T = {q. walk T 0 q \<noteq> None}"

definition token_child :: "token \<Rightarrow> nat \<Rightarrow> trie \<Rightarrow> nat \<times> trie" where
  "token_child t n T = (case step T n t of Some k \<Rightarrow> (k, T) | None \<Rightarrow> (length T, extend t n T))"

lemma param_child_token: "param_child t n T = token_child (Par t) n T"
  by (simp add: param_child_def token_child_def extend_def Let_def)

lemma char_child_token: "char_child c n T = token_child (Lit c) n T"
  by (simp add: char_child_def token_child_def extend_def split: option.split)

lemma token_child_built:
  assumes b: "built T" and p: "walk T 0 p = Some n" and small: "npar (p @ [t]) \<le> 128" and k: "token_child t n T = (k, T')"
  shows "built T' \<and> walk T' 0 (p @ [t]) = Some k \<and> rule_of T' = rule_of T \<and> reach T' = insert (p @ [t]) (reach T)"
proof (cases "step T n t")
  case None
  then have "k = length T" "T' = extend t n T" using k by (simp_all add: token_child_def)
  then show ?thesis using built_extend [OF b p None small] walk_extend [OF b p None] rule_of_extend [OF b p None]
    by (auto simp: reach_def)
next
  case (Some j)
  then have "k = j" "T' = T" using k by (simp_all add: token_child_def)
  moreover have "walk T 0 (p @ [t]) = Some j" using p Some by (simp add: walk_append)
  ultimately show ?thesis using b by (auto simp: reach_def)
qed

declare add_loop.simps [simp del, code]

lemma add_loop_simps:
  "add_loop [] n T = Some (n, T)"
  "c \<noteq> CHR ''{'' \<Longrightarrow> add_loop (c # rest) n T = (case token_child (Lit c) n T of (k, T') \<Rightarrow> add_loop rest k T')"
  "param_at (CHR ''{'' # rest) = Some (t, name) \<Longrightarrow>
   add_loop (CHR ''{'' # rest) n T = (case token_child (Par t) n T of (k, T') \<Rightarrow> add_loop (drop (length name) (CHR ''{'' # rest)) k T')"
  by (subst add_loop.simps, simp add: char_child_token param_child_token)+

lemma add_loop_built:
  "parse_rule url = Some ts \<Longrightarrow> built T \<Longrightarrow> walk T 0 p = Some n \<Longrightarrow> npar (p @ ts) \<le> 128 \<Longrightarrow>
   \<exists>k T'. add_loop url n T = Some (k, T') \<and> built T' \<and> walk T' 0 (p @ ts) = Some k \<and> rule_of T' = rule_of T \<and>
     reach T' = reach T \<union> {q. prefix q (p @ ts)}"
proof (induction url arbitrary: ts T p n rule: parse_rule.induct)
  case 1
  then have "walk T 0 q \<noteq> None" if "prefix q p" for q using that by (auto simp: prefix_def walk_append bind_eq_Some_conv)
  then have "reach T \<union> {q. prefix q p} = reach T" by (auto simp: reach_def)
  with 1 show ?case by (simp add: add_loop_simps)
next
  case (2 c rest)
  have go: "\<exists>k T'. add_loop (c # rest) n T = Some (k, T') \<and> built T' \<and> walk T' 0 (p @ ts) = Some k \<and> rule_of T' = rule_of T \<and>
      reach T' = reach T \<union> {q. prefix q (p @ ts)}"
    if ts: "ts = t # us" and r: "parse_rule r = Some us"
      and step: "\<And>k T'. token_child t n T = (k, T') \<Longrightarrow> add_loop (c # rest) n T = add_loop r k T'"
      and IH: "\<And>T' k. built T' \<Longrightarrow> walk T' 0 (p @ [t]) = Some k \<Longrightarrow>
        \<exists>j T''. add_loop r k T' = Some (j, T'') \<and> built T'' \<and> walk T'' 0 ((p @ [t]) @ us) = Some j \<and> rule_of T'' = rule_of T' \<and>
          reach T'' = reach T' \<union> {q. prefix q ((p @ [t]) @ us)}"
    for t us r
  proof -
    obtain k T' where k: "token_child t n T = (k, T')" by (cases "token_child t n T")
    have "npar (p @ [t]) \<le> 128" using "2.prems"(4) by (cases t) (simp_all add: ts)
    note T' = token_child_built [OF "2.prems"(2,3) this k]
    with IH [of T' k] obtain j T'' where "add_loop r k T' = Some (j, T'')" "built T''" "walk T'' 0 ((p @ [t]) @ us) = Some j"
      "rule_of T'' = rule_of T" "reach T'' = reach T' \<union> {q. prefix q ((p @ [t]) @ us)}" by auto
    moreover have "reach T' \<union> {q. prefix q ((p @ [t]) @ us)} = reach T \<union> {q. prefix q (p @ t # us)}" using T' by auto
    ultimately show ?thesis by (simp add: step [OF k] ts)
  qed
  show ?case
  proof (cases "c = CHR ''{''")
    case True
    then obtain t name us where t: "param_at (c # rest) = Some (t, name)"
      and us: "parse_rule (drop (length name) (c # rest)) = Some us" "ts = Par t # us"
      using "2.prems"(1) by (auto split: option.splits)
    show ?thesis
    proof (rule go [OF us(2,1)])
      show "add_loop (c # rest) n T = add_loop (drop (length name) (c # rest)) k T'" if "token_child (Par t) n T = (k, T')" for k T'
        using add_loop_simps(3) t that True by simp
      show "\<exists>j T''. add_loop (drop (length name) (c # rest)) k T' = Some (j, T'') \<and> built T'' \<and>
          walk T'' 0 ((p @ [Par t]) @ us) = Some j \<and> rule_of T'' = rule_of T' \<and> reach T'' = reach T' \<union> {q. prefix q ((p @ [Par t]) @ us)}"
        if "built T'" "walk T' 0 (p @ [Par t]) = Some k" for T' k
        using "2.IH"(1) [OF True t refl us(1) that] "2.prems"(4) by (simp add: us(2))
    qed
  next
    case False
    then obtain us where us: "parse_rule rest = Some us" "ts = Lit c # us" using "2.prems"(1) by auto
    show ?thesis
    proof (rule go [OF us(2,1)])
      show "add_loop (c # rest) n T = add_loop rest k T'" if "token_child (Lit c) n T = (k, T')" for k T'
        using add_loop_simps(2) [OF False] that by simp
      show "\<exists>j T''. add_loop rest k T' = Some (j, T'') \<and> built T'' \<and> walk T'' 0 ((p @ [Lit c]) @ us) = Some j \<and> rule_of T'' = rule_of T' \<and>
          reach T'' = reach T' \<union> {q. prefix q ((p @ [Lit c]) @ us)}"
        if "built T'" "walk T' 0 (p @ [Lit c]) = Some k" for T' k
        using "2.IH"(2) [OF False us(1) that] "2.prems"(4) by (simp add: us(2))
    qed
  qed
qed

text \<open>Setting the rule of a node.\<close>

definition set_rule :: "nat \<Rightarrow> nat \<Rightarrow> trie \<Rightarrow> trie" where
  "set_rule n r T = T[n := (T ! n)\<lparr>rule_index := r\<rparr>]"

lemma set_rule_simps [simp]:
  "length (set_rule n r T) = length T" "set_rule n r T = [] \<longleftrightarrow> T = []"
  "n < length T \<Longrightarrow> children (set_rule n r T ! m) = children (T ! m)"
  "n < length T \<Longrightarrow> param_childrens (set_rule n r T ! m) = param_childrens (T ! m)"
  "n < length T \<Longrightarrow> rule_index (set_rule n r T ! m) = (if m = n then r else rule_index (T ! m))"
  by (cases "m = n"; simp add: set_rule_def)+

lemma step_set_rule [simp]: "n < length T \<Longrightarrow> step (set_rule n r T) m t = step T m t"
  by (cases t) simp_all

lemma walk_set_rule [simp]: "n < length T \<Longrightarrow> walk (set_rule n r T) m ts = walk T m ts"
  by (induction ts arbitrary: m) simp_all

lemma built_set_rule: "built T \<Longrightarrow> n < length T \<Longrightarrow> built (set_rule n r T)"
proof -
  assume b: "built T" and n: "n < length T"
  have "node_ok m (set_rule n r T) \<longleftrightarrow> node_ok m T" for m using n by (simp add: node_ok_def)
  then have "trie_ok (set_rule n r T) \<longleftrightarrow> trie_ok T" by (simp add: trie_ok_def)
  moreover have "single_keys (set_rule n r T) \<longleftrightarrow> single_keys T" using n by (simp add: single_keys_def)
  ultimately show ?thesis using b unfolding built_def walk_set_rule [OF n] set_rule_simps(1,2) by blast
qed

lemma add_result:
  assumes "parse_rule url = Some ts" and "built T" and "npar ts \<le> 128"
  shows "if rule_of T ts \<noteq> 0 then add url r T = Some (Throw OtherException)
    else \<exists>T'. add url r T = Some (Value T') \<and> built T' \<and> rule_of T' = (rule_of T)(ts := r) \<and> reach T' = reach T \<union> {q. prefix q ts}"
proof -
  obtain k T1 where T1: "add_loop url 0 T = Some (k, T1)" "built T1" "walk T1 0 ts = Some k" "rule_of T1 = rule_of T"
    and reach: "reach T1 = reach T \<union> {q. prefix q ts}"
    using add_loop_built [OF assms(1,2), of "[]" 0] assms(3) by auto
  note k = built_walk_range [OF T1(2,3)]
  have r: "rule_index (T1 ! k) = rule_of T ts" using T1(3) unfolding T1(4) [symmetric] by (simp add: rule_of_def)
  have add: "add url r T = Some (if rule_of T ts \<noteq> 0 then Throw OtherException else Value (set_rule k r T1))"
    using T1(1) by (simp add: add_def r set_rule_def)
  have "rule_of (set_rule k r T1) q = ((rule_of T)(ts := r)) q" for q
  proof (cases "q = ts")
    case True
    then show ?thesis using T1(3) k by (simp add: rule_of_def)
  next
    case False
    then have "walk T1 0 q \<noteq> Some k" using builtD(4) [OF T1(2) T1(3)] by blast
    then show ?thesis using False k unfolding T1(4) [symmetric] by (auto simp: rule_of_def split: option.split)
  qed
  moreover have "reach (set_rule k r T1) = reach T1" using k by (simp add: reach_def)
  ultimately show ?thesis using add built_set_rule [OF T1(2) k] reach by auto
qed

text \<open>A rule with a brace that starts none of the names: the loop does not end.\<close>

text \<open>A rule with a brace that starts none of the names: the loop does not end.\<close>

lemma add_loop_parses:
  assumes "add_loop url n T = Some y"
  shows "parse_rule url \<noteq> None"
proof (rule add_loop.raw_induct [of "\<lambda>url n T y. parse_rule url \<noteq> None", OF _ assms])
  fix f url n T y
  assume IH: "\<And>url n T y. f url n T = Some y \<Longrightarrow> parse_rule url \<noteq> None"
    and body: "(case url of
        [] \<Rightarrow> Some (n, T)
      | c # rest \<Rightarrow>
          if c = CHR ''{'' then
            (case param_at url of
               Some (t, name) \<Rightarrow> (case param_child t n T of (k, T') \<Rightarrow> f (drop (length name) url) k T')
             | None \<Rightarrow> f url n T)
          else (case char_child c n T of (k, T') \<Rightarrow> f rest k T')) = Some y"
  show "parse_rule url \<noteq> None"
  proof (cases url)
    case (Cons c rest)
    show ?thesis
    proof (cases "c = CHR ''{'' \<and> param_at url = None")
      case True
      then have "f url n T = Some y" using body unfolding Cons by (elim conjE) simp
      then show ?thesis by (rule IH)
    next
      case False
      show ?thesis
      proof (cases "c = CHR ''{''")
        case True
        then obtain t name where t: "param_at (c # rest) = Some (t, name)" using False Cons
          by (cases "param_at (c # rest)") auto
        obtain k T' where k: "param_child t n T = (k, T')" by (cases "param_child t n T")
        have "f (drop (length name) (c # rest)) k T' = Some y" using body True t k by (simp add: Cons)
        then have "parse_rule (drop (length name) (c # rest)) \<noteq> None" by (rule IH)
        then show ?thesis using True t by (simp add: Cons)
      next
        case False
        obtain k T' where k: "char_child c n T = (k, T')" by (cases "char_child c n T")
        have "f rest k T' = Some y" using body False k by (simp add: Cons)
        then have "parse_rule rest \<noteq> None" by (rule IH)
        then show ?thesis using False by (simp add: Cons)
      qed
    qed
  qed simp
qed

section \<open>The ends of a URL are the rules it matches\<close>

lemma single_key_prefix: "length f = 1 \<Longrightarrow> prefix f s \<longleftrightarrow> (\<exists>c r. f = [c] \<and> s = c # r)"
  by (cases f; cases s) auto

lemma route_match_Par:
  "route_match sd (Par t # ts) s = Some vs \<longleftrightarrow>
   (\<exists>v len ws. take_param sd t s = Some (v, len) \<and> vs = v # ws \<and> route_match sd ts (drop len s) = Some ws)"
  by (auto split: option.splits)

lemma built_ends:
  assumes ok: "trie_ok T" and single: "single_keys T"
  shows "n < length T \<Longrightarrow> (r, vs) \<in> set (ends sd T s n) \<longleftrightarrow>
    (\<exists>ts k. walk T n ts = Some k \<and> rule_index (T ! k) = r \<and> route_match sd ts s = Some vs)"
proof (induction "length s" arbitrary: s n vs rule: less_induct)
  case less
  have IH: "(r, ws) \<in> set (ends sd T q m) \<longleftrightarrow>
      (\<exists>ts k. walk T m ts = Some k \<and> rule_index (T ! k) = r \<and> route_match sd ts q = Some ws)"
    if "length q < length s" "m < length T" for q m ws using less.hyps that by blast
  show ?case
  proof (cases s)
    case Nil
    have "route_match sd ts [] = Some vs \<longleftrightarrow> ts = [] \<and> vs = []" for ts
      by (cases "(sd, ts, [] :: string)" rule: route_match.cases) auto
    then show ?thesis by (auto simp: Nil ends_nil)
  next
    case (Cons c q)
    then have s: "s \<noteq> []" by simp
    have lit: "(\<exists>(f, k) \<in> set (children (T ! n)). f \<noteq> [] \<and> prefix f s \<and> (r, vs) \<in> set (ends sd T (drop (length f) s) k)) \<longleftrightarrow>
      (\<exists>k. step T n (Lit c) = Some k \<and> (r, vs) \<in> set (ends sd T q k))"
    proof -
      have "f = [c]" if "(f, k) \<in> set (children (T ! n))" "prefix f s" for f k
        using single less.prems that single_key_prefix [of f s] Cons by (force simp: single_keys_def)
      moreover have "prefix [c] s" "drop (length [c]) s = q" using Cons by simp_all
      ultimately show ?thesis unfolding step_Lit_iff [OF ok less.prems] by fastforce
    qed
    have par: "(\<exists>t. param_childrens (T ! n) ! type_index t \<noteq> 0 \<and> (\<exists>v len ws. take_param sd t s = Some (v, len) \<and>
          (r, vs) = (fst (r, vs), v # ws) \<and> (fst (r, vs), ws) \<in> set (ends sd T (drop len s) (param_childrens (T ! n) ! type_index t)))) \<longleftrightarrow>
      (\<exists>t k v len ws. step T n (Par t) = Some k \<and> take_param sd t s = Some (v, len) \<and> vs = v # ws \<and> (r, ws) \<in> set (ends sd T (drop len s) k))"
      by (auto simp: Let_def)
    have 1: "(\<exists>k. step T n (Lit c) = Some k \<and> (r, vs) \<in> set (ends sd T q k)) \<longleftrightarrow>
      (\<exists>us j. walk T n (Lit c # us) = Some j \<and> rule_index (T ! j) = r \<and> route_match sd (Lit c # us) s = Some vs)"
    proof -
      have "(r, vs) \<in> set (ends sd T q k) \<longleftrightarrow>
          (\<exists>us j. walk T k us = Some j \<and> rule_index (T ! j) = r \<and> route_match sd us q = Some vs)"
        if "step T n (Lit c) = Some k" for k
        using IH [of q k vs] step_range [OF ok less.prems that] Cons by simp
      then show ?thesis unfolding walk.simps(2) bind_eq_Some_conv route_match.simps(2) Cons
        by (auto simp del: step.simps)
    qed
    have 2: "(\<exists>t k v len ws. step T n (Par t) = Some k \<and> take_param sd t s = Some (v, len) \<and> vs = v # ws \<and> (r, ws) \<in> set (ends sd T (drop len s) k)) \<longleftrightarrow>
      (\<exists>t us j. walk T n (Par t # us) = Some j \<and> rule_index (T ! j) = r \<and> route_match sd (Par t # us) s = Some vs)"
      (is "?A \<longleftrightarrow> ?B")
    proof -
      have P: "(r, ws) \<in> set (ends sd T (drop len s) k) \<longleftrightarrow>
          (\<exists>ts j. walk T k ts = Some j \<and> rule_index (T ! j) = r \<and> route_match sd ts (drop len s) = Some ws)"
        if "step T n (Par t) = Some k" "take_param sd t s = Some (v, len)" for t k v len ws
        using IH [of "drop len s" k ws] step_range [OF ok less.prems that(1)] take_param_pos [OF that(2)] by simp
      show ?thesis
      proof
        assume ?A
        then obtain t k v len ws where a: "step T n (Par t) = Some k" "take_param sd t s = Some (v, len)" "vs = v # ws"
          "(r, ws) \<in> set (ends sd T (drop len s) k)" by blast
        with P [OF a(1,2)] obtain ts j where b: "walk T k ts = Some j" "rule_index (T ! j) = r" "route_match sd ts (drop len s) = Some ws"
          by blast
        have "walk T n (Par t # ts) = Some j" using a(1) b(1) by (simp del: step.simps)
        moreover have "route_match sd (Par t # ts) s = Some vs" using a(2,3) b(3) by simp
        ultimately show ?B using b(2) by blast
      next
        assume ?B
        then obtain t us j where b: "walk T n (Par t # us) = Some j" "rule_index (T ! j) = r" "route_match sd (Par t # us) s = Some vs" by blast
        from b(1) obtain k where k: "step T n (Par t) = Some k" "walk T k us = Some j" unfolding walk.simps(2) bind_eq_Some_conv by blast
        from b(3) obtain v len ws where v: "take_param sd t s = Some (v, len)" "vs = v # ws" "route_match sd us (drop len s) = Some ws"
          unfolding route_match_Par by blast
        show ?A using P [OF k(1) v(1)] k b(2) v by blast
      qed
    qed
    have split: "(\<exists>ts k. walk T n ts = Some k \<and> rule_index (T ! k) = r \<and> route_match sd ts s = Some vs) \<longleftrightarrow>
      (\<exists>us j. walk T n (Lit c # us) = Some j \<and> rule_index (T ! j) = r \<and> route_match sd (Lit c # us) s = Some vs) \<or>
      (\<exists>t us j. walk T n (Par t # us) = Some j \<and> rule_index (T ! j) = r \<and> route_match sd (Par t # us) s = Some vs)"
      (is "?L \<longleftrightarrow> ?R")
    proof
      assume ?L
      then obtain ts k where ts: "walk T n ts = Some k" "rule_index (T ! k) = r" "route_match sd ts s = Some vs" by blast
      show ?R
      proof (cases ts)
        case Nil
        then show ?thesis using ts(3) s by simp
      next
        case (Cons t us)
        show ?thesis
        proof (cases t)
          case (Lit d)
          have "d = c" using ts(3) \<open>s = c # q\<close> by (simp add: Cons Lit split: if_splits)
          with ts Cons Lit show ?thesis by blast
        next
          case (Par u)
          with ts Cons show ?thesis by blast
        qed
      qed
    next
      assume ?R
      then show ?L by blast
    qed
    show ?thesis unfolding ends_cons [OF s] lit par 1 2 split by blast
  qed
qed

end
