(* ===== verification/Router.thy ===== *)
theory Router
  imports RoutingRules "HOL-Library.Word"
begin

unbundle bit_operations_syntax

text \<open>
  The router of \<^verbatim>\<open>suil/http/routing.h\<close> and \<^verbatim>\<open>suil/http/routing.cpp\<close>: the registration and validation
  of rules, the lookup before a request is handled, the call of the handler with the parameters
  of the URL, and the check of the types of a handler in \<^verbatim>\<open>suil/http/common.h\<close>.

  A rule object is its text, its method mask, its attributes (a type parameter) and its handler,
  if it has one.
\<close>

section \<open>Rules\<close>

record ('a, 'h) base_rule =
  rule_url :: string
  rule_methods :: "32 word"
  rule_attrs :: 'a
  rule_handler :: "'h option"

text \<open>The numbers of \<open>Method\<close>; \<open>methods_\<close> starts as the mask of \<open>Get\<close>.\<close>

definition Get :: nat where "Get = 1"

definition method_bit :: "nat \<Rightarrow> 32 word" where
  "method_bit m = push_bit m 1"

definition BaseRule :: "'a \<Rightarrow> string \<Rightarrow> ('a, 'h) base_rule" where
  "BaseRule attrs rule = \<lparr>rule_url = rule, rule_methods = method_bit Get, rule_attrs = attrs, rule_handler = None\<rparr>"

text \<open>\<open>methods(m, ...)\<close>: the last method replaces the mask, the others are added to it.\<close>

fun rule_with_methods :: "nat list \<Rightarrow> ('a, 'h) base_rule \<Rightarrow> ('a, 'h) base_rule" where
  "rule_with_methods [] r = r"
| "rule_with_methods [m] r = r\<lparr>rule_methods := method_bit m\<rparr>"
| "rule_with_methods (m # ms) r = (let r = rule_with_methods ms r in r\<lparr>rule_methods := rule_methods r OR method_bit m\<rparr>)"

section \<open>The types of a handler\<close>

definition find_closing_tag :: "string \<Rightarrow> string outcome" where
  "find_closing_tag s = (let r = dropWhile (\<lambda>c. c \<noteq> CHR ''}'') s in if r = [] then Throw OtherException else Value r)"

lemma find_closing_tag_shorter: "find_closing_tag s = Value r \<Longrightarrow> length r \<le> length s \<and> r \<noteq> [] \<and> hd r = CHR ''}''"
  using hd_dropWhile [of "\<lambda>c. c \<noteq> CHR ''}''" s]
  by (auto simp: find_closing_tag_def Let_def length_dropWhile_le split: if_splits)

text \<open>The number of a parameter in a tag.\<close>

definition tag_of :: "string \<Rightarrow> nat option" where
  "tag_of s =
     (if prefix ''{int}'' s then Some 1
      else if prefix ''{uint}'' s then Some 2
      else if prefix ''{float}'' s \<or> prefix ''{double}'' s then Some 3
      else if prefix ''{str}'' s \<or> prefix ''{string}'' s then Some 4
      else if prefix ''{path}'' s then Some 5
      else None)"

function get_parameter_tag_runtime :: "string \<Rightarrow> nat outcome" where
  "get_parameter_tag_runtime [] = Value 0"
| "get_parameter_tag_runtime (c # s) =
     (if c = CHR ''{'' then
        (case tag_of (c # s) of
           None \<Rightarrow> Throw OtherException
         | Some t \<Rightarrow>
             (case find_closing_tag (c # s) of
                Value r \<Rightarrow> map_out (\<lambda>n. (n * 6 + t) mod 2 ^ 64) (get_parameter_tag_runtime r)
              | Throw e \<Rightarrow> Throw e
              | Undefined \<Rightarrow> Undefined))
      else get_parameter_tag_runtime s)"
  by pat_completeness auto
termination
proof (relation "measure (\<lambda>s. 2 * length s + (if s \<noteq> [] \<and> hd s = CHR ''{'' then 1 else 0))", goal_cases)
  case (2 c s t r)
  then show ?case using find_closing_tag_shorter [of "c # s" r] by auto
qed auto

text \<open>\<open>compute_parameter_tag_from_args_list\<close>: the tags of the types of the arguments, 0 for a type
  that is no parameter.\<close>

fun args_tag :: "nat list \<Rightarrow> nat" where
  "args_tag [] = 0"
| "args_tag (t # ts) = (if t \<noteq> 0 then args_tag ts * 6 + t else args_tag ts)"

fun is_parameter_tag_compatible :: "nat \<Rightarrow> nat \<Rightarrow> bool" where
  "is_parameter_tag_compatible a b =
     (if a = 0 then b = 0
      else if b = 0 then a = 0
      else (let sa = a mod 6; sb = a mod 6; sa = (if sa = 5 then 4 else sa); sb = (if sb = 5 then 4 else sb) in
        if sa \<noteq> sb then False else is_parameter_tag_compatible (a div 6) (b div 6)))"

declare is_parameter_tag_compatible.simps [simp del]

text \<open>\<open>DynamicRule::operator()(f)\<close> for a handler with the types \<open>ts\<close>.\<close>

definition set_handler :: "nat list \<Rightarrow> 'h \<Rightarrow> ('a, 'h) base_rule \<Rightarrow> ('a, 'h) base_rule outcome" where
  "set_handler ts h r =
     (case get_parameter_tag_runtime (rule_url r) of
        Value a \<Rightarrow>
          if is_parameter_tag_compatible a (args_tag ts) then Value (r\<lparr>rule_handler := Some h\<rparr>) else Throw OtherException
      | Throw e \<Rightarrow> Throw e
      | Undefined \<Rightarrow> Undefined)"

section \<open>The arguments of a handler\<close>

text \<open>The template \<open>call\<close>: each parameter is read from the container of its type, at the number of
  earlier parameters of that type.\<close>

fun get_param :: "ParamType \<Rightarrow> nat \<Rightarrow> 'd routing_params \<Rightarrow> 'd param_value outcome" where
  "get_param P_INT i ps = map_out PInt (pc_get i (int_params ps))"
| "get_param P_UINT i ps = map_out PUint (pc_get i (uint_params ps))"
| "get_param P_DOUBLE i ps = map_out PDouble (pc_get i (double_params ps))"
| "get_param P_STRING i ps = map_out PString (pc_get i (string_params ps))"
| "get_param P_PATH i ps = map_out PString (pc_get i (string_params ps))"

fun call_pairs :: "ParamType list \<Rightarrow> nat \<Rightarrow> nat \<Rightarrow> nat \<Rightarrow> nat \<Rightarrow> (ParamType \<times> nat) list" where
  "call_pairs [] i u d s = []"
| "call_pairs (P_INT # ts) i u d s = (P_INT, i) # call_pairs ts (i + 1) u d s"
| "call_pairs (P_UINT # ts) i u d s = (P_UINT, u) # call_pairs ts i (u + 1) d s"
| "call_pairs (P_DOUBLE # ts) i u d s = (P_DOUBLE, d) # call_pairs ts i u (d + 1) s"
| "call_pairs (P_STRING # ts) i u d s = (P_STRING, s) # call_pairs ts i u d (s + 1)"
| "call_pairs (P_PATH # ts) i u d s = (P_PATH, s) # call_pairs ts i u d (s + 1)"

fun get_params :: "(ParamType \<times> nat) list \<Rightarrow> 'd routing_params \<Rightarrow> 'd param_value list outcome" where
  "get_params [] ps = Value []"
| "get_params ((t, i) # ts) ps = bind_out (get_param t i ps) (\<lambda>v. map_out ((#) v) (get_params ts ps))"

definition call_args :: "ParamType list \<Rightarrow> 'd routing_params \<Rightarrow> 'd param_value list outcome" where
  "call_args ts ps = get_params (call_pairs ts 0 0 0 0) ps"

section \<open>The router\<close>

text \<open>The first two places of \<open>m_rules\<close> hold no rule; index 1 stands for the redirection of a URL
  without the trailing slash.\<close>

record ('a, 'h) router =
  m_rules :: "('a, 'h) base_rule option list"
  m_trie :: trie
  api_base :: string

definition RULE_SPECIAL_REDIRECT_SLASH :: nat where
  "RULE_SPECIAL_REDIRECT_SLASH = 1"

definition Router :: "string \<Rightarrow> ('a, 'h) router" where
  "Router base = \<lparr>m_rules = [None, None], m_trie = Trie, api_base = (if base = ''/'' then [] else base)\<rparr>"

text \<open>A call that may not return.\<close>

fun bind_call :: "'a outcome option \<Rightarrow> ('a \<Rightarrow> 'b outcome option) \<Rightarrow> 'b outcome option" where
  "bind_call None f = None"
| "bind_call (Some (Value a)) f = f a"
| "bind_call (Some (Throw e)) f = Some (Throw e)"
| "bind_call (Some Undefined) f = Some Undefined"

definition internal_add_rule_object :: "string \<Rightarrow> ('a, 'h) base_rule \<Rightarrow> ('a, 'h) router \<Rightarrow> ('a, 'h) router outcome option" where
  "internal_add_rule_object rule obj R =
     (let R = R\<lparr>m_rules := m_rules R @ [Some obj]\<rparr> in
      bind_call (add rule (length (m_rules R) - 1) (m_trie R)) (\<lambda>T.
        if length rule > 1 \<and> last rule = CHR ''/''
        then bind_call (add (butlast rule) RULE_SPECIAL_REDIRECT_SLASH T) (\<lambda>T. Some (Value (R\<lparr>m_trie := T\<rparr>)))
        else Some (Value (R\<lparr>m_trie := T\<rparr>))))"

fun add_rules :: "('a, 'h) base_rule list \<Rightarrow> ('a, 'h) router \<Rightarrow> ('a, 'h) router outcome option" where
  "add_rules [] R = Some (Value R)"
| "add_rules (r # rs) R = bind_call (internal_add_rule_object (rule_url r) r R) (add_rules rs)"

text \<open>\<open>validate\<close>: the trie is merged, and every rule must have a handler.\<close>

definition router_validate :: "nat \<Rightarrow> ('a, 'h) router \<Rightarrow> ('a, 'h) router outcome option" where
  "router_validate fuel R =
     bind_call (validate_trie fuel (m_trie R)) (\<lambda>T.
       Some (if list_all (\<lambda>r. case r of Some r \<Rightarrow> rule_handler r \<noteq> None | None \<Rightarrow> True) (m_rules R)
             then Value (R\<lparr>m_trie := T\<rparr>) else Throw OtherException))"

text \<open>\<open>before\<close>: the part of the URL behind the base, or the route of the file server.\<close>

definition FS_URL :: string where
  "FS_URL = ''/1511d5908a7811e790ed6f6e6c696e65''"

definition tolower :: "char \<Rightarrow> char" where
  "tolower c = (if between CHR ''A'' c CHR ''Z'' then char_of (ucode c + 32) else c)"

definition strncasecmp_eq :: "string \<Rightarrow> string \<Rightarrow> bool" where
  "strncasecmp_eq url base \<longleftrightarrow> map tolower (take (length base) url) = map tolower base"

definition route_path :: "string \<Rightarrow> string \<Rightarrow> string" where
  "route_path base url = (if base = [] \<or> strncasecmp_eq url base then drop (length base) url else FS_URL)"

record ('a, 'd) request_params =
  p_index :: nat
  p_decoded :: "'d routing_params"
  p_attrs :: 'a
  p_methods :: "32 word"

datatype 'r routed = Routed 'r | NotFound | Corrupted

definition before :: "(string \<Rightarrow> 'd \<times> nat \<times> bool) \<Rightarrow> string \<Rightarrow> ('a, 'h) router \<Rightarrow> ('a, 'd) request_params routed outcome" where
  "before sd url R =
     bind_out (find_rule sd (m_trie R) (route_path (api_base R) url) 0 no_params) (\<lambda>((i, ps), _).
       if i = 0 then Value NotFound
       else if i \<ge> length (m_rules R) then Value Corrupted
       else (case m_rules R ! i of
               None \<Rightarrow> Undefined
             | Some r \<Rightarrow> Value (Routed \<lparr>p_index = i, p_decoded = ps, p_attrs = rule_attrs r, p_methods = rule_methods r\<rparr>)))"

text \<open>\<open>handle\<close>: what the handler returns, or the error the server answers with.  The handler is run
  by a parameter; an exception that is not an \<open>Exception\<close> becomes an internal error.\<close>

datatype 'r call_result = Returned 'r | Raised string | RaisedOther

datatype 'r handled = Handled 'r | Redirect string | NotFoundError | HandlerError string | InternalError

definition handle :: "('h \<Rightarrow> 'd routing_params \<Rightarrow> 'r call_result) \<Rightarrow> string \<Rightarrow> string \<Rightarrow> nat \<Rightarrow> ('a, 'd) request_params \<Rightarrow>
    ('a, 'h) router \<Rightarrow> 'r handled outcome" where
  "handle run host url m ps R =
     (if p_index ps = RULE_SPECIAL_REDIRECT_SLASH then
        Value (Redirect (if host = [] then url @ ''/'' else ''http://'' @ host @ url @ ''/''))
      else if p_index ps \<ge> length (m_rules R) \<or> m \<ge> 32 then Undefined
      else (case m_rules R ! p_index ps of
              None \<Rightarrow> Undefined
            | Some r \<Rightarrow>
                if rule_methods r AND method_bit m = 0 then Value NotFoundError
                else (case rule_handler r of
                        None \<Rightarrow> Value InternalError
                      | Some h \<Rightarrow> (case run h (p_decoded ps) of
                            Returned x \<Rightarrow> Value (Handled x)
                          | Raised e \<Rightarrow> Value (HandlerError e)
                          | RaisedOther \<Rightarrow> Value InternalError))))"

end
