(* ===== verification/RouterSpec.thy ===== *)
theory RouterSpec
  imports Router
begin

text \<open>
  What the router promises: the rules that are registered, the lookup of a URL, the arguments of a
  handler, and the check of the types of a handler.
\<close>

section \<open>The check of the types\<close>

text \<open>The number of parameters of a tag.\<close>

fun tag_size :: "nat \<Rightarrow> nat" where
  "tag_size a = (if a = 0 then 0 else Suc (tag_size (a div 6)))"

declare tag_size.simps [simp del]

lemma tag_compatible_size: "is_parameter_tag_compatible a b \<longleftrightarrow> tag_size a = tag_size b"
proof (induction a b rule: is_parameter_tag_compatible.induct)
  case (1 a b)
  have 0: "tag_size n = 0 \<longleftrightarrow> n = 0" for n by (subst tag_size.simps) simp
  show ?case
  proof (cases "a = 0 \<or> b = 0")
    case True
    then show ?thesis using 0 [of a] 0 [of b] by (subst is_parameter_tag_compatible.simps) (auto simp: tag_size.simps [of 0])
  next
    case False
    then have "is_parameter_tag_compatible a b \<longleftrightarrow> is_parameter_tag_compatible (a div 6) (b div 6)"
      by (subst is_parameter_tag_compatible.simps) (simp add: Let_def)
    also have "\<dots> \<longleftrightarrow> tag_size (a div 6) = tag_size (b div 6)" using 1 False by (simp add: Let_def)
    also have "\<dots> \<longleftrightarrow> tag_size a = tag_size b" using False by (simp add: tag_size.simps [of a] tag_size.simps [of b])
    finally show ?thesis .
  qed
qed

lemma tag_size_args: "\<forall>t \<in> set ts. 0 < t \<and> t < 6 \<Longrightarrow> tag_size (args_tag ts) = length ts"
  by (induction ts) (simp_all add: tag_size.simps [of 0] tag_size.simps [of "args_tag _ * 6 + _"])

section \<open>The arguments of a handler\<close>

fun has_type :: "ParamType \<Rightarrow> 'd param_value \<Rightarrow> bool" where
  "has_type P_INT (PInt v) = True"
| "has_type P_UINT (PUint v) = True"
| "has_type P_DOUBLE (PDouble v) = True"
| "has_type P_STRING (PString v) = True"
| "has_type P_PATH (PString v) = True"
| "has_type _ _ = False"

text \<open>The values of each kind in a list of values.\<close>

fun ints :: "'d param_value list \<Rightarrow> int list" where
  "ints [] = []" | "ints (PInt v # vs) = v # ints vs" | "ints (_ # vs) = ints vs"
fun uints :: "'d param_value list \<Rightarrow> nat list" where
  "uints [] = []" | "uints (PUint v # vs) = v # uints vs" | "uints (_ # vs) = uints vs"
fun doubles :: "'d param_value list \<Rightarrow> 'd list" where
  "doubles [] = []" | "doubles (PDouble v # vs) = v # doubles vs" | "doubles (_ # vs) = doubles vs"
fun strs :: "'d param_value list \<Rightarrow> string list" where
  "strs [] = []" | "strs (PString v # vs) = v # strs vs" | "strs (_ # vs) = strs vs"

lemma fold_add_val: "fold add_val vs (is, us, ds, ss) = (is @ ints vs, us @ uints vs, ds @ doubles vs, ss @ strs vs)"
proof (induction vs arbitrary: "is" us ds ss)
  case (Cons v vs)
  then show ?case by (cases v) simp_all
qed simp

lemma pc_get_item: "pc_ok m pc \<Longrightarrow> items pc = xs @ y # ys \<Longrightarrow> pc_get (length xs) pc = Value y"
  by (auto simp: pc_ok_def pc_get_def)

lemma get_params_vals:
  assumes ok: "ps_ok m ps"
  shows "list_all2 has_type ts vs \<Longrightarrow> pvals ps = (is @ ints vs, us @ uints vs, ds @ doubles vs, ss @ strs vs) \<Longrightarrow>
    get_params (call_pairs ts (length is) (length us) (length ds) (length ss)) ps = Value vs"
proof (induction ts vs arbitrary: "is" us ds ss rule: list_all2_induct)
  case (Cons t ts v vs)
  note p = ok [unfolded ps_ok_def]
  show ?case
  proof (cases v)
    case (PInt x)
    then have t: "t = P_INT" using Cons.hyps(1) by (cases t) simp_all
    have "items (int_params ps) = is @ x # ints vs" using Cons.prems by (simp add: PInt pvals_def)
    then have "pc_get (length is) (int_params ps) = Value x" using p by (blast intro: pc_get_item [of m])
    moreover have "get_params (call_pairs ts (length (is @ [x])) (length us) (length ds) (length ss)) ps = Value vs"
      by (rule Cons.IH) (use Cons.prems in \<open>simp add: PInt\<close>)
    ultimately show ?thesis by (simp add: t PInt)
  next
    case (PUint x)
    then have t: "t = P_UINT" using Cons.hyps(1) by (cases t) simp_all
    have "items (uint_params ps) = us @ x # uints vs" using Cons.prems by (simp add: PUint pvals_def)
    then have "pc_get (length us) (uint_params ps) = Value x" using p by (blast intro: pc_get_item [of m])
    moreover have "get_params (call_pairs ts (length is) (length (us @ [x])) (length ds) (length ss)) ps = Value vs"
      by (rule Cons.IH) (use Cons.prems in \<open>simp add: PUint\<close>)
    ultimately show ?thesis by (simp add: t PUint)
  next
    case (PDouble x)
    then have t: "t = P_DOUBLE" using Cons.hyps(1) by (cases t) simp_all
    have "items (double_params ps) = ds @ x # doubles vs" using Cons.prems by (simp add: PDouble pvals_def)
    then have "pc_get (length ds) (double_params ps) = Value x" using p by (blast intro: pc_get_item [of m])
    moreover have "get_params (call_pairs ts (length is) (length us) (length (ds @ [x])) (length ss)) ps = Value vs"
      by (rule Cons.IH) (use Cons.prems in \<open>simp add: PDouble\<close>)
    ultimately show ?thesis by (simp add: t PDouble)
  next
    case (PString x)
    then have t: "t = P_STRING \<or> t = P_PATH" using Cons.hyps(1) by (cases t) simp_all
    have "items (string_params ps) = ss @ x # strs vs" using Cons.prems by (simp add: PString pvals_def)
    then have "pc_get (length ss) (string_params ps) = Value x" using p by (blast intro: pc_get_item [of m])
    moreover have "get_params (call_pairs ts (length is) (length us) (length ds) (length (ss @ [x]))) ps = Value vs"
      by (rule Cons.IH) (use Cons.prems in \<open>simp add: PString\<close>)
    ultimately show ?thesis using t by (auto simp: PString)
  qed
qed simp

lemma call_args_vals:
  assumes "ps_ok m ps" and "pvals ps = fold add_val vs no_vals" and "list_all2 has_type ts vs"
  shows "call_args ts ps = Value vs"
  using get_params_vals [OF assms(1,3), of "[]" "[]" "[]" "[]"] assms(2)
  by (simp add: call_args_def no_vals_def fold_add_val)

text \<open>The values a URL gives to a rule have the types of its parameters.\<close>

fun par_types :: "token list \<Rightarrow> ParamType list" where
  "par_types [] = []" | "par_types (Par t # ts) = t # par_types ts" | "par_types (Lit c # ts) = par_types ts"

lemma take_param_type: "take_param sd t s = Some (v, n) \<Longrightarrow> has_type t v"
  by (cases "(sd, t, s)" rule: take_param.cases) (auto simp: converted_def Let_def split: if_splits prod.splits)

lemma route_match_types: "route_match sd ts s = Some vs \<Longrightarrow> list_all2 has_type (par_types ts) vs"
proof (induction ts arbitrary: s vs)
  case Nil
  then show ?case by (simp split: if_splits)
next
  case (Cons t ts)
  then show ?case by (cases t) (auto simp: take_param_type split: if_splits option.splits list.splits)
qed

section \<open>Registering rules\<close>

definition tokens_of :: "string \<Rightarrow> token list" where
  "tokens_of u = the (parse_rule u)"

text \<open>The texts that are added for a list of rules from number \<open>n\<close> on, with the numbers they are added
  under.\<close>

fun rule_texts :: "nat \<Rightarrow> string list \<Rightarrow> (string \<times> nat) list" where
  "rule_texts n [] = []"
| "rule_texts n (u # us) =
     (u, n) # (if length u > 1 \<and> last u = CHR ''/'' then [(butlast u, RULE_SPECIAL_REDIRECT_SLASH)] else []) @ rule_texts (Suc n) us"

definition route_table :: "(string \<times> nat) list \<Rightarrow> (token list \<times> nat) list" where
  "route_table txs = map (\<lambda>(u, n). (tokens_of u, n)) txs"

lemma route_table_Cons: "route_table ((u, n) # txs) = (tokens_of u, n) # route_table txs"
  by (simp add: route_table_def)

definition texts_ok :: "(string \<times> nat) list \<Rightarrow> bool" where
  "texts_ok txs \<longleftrightarrow> (\<forall>(u, n) \<in> set txs. parse_rule u \<noteq> None \<and> npar (tokens_of u) \<le> 128 \<and> n \<noteq> 0) \<and>
     distinct (map fst (route_table txs))"

fun add_texts :: "(string \<times> nat) list \<Rightarrow> trie \<Rightarrow> trie outcome option" where
  "add_texts [] T = Some (Value T)"
| "add_texts ((u, n) # txs) T = bind_call (add u n T) (add_texts txs)"

lemma bind_call_assoc: "bind_call (bind_call m f) g = bind_call m (\<lambda>x. bind_call (f x) g)"
proof (cases m)
  case (Some x)
  then show ?thesis by (cases x) simp_all
qed simp

lemma bind_call_Value [simp]: "bind_call m (\<lambda>x. Some (Value x)) = m"
proof (cases m)
  case (Some x)
  then show ?thesis by (cases x) simp_all
qed simp

lemma bind_call_add_nothing [simp]: "bind_call m (add_texts []) = m"
proof (cases m)
  case (Some x)
  then show ?thesis by (cases x) simp_all
qed simp

lemma add_texts_append: "add_texts (xs @ ys) T = bind_call (add_texts xs T) (add_texts ys)"
proof (induction xs arbitrary: T)
  case (Cons un xs)
  obtain u n where un: "un = (u, n)" by (cases un)
  have "add_texts (xs @ ys) = (\<lambda>T. bind_call (add_texts xs T) (add_texts ys))" using Cons.IH by (rule ext)
  then show ?case by (simp add: un bind_call_assoc)
qed simp

lemma add_rules_texts:
  "add_rules rs R = bind_call (add_texts (rule_texts (length (m_rules R)) (map rule_url rs)) (m_trie R))
     (\<lambda>T. Some (Value (R\<lparr>m_rules := m_rules R @ map Some rs, m_trie := T\<rparr>)))"
proof (induction rs arbitrary: R)
  case (Cons r rs)
  have "internal_add_rule_object (rule_url r) r R =
    bind_call (add_texts ((rule_url r, length (m_rules R)) # (if length (rule_url r) > 1 \<and> last (rule_url r) = CHR ''/''
      then [(butlast (rule_url r), RULE_SPECIAL_REDIRECT_SLASH)] else [])) (m_trie R))
      (\<lambda>T. Some (Value (R\<lparr>m_rules := m_rules R @ [Some r], m_trie := T\<rparr>)))"
  proof (cases "length (rule_url r) > 1 \<and> last (rule_url r) = CHR ''/''")
    case True
    then show ?thesis by (simp add: internal_add_rule_object_def Let_def bind_call_assoc)
  next
    case False
    show ?thesis unfolding internal_add_rule_object_def Let_def if_not_P [OF False] by simp
  qed
  then show ?case by (simp add: Cons.IH bind_call_assoc add_texts_append)
qed simp

lemma add_texts_ok:
  "texts_ok txs \<Longrightarrow> built T \<Longrightarrow> \<forall>(u, n) \<in> set txs. rule_of T (tokens_of u) = 0 \<Longrightarrow>
   \<exists>T'. add_texts txs T = Some (Value T') \<and> built T' \<and>
     rule_of T' = (\<lambda>ts. case map_of (route_table txs) ts of Some n \<Rightarrow> n | None \<Rightarrow> rule_of T ts) \<and>
     reach T' = reach T \<union> {q. \<exists>(u, n) \<in> set txs. prefix q (tokens_of u)}"
proof (induction txs arbitrary: T)
  case (Cons un txs)
  obtain u n where un: "un = (u, n)" by (cases un)
  have p: "parse_rule u = Some (tokens_of u)" "npar (tokens_of u) \<le> 128" "n \<noteq> 0"
    using Cons.prems(1) by (auto simp: un texts_ok_def tokens_of_def)
  have 0: "rule_of T (tokens_of u) = 0" using Cons.prems(3) by (simp add: un)
  have "\<exists>T1. add u n T = Some (Value T1) \<and> built T1 \<and> rule_of T1 = (rule_of T)(tokens_of u := n) \<and>
      reach T1 = reach T \<union> {q. prefix q (tokens_of u)}"
    using add_result [OF p(1) Cons.prems(2) p(2), of n] unfolding if_not_P [OF iffD2 [OF not_not 0]] .
  then obtain T1 where T1: "add u n T = Some (Value T1)" "built T1" "rule_of T1 = (rule_of T)(tokens_of u := n)"
    "reach T1 = reach T \<union> {q. prefix q (tokens_of u)}" by blast
  have ok: "texts_ok txs" using Cons.prems(1) by (simp add: texts_ok_def route_table_def)
  have new: "tokens_of u \<notin> fst ` set (route_table txs)"
    using Cons.prems(1) unfolding un texts_ok_def route_table_Cons by simp
  then have "\<forall>(v, m) \<in> set txs. rule_of T1 (tokens_of v) = 0"
    using Cons.prems(3) unfolding T1(3) by (force simp: route_table_def)
  from Cons.IH [OF ok T1(2) this] obtain T' where T': "add_texts txs T1 = Some (Value T')" "built T'"
    "rule_of T' = (\<lambda>ts. case map_of (route_table txs) ts of Some n \<Rightarrow> n | None \<Rightarrow> rule_of T1 ts)"
    "reach T' = reach T1 \<union> {q. \<exists>(u, n) \<in> set txs. prefix q (tokens_of u)}" by blast
  have "map_of (route_table txs) (tokens_of u) = None" using new by (simp add: map_of_eq_None_iff)
  then have "rule_of T' = (\<lambda>ts. case map_of (route_table (un # txs)) ts of Some n \<Rightarrow> n | None \<Rightarrow> rule_of T ts)"
    unfolding T'(3) T1(3) by (auto simp: un route_table_def fun_eq_iff split: option.split)
  moreover have "reach T' = reach T \<union> {q. \<exists>(u, n) \<in> set (un # txs). prefix q (tokens_of u)}"
    unfolding T'(4) T1(4) by (auto simp: un)
  ultimately show ?case using T1(1) T'(1,2) by (simp add: un)
qed (simp add: route_table_def)

section \<open>Finding a rule in the validated trie\<close>

lemma built_depths:
  assumes b: "built T"
  shows "\<exists>d. depths d T \<and> d 0 = 0"
proof -
  have "\<forall>n. \<exists>p. n < length T \<longrightarrow> walk T 0 p = Some n" using builtD(5) [OF b] by blast
  then obtain path where path: "\<forall>n. n < length T \<longrightarrow> walk T 0 (path n) = Some n" by metis
  let ?d = "\<lambda>n. npar (path n)"
  have edge: "path k = path n @ [t]" if "n < length T" "step T n t = Some k" for n t k
  proof -
    have w: "walk T 0 (path n @ [t]) = Some k" using path that by (simp add: walk_append)
    then show ?thesis using builtD(4) [OF b] path built_walk_range [OF b w] by blast
  qed
  have "depths ?d T"
    unfolding depths_def
  proof (intro allI impI conjI ballI)
    fix n assume n: "n < length T"
    note node = trie_ok_node [OF builtD(2) [OF b] n]
    show "?d n \<le> 128" using builtD(6) [OF b] path n by blast
    show "param_childrens (T ! n) ! type_index t < length T" if "param_childrens (T ! n) ! type_index t \<noteq> 0" for t
      using node_ok_param [OF node that] by blast
    show "?d n < ?d (param_childrens (T ! n) ! type_index t)" if "param_childrens (T ! n) ! type_index t \<noteq> 0" for t
      using edge [OF n, of "Par t"] that by simp
    fix fc assume fc: "fc \<in> set (children (T ! n))"
    obtain f c where f: "fc = (f, c)" by (cases fc)
    have "length f = 1" using builtD(3) [OF b] n fc by (force simp: f single_keys_def)
    then obtain x where x: "f = [x]" by (auto simp: length_Suc_conv)
    then have "step T n (Lit x) = Some c" using step_Lit_iff [OF builtD(2) [OF b] n] fc f by simp
    from edge [OF n this] have "?d n = ?d c" by simp
    then show "case fc of (f, c) \<Rightarrow> f \<noteq> [] \<and> c < length T \<and> ?d n \<le> ?d c"
      using node_ok_child [OF node] fc by (simp add: f)
  qed
  moreover have "path 0 = []" using builtD(4) [OF b, of "path 0" 0 "[]"] path builtD(1) [OF b] by simp
  ultimately show ?thesis by (intro exI [of _ ?d]) simp
qed

text \<open>The numbers of the rules a URL matches.\<close>

definition matching :: "(string \<Rightarrow> 'd \<times> nat \<times> bool) \<Rightarrow> (token list \<times> nat) list \<Rightarrow> string \<Rightarrow> nat set" where
  "matching sd tab s = {n. \<exists>ts. (ts, n) \<in> set tab \<and> route_match sd ts s \<noteq> None}"

definition lowest :: "nat set \<Rightarrow> nat" where
  "lowest N = (if N = {} then 0 else Min N)"

lemma built_hits:
  assumes "built T"
  shows "hits sd T s 0 = {(rule_of T ts, vs) |ts vs. rule_of T ts \<noteq> 0 \<and> route_match sd ts s = Some vs}"
proof -
  have "e \<in> hits sd T s 0 \<longleftrightarrow> (\<exists>ts vs. e = (rule_of T ts, vs) \<and> rule_of T ts \<noteq> 0 \<and> route_match sd ts s = Some vs)" for e
  proof -
    obtain r vs where e: "e = (r, vs)" by (cases e)
    have "(r, vs) \<in> set (ends sd T s 0) \<longleftrightarrow> (\<exists>ts k. walk T 0 ts = Some k \<and> rule_index (T ! k) = r \<and> route_match sd ts s = Some vs)"
      by (rule built_ends) (use builtD(1-3) [OF assms] in auto)
    then show ?thesis by (auto simp: e hits_def rule_of_def split: option.splits)
  qed
  then show ?thesis by blast
qed

text \<open>The result of \<open>find\<close>: the lowest rule, and the values of its parameters when no other path of the
  trie takes the whole URL.\<close>

lemma find_built:
  assumes b: "built T" and fuel: "(length T + 1) ^ 2 \<le> fuel"
  shows "\<exists>T'. optimize_node fuel 0 T = Some T' \<and>
    (\<forall>(sd :: string \<Rightarrow> 'd \<times> nat \<times> bool) s. \<exists>i ps rest. find_rule sd T' s 0 no_params = Value ((i, ps), rest) \<and> ps_ok 128 ps \<and>
       i = lowest {rule_of T ts |ts. rule_of T ts \<noteq> 0 \<and> route_match sd ts s \<noteq> None} \<and>
       (\<forall>ts vs. rule_of T ts \<noteq> 0 \<longrightarrow> route_match sd ts s = Some vs \<longrightarrow>
          (\<forall>us \<in> reach T. route_match sd us s \<noteq> None \<longrightarrow> us = ts) \<longrightarrow> i = rule_of T ts \<and> pvals ps = fold add_val vs no_vals))"
proof -
  obtain T' where opt: "optimize_node fuel 0 T = Some T'"
    using optimize_head [OF builtD(2,1) [OF b] fuel] by blast
  have T: "0 < length T" using builtD(1) [OF b] by simp
  obtain d where d: "depths d T" "d 0 = 0" using built_depths [OF b] by blast
  have "\<exists>i ps rest. find_rule sd T' s 0 no_params = Value ((i, ps), rest) \<and> ps_ok 128 ps \<and>
       i = lowest {rule_of T ts |ts. rule_of T ts \<noteq> 0 \<and> route_match sd ts s \<noteq> None} \<and>
       (\<forall>ts vs. rule_of T ts \<noteq> 0 \<longrightarrow> route_match sd ts s = Some vs \<longrightarrow>
          (\<forall>us \<in> reach T. route_match sd us s \<noteq> None \<longrightarrow> us = ts) \<longrightarrow> i = rule_of T ts \<and> pvals ps = fold add_val vs no_vals)"
    for sd :: "string \<Rightarrow> 'd \<times> nat \<times> bool" and s
  proof -
    have same: "same sd 0 T T'" using optimize_same [OF opt builtD(2) [OF b] T] .
    then have d': "depths d T'" and l': "0 < length T'" and hits: "hits sd T' s 0 = hits sd T s 0"
      and sub: "set (ends sd T' s 0) \<subseteq> set (ends sd T s 0)"
      using d(1) T unfolding same_def by auto
    obtain i ps rest where f: "find_rule sd T' s 0 no_params = Value ((i, ps), rest)"
      "found_ok (d 0) (ends sd T' s 0) no_params (i, ps) rest"
      using find_ends(1) [OF d' l', of no_params sd s] by (auto simp: d(2))
    have i: "i = best (map fst (ends sd T' s 0))" using f(2) by (simp add: found_ok_def)
    have fst_hits: "fst ` hits sd T s 0 = {rule_of T ts |ts. rule_of T ts \<noteq> 0 \<and> route_match sd ts s \<noteq> None}"
      unfolding built_hits [OF b] by force
    then have idx: "i = lowest {rule_of T ts |ts. rule_of T ts \<noteq> 0 \<and> route_match sd ts s \<noteq> None}"
      unfolding i best_hits hits lowest_def by (metis image_is_empty)
    have "i = rule_of T ts \<and> pvals ps = fold add_val vs no_vals"
      if ts: "rule_of T ts \<noteq> 0" "route_match sd ts s = Some vs" "\<forall>us \<in> reach T. route_match sd us s \<noteq> None \<longrightarrow> us = ts" for ts vs
    proof -
      have all: "e = (rule_of T ts, vs)" if e: "e \<in> set (ends sd T' s 0)" for e
      proof -
        obtain r ws where rw: "e = (r, ws)" by (cases e)
        have "(r, ws) \<in> set (ends sd T s 0)" using sub e rw by blast
        then obtain us k where us: "walk T 0 us = Some k" "rule_index (T ! k) = r" "route_match sd us s = Some ws"
          using built_ends [OF builtD(2,3) [OF b] T] by blast
        then have "us = ts" using ts(3) by (simp add: reach_def)
        with us ts(2) show ?thesis by (simp add: rw rule_of_def)
      qed
      have "(rule_of T ts, vs) \<in> hits sd T' s 0" unfolding hits built_hits [OF b] using ts(1,2) by blast
      then have "ends sd T' s 0 \<noteq> []" by (auto simp: hits_def)
      then obtain es where es: "ends sd T' s 0 = (rule_of T ts, vs) # es" using all by (cases "ends sd T' s 0") auto
      have "set (map fst (ends sd T' s 0)) = {rule_of T ts}" using all es by force
      then have "i = rule_of T ts" using best_in [of "map fst (ends sd T' s 0)"] best_zero [of "map fst (ends sd T' s 0)"] ts(1) i by auto
      with found_first [OF f(2) es ts(1)] show ?thesis by simp
    qed
    with f(1) idx show ?thesis using f(2) by (auto simp: found_ok_def)
  qed
  with opt show ?thesis by blast
qed

end
