(* ===== verification/RouterProps.thy ===== *)
theory RouterProps
  imports RouterSpec
begin

text \<open>
  The properties of the trie and the router.
\<close>

section \<open>The validated router\<close>

definition plain_texts :: "(string \<times> nat) list \<Rightarrow> bool" where
  "plain_texts txs \<longleftrightarrow> (\<forall>(u, n) \<in> set txs. u \<noteq> [] \<and> hd u \<noteq> CHR ''{'')"

lemma plain_first: "u \<noteq> [] \<Longrightarrow> hd u \<noteq> CHR ''{'' \<Longrightarrow> parse_rule u = Some ts \<Longrightarrow> \<exists>c us. ts = Lit c # us"
  by (cases u) auto

text \<open>A head without rule and parameters.\<close>

lemma reach_param:
  assumes "built T" and "param_childrens (T ! 0) ! type_index t \<noteq> 0"
  shows "[Par t] \<in> reach T"
  using assms(2) by (simp add: reach_def Let_def)

lemma head_simple:
  assumes b: "built T" and r: "rule_of T [] = 0" and p: "\<And>t. [Par t] \<notin> reach T"
  shows "issimple (T ! 0)"
proof -
  have "length (param_childrens (T ! 0)) = 5"
    using trie_ok_node [OF builtD(2) [OF b], of 0] builtD(1) [OF b] by (simp add: node_ok_def)
  moreover have "param_childrens (T ! 0) ! i = 0" if "i < 5" for i
  proof -
    have "i \<in> {0, 1, 2, 3, 4}" using that by auto
    then obtain t where "i = type_index t" using type_index.simps by (metis insertE singletonD)
    then show ?thesis using reach_param [OF b, of t] p by blast
  qed
  ultimately show ?thesis using r by (simp add: issimple_def rule_of_def list_all_length)
qed

lemma reach_Trie: "reach Trie = {[]}"
proof -
  have "ts = []" if "walk Trie 0 ts \<noteq> None" for ts
  proof -
    from that obtain k where k: "walk Trie 0 ts = Some k" by auto
    have "k = 0" using built_walk_range [OF built_Trie k] by (simp add: Trie_def)
    then show ?thesis using builtD(4) [OF built_Trie k, of "[]"] by simp
  qed
  then show ?thesis by (auto simp: reach_def)
qed

lemma rule_texts_index:
  "(u, n) \<in> set (rule_texts k us) \<Longrightarrow> n = 1 \<or> (k \<le> n \<and> n < k + length us \<and> us ! (n - k) = u)"
proof (induction us arbitrary: k)
  case (Cons v us)
  then consider "u = v" "n = k" | "n = 1" | "(u, n) \<in> set (rule_texts (Suc k) us)"
    by (auto simp: RULE_SPECIAL_REDIRECT_SLASH_def split: if_splits)
  then show ?case
  proof cases
    case 3
    from Cons.IH [OF this] show ?thesis by (auto simp: nth_Cons' Suc_diff_le)
  qed simp_all
qed simp

text \<open>What registering and validating the rules gives.\<close>

definition routes :: "('a, 'h) base_rule list \<Rightarrow> (string \<times> nat) list" where
  "routes rs = rule_texts 2 (map rule_url rs)"

definition rules_ok :: "('a, 'h) base_rule list \<Rightarrow> bool" where
  "rules_ok rs \<longleftrightarrow> texts_ok (routes rs) \<and> plain_texts (routes rs) \<and> (\<forall>r \<in> set rs. rule_handler r \<noteq> None)"

definition paths_of :: "('a, 'h) base_rule list \<Rightarrow> token list set" where
  "paths_of rs = {[]} \<union> {q. \<exists>(u, n) \<in> set (routes rs). prefix q (tokens_of u)}"

lemma map_of_route_table:
  assumes "texts_ok txs"
  shows "(case map_of (route_table txs) ts of Some n \<Rightarrow> n | None \<Rightarrow> 0) = n \<and> n \<noteq> 0 \<longleftrightarrow> (ts, n) \<in> set (route_table txs)"
proof -
  have d: "distinct (map fst (route_table txs))" using assms by (simp add: texts_ok_def)
  have "n \<noteq> 0" if "(ts, n) \<in> set (route_table txs)" for n
    using that assms by (auto simp: texts_ok_def route_table_def)
  moreover have "map_of (route_table txs) ts = Some n \<longleftrightarrow> (ts, n) \<in> set (route_table txs)" for n using d by simp
  ultimately show ?thesis by (cases "map_of (route_table txs) ts") (simp, force)+
qed

text \<open>What \<open>find\<close> returns for a URL: the lowest rule that matches, and the values of its parameters
  when no other path of the rules takes the whole URL.\<close>

definition finds_routes :: "(string \<Rightarrow> 'd \<times> nat \<times> bool) \<Rightarrow> trie \<Rightarrow> ('a, 'h) base_rule list \<Rightarrow> string \<Rightarrow> bool" where
  "finds_routes sd T rs s \<longleftrightarrow>
     (\<exists>i ps rest. find_rule sd T s 0 no_params = Value ((i, ps), rest) \<and>
          ps_ok 128 ps \<and> i = lowest (matching sd (route_table (routes rs)) s) \<and>
          (\<forall>ts n vs. (ts, n) \<in> set (route_table (routes rs)) \<longrightarrow> route_match sd ts s = Some vs \<longrightarrow>
             (\<forall>us \<in> paths_of rs. route_match sd us s \<noteq> None \<longrightarrow> us = ts) \<longrightarrow> i = n \<and> pvals ps = fold add_val vs no_vals))"

lemma router_validated:
  fixes rs :: "('a, 'h) base_rule list"
  assumes ok: "rules_ok rs"
  shows "\<exists>R. add_rules rs (Router base) = Some (Value R) \<and>
    (\<forall>fuel \<ge> (length (m_trie R) + 1) ^ 2. \<exists>R'. router_validate fuel R = Some (Value R') \<and>
       m_rules R' = [None, None] @ map Some rs \<and> api_base R' = (if base = ''/'' then [] else base) \<and>
       (\<forall>(sd :: string \<Rightarrow> 'd \<times> nat \<times> bool) s. finds_routes sd (m_trie R') rs s))"
proof -
  have txs: "texts_ok (routes rs)" "plain_texts (routes rs)" using ok by (simp_all add: rules_ok_def)
  have R: "m_rules (Router base) = [None, None]" "m_trie (Router base) = Trie" by (simp_all add: Router_def)
  obtain T where T: "add_texts (routes rs) Trie = Some (Value T)" "built T"
    "rule_of T = (\<lambda>ts. case map_of (route_table (routes rs)) ts of Some n \<Rightarrow> n | None \<Rightarrow> 0)"
    "reach T = paths_of rs"
    using add_texts_ok [OF txs(1) built_Trie] unfolding rule_of_Trie reach_Trie paths_of_def by (auto cong: option.case_cong)
  let ?R = "(Router base)\<lparr>m_rules := [None, None] @ map Some rs, m_trie := T\<rparr>"
  have add: "add_rules rs (Router base) = Some (Value ?R)"
    using T(1) by (simp add: add_rules_texts R routes_def numeral_2_eq_2)
  have lits: "\<exists>c us. tokens_of u = Lit c # us" if "(u, n) \<in> set (routes rs)" for u n
  proof -
    have "u \<noteq> []" "hd u \<noteq> CHR ''{''" "parse_rule u = Some (tokens_of u)"
      using that txs by (auto simp: plain_texts_def texts_ok_def tokens_of_def)
    then show ?thesis using plain_first by blast
  qed
  have "[Par t] \<notin> reach T" for t unfolding T(4) paths_of_def using lits by fastforce
  moreover have "rule_of T [] = 0"
  proof -
    have "[] \<notin> fst ` set (route_table (routes rs))" using lits by (fastforce simp: route_table_def)
    then have "map_of (route_table (routes rs)) [] = None" by (simp add: map_of_eq_None_iff)
    then show ?thesis by (simp add: T(3))
  qed
  ultimately have simple: "issimple (T ! 0)" using head_simple [OF T(2)] by blast
  have "\<exists>R'. router_validate fuel ?R = Some (Value R') \<and>
       m_rules R' = [None, None] @ map Some rs \<and> api_base R' = (if base = ''/'' then [] else base) \<and>
       (\<forall>(sd :: string \<Rightarrow> 'd \<times> nat \<times> bool) s. finds_routes sd (m_trie R') rs s)"
    if fuel: "(length T + 1) ^ 2 \<le> fuel" for fuel
  proof -
    obtain T' where T': "optimize_node fuel 0 T = Some T'"
      "\<forall>(sd :: string \<Rightarrow> 'd \<times> nat \<times> bool) s. \<exists>i ps rest. find_rule sd T' s 0 no_params = Value ((i, ps), rest) \<and> ps_ok 128 ps \<and>
       i = lowest {rule_of T ts |ts. rule_of T ts \<noteq> 0 \<and> route_match sd ts s \<noteq> None} \<and>
       (\<forall>ts vs. rule_of T ts \<noteq> 0 \<longrightarrow> route_match sd ts s = Some vs \<longrightarrow>
          (\<forall>us \<in> reach T. route_match sd us s \<noteq> None \<longrightarrow> us = ts) \<longrightarrow> i = rule_of T ts \<and> pvals ps = fold add_val vs no_vals)"
      using find_built [OF T(2) fuel] by blast
    have "\<forall>r \<in> set rs. rule_handler r \<noteq> None" using ok by (simp add: rules_ok_def)
    then have "list_all (\<lambda>r. case r of Some r \<Rightarrow> rule_handler r \<noteq> None | None \<Rightarrow> True) ([None, None] @ map Some rs)"
      by (simp add: list_all_iff)
    then have v: "router_validate fuel ?R = Some (Value (?R\<lparr>m_trie := T'\<rparr>))"
      using T'(1) simple by (simp add: router_validate_def validate_trie_def)
    have tab: "rule_of T ts = n \<and> n \<noteq> 0 \<longleftrightarrow> (ts, n) \<in> set (route_table (routes rs))" for ts n
      unfolding T(3) by (rule map_of_route_table [OF txs(1)])
    have low: "{rule_of T ts |ts. rule_of T ts \<noteq> 0 \<and> route_match sd ts s \<noteq> None} = matching sd (route_table (routes rs)) s"
      for sd :: "string \<Rightarrow> 'd \<times> nat \<times> bool" and s
      unfolding matching_def tab [symmetric] by (intro Collect_cong ex_cong1) metis
    show ?thesis
    proof (intro exI [of _ "?R\<lparr>m_trie := T'\<rparr>"] conjI allI)
      show "router_validate fuel ?R = Some (Value (?R\<lparr>m_trie := T'\<rparr>))" by (rule v)
      fix sd :: "string \<Rightarrow> 'd \<times> nat \<times> bool" and s
      from T'(2) [rule_format, of sd s] obtain i ps rest where f: "find_rule sd T' s 0 no_params = Value ((i, ps), rest)" "ps_ok 128 ps"
        "i = lowest (matching sd (route_table (routes rs)) s)"
        "\<forall>ts vs. rule_of T ts \<noteq> 0 \<longrightarrow> route_match sd ts s = Some vs \<longrightarrow>
          (\<forall>us \<in> paths_of rs. route_match sd us s \<noteq> None \<longrightarrow> us = ts) \<longrightarrow> i = rule_of T ts \<and> pvals ps = fold add_val vs no_vals"
        unfolding low T(4) by blast
      have "i = n \<and> pvals ps = fold add_val vs no_vals"
        if "(ts, n) \<in> set (route_table (routes rs))" "route_match sd ts s = Some vs"
          "\<forall>us \<in> paths_of rs. route_match sd us s \<noteq> None \<longrightarrow> us = ts" for ts n vs
        using f(4) tab [of ts n] that by blast
      with f(1-3) have "finds_routes sd T' rs s" unfolding finds_routes_def by blast
      then show "finds_routes sd (m_trie (?R\<lparr>m_trie := T'\<rparr>)) rs s" by simp
    qed (simp_all add: Router_def)
  qed
  with add show ?thesis by (intro exI [of _ ?R]) simp
qed

section \<open>Properties of the router\<close>

lemma lowest_in: "lowest N \<noteq> 0 \<Longrightarrow> finite N \<Longrightarrow> lowest N \<in> N"
  by (auto simp: lowest_def split: if_splits intro: Min_in)

lemma matching_Nil: "matching sd [] s = {}"
  by (simp add: matching_def)

lemma matching_Cons: "matching sd ((ts, n) # tab) s = (if route_match sd ts s = None then {} else {n}) \<union> matching sd tab s"
  by (auto simp: matching_def)

lemma finite_matching: "finite (matching sd tab s)"
  by (rule finite_subset [of _ "snd ` set tab"]) (force simp: matching_def)+

lemma before_found:
  fixes R :: "('a, 'h) router"
  assumes R: "m_rules R = [None, None] @ map Some rs" and s: "s = route_path (api_base R) url"
    and f: "find_rule sd (m_trie R) s 0 no_params = Value ((i, ps), rest)"
    and i: "i = lowest (matching sd (route_table (routes rs)) s)"
  shows "before sd url R =
    (if i = 0 then Value NotFound else if i = 1 then Undefined
     else Value (Routed \<lparr>p_index = i, p_decoded = ps, p_attrs = rule_attrs (rs ! (i - 2)), p_methods = rule_methods (rs ! (i - 2))\<rparr>))"
proof -
  have "i < length rs + 2" if "i > 1"
  proof -
    have "i \<in> matching sd (route_table (routes rs)) s" unfolding i by (rule lowest_in [OF _ finite_matching]) (use that i in simp)
    then obtain u where "(u, i) \<in> set (routes rs)" by (auto simp: matching_def route_table_def)
    with rule_texts_index [of u i 2 "map rule_url rs"] that show ?thesis by (auto simp: routes_def)
  qed
  moreover have "([None, None] @ map Some rs) ! i = Some (rs ! (i - 2))" if "i > 1" "i < length rs + 2"
    using that by (simp add: nth_Cons' numeral_2_eq_2 split: if_splits)
  moreover have "([None, None] @ map Some rs) ! 1 = None" by simp
  ultimately show ?thesis using f unfolding before_def R s [symmetric]
    by (cases "i = 0"; cases "i = 1") (simp_all del: append.simps add: not_le)
qed

text \<open>C2: The router answers a request as a list of rules would: after any rules with different
  patterns were added and validated, a URL is sent to the rule with the lowest number among those whose
  pattern it matches, with the attributes and methods of that rule, and is not found when it matches
  none.  When the lowest is the number 1 of a pattern with its trailing slash removed, the code
  reads through a null pointer.\<close>

theorem router_dispatch:
  fixes rs :: "('a, 'h) base_rule list" and sd :: "string \<Rightarrow> 'd \<times> nat \<times> bool"
  assumes "rules_ok rs"
  shows "\<exists>R. add_rules rs (Router base) = Some (Value R) \<and>
    (\<forall>fuel \<ge> (length (m_trie R) + 1) ^ 2. \<exists>R'. router_validate fuel R = Some (Value R') \<and>
      (\<forall>url. \<exists>ps.
        (let i = lowest (matching sd (route_table (routes rs)) (route_path (if base = ''/'' then [] else base) url)) in
         before sd url R' =
           (if i = 0 then Value NotFound else if i = 1 then Undefined
            else Value (Routed \<lparr>p_index = i, p_decoded = ps, p_attrs = rule_attrs (rs ! (i - 2)), p_methods = rule_methods (rs ! (i - 2))\<rparr>)))))"
proof -
  obtain R where R: "add_rules rs (Router base) = Some (Value R)"
    "\<forall>fuel \<ge> (length (m_trie R) + 1) ^ 2. \<exists>R'. router_validate fuel R = Some (Value R') \<and>
       m_rules R' = [None, None] @ map Some rs \<and> api_base R' = (if base = ''/'' then [] else base) \<and>
       (\<forall>(sd :: string \<Rightarrow> 'd \<times> nat \<times> bool) s. finds_routes sd (m_trie R') rs s)"
    using router_validated [OF assms] by blast
  have "\<exists>R'. router_validate fuel R = Some (Value R') \<and>
      (\<forall>url. \<exists>ps.
        (let i = lowest (matching sd (route_table (routes rs)) (route_path (if base = ''/'' then [] else base) url)) in
         before sd url R' =
           (if i = 0 then Value NotFound else if i = 1 then Undefined
            else Value (Routed \<lparr>p_index = i, p_decoded = ps, p_attrs = rule_attrs (rs ! (i - 2)), p_methods = rule_methods (rs ! (i - 2))\<rparr>))))"
    if "(length (m_trie R) + 1) ^ 2 \<le> fuel" for fuel
  proof -
    obtain R' where R': "router_validate fuel R = Some (Value R')" "m_rules R' = [None, None] @ map Some rs"
      "api_base R' = (if base = ''/'' then [] else base)" "\<And>s. finds_routes sd (m_trie R') rs s"
      using R(2) \<open>_ \<le> fuel\<close> by blast
    have "\<exists>ps. before sd url R' =
           (if i = 0 then Value NotFound else if i = 1 then Undefined
            else Value (Routed \<lparr>p_index = i, p_decoded = ps, p_attrs = rule_attrs (rs ! (i - 2)), p_methods = rule_methods (rs ! (i - 2))\<rparr>))"
      if i: "i = lowest (matching sd (route_table (routes rs)) (route_path (if base = ''/'' then [] else base) url))" for url i
    proof -
      from R'(4) [of "route_path (api_base R') url"] obtain j ps rest
        where f: "find_rule sd (m_trie R') (route_path (api_base R') url) 0 no_params = Value ((j, ps), rest)"
          "j = lowest (matching sd (route_table (routes rs)) (route_path (api_base R') url))"
        unfolding finds_routes_def by blast
      have "j = i" using f(2) i R'(3) by simp
      with before_found [OF R'(2) refl f] show ?thesis by blast
    qed
    with R'(1) show ?thesis unfolding Let_def by blast
  qed
  with R(1) show ?thesis by blast
qed

definition no_strtod :: "string \<Rightarrow> unit \<times> nat \<times> bool" where
  "no_strtod s = ((), 0, False)"

definition rule_with :: "string \<Rightarrow> (unit, unit) base_rule" where
  "rule_with u = (BaseRule () u)\<lparr>rule_handler := Some ()\<rparr>"

lemmas take_param_eval = matching_Nil converted_def strtoll_def digits_value_def IS_NUM_def between_def ucode_def Let_def

lemmas route_eval = rules_ok_def texts_ok_def plain_texts_def routes_def rule_with_def BaseRule_def route_table_def
  tokens_of_def param_at_def paramTraits_def RULE_SPECIAL_REDIRECT_SLASH_def

lemma example_rules: "rules_ok [rule_with ''/a/{int}'', rule_with ''/{str}/1'', rule_with ''/b/'']"
  by (simp add: route_eval)

lemma router_dispatch_witness:
  "\<exists>R R' ps. add_rules [rule_with ''/a/{int}'', rule_with ''/{str}/1'', rule_with ''/b/''] (Router ''/api'') = Some (Value R) \<and>
    router_validate ((length (m_trie R) + 1) ^ 2) R = Some (Value R') \<and>
    before no_strtod ''/API/a/1'' R' = Value (Routed \<lparr>p_index = 2, p_decoded = ps, p_attrs = (), p_methods = 2\<rparr>) \<and>
    before no_strtod ''/api/c/2'' R' = Value NotFound \<and> before no_strtod ''/api/b'' R' = Undefined"
proof -
  let ?rs = "[rule_with ''/a/{int}'', rule_with ''/{str}/1'', rule_with ''/b/'']"
  have tab: "route_table (routes ?rs) =
     [([Lit (CHR ''/''), Lit (CHR ''a''), Lit (CHR ''/''), Par P_INT], 2), ([Lit (CHR ''/''), Par P_STRING, Lit (CHR ''/''), Lit (CHR ''1'')], 3),
      ([Lit (CHR ''/''), Lit (CHR ''b''), Lit (CHR ''/'')], 4), ([Lit (CHR ''/''), Lit (CHR ''b'')], 1)]"
    by (simp add: route_eval)
  have m: "matching no_strtod (route_table (routes ?rs)) ''/a/1'' = {2, 3}"
    "matching no_strtod (route_table (routes ?rs)) ''/c/2'' = {}" "matching no_strtod (route_table (routes ?rs)) ''/b'' = {1}"
    unfolding tab by (auto simp: matching_Cons take_param_eval)
  have p: "route_path ''/api'' ''/API/a/1'' = ''/a/1''" "route_path ''/api'' ''/api/c/2'' = ''/c/2''" "route_path ''/api'' ''/api/b'' = ''/b''"
    by code_simp+
  have r: "rule_methods (?rs ! 0) = 2"
    by (simp add: rule_with_def BaseRule_def method_bit_def Get_def)
  obtain R R' where R: "add_rules ?rs (Router ''/api'') = Some (Value R)"
    "router_validate ((length (m_trie R) + 1) ^ 2) R = Some (Value R')"
    and b: "\<And>url. \<exists>ps.
        (let i = lowest (matching no_strtod (route_table (routes ?rs)) (route_path (if ''/api'' = ''/'' then [] else ''/api'') url)) in
         before no_strtod url R' =
           (if i = 0 then Value NotFound else if i = 1 then Undefined
            else Value (Routed \<lparr>p_index = i, p_decoded = ps, p_attrs = rule_attrs (?rs ! (i - 2)), p_methods = rule_methods (?rs ! (i - 2))\<rparr>)))"
    using router_dispatch [OF example_rules, of "''/api''" no_strtod] by blast
  have b1: "\<exists>ps. before no_strtod ''/API/a/1'' R' = Value (Routed \<lparr>p_index = 2, p_decoded = ps, p_attrs = (), p_methods = 2\<rparr>)"
    using b [of "''/API/a/1''"] r by (simp add: p m lowest_def)
  have b2: "before no_strtod ''/api/c/2'' R' = Value NotFound"
    using b [of "''/api/c/2''"] by (simp add: p m lowest_def)
  have b3: "before no_strtod ''/api/b'' R' = Undefined"
    using b [of "''/api/b''"] by (simp add: p m lowest_def)
  show ?thesis using R b1 b2 b3 by blast
qed







section \<open>Properties of the trie\<close>

text \<open>C15: Merging the characters of a trie comes to an end: on every trie that adding rules can build
  and whose head is simple, the recursion of \<open>validate\<close> is at most as deep as the square of the number
  of nodes plus one, and every URL finds the same rule afterwards.\<close>

theorem trie_validate_terminates:
  fixes sd :: "string \<Rightarrow> 'd \<times> nat \<times> bool"
  assumes "built T" and "issimple (T ! 0)" and "(length T + 1) ^ 2 \<le> fuel"
  shows "\<exists>T'. validate_trie fuel T = Some (Value T') \<and>
    (\<forall>s. \<exists>ps rest ps' rest'. \<exists>i. find_rule sd T s 0 no_params = Value ((i, ps), rest) \<and>
       find_rule sd T' s 0 no_params = Value ((i, ps'), rest'))"
proof -
  note b = assms(1)
  have T: "0 < length T" using builtD(1) [OF b] by simp
  obtain d where d: "depths d T" "d 0 = 0" using built_depths [OF b] by blast
  obtain T' where T': "optimize_node fuel 0 T = Some T'" using optimize_head [OF builtD(2,1) [OF b] assms(3)] by blast
  have same: "same sd 0 T T'" by (rule optimize_same [OF T' builtD(2) [OF b] T])
  then have d': "depths d T'" and l': "0 < length T'" using d(1) T unfolding same_def by auto
  have "\<exists>ps rest ps' rest'. \<exists>i. find_rule sd T s 0 no_params = Value ((i, ps), rest) \<and>
       find_rule sd T' s 0 no_params = Value ((i, ps'), rest')" for s
  proof -
    obtain i ps rest where 1: "find_rule sd T s 0 no_params = Value ((i, ps), rest)" "i = best (map fst (ends sd T s 0))"
      using find_ends(1) [OF d(1) T, of no_params sd s] by (auto simp: d(2) found_ok_def)
    obtain j ps' rest' where 2: "find_rule sd T' s 0 no_params = Value ((j, ps'), rest')" "j = best (map fst (ends sd T' s 0))"
      using find_ends(1) [OF d' l', of no_params sd s] by (auto simp: d(2) found_ok_def)
    have "hits sd T' s 0 = hits sd T s 0" using same T unfolding same_def by blast
    then have "i = j" unfolding 1(2) 2(2) best_hits by simp
    with 1(1) 2(1) show ?thesis by blast
  qed
  then show ?thesis using T' assms(2) by (simp add: validate_trie_def)
qed

lemma trie_validate_terminates_witness:
  "\<exists>T T'. add ''/ab'' 2 Trie = Some (Value T) \<and> validate_trie 36 T = Some (Value T') \<and> T' \<noteq> T \<and>
    (\<exists>ps rest ps' rest'. \<exists>i. find_rule no_strtod T ''/ab'' 0 no_params = Value ((i, ps), rest) \<and>
       find_rule no_strtod T' ''/ab'' 0 no_params = Value ((i, ps'), rest'))"
proof -
  let ?T = "[new_node\<lparr>children := [(''/'', 1)]\<rparr>, new_node\<lparr>children := [(''a'', 2)]\<rparr>, new_node\<lparr>children := [(''b'', 3)]\<rparr>, new_node\<lparr>rule_index := 2\<rparr>]"
  have add: "add ''/ab'' 2 Trie = Some (Value ?T)" by code_simp
  have p: "parse_rule ''/ab'' = Some [Lit (CHR ''/''), Lit (CHR ''a''), Lit (CHR ''b'')]" by simp
  have "built ?T" using add_result [OF p built_Trie, of 2] add by (simp add: rule_of_Trie)
  moreover have "issimple (?T ! 0)" by code_simp
  moreover have "(length ?T + 1) ^ 2 \<le> 36" by (simp add: power2_eq_square)
  moreover have "validate_trie 36 ?T \<noteq> Some (Value ?T)" by code_simp
  ultimately show ?thesis using trie_validate_terminates [of ?T 36 no_strtod] add by (metis (no_types))
qed

text \<open>C20: Adding a rule changes the trie at its pattern only: a pattern that has no rule gets the number
  and every other pattern keeps its own, a pattern that has one is refused with an exception, and
  the trie stays well formed.\<close>

theorem trie_add:
  assumes "parse_rule url = Some ts" and "built T" and "npar ts \<le> 128"
  shows "if rule_of T ts \<noteq> 0 then add url r T = Some (Throw OtherException)
    else \<exists>T'. add url r T = Some (Value T') \<and> built T' \<and> rule_of T' ts = r \<and> (\<forall>us. us \<noteq> ts \<longrightarrow> rule_of T' us = rule_of T us)"
proof (cases "rule_of T ts = 0")
  case True
  then obtain T' where "add url r T = Some (Value T')" "built T'" "rule_of T' = (rule_of T)(ts := r)"
    using add_result [OF assms, of r] by auto
  with True show ?thesis by auto
next
  case False
  then show ?thesis using add_result [OF assms, of r] by simp
qed

lemma trie_add_witness:
  "\<exists>T. add ''/{int}'' 2 Trie = Some (Value T) \<and> rule_of T [Lit (CHR ''/''), Par P_INT] = 2 \<and>
    add ''/{int}'' 3 T = Some (Throw OtherException)"
proof -
  have p: "parse_rule ''/{int}'' = Some [Lit (CHR ''/''), Par P_INT]" by (simp add: param_at_def paramTraits_def)
  obtain T where T: "add ''/{int}'' 2 Trie = Some (Value T)" "built T" "rule_of T [Lit (CHR ''/''), Par P_INT] = 2"
    using trie_add [OF p built_Trie, of 2] by (auto simp: rule_of_Trie)
  then show ?thesis using trie_add [OF p T(2), of 3] by simp
qed

text \<open>A pattern with a brace that starts none of the parameter names is never reported: the loop of
  \<open>add\<close> goes back to the brace for ever, whatever the trie holds.\<close>

theorem trie_add_loops:
  assumes "parse_rule url = None"
  shows "add url r T = None"
proof -
  have "add_loop url 0 T = None" using add_loop_parses [of url 0 T] assms by (cases "add_loop url 0 T") auto
  then show ?thesis by (simp add: add_def)
qed

lemma trie_add_loops_witness: "add ''/{id}'' 2 Trie = None"
  by (rule trie_add_loops) (simp add: param_at_def paramTraits_def)

section \<open>The types of a handler\<close>

lemma tag_size_push: "0 < t \<Longrightarrow> t < 6 \<Longrightarrow> tag_size (n * 6 + t) = Suc (tag_size n)"
  by (subst tag_size.simps) simp

lemma param_at_tag:
  assumes "param_at s = Some (t, name)"
  shows "\<exists>k. tag_of s = Some k \<and> 0 < k \<and> k < 6 \<and> find_closing_tag s = Value (CHR ''}'' # drop (length name) s)"
  using assms
  by (auto simp: param_at_def paramTraits_def tag_of_def find_closing_tag_def prefix_def split: if_splits)

lemma runtime_tag:
  "parse_rule u = Some ts \<Longrightarrow> npar ts \<le> 24 \<Longrightarrow>
   \<exists>a. get_parameter_tag_runtime u = Value a \<and> tag_size a = npar ts \<and> a < 6 ^ npar ts"
proof (induction u arbitrary: ts rule: parse_rule.induct)
  case 1
  then show ?case by (simp add: tag_size.simps [of 0])
next
  case (2 c rest)
  show ?case
  proof (cases "c = CHR ''{''")
    case False
    then obtain us where us: "parse_rule rest = Some us" "ts = Lit c # us" using "2.prems"(1) by auto
    then show ?thesis using "2.IH"(2) [OF False us(1)] "2.prems"(2) False by simp
  next
    case True
    then obtain t name us where t: "param_at (c # rest) = Some (t, name)"
      and us: "parse_rule (drop (length name) (c # rest)) = Some us" "ts = Par t # us"
      using "2.prems"(1) by (auto split: option.splits)
    from us(2) "2.prems"(2) have le: "npar us \<le> 23" by simp
    obtain n where n: "get_parameter_tag_runtime (drop (length name) (c # rest)) = Value n" "tag_size n = npar us" "n < 6 ^ npar us"
      using "2.IH"(1) [OF True t refl us(1)] le by auto
    obtain k where k: "tag_of (c # rest) = Some k" "0 < k" "k < 6" "find_closing_tag (c # rest) = Value (CHR ''}'' # drop (length name) (c # rest))"
      using param_at_tag [OF t] by blast
    have b: "n * 6 + k < 6 ^ Suc (npar us)" using n(3) k(3) by simp
    also have "\<dots> \<le> 6 ^ 24" using le by (intro power_increasing) simp_all
    also have "\<dots> < 2 ^ 64" by simp
    finally have "(n * 6 + k) mod 2 ^ 64 = n * 6 + k" by simp
    then have "get_parameter_tag_runtime (c # rest) = Value (n * 6 + k)" using True k(1,4) n(1) by simp
    with b k(2,3) n(2) show ?thesis by (simp add: us(2) tag_size_push)
  qed
qed

text \<open>The check of a handler against its pattern counts the parameters and does not look at their
  types: a handler is accepted exactly when it has as many parameters as the pattern.\<close>

theorem handler_types_unchecked:
  assumes "parse_rule (rule_url r) = Some ts" and "npar ts \<le> 24" and "\<forall>t \<in> set tys. 0 < t \<and> t < 6"
  shows "set_handler tys h r = (if length tys = npar ts then Value (r\<lparr>rule_handler := Some h\<rparr>) else Throw OtherException)"
proof -
  obtain a where "get_parameter_tag_runtime (rule_url r) = Value a" "tag_size a = npar ts"
    using runtime_tag [OF assms(1,2)] by blast
  then show ?thesis using tag_size_args [OF assms(3)] by (auto simp: set_handler_def tag_compatible_size)
qed

lemma handler_types_unchecked_witness:
  "set_handler [4] () (BaseRule () ''/{int}'') = Value ((BaseRule () ''/{int}'')\<lparr>rule_handler := Some ()\<rparr>) \<and>
   set_handler [1, 1] () (BaseRule () ''/{int}'') = Throw OtherException"
proof -
  have p: "parse_rule (rule_url (BaseRule () ''/{int}'' :: (unit, unit) base_rule)) = Some [Lit (CHR ''/''), Par P_INT]"
    by (simp add: BaseRule_def param_at_def paramTraits_def)
  show ?thesis using handler_types_unchecked [OF p, of "[4]" "()"] handler_types_unchecked [OF p, of "[1, 1]" "()"] by simp
qed

end
