(* ===== verification/Ctype.thy ===== *)
theory Ctype
  imports Prelude
begin

text \<open>
  The functions of the C library that several components use: the classes of characters in the C
  locale and the decimal text of an integer.
\<close>

definition isspace :: "char \<Rightarrow> bool" where
  "isspace c \<longleftrightarrow> c = CHR '' '' \<or> between (CHR 0x09) c (CHR 0x0D)"

definition isalpha :: "char \<Rightarrow> bool" where
  "isalpha c \<longleftrightarrow> between (CHR ''a'') c (CHR ''z'') \<or> between (CHR ''A'') c (CHR ''Z'')"

definition isdigit :: "char \<Rightarrow> bool" where
  "isdigit c \<longleftrightarrow> between (CHR ''0'') c (CHR ''9'')"

text \<open>The conversions \<open>%lu\<close> and \<open>%d\<close>.\<close>

fun dec_text :: "nat \<Rightarrow> string" where
  "dec_text n = (if n < 10 then [char_of (48 + n)] else dec_text (n div 10) @ [char_of (48 + n mod 10)])"

declare dec_text.simps [simp del]

definition int_text :: "int \<Rightarrow> string" where
  "int_text i = (if i < 0 then CHR ''-'' # dec_text (nat (- i)) else dec_text (nat i))"

lemma alpha_not:
  assumes "isalpha c"
  shows "\<not> isspace c" and "\<not> isdigit c" and "c \<noteq> NUL" and "c \<noteq> CHR ''_''" and "c \<notin> set ''{}#/^!>&=''"
  using assms by (auto simp: isalpha_def isspace_def isdigit_def between_def ucode_def)

lemma digit_not:
  assumes "isdigit c"
  shows "\<not> isspace c" and "c \<noteq> NUL" and "c \<notin> set ''{}#^!>&=''"
  using assms by (auto simp: isspace_def isdigit_def between_def ucode_def)

lemma isspace_not: "isspace c \<Longrightarrow> c \<noteq> NUL \<and> c \<notin> set ''{}#/^!>&=_''"
  by (auto simp: isspace_def between_def ucode_def)

end
