(* ===== verification/Server.thy ===== *)
theory Server
  imports HttpTypes Outcome Routing Ctype
begin

text \<open>
  The server side of a connection: the status lines of \<^verbatim>\<open>suil/http.h\<close>, \<open>Response\<close> of
  \<^verbatim>\<open>suil/http/response.h\<close> and \<^verbatim>\<open>suil/http/response.cpp\<close>, and the
  middlewares, the error handling and the output of \<^verbatim>\<open>suil/http/connection.h\<close>, and the
  ranges of \<^verbatim>\<open>suil/http/fserver.cpp\<close>.

  Output buffers are represented by their contents.  A header map is the list of its pairs: the
  \<open>emplace\<close> of a key that is there keeps the old value; names that differ in case only are up to the
  hash of the map.  The time, the socket, the handlers and the middlewares are parameters.
\<close>

section \<open>Status and method\<close>

definition status_lines :: "(nat \<times> string) list" where
  "status_lines =
    [(100, ''HTTP/1.1 100 Continue''),
     (101, ''HTTP/1.1 101 Switching Protocols''),
     (200, ''HTTP/1.1 200 OK''),
     (201, ''HTTP/1.1 201 Created''),
     (202, ''HTTP/1.1 202 Accepted''),
     (203, ''HTTP/1.1 203 Non-Authoritative Information''),
     (204, ''HTTP/1.1 204 No Content''),
     (205, ''HTTP/1.1 205 Reset Content''),
     (206, ''HTTP/1.1 206 Partial Content''),
     (300, ''HTTP/1.1 300 Multiple Choices''),
     (301, ''HTTP/1.1 301 Moved Permanently''),
     (302, ''HTTP/1.1 302 Found''),
     (303, ''HTTP/1.1 303 See Other''),
     (304, ''HTTP/1.1 304 Not Modified''),
     (305, ''HTTP/1.1 305 Use Proxy''),
     (307, ''HTTP/1.1 307 Temporary Redirect''),
     (400, ''HTTP/1.1 400 Bad Request''),
     (401, ''HTTP/1.1 401 Unauthorized''),
     (402, ''HTTP/1.1 402 Payment Required''),
     (403, ''HTTP/1.1 403 Forbidden''),
     (404, ''HTTP/1.1 404 Not Found''),
     (405, ''HTTP/1.1 405 Method Not Allowed''),
     (406, ''HTTP/1.1 406 Not Acceptable''),
     (407, ''HTTP/1.1 407 Proxy Authentication Required''),
     (408, ''HTTP/1.1 408 Request Time-out''),
     (409, ''HTTP/1.1 409 Conflict''),
     (410, ''HTTP/1.1 410 Gone''),
     (411, ''HTTP/1.1 411 Length Required''),
     (412, ''HTTP/1.1 412 Precondition Failed''),
     (413, ''HTTP/1.1 413 Request Entity Too Large''),
     (414, ''HTTP/1.1 414 Request-URI Too Large''),
     (415, ''HTTP/1.1 415 Unsupported Media Type''),
     (416, ''HTTP/1.1 416 Requested range not satisfiable''),
     (417, ''HTTP/1.1 417 Expectation Failed''),
     (500, ''HTTP/1.1 500 Internal Server Error''),
     (501, ''HTTP/1.1 501 Not Implemented''),
     (502, ''HTTP/1.1 502 Bad Gateway''),
     (503, ''HTTP/1.1 503 Service Unavailable''),
     (504, ''HTTP/1.1 504 Gateway Time-out''),
     (505, ''HTTP/1.1 505 HTTP Version not supported'')]"

definition status_text :: "nat \<Rightarrow> string" where
  "status_text s = (case map_of status_lines s of Some r \<Rightarrow> r | None \<Rightarrow> ''HTTP/1.1 500  '')"

definition CONTINUE :: nat where "CONTINUE = 100"
definition SWITCHING_PROTOCOLS :: nat where "SWITCHING_PROTOCOLS = 101"
definition OK :: nat where "OK = 200"
definition BAD_REQUEST :: nat where "BAD_REQUEST = 400"
definition REQUEST_TIMEOUT :: nat where "REQUEST_TIMEOUT = 408"
definition INTERNAL_ERROR :: nat where "INTERNAL_ERROR = 500"
definition BAD_VERSION :: nat where "BAD_VERSION = 505"

definition method_name :: "nat \<Rightarrow> string" where
  "method_name m = (if m < 8 then [''DELETE'', ''GET'', ''HEAD'', ''POST'', ''PUT'', ''CONNECT'', ''OPTIONS'', ''TRACE''] ! m else ''Invalid'')"

text \<open>A method in a C string: \<open>peek\<close> is NUL at its end.\<close>

definition toupper :: "char \<Rightarrow> char" where
  "toupper c = (if between CHR ''a'' c CHR ''z'' then char_of (ucode c - 32) else c)"

definition method_from_string :: "string \<Rightarrow> nat" where
  "method_from_string s =
     (let c = toupper (peek s) in
      if c = CHR ''D'' then 0
      else if c = CHR ''G'' then 1
      else if c = CHR ''H'' then 2
      else if c = CHR ''P'' then (if peek (tl s) = CHR ''O'' then 3 else 4)
      else if c = CHR ''C'' then 5
      else if c = CHR ''O'' then 6
      else if c = CHR ''T'' then 7
      else 8)"

section \<open>Cookies\<close>

record cookie =
  ck_name :: string
  ck_value :: string
  ck_path :: string
  ck_domain :: string
  ck_secure :: bool
  ck_maxage :: int
  ck_expires :: int

definition Cookie :: "string \<Rightarrow> string \<Rightarrow> cookie" where
  "Cookie n v = \<lparr>ck_name = n, ck_value = v, ck_path = [], ck_domain = [], ck_secure = False, ck_maxage = 0, ck_expires = 0\<rparr>"

text \<open>The move constructor takes every member but \<open>maxage_\<close>.\<close>

definition cookie_moved :: "cookie \<Rightarrow> cookie" where
  "cookie_moved ck = ck\<lparr>ck_maxage := 0\<rparr>"

definition cookie_expires :: "int \<Rightarrow> int \<Rightarrow> cookie \<Rightarrow> cookie" where
  "cookie_expires now secs ck = ck\<lparr>ck_expires := (if secs > 0 then now + secs else secs)\<rparr>"

text \<open>\<open>emplace\<close> of an unordered map.\<close>

definition emplace :: "string \<Rightarrow> 'v \<Rightarrow> (string \<times> 'v) list \<Rightarrow> (string \<times> 'v) list" where
  "emplace k v m = (if k \<in> fst ` set m then m else m @ [(k, v)])"

section \<open>The response\<close>

text \<open>A piece of a file or of memory: the bytes of the memory, or the descriptor; the offset and the
  length.\<close>

datatype chunk = MemChunk string nat nat | FdChunk nat nat nat

fun chunk_len :: "chunk \<Rightarrow> nat" where
  "chunk_len (MemChunk m off len) = len"
| "chunk_len (FdChunk fd off len) = len"

fun chunk_offset :: "chunk \<Rightarrow> nat" where
  "chunk_offset (MemChunk m off len) = off"
| "chunk_offset (FdChunk fd off len) = off"

record 'p response =
  res_headers :: "(string \<times> string) list"
  res_cookies :: "(string \<times> cookie) list"
  res_body :: string
  res_status :: nat
  res_completed :: bool
  res_chunks :: "chunk list"
  res_total :: nat
  res_proto :: "'p option"

definition Response :: "nat \<Rightarrow> 'p response" where
  "Response st = \<lparr>res_headers = [], res_cookies = [], res_body = [], res_status = st, res_completed = False,
     res_chunks = [], res_total = 0, res_proto = None\<rparr>"

definition Response_text :: "string \<Rightarrow> 'p response" where
  "Response_text s = (Response OK)\<lparr>res_body := s\<rparr>"

text \<open>\<open>operator()(status)\<close> and the functions \<open>end\<close>\<close>

definition set_status :: "nat \<Rightarrow> 'p response \<Rightarrow> 'p response" where
  "set_status st r = (if res_status r = OK then r\<lparr>res_status := st\<rparr> else r)"

definition end_status :: "nat \<Rightarrow> 'p response \<Rightarrow> 'p response" where
  "end_status st r = (set_status st r)\<lparr>res_completed := True\<rparr>"

definition end_body :: "nat \<Rightarrow> string \<Rightarrow> 'p response \<Rightarrow> 'p response" where
  "end_body st b r = end_status st (if res_body r \<noteq> [] then r\<lparr>res_body := res_body r @ b\<rparr> else r\<lparr>res_body := b\<rparr>)"

definition end_proto :: "'p \<Rightarrow> 'p response \<Rightarrow> 'p response" where
  "end_proto p r = r\<lparr>res_proto := Some p, res_status := SWITCHING_PROTOCOLS\<rparr>"

definition res_header :: "string \<Rightarrow> string \<Rightarrow> 'p response \<Rightarrow> 'p response" where
  "res_header f v r = r\<lparr>res_headers := emplace f v (res_headers r)\<rparr>"

definition setContentType :: "string \<Rightarrow> 'p response \<Rightarrow> 'p response" where
  "setContentType t r = res_header ''Content-Type'' t r"

definition redirect :: "nat \<Rightarrow> string \<Rightarrow> 'p response \<Rightarrow> 'p response" where
  "redirect st location r = end_status st (res_header ''Location'' location r)"

definition res_cookie :: "cookie \<Rightarrow> 'p response \<Rightarrow> 'p response" where
  "res_cookie ck r = (if ck_name ck \<noteq> [] then r\<lparr>res_cookies := emplace (ck_name ck) (cookie_moved ck) (res_cookies r)\<rparr> else r)"

definition add_chunk :: "chunk \<Rightarrow> 'p response \<Rightarrow> 'p response" where
  "add_chunk c r = r\<lparr>res_total := (res_total r + 2 ^ 64 + chunk_len c - chunk_offset c) mod 2 ^ 64, res_chunks := res_chunks r @ [c]\<rparr>"

definition res_length :: "'p response \<Rightarrow> nat" where
  "res_length r = (if res_body r \<noteq> [] then length (res_body r) else if res_chunks r \<noteq> [] then res_total r else 0)"

text \<open>The response that is moved from another: its pieces and its protocol stay behind.\<close>

definition res_moved :: "'p response \<Rightarrow> 'p response" where
  "res_moved r = (Response (res_status r))\<lparr>res_headers := res_headers r, res_cookies := res_cookies r, res_body := res_body r,
     res_completed := res_completed r\<rparr>"

text \<open>The assignment from another response: the pieces and the protocol are those of before.\<close>

definition res_assign :: "'p response \<Rightarrow> 'p response \<Rightarrow> 'p response" where
  "res_assign r other = r\<lparr>res_status := res_status other, res_body := res_body other, res_headers := res_headers other,
     res_cookies := res_cookies other, res_completed := res_completed other\<rparr>"

definition res_append :: "string \<Rightarrow> 'p response \<Rightarrow> 'p response" where
  "res_append d r = r\<lparr>res_body := res_body r @ d\<rparr>"

definition mkresp :: "nat \<Rightarrow> string \<Rightarrow> 'p response" where
  "mkresp st msg = res_moved (res_append msg (Response st))"

definition res_clear :: "'p response \<Rightarrow> 'p response" where
  "res_clear r = r\<lparr>res_completed := False, res_headers := [], res_body := [], res_cookies := [], res_chunks := [], res_status := OK\<rparr>"

text \<open>\<open>flush_cookies\<close>: the buffer is empty again after each header, for the string takes its memory.\<close>

definition cookie_text :: "(int \<Rightarrow> string) \<Rightarrow> cookie \<Rightarrow> string" where
  "cookie_text http_date ck =
     ck_name ck @ ''='' @ ck_value ck @
     (if ck_domain ck \<noteq> [] then ''; Domain='' @ ck_domain ck else []) @
     (if ck_path ck \<noteq> [] then ''; Path='' @ ck_path ck else []) @
     (if ck_secure ck then ''; Secure'' else []) @
     (if ck_maxage ck > 0 then ''; Max-Age='' @ dec_text (nat (ck_maxage ck)) else []) @
     (if ck_expires ck > 0 then ''; Expires='' @ http_date (ck_expires ck) else [])"

definition flush_cookies :: "(int \<Rightarrow> string) \<Rightarrow> 'p response \<Rightarrow> 'p response" where
  "flush_cookies http_date r =
     fold (\<lambda>(k, ck) r. if ck_name ck = [] \<or> ck_value ck = [] then r
            else res_header ''Set-Cookie'' (cookie_text http_date ck) r) (res_cookies r) r"

section \<open>Handlers and middlewares\<close>

text \<open>A call of a handler changes the state of the application and the response; it can end with an
  exception, which keeps the changes made before.\<close>

datatype failure = HttpException int string | StdException string | UnknownException

datatype 'a ran = Ran 'a | Failed failure 'a

fun bind_ran :: "'a ran \<Rightarrow> ('a \<Rightarrow> 'a ran) \<Rightarrow> 'a ran" where
  "bind_ran (Ran a) f = f a"
| "bind_ran (Failed e a) f = Failed e a"

type_synonym ('s, 'p) call = "'s \<times> 'p response \<Rightarrow> ('s \<times> 'p response) ran"

record ('s, 'p) middleware =
  mw_before :: "('s, 'p) call"
  mw_after :: "('s, 'p) call"

definition iscompleted :: "'s \<times> 'p response \<Rightarrow> bool" where
  "iscompleted x = res_completed (snd x)"

text \<open>\<open>middleware_call_helper\<close>: the result says whether the response was completed.\<close>

fun middleware_call_helper :: "('s, 'p) middleware list \<Rightarrow> 's \<times> 'p response \<Rightarrow> bool \<times> ('s \<times> 'p response) ran" where
  "middleware_call_helper [] x = (False, Ran x)"
| "middleware_call_helper (m # ms) x =
     (case mw_before m x of
        Failed e x \<Rightarrow> (False, Failed e x)
      | Ran x \<Rightarrow>
          if iscompleted x then (True, mw_after m x)
          else (case middleware_call_helper ms x of
                  (True, Ran x) \<Rightarrow> (True, mw_after m x)
                | r \<Rightarrow> r))"

text \<open>\<open>after_handlers_call_helper\<close> for the middlewares up to number \<open>n\<close>, the last one first.\<close>

fun after_handlers_call_helper :: "nat \<Rightarrow> ('s, 'p) middleware list \<Rightarrow> 's \<times> 'p response \<Rightarrow> ('s \<times> 'p response) ran" where
  "after_handlers_call_helper 0 ms x = Ran x"
| "after_handlers_call_helper (Suc n) ms x = bind_ran (mw_after (ms ! n) x) (after_handlers_call_helper n ms)"

text \<open>The part of \<open>start\<close> that handles one request, with its \<open>catch\<close> clauses: the last component is
  \<open>err\<close>.\<close>

record ('s, 'p) handler =
  h_before :: "('s, 'p) call"
  h_handle :: "('s, 'p) call"

definition run_request :: "('s, 'p) handler \<Rightarrow> ('s, 'p) middleware list \<Rightarrow> 's \<times> 'p response \<Rightarrow> ('s \<times> 'p response) ran" where
  "run_request h ms x =
     bind_ran (h_before h x) (\<lambda>x.
     bind_ran (snd (middleware_call_helper ms x)) (\<lambda>x.
     bind_ran (if \<not> iscompleted x then h_handle h x else Ran x) (\<lambda>x.
       after_handlers_call_helper (length ms) ms x)))"

definition error_status :: "int \<Rightarrow> nat" where
  "error_status code = (if code < int CONTINUE \<or> code > int BAD_VERSION then INTERNAL_ERROR else nat code)"

fun caught :: "failure \<Rightarrow> 'p response \<Rightarrow> 'p response" where
  "caught (HttpException code what) r = r\<lparr>res_status := error_status code, res_body := what\<rparr>"
| "caught (StdException what) r = r\<lparr>res_status := INTERNAL_ERROR, res_body := what\<rparr>"
| "caught UnknownException r = r\<lparr>res_status := INTERNAL_ERROR, res_body := []\<rparr>"

definition handle_request :: "('s, 'p) handler \<Rightarrow> ('s, 'p) middleware list \<Rightarrow> 's \<Rightarrow> 's \<times> 'p response \<times> bool" where
  "handle_request h ms s =
     (case run_request h ms (s, Response OK) of
        Ran (s, r) \<Rightarrow> (s, r, False)
      | Failed e (s, r) \<Rightarrow> (s, caught e r, True))"

section \<open>Sending a response\<close>

record config =
  keep_alive_time :: nat
  hsts_enable :: nat
  server_name :: string
  send_chunk :: nat

definition CRLF :: string where "CRLF = [CR, LF]"

definition strcasecmp_eq :: "string \<Rightarrow> string \<Rightarrow> bool" where
  "strcasecmp_eq a b \<longleftrightarrow> map toupper (takeWhile (\<lambda>c. c \<noteq> NUL) a) = map toupper b"

definition header_line :: "string \<times> string \<Rightarrow> string" where
  "header_line h = fst h @ '' : '' @ snd h @ CRLF"

text \<open>\<open>send_response\<close> up to the output: the new \<open>close_\<close>, the response, and the text of its head.
  \<open>conn\<close> is the header \<open>Connection\<close> of the request, \<open>date\<close> the text of the current time.\<close>

definition closes :: "string \<Rightarrow> bool \<Rightarrow> bool \<Rightarrow> bool" where
  "closes conn err close = (if err then True else close \<or> (conn \<noteq> [] \<and> strcasecmp_eq conn ''Close''))"

definition final_response :: "(int \<Rightarrow> string) \<Rightarrow> 'p response \<Rightarrow> 'p response" where
  "final_response http_date r =
     flush_cookies http_date
       (if res_status r > BAD_REQUEST \<and> res_body r = [] then r\<lparr>res_body := drop 9 (status_text (res_status r))\<rparr> else r)"

definition response_head :: "config \<Rightarrow> string \<Rightarrow> bool \<Rightarrow> bool \<Rightarrow> nat \<Rightarrow> 'p response \<Rightarrow> string" where
  "response_head cfg date err close st r =
     status_text st @ CRLF @
     (if err then [] else
        (if keep_alive_time cfg \<noteq> 0 \<and> \<not> close
         then ''Connection: Keep-Alive'' @ CRLF @ ''Keep-Alive: '' @ dec_text (keep_alive_time cfg) @ CRLF else []) @
        (if hsts_enable cfg \<noteq> 0
         then ''Strict-Transport-Security: max-age '' @ dec_text (hsts_enable cfg) @ ''; includeSubdomains'' @ CRLF else [])) @
     concat (map header_line (res_headers r)) @
     (if ''Server'' \<in> fst ` set (res_headers r) then [] else ''Server: '' @ server_name cfg @ CRLF) @
     (if ''Date'' \<in> fst ` set (res_headers r) then [] else ''Date: '' @ date @ CRLF) @
     (if ''Content-Length'' \<in> fst ` set (res_headers r) then [] else ''Content-Length: '' @ dec_text (res_length r) @ CRLF) @
     CRLF"

definition response_pieces :: "string \<Rightarrow> 'p response \<Rightarrow> chunk list" where
  "response_pieces head r =
     MemChunk head 0 (length head) # (if res_body r \<noteq> [] then [MemChunk (res_body r) 0 (length (res_body r))] else res_chunks r)"

text \<open>\<open>write_response\<close>.  The socket takes the first bytes of what it is given; \<open>accept k s\<close> is how many
  of \<open>s\<close> at its \<open>k\<close>-th call.  The result is whether all calls succeeded, the number of calls, and the
  bytes on the wire.  For memory a short count is taken for success.\<close>

function send_mem :: "nat \<Rightarrow> (nat \<Rightarrow> string \<Rightarrow> nat) \<Rightarrow> nat \<Rightarrow> string \<Rightarrow> nat \<Rightarrow> bool \<times> nat \<times> string" where
  "send_mem sc accept k d nsent =
     (let piece = take (min sc (length d - nsent)) (drop nsent d);
          rc = min (accept k piece) (length piece) in
      if rc = 0 then (False, Suc k, [])
      else let nsent = nsent + length piece in
        if nsent < length d then (case send_mem sc accept (Suc k) d nsent of (b, k, out) \<Rightarrow> (b, k, take rc piece @ out))
        else (True, Suc k, take rc piece))"
  by pat_completeness auto
termination
  by (relation "measure (\<lambda>(sc, accept, k, d, nsent). length d - nsent)") auto

declare send_mem.simps [simp del]

function send_file :: "nat \<Rightarrow> (nat \<Rightarrow> string \<Rightarrow> nat) \<Rightarrow> nat \<Rightarrow> string \<Rightarrow> nat \<Rightarrow> bool \<times> nat \<times> string" where
  "send_file sc accept k d nsent =
     (let piece = take (min sc (length d - nsent)) (drop nsent d);
          rc = min (accept k piece) (length piece) in
      if rc = 0 \<or> rc \<noteq> length piece then (False, Suc k, take rc piece)
      else let nsent = nsent + length piece in
        if nsent < length d then (case send_file sc accept (Suc k) d nsent of (b, k, out) \<Rightarrow> (b, k, piece @ out))
        else (True, Suc k, piece))"
  by pat_completeness auto
termination
  by (relation "measure (\<lambda>(sc, accept, k, d, nsent). length d - nsent)") auto

declare send_file.simps [simp del]

text \<open>A piece outside its memory or its file is not defined.\<close>

fun send_piece :: "(nat \<Rightarrow> string) \<Rightarrow> nat \<Rightarrow> (nat \<Rightarrow> string \<Rightarrow> nat) \<Rightarrow> nat \<Rightarrow> chunk \<Rightarrow> (bool \<times> nat \<times> string) outcome" where
  "send_piece file sc accept k (MemChunk m off len) =
     (if off + len \<le> length m then Value (send_mem sc accept k (take len (drop off m)) 0) else Undefined)"
| "send_piece file sc accept k (FdChunk fd off len) =
     (if off + len \<le> length (file fd) then Value (send_file sc accept k (take len (drop off (file fd))) 0) else Undefined)"

fun write_response :: "(nat \<Rightarrow> string) \<Rightarrow> nat \<Rightarrow> (nat \<Rightarrow> string \<Rightarrow> nat) \<Rightarrow> nat \<Rightarrow> chunk list \<Rightarrow> (bool \<times> nat \<times> string) outcome" where
  "write_response file sc accept k [] = Value (True, k, [])"
| "write_response file sc accept k (c # cs) =
     bind_out (send_piece file sc accept k c) (\<lambda>(b, k, out).
       if \<not> b then Value (False, k, out)
       else map_out (\<lambda>(b, k, out2). (b, k, out @ out2)) (write_response file sc accept k cs))"

section \<open>A connection\<close>

text \<open>What the connection depends on.  \<open>s_date\<close> and \<open>s_isopen\<close> are the date and the state of the socket
  after a number of its calls, \<open>s_conn\<close> the header \<open>Connection\<close> of a request.\<close>

record ('s, 'p) server =
  s_config :: config
  s_handler :: "('s, 'p) handler"
  s_middlewares :: "('s, 'p) middleware list"
  s_conn :: "'s \<Rightarrow> string"
  s_date :: "nat \<Rightarrow> string"
  s_http_date :: "int \<Rightarrow> string"
  s_file :: "nat \<Rightarrow> string"
  s_accept :: "nat \<Rightarrow> string \<Rightarrow> nat"
  s_isopen :: "nat \<Rightarrow> bool"

text \<open>The variables of the loop: \<open>close_\<close>, the calls of the socket so far, the bytes sent, and the
  status of every response.\<close>

record conn =
  c_close :: bool
  c_calls :: nat
  c_out :: string
  c_statuses :: "nat list"

definition send_response :: "('s, 'p) server \<Rightarrow> string \<Rightarrow> 'p response \<Rightarrow> bool \<Rightarrow> conn \<Rightarrow> conn outcome" where
  "send_response S conn r err c =
     (if \<not> s_isopen S (c_calls c) then Value (c\<lparr>c_close := True\<rparr>)
      else let close = closes conn err (c_close c);
            st = res_status r;
            r = final_response (s_http_date S) r;
            head = response_head (s_config S) (s_date S (c_calls c)) err close st r in
      map_out (\<lambda>(ok, k, out).
          c\<lparr>c_close := close \<or> \<not> ok, c_calls := k, c_out := c_out c @ out, c_statuses := c_statuses c @ [st]\<rparr>)
        (write_response (s_file S) (send_chunk (s_config S)) (s_accept S) (c_calls c) (response_pieces head r)))"

text \<open>What the socket delivers: a request whose head or body could not be read, or a request.\<close>

datatype 's arrival = HeadersFailed nat 's | BodyFailed nat 's | Arrived 's

fun start :: "('s, 'p) server \<Rightarrow> 's arrival list \<Rightarrow> conn \<Rightarrow> conn outcome" where
  "start S [] c = Value c"
| "start S (HeadersFailed st s # as) c =
     (if st \<noteq> REQUEST_TIMEOUT then send_response S (s_conn S s) (Response st) True c else Value c)"
| "start S (BodyFailed st s # as) c = send_response S (s_conn S s) (Response st) True c"
| "start S (Arrived s # as) c =
     (case handle_request (s_handler S) (s_middlewares S) s of (s, r, err) \<Rightarrow>
        bind_out (send_response S (s_conn S s) r err c) (\<lambda>c.
          let c = (if res_status r = SWITCHING_PROTOCOLS \<and> res_proto r \<noteq> None then c\<lparr>c_close := True\<rparr> else c) in
          if c_close c then Value c else start S as c))"

definition new_conn :: conn where
  "new_conn = \<lparr>c_close = False, c_calls = 0, c_out = [], c_statuses = []\<rparr>"

section \<open>Ranges of a file\<close>

definition strchr :: "char \<Rightarrow> string \<Rightarrow> string option" where
  "strchr c s = (let r = dropWhile (\<lambda>d. d \<noteq> c) s in if r = [] then None else Some r)"

lemma strchr_shorter: "strchr c s = Some r \<Longrightarrow> length r \<le> length s"
  using length_dropWhile_le [of "\<lambda>d. d \<noteq> c" s] by (auto simp: strchr_def Let_def split: if_splits)

text \<open>\<open>while (*it++ == ' ')\<close>\<close>

definition after_spaces :: "string \<Rightarrow> string" where
  "after_spaces s = tl (dropWhile (\<lambda>d. d = CHR '' '') s)"

lemma strchr_after_spaces: "strchr c (after_spaces (d # s)) = Some r \<Longrightarrow> length r \<le> length s"
  using strchr_shorter [of c "after_spaces (d # s)" r] length_dropWhile_le [of "\<lambda>d. d = CHR '' ''" s]
  by (auto simp: after_spaces_def split: if_splits)

definition strtoul :: "string \<Rightarrow> nat" where
  "strtoul s = fst (strtoull (dropWhile isspace s))"

text \<open>The loop of \<open>build_range_resp\<close>, from the character before a range.  \<open>Value None\<close> is a range
  outside the file; without a dash \<open>strchr\<close> is called with the null pointer.\<close>

function range_loop :: "nat \<Rightarrow> string option \<Rightarrow> (nat \<times> nat) list \<Rightarrow> (nat \<times> nat) list option outcome" where
  "range_loop l None rs = Value (Some rs)"
| "range_loop l (Some []) rs = Value (Some rs)"
| "range_loop l (Some (c # s)) rs =
     (let it = after_spaces (c # s);
          from = strtoul it;
          dash = strchr (CHR ''-'') it;
          til = (case dash of Some (d # t) \<Rightarrow> (if t \<noteq> [] then (strtoul t + 1) mod 2 ^ 64 else l) | _ \<Rightarrow> l) in
      if from > til \<or> from \<ge> l \<or> til > l then Value None
      else (case dash of
              Some (d # t) \<Rightarrow> range_loop l (strchr (CHR '','') t) (rs @ [(from, til)])
            | _ \<Rightarrow> Undefined))"
  by pat_completeness auto
termination
proof (relation "measure (\<lambda>(l, it, rs). case it of Some s \<Rightarrow> length s | None \<Rightarrow> 0)", goal_cases)
  case (2 l c s rs x xa xb xc x2 x21 x22)
  then have "Suc (length x22) \<le> length s" using strchr_after_spaces [of "CHR ''-''" c s "x21 # x22"] by simp
  then show ?case using strchr_shorter [of "CHR '',''" x22] by (auto split: option.split dest: le_less_trans)
qed simp

declare range_loop.simps [simp del]

text \<open>A file in the cache is a descriptor or its bytes.\<close>

definition build_range_resp :: "nat option \<Rightarrow> string \<Rightarrow> string \<Rightarrow> 'p response \<Rightarrow> 'p response outcome" where
  "build_range_resp fd content rng r =
     map_out (\<lambda>ranges. case ranges of
         None \<Rightarrow> end_status 416 r
       | Some [] \<Rightarrow> r
       | Some [(from, til)] \<Rightarrow>
           end_status 206 (res_header ''Content-Range''
             (''bytes '' @ dec_text from @ ''-'' @ dec_text ((til + 2 ^ 64 - 1) mod 2 ^ 64) @ ''/'' @ dec_text (length content))
             (add_chunk (case fd of Some f \<Rightarrow> FdChunk f from til | None \<Rightarrow> MemChunk content from til) r))
       | _ \<Rightarrow> end_status 406 r)
       (range_loop (length content) (strchr (CHR ''='') rng) [])"

end
