(* ===== verification/ServerSpec.thy ===== *)
theory ServerSpec
  imports Server
begin

text \<open>
  What a connection does with a request: the order of the middlewares, the answer to an exception,
  the bytes on the wire, the cookies and the ranges of a file.
\<close>

section \<open>The order of the middlewares\<close>

text \<open>Middlewares and a handler that throw nothing, as pairs of functions.\<close>

definition quiet :: "('s \<times> 'p response \<Rightarrow> 's \<times> 'p response) \<times> ('s \<times> 'p response \<Rightarrow> 's \<times> 'p response) \<Rightarrow> ('s, 'p) middleware" where
  "quiet ba = \<lparr>mw_before = \<lambda>x. Ran (fst ba x), mw_after = \<lambda>x. Ran (snd ba x)\<rparr>"

definition quiet_handler :: "('s \<times> 'p response \<Rightarrow> 's \<times> 'p response) \<Rightarrow> ('s \<times> 'p response \<Rightarrow> 's \<times> 'p response) \<Rightarrow> ('s, 'p) handler" where
  "quiet_handler b h = \<lparr>h_before = \<lambda>x. Ran (b x), h_handle = \<lambda>x. Ran (h x)\<rparr>"

text \<open>The middlewares that see the request: up to the first that completes the response.\<close>

fun entered :: "(('s \<times> 'p response \<Rightarrow> 's \<times> 'p response) \<times> ('s \<times> 'p response \<Rightarrow> 's \<times> 'p response)) list \<Rightarrow> 's \<times> 'p response \<Rightarrow>
    (('s \<times> 'p response \<Rightarrow> 's \<times> 'p response) \<times> ('s \<times> 'p response \<Rightarrow> 's \<times> 'p response)) list" where
  "entered [] x = []"
| "entered (m # ms) x = m # (if iscompleted (fst m x) then [] else entered ms (fst m x))"

text \<open>The requests pass the middlewares from the first to the last, and the answers back.\<close>

definition befores :: "(('a \<Rightarrow> 'a) \<times> ('a \<Rightarrow> 'a)) list \<Rightarrow> 'a \<Rightarrow> 'a" where
  "befores ms x = fold fst ms x"

definition afters :: "(('a \<Rightarrow> 'a) \<times> ('a \<Rightarrow> 'a)) list \<Rightarrow> 'a \<Rightarrow> 'a" where
  "afters ms x = foldr snd ms x"

lemma helper_quiet:
  "middleware_call_helper (map quiet ms) x =
    (let n = entered ms x; y = befores n x; stop = n \<noteq> [] \<and> iscompleted y in (stop, Ran (if stop then afters n y else y)))"
proof (induction ms arbitrary: x)
  case (Cons m ms)
  have e: "entered ms y = [] \<longleftrightarrow> ms = []" for y by (cases ms) simp_all
  show ?case using Cons [of "fst m x"]
    by (auto simp: quiet_def Let_def befores_def afters_def e split: if_splits)
qed (simp add: befores_def Let_def)

lemma after_quiet: "n \<le> length ms \<Longrightarrow> after_handlers_call_helper n (map quiet ms) x = Ran (afters (take n ms) x)"
proof (induction n arbitrary: x)
  case (Suc n)
  have "take (Suc n) ms = take n ms @ [ms ! n]" using Suc.prems by (simp add: take_Suc_conv_app_nth)
  with Suc show ?case by (simp add: quiet_def afters_def)
qed (simp add: afters_def)

text \<open>C10: A request that no handler refuses with an exception passes the \<open>before\<close> functions in order up to
  the first middleware that completes the response; the \<open>after\<close> functions of those middlewares then
  run in reverse order, the handler of the request runs unless the response is complete, and at last
  the \<open>after\<close> functions of all middlewares run in reverse order, a second time for those that ran
  already and also for those that never saw the request.\<close>

theorem middleware_order:
  "run_request (quiet_handler b h) (map quiet ms) x =
    (let n = entered ms (b x); y = befores n (b x);
         z = (if n \<noteq> [] \<and> iscompleted y then afters n y else y)
     in Ran (afters ms (if iscompleted z then z else h z)))"
proof -
  have "after_handlers_call_helper (length (map quiet ms)) (map quiet ms) z = Ran (afters ms z)" for z :: "'a \<times> 'b response"
    using after_quiet [of "length ms" ms z] by simp
  then show ?thesis
    unfolding run_request_def helper_quiet Let_def by (simp add: quiet_handler_def)
qed

section \<open>Exceptions\<close>

lemma error_status_range: "CONTINUE \<le> error_status c \<and> error_status c \<le> BAD_VERSION"
  by (auto simp: error_status_def CONTINUE_def BAD_VERSION_def INTERNAL_ERROR_def)

lemma caught_status: "CONTINUE \<le> res_status (caught e r) \<and> res_status (caught e r) \<le> BAD_VERSION"
  using error_status_range by (cases e) (simp_all add: CONTINUE_def BAD_VERSION_def INTERNAL_ERROR_def)

lemma caught_headers: "res_headers (caught e r) = res_headers r \<and> res_chunks (caught e r) = res_chunks r"
  by (cases e) simp_all

lemma send_closes: "send_response S conn r True c = Value c' \<Longrightarrow> c_close c'"
  by (cases "s_isopen S (c_calls c)"; cases "write_response (s_file S) (send_chunk (s_config S)) (s_accept S) (c_calls c)
      (response_pieces (response_head (s_config S) (s_date S (c_calls c)) True (closes conn True (c_close c)) (res_status r)
        (final_response (s_http_date S) r)) (final_response (s_http_date S) r))")
    (auto simp: send_response_def Let_def closes_def)

text \<open>C12: A request whose handling ends with an exception gets one response, with a status between 100
  and 505 and the text of the exception, and it is the last of the connection: what arrives later is
  not read.\<close>

theorem request_error_closes:
  assumes "run_request (s_handler S) (s_middlewares S) (s, Response OK) = Failed e (s', r)"
  shows "start S (Arrived s # as) c = send_response S (s_conn S s') (caught e r) True c \<and>
    CONTINUE \<le> res_status (caught e r) \<and> res_status (caught e r) \<le> BAD_VERSION"
proof -
  have h: "handle_request (s_handler S) (s_middlewares S) s = (s', caught e r, True)"
    using assms by (simp add: handle_request_def)
  show ?thesis
  proof (cases "send_response S (s_conn S s') (caught e r) True c")
    case (Value c')
    then have "c_close c'" by (rule send_closes)
    then have "(if res_status (caught e r) = SWITCHING_PROTOCOLS \<and> res_proto (caught e r) \<noteq> None then c'\<lparr>c_close := True\<rparr> else c') = c'"
      by (cases c') simp
    then have "start S (Arrived s # as) c = Value c'" using h Value \<open>c_close c'\<close> by (simp add: Let_def)
    then show ?thesis unfolding Value using caught_status by blast
  qed (use h caught_status in simp_all)
qed

section \<open>The bytes on the wire\<close>

text \<open>A socket that takes what it is given.\<close>

lemma send_mem_all:
  assumes "sc > 0" and "\<And>k s. accept k s \<ge> length s"
  shows "nsent < length d \<Longrightarrow> \<exists>k'. send_mem sc accept k d nsent = (True, k', drop nsent d)"
proof (induction "length d - nsent" arbitrary: k nsent rule: less_induct)
  case less
  let ?piece = "take (min sc (length d - nsent)) (drop nsent d)"
  have p: "length ?piece = min sc (length d - nsent)" "?piece \<noteq> []" using less.prems assms(1) by auto
  have rc: "min (accept k ?piece) (length ?piece) = length ?piece" by (rule min_absorb2) (rule assms(2))
  let ?n = "nsent + length ?piece"
  have split: "?piece @ drop ?n d = drop nsent d"
    by (metis append_take_drop_id drop_drop add.commute p(1))
  show ?case
  proof (cases "?n < length d")
    case True
    have "length d - ?n < length d - nsent" using p True less.prems by simp
    from less.hyps [OF this True, of "Suc k"] obtain k' where "send_mem sc accept (Suc k) d ?n = (True, k', drop ?n d)" by blast
    then show ?thesis using True p rc split by (subst send_mem.simps) (simp add: Let_def)
  next
    case False
    then have "drop ?n d = []" by simp
    then have "?piece = drop nsent d" using split by simp
    then show ?thesis using False p rc by (subst send_mem.simps) (simp add: Let_def)
  qed
qed

lemma write_mem:
  assumes "sc > 0" and "\<And>k s. accept k s \<ge> length s"
  shows "\<forall>d \<in> set ds. d \<noteq> [] \<Longrightarrow>
    \<exists>k'. write_response file sc accept k (map (\<lambda>d. MemChunk d 0 (length d)) ds) = Value (True, k', concat ds)"
proof (induction ds arbitrary: k)
  case (Cons d ds)
  obtain k1 where 1: "send_mem sc accept k d 0 = (True, k1, d)"
    using send_mem_all [OF assms(1), of accept 0 d k, OF assms(2)] Cons.prems by (cases d) auto
  obtain k2 where "write_response file sc accept k1 (map (\<lambda>d. MemChunk d 0 (length d)) ds) = Value (True, k2, concat ds)"
    using Cons.IH Cons.prems by auto
  with 1 show ?case by simp
qed simp

lemma fold_cookie_keeps:
  "res_body (fold (\<lambda>(k, ck) r. if ck_name ck = [] \<or> ck_value ck = [] then r else res_header ''Set-Cookie'' (t ck) r) cks r) = res_body r \<and>
   res_chunks (fold (\<lambda>(k, ck) r. if ck_name ck = [] \<or> ck_value ck = [] then r else res_header ''Set-Cookie'' (t ck) r) cks r) = res_chunks r"
  by (induction cks arbitrary: r) (auto simp: res_header_def)

lemma flush_keeps [simp]: "res_body (flush_cookies d r) = res_body r" "res_chunks (flush_cookies d r) = res_chunks r"
  unfolding flush_cookies_def using fold_cookie_keeps by blast+

text \<open>C11: On an open socket that takes every byte, a response without pieces of files is sent as its head and
  its body, whatever the size of the parts it is cut into, and the connection stays open unless the
  request or an earlier event asked to close it.\<close>

theorem response_sent:
  assumes "send_chunk (s_config S) > 0" and "\<And>k s. s_accept S k s \<ge> length s" and "res_chunks r = []" and "s_isopen S (c_calls c)"
  shows "\<exists>c'. send_response S conn r err c = Value c' \<and>
    c_out c' = c_out c @ response_head (s_config S) (s_date S (c_calls c)) err (closes conn err (c_close c)) (res_status r)
        (final_response (s_http_date S) r) @ res_body (final_response (s_http_date S) r) \<and>
    c_close c' = closes conn err (c_close c) \<and> c_statuses c' = c_statuses c @ [res_status r]"
proof -
  let ?f = "final_response (s_http_date S) r"
  let ?head = "response_head (s_config S) (s_date S (c_calls c)) err (closes conn err (c_close c)) (res_status r) ?f"
  have ch: "res_chunks ?f = []" using assms(3) by (simp add: final_response_def)
  have head: "?head \<noteq> []" by (simp add: response_head_def CRLF_def)
  let ?ds = "?head # (if res_body ?f = [] then [] else [res_body ?f])"
  have ds: "\<forall>d \<in> set ?ds. d \<noteq> []" using head by simp
  obtain k' where "write_response (s_file S) (send_chunk (s_config S)) (s_accept S) (c_calls c)
      (map (\<lambda>d. MemChunk d 0 (length d)) ?ds) = Value (True, k', concat ?ds)"
    using write_mem [OF assms(1), of "s_accept S" ?ds, OF assms(2) ds] by blast
  moreover have "map (\<lambda>d. MemChunk d 0 (length d)) ?ds = response_pieces ?head ?f"
    using ch by (simp add: response_pieces_def)
  moreover have "concat ?ds = ?head @ res_body ?f" by simp
  ultimately have "write_response (s_file S) (send_chunk (s_config S)) (s_accept S) (c_calls c) (response_pieces ?head ?f) =
      Value (True, k', ?head @ res_body ?f)" by (simp only:)
  then show ?thesis using assms(4) by (simp add: send_response_def Let_def)
qed

text \<open>A server on such a socket whose handler answers every request with a text.\<close>

definition sample_server :: "(unit, unit) server" where
  "sample_server = \<lparr>s_config = \<lparr>keep_alive_time = 0, hsts_enable = 0, server_name = ''s'', send_chunk = 7\<rparr>,
     s_handler = quiet_handler id (\<lambda>(s, r). (s, end_body OK ''hello'' r)), s_middlewares = [],
     s_conn = \<lambda>_. [], s_date = \<lambda>_. ''d'', s_http_date = \<lambda>_. [], s_file = \<lambda>_. [], s_accept = \<lambda>_ s. length s, s_isopen = \<lambda>_. True\<rparr>"

lemma response_sent_witness:
  "\<exists>c'. send_response sample_server [] (Response_text ''hello'') False new_conn = Value c' \<and>
    c_out c' = ''HTTP/1.1 200 OK'' @ CRLF @ ''Server: s'' @ CRLF @ ''Date: d'' @ CRLF @ ''Content-Length: 5'' @ CRLF @ CRLF @ ''hello''"
proof -
  have "send_chunk (s_config sample_server) > 0" "\<And>k s. s_accept sample_server k s \<ge> length s" "res_chunks (Response_text ''hello'') = []"
      "s_isopen sample_server (c_calls new_conn)"
    by (simp_all add: sample_server_def Response_text_def Response_def)
  moreover have "dec_text (length ''hello'') = ''5''" by code_simp
  ultimately show ?thesis using response_sent [of sample_server "Response_text ''hello''" new_conn "[]" False]
    by (auto simp: sample_server_def Response_text_def Response_def response_head_def final_response_def flush_cookies_def
        new_conn_def closes_def status_text_def status_lines_def OK_def BAD_REQUEST_def res_length_def)
qed

lemma request_error_closes_witness:
  "\<exists>c. start (sample_server\<lparr>s_handler := \<lparr>h_before = \<lambda>x. Failed (HttpException 404 ''no'') x, h_handle = Ran\<rparr>\<rparr>)
      [Arrived (), Arrived ()] new_conn = Value c \<and> c_statuses c = [404]"
proof -
  let ?S = "sample_server\<lparr>s_handler := \<lparr>h_before = \<lambda>x. Failed (HttpException 404 ''no'') x, h_handle = Ran\<rparr>\<rparr>"
  let ?e = "caught (HttpException 404 ''no'') (Response OK) :: unit response"
  have run: "run_request (s_handler ?S) (s_middlewares ?S) ((), Response OK) = Failed (HttpException 404 ''no'') ((), Response OK)"
    by (simp add: run_request_def)
  have "send_chunk (s_config ?S) > 0" "\<And>k s. s_accept ?S k s \<ge> length s" "res_chunks ?e = []" "s_isopen ?S (c_calls new_conn)"
    by (simp_all add: sample_server_def Response_def)
  from response_sent [OF this, of "[]" True] obtain c where
    "send_response ?S [] ?e True new_conn = Value c" "c_statuses c = [404]"
    by (auto simp: new_conn_def error_status_def CONTINUE_def BAD_VERSION_def)
  moreover have "s_conn ?S () = []" by (simp add: sample_server_def)
  ultimately show ?thesis using request_error_closes [OF run, of "[Arrived ()]" new_conn] by auto
qed

section \<open>Cookies\<close>

definition sendable :: "string \<times> cookie \<Rightarrow> bool" where
  "sendable kc \<longleftrightarrow> ck_name (snd kc) \<noteq> [] \<and> ck_value (snd kc) \<noteq> []"

definition cookie_headers :: "'p response \<Rightarrow> string list" where
  "cookie_headers r = map snd (filter (\<lambda>h. fst h = ''Set-Cookie'') (res_headers r))"

lemma cookie_headers_empty: "cookie_headers r = [] \<longleftrightarrow> ''Set-Cookie'' \<notin> fst ` set (res_headers r)"
  by (force simp: cookie_headers_def filter_empty_conv)

lemma cookie_headers_add: "cookie_headers (res_header ''Set-Cookie'' t r) = (if cookie_headers r = [] then [t] else cookie_headers r)"
proof (cases "''Set-Cookie'' \<in> fst ` set (res_headers r)")
  case True
  then show ?thesis using cookie_headers_empty [of r] by (simp add: cookie_headers_def res_header_def emplace_def)
next
  case False
  then have "cookie_headers r = []" using cookie_headers_empty by blast
  with False show ?thesis by (simp add: cookie_headers_def res_header_def emplace_def)
qed

text \<open>C31: However many cookies a response has, at most one is sent: every cookie is put under the header
  \<open>Set-Cookie\<close>, and the map of the headers keeps the first.\<close>

theorem cookies_lost:
  assumes "cookie_headers r = []"
  shows "cookie_headers (flush_cookies d r) = take 1 (map (cookie_text d \<circ> snd) (filter sendable (res_cookies r)))"
proof -
  have "cookie_headers (fold (\<lambda>(k, ck) r. if ck_name ck = [] \<or> ck_value ck = [] then r else res_header ''Set-Cookie'' (cookie_text d ck) r) cks x) =
      (if cookie_headers x = [] then take 1 (map (cookie_text d \<circ> snd) (filter sendable cks)) else cookie_headers x)"
    for cks and x :: "'a response"
  proof (induction cks arbitrary: x)
    case (Cons kc cks)
    then show ?case by (cases kc) (auto simp: sendable_def cookie_headers_add)
  qed simp
  with assms show ?thesis by (simp add: flush_cookies_def)
qed

lemma cookies_lost_witness:
  "cookie_headers (flush_cookies (\<lambda>_. []) (res_cookie (Cookie ''b'' ''2'') (res_cookie (Cookie ''a'' ''1'') (Response OK)))) = [''a=1'']"
  using cookies_lost [of "res_cookie (Cookie ''b'' ''2'') (res_cookie (Cookie ''a'' ''1'') (Response OK))" "\<lambda>_. []"]
  by (simp add: cookie_headers_def res_cookie_def Cookie_def cookie_moved_def emplace_def Response_def sendable_def cookie_text_def)

section \<open>Ranges\<close>

text \<open>What is sent for a piece of a file that is given by its first byte and the byte behind its last.\<close>

lemma send_file_all:
  assumes "sc > 0" and "\<And>k s. accept k s \<ge> length s"
  shows "nsent < length d \<Longrightarrow> \<exists>k'. send_file sc accept k d nsent = (True, k', drop nsent d)"
proof (induction "length d - nsent" arbitrary: k nsent rule: less_induct)
  case less
  let ?piece = "take (min sc (length d - nsent)) (drop nsent d)"
  have p: "length ?piece = min sc (length d - nsent)" "?piece \<noteq> []" using less.prems assms(1) by auto
  have rc: "min (accept k ?piece) (length ?piece) = length ?piece" by (rule min_absorb2) (rule assms(2))
  let ?n = "nsent + length ?piece"
  have split: "?piece @ drop ?n d = drop nsent d"
    by (metis append_take_drop_id drop_drop add.commute p(1))
  show ?case
  proof (cases "?n < length d")
    case True
    have "length d - ?n < length d - nsent" using p True less.prems by simp
    from less.hyps [OF this True, of "Suc k"] obtain k' where "send_file sc accept (Suc k) d ?n = (True, k', drop ?n d)" by blast
    then show ?thesis using True p rc split by (subst send_file.simps) (simp add: Let_def)
  next
    case False
    then have "drop ?n d = []" by simp
    then have "?piece = drop nsent d" using split by simp
    then show ?thesis using False p rc by (subst send_file.simps) (simp add: Let_def)
  qed
qed




end
