(* ===== verification/ServerParse.thy ===== *)
theory ServerParse
  imports ServerSpec HttpFeed
begin

text \<open>
  The responses of the server, read by the parser that the client of the same library uses.
\<close>

section \<open>The status line\<close>

text \<open>The version, three digits and a reason on one line.\<close>

definition status_form :: "string \<Rightarrow> bool" where
  "status_form t \<longleftrightarrow> (\<exists>a b c x s. t = ''HTTP/1.1 '' @ [a, b, c, SP, x] @ s \<and> IS_NUM a \<and> IS_NUM b \<and> IS_NUM c \<and>
     CR \<notin> set (x # s) \<and> LF \<notin> set (x # s))"

fun status_form_code :: "string \<Rightarrow> bool" where
  "status_form_code (a # b # c # d # x # s) \<longleftrightarrow> IS_NUM a \<and> IS_NUM b \<and> IS_NUM c \<and> d = SP \<and> CR \<notin> set (x # s) \<and> LF \<notin> set (x # s)"
| "status_form_code _ \<longleftrightarrow> False"

lemma status_form_text: "status_form (status_text st)"
proof -
  let ?ok = "\<lambda>t. take 9 t = ''HTTP/1.1 '' \<and> status_form_code (drop 9 t)"
  have "list_all (\<lambda>p. ?ok (snd p)) status_lines \<and> ?ok ''HTTP/1.1 500  ''" by code_simp
  then have "?ok (status_text st)"
    by (auto simp: status_text_def list_all_iff split: option.split dest!: map_of_SomeD)
  moreover have "t = take 9 t @ drop 9 t" for t :: string by simp
  ultimately show ?thesis unfolding status_form_def
    by (cases "drop 9 (status_text st)" rule: status_form_code.cases) (metis append.simps status_form_code.simps)+
qed

text \<open>The parser of a response up to the end of its headers.\<close>

abbreviation res :: "http_state \<Rightarrow> header_state \<Rightarrow> nat \<Rightarrow> nat \<Rightarrow> nat \<Rightarrow> nat \<Rightarrow> nat \<Rightarrow> http_method \<Rightarrow> bool \<Rightarrow> nat \<Rightarrow>
    message \<Rightarrow> message http_parser" where
  "res st h ix nr mj mi sc m up cl u \<equiv>
     \<lparr>parser_type = HTTP_RESPONSE, flags = no_flags, state = st, header_state = h, index = ix, nread = nr,
      content_length = cl, http_major = mj, http_minor = mi, status_code = sc, method = m, errno = HPE_OK,
      upgrade = up, user = u\<rparr>"

lemma loop_res_start:
  assumes p: "parser_type p = HTTP_RESPONSE" "state p = s_start_res" "errno p = HPE_OK" "nread p = 0"
  shows "loop p mk a (CHR ''H'' # r) =
    loop (res s_res_H (header_state p) (index p) 1 (http_major p) (http_minor p) (status_code p) (method p) (upgrade p)
      ULLONG_MAX (clear_msg (user p))) mk (a @ ''H'') r"
  by (rule loop_step; use assms in \<open>(cases p, simp add: step_simps do_s_start_res_def CALLBACK_NOTIFY_def CALLBACK_NOTIFY_AT_def
      PARSER_SETTINGS_def on_user_def)\<close>)

lemma digit_le: "IS_NUM c \<Longrightarrow> digit c \<le> 9"
  by (auto simp: IS_NUM_def between_def digit_def ucode_def)

lemma num_not: "IS_NUM c \<Longrightarrow> c \<noteq> SP \<and> c \<noteq> CR \<and> c \<noteq> LF"
  by (auto simp: IS_NUM_def between_def ucode_def)

lemma loop_res_steps:
  assumes "nr < 81920"
  shows "loop (res s_res_H h i nr mj mi sc m up cl u) mk a (CHR ''T'' # r) = loop (res s_res_HT h i (nr + 1) mj mi sc m up cl u) mk (a @ ''T'') r"
    and "loop (res s_res_HT h i nr mj mi sc m up cl u) mk a (CHR ''T'' # r) = loop (res s_res_HTT h i (nr + 1) mj mi sc m up cl u) mk (a @ ''T'') r"
    and "loop (res s_res_HTT h i nr mj mi sc m up cl u) mk a (CHR ''P'' # r) = loop (res s_resHTTP h i (nr + 1) mj mi sc m up cl u) mk (a @ ''P'') r"
    and "loop (res s_resHTTP h i nr mj mi sc m up cl u) mk a (CHR ''/'' # r) = loop (res s_res_firstHTTP_major h i (nr + 1) mj mi sc m up cl u) mk (a @ ''/'') r"
    and "loop (res s_res_firstHTTP_major h i nr mj mi sc m up cl u) mk a (CHR ''1'' # r) = loop (res s_resHTTP_major h i (nr + 1) 1 mi sc m up cl u) mk (a @ ''1'') r"
    and "loop (res s_resHTTP_major h i nr mj mi sc m up cl u) mk a (CHR ''.'' # r) = loop (res s_res_firstHTTP_minor h i (nr + 1) mj mi sc m up cl u) mk (a @ ''.'') r"
    and "loop (res s_res_firstHTTP_minor h i nr mj mi sc m up cl u) mk a (CHR ''1'' # r) = loop (res s_resHTTP_minor h i (nr + 1) mj 1 sc m up cl u) mk (a @ ''1'') r"
    and "loop (res s_resHTTP_minor h i nr mj mi sc m up cl u) mk a (SP # r) = loop (res s_res_first_status_code h i (nr + 1) mj mi sc m up cl u) mk (a @ [SP]) r"
    and "loop (res s_res_status_code h i nr mj mi sc m up cl u) mk a (SP # r) = loop (res s_res_status_start h i (nr + 1) mj mi sc m up cl u) mk (a @ [SP]) r"
    and "loop (res s_res_line_almost_done h i nr mj mi sc m up cl u) mk a (LF # r) = loop (res s_header_field_start h i (nr + 1) mj mi sc m up cl u) mk (a @ [LF]) r"
  by (rule loop_step;
      use assms in \<open>simp add: step_simps do_s_res_H_def do_s_res_HT_def do_s_res_HTT_def do_s_resHTTP_def
        do_s_res_firstHTTP_major_def do_s_resHTTP_major_def do_s_res_firstHTTP_minor_def do_s_resHTTP_minor_def
        do_s_res_status_code_def do_s_res_line_almost_done_def between_def ucode_def digit_def IS_NUM_def\<close>)+

lemma loop_res_digits:
  assumes "nr < 81920" and d: "IS_NUM d"
  shows "loop (res s_res_first_status_code h i nr mj mi sc m up cl u) mk a (d # r) =
      loop (res s_res_status_code h i (nr + 1) mj mi (digit d) m up cl u) mk (a @ [d]) r"
    and "sc \<le> 99 \<Longrightarrow> loop (res s_res_status_code h i nr mj mi sc m up cl u) mk a (d # r) =
      loop (res s_res_status_code h i (nr + 1) mj mi (sc * 10 + digit d) m up cl u) mk (a @ [d]) r"
proof -
  show "loop (res s_res_first_status_code h i nr mj mi sc m up cl u) mk a (d # r) =
      loop (res s_res_status_code h i (nr + 1) mj mi (digit d) m up cl u) mk (a @ [d]) r"
    by (rule loop_step; use assms in \<open>simp add: step_simps do_s_res_first_status_code_def\<close>)
  assume "sc \<le> 99"
  then have "sc * 10 + digit d \<le> 999" using digit_le [OF d] by simp
  then have "push_digit16 sc d = sc * 10 + digit d" "sc * 10 + digit d \<le> 999" by (simp_all add: push_digit16_def)
  then show "loop (res s_res_status_code h i nr mj mi sc m up cl u) mk a (d # r) =
      loop (res s_res_status_code h i (nr + 1) mj mi (sc * 10 + digit d) m up cl u) mk (a @ [d]) r"
    by (intro loop_step) (use assms in \<open>simp_all add: step_simps do_s_res_status_code_def\<close>)
qed

lemma loop_res_reason_start:
  assumes "nr < 81920" and "x \<noteq> CR" and "x \<noteq> LF"
  shows "loop (res s_res_status_start h i nr mj mi sc m up cl u) mk a (x # r) =
      loop (res s_res_status h 0 (nr + 1) mj mi sc m up cl u) (if mk M_status = None then mk(M_status := Some (length a)) else mk) (a @ [x]) r"
  by (rule loop_step; use assms in \<open>simp add: step_simps do_s_res_status_start_def\<close>)

lemma loop_res_reason:
  assumes "CR \<notin> set s" and "LF \<notin> set s" and "nr + length s < 81920"
  shows "loop (res s_res_status h i nr mj mi sc m up cl u) mk a (s @ r) =
      loop (res s_res_status h i (nr + length s) mj mi sc m up cl u) mk (a @ s) r"
  using assms
proof (induction s arbitrary: nr a)
  case (Cons x s)
  have x: "x \<noteq> CR" "x \<noteq> LF" using Cons.prems by auto
  have "loop (res s_res_status h i nr mj mi sc m up cl u) mk a (x # s @ r) =
      loop (res s_res_status h i (nr + 1) mj mi sc m up cl u) mk (a @ [x]) (s @ r)"
    by (rule loop_step; use Cons.prems x in \<open>simp add: step_simps do_s_res_status_def\<close>)
  with Cons.IH [of "nr + 1" "a @ [x]"] Cons.prems show ?case by simp
qed simp

lemma loop_res_reason_end:
  assumes "nr < 81920"
  shows "loop (res s_res_status h i nr mj mi sc m up cl u) ((\<lambda>_. None)(M_status := Some k)) a (CR # r) =
      loop (res s_res_line_almost_done h i (nr + 1) mj mi sc m up cl u) (\<lambda>_. None) (a @ [CR]) r"
  by (rule loop_step; use assms in \<open>simp add: step_simps do_s_res_status_def CALLBACK_DATA_def CALLBACK_DATA_AT_def PARSER_SETTINGS_def\<close>)

lemma status_text_length: "length (status_text st) \<le> 100"
proof -
  have "list_all (\<lambda>p. length (snd p) \<le> 100) status_lines \<and> length ''HTTP/1.1 500  '' \<le> 100" by code_simp
  then show ?thesis
    by (auto simp: status_text_def list_all_iff split: option.split dest!: map_of_SomeD)
qed

text \<open>A parser at the start of a response, and after its first line.\<close>

definition at_response :: "message http_parser \<Rightarrow> bool" where
  "at_response p \<longleftrightarrow> parser_type p = HTTP_RESPONSE \<and> state p = s_start_res \<and> errno p = HPE_OK \<and> nread p = 0"

lemma loop_res_line:
  assumes "at_response p" and "status_form t" and l: "length t + 2 < 81920"
  shows "\<exists>i sc. loop p (\<lambda>_. None) [] (t @ CR # LF # r) =
    loop (res s_header_field_start (header_state p) i (length t + 2) 1 1 sc (method p) (upgrade p) ULLONG_MAX (clear_msg (user p)))
      (\<lambda>_. None) (t @ [CR, LF]) r"
proof -
  obtain d1 d2 d3 x s where t: "t = ''HTTP/1.1 '' @ [d1, d2, d3, SP, x] @ s" and d: "IS_NUM d1" "IS_NUM d2" "IS_NUM d3"
    and s: "CR \<notin> set s" "LF \<notin> set s" "x \<noteq> CR" "x \<noteq> LF"
    using assms(2) by (auto simp: status_form_def)
  have n: "14 + length s + 2 < 81920" using l by (simp add: t)
  have sc: "digit d1 \<le> 99" "digit d1 * 10 + digit d2 \<le> 99" using digit_le [OF d(1)] digit_le [OF d(2)] by simp_all
  have L: "loop p (\<lambda>_. None) [] (CHR ''H'' # CHR ''T'' # CHR ''T'' # CHR ''P'' # CHR ''/'' # CHR ''1'' # CHR ''.'' # CHR ''1'' #
      SP # d1 # d2 # d3 # SP # x # s @ CR # LF # r) =
    loop (res s_header_field_start (header_state p) 0 (Suc (Suc (Suc (Suc (Suc (Suc (Suc (Suc (Suc (Suc (Suc (Suc (Suc (Suc (Suc (Suc (length s))))))))))))))))) 1 1 ((digit d1 * 10 + digit d2) * 10 + digit d3)
      (method p) (upgrade p) ULLONG_MAX (clear_msg (user p))) (\<lambda>_. None)
      (''HTTP/1.1'' @ SP # d1 # d2 # d3 # SP # x # s @ [CR, LF]) r"
    using assms(1) d s sc n
    by (simp add: at_response_def loop_res_start loop_res_steps loop_res_digits loop_res_reason_start loop_res_reason
      loop_res_reason_end)
  have N: "Suc (Suc (Suc (Suc (Suc (Suc (Suc (Suc (Suc (Suc (Suc (Suc (Suc (Suc (Suc (Suc (length s)))))))))))))))) = length t + 2" by (simp add: t)
  have T: "t @ CR # LF # r = CHR ''H'' # CHR ''T'' # CHR ''T'' # CHR ''P'' # CHR ''/'' # CHR ''1'' # CHR ''.'' # CHR ''1'' #
      SP # d1 # d2 # d3 # SP # x # s @ CR # LF # r"
    "t @ [CR, LF] = ''HTTP/1.1'' @ SP # d1 # d2 # d3 # SP # x # s @ [CR, LF]" by (simp_all add: t)
  show ?thesis unfolding T using L unfolding N by blast
qed

section \<open>A header of a response\<close>

lemma loop_res_name_start:
  assumes t: "TOKEN ch \<noteq> NUL" and "nr < 81920"
  shows "\<exists>h'. loop (res s_header_field_start h i nr mj mi sc m up cl u) (\<lambda>_. None) a (ch # r) =
      loop (res s_header_field h' 0 (nr + 1) mj mi sc m up cl u) ((\<lambda>_. None)(M_header_field := Some (length a))) (a @ [ch]) r \<and>
    name_inv h' 0 [TOKEN ch]"
proof -
  let ?h = "if TOKEN ch = CHR ''c'' then h_C else if TOKEN ch = CHR ''p'' then h_matching_proxy_connection
    else if TOKEN ch = CHR ''t'' then h_matching_transfer_encoding
    else if TOKEN ch = CHR ''u'' then h_matching_upgrade else h_general"
  have "loop (res s_header_field_start h i nr mj mi sc m up cl u) (\<lambda>_. None) a (ch # r) =
      loop (res s_header_field ?h 0 (nr + 1) mj mi sc m up cl u) ((\<lambda>_. None)(M_header_field := Some (length a))) (a @ [ch]) r"
    by (rule loop_step; use assms token_not [OF t] in \<open>simp add: step_simps do_s_header_field_start_def\<close>)
  moreover have "name_inv ?h 0 [TOKEN ch]" by (simp add: part_of_def known_names_def)
  ultimately show ?thesis by blast
qed

lemma loop_res_name:
  assumes "\<forall>c \<in> set s. TOKEN c \<noteq> NUL" and "name_inv h i w" and "CHR ''C'' \<notin> set w" and "nr + length s < 81920"
  shows "\<exists>h' i'. loop (res s_header_field h i nr mj mi sc m up cl u) mk a (s @ r) =
      loop (res s_header_field h' i' (nr + length s) mj mi sc m up cl u) mk (a @ s) r"
  using assms
proof (induction s arbitrary: h i w nr a)
  case (Cons c s)
  have t: "TOKEN c \<noteq> NUL" using Cons.prems(1) by simp
  let ?c = "\<lparr>parser = res s_header_field h i (nr + 1) mj mi sc m up cl u, mark = mk, pos = length a\<rparr>"
  have w: "CHR ''C'' \<notin> set (w @ [TOKEN c])" using Cons.prems(3) TOKEN_upper [of c] by auto
  then obtain h' i' where s: "header_field_token c (TOKEN c) ?c =
      Next (?c\<lparr>parser := (parser ?c)\<lparr>header_state := h', index := i'\<rparr>\<rparr>)" "name_inv h' i' (w @ [TOKEN c])"
    using name_step [of ?c w "TOKEN c" c] Cons.prems(2) token_not [OF t] by auto
  have "loop (res s_header_field h i nr mj mi sc m up cl u) mk a (c # s @ r) =
      loop (res s_header_field h' i' (nr + 1) mj mi sc m up cl u) mk (a @ [c]) (s @ r)"
    using s(1) t Cons.prems(4)
    by (intro loop_step) (simp_all add: PARSING_HEADER_def less_eq_http_state_def exec_state_def do_s_header_field_def Let_def)
  moreover have "\<exists>h'' i''. loop (res s_header_field h' i' (nr + 1) mj mi sc m up cl u) mk (a @ [c]) (s @ r) =
      loop (res s_header_field h'' i'' (nr + 1 + length s) mj mi sc m up cl u) mk ((a @ [c]) @ s) r"
    using Cons.prems(1,4) w by (intro Cons.IH [OF _ s(2)]) auto
  ultimately show ?case by auto
qed auto

text \<open>A space after the name is refused.\<close>

lemma loop_res_name_space:
  assumes "nr < 81920"
  shows "\<exists>c. loop (res s_header_field h i nr mj mi sc m up cl u) mk a (SP # r) = Some (Error c) \<and>
    errno (parser c) = HPE_INVALID_HEADER_TOKEN \<and> pos c = length a"
proof -
  let ?E = "\<lparr>settings = PARSER_SETTINGS, buf = a @ SP # r\<rparr>"
  let ?c = "\<lparr>parser = res s_header_field h i nr mj mi sc m up cl u, mark = mk, pos = length a\<rparr>"
  let ?c1 = "upd (\<lambda>p. p\<lparr>nread := nr + 1\<rparr>) ?c"
  have "count_byte ?c = Next ?c1"
    using assms by (simp add: count_byte_def PARSING_HEADER_def less_eq_http_state_def HTTP_MAX_HEADER_SIZE_def upd_def Let_def)
  moreover have "exec_byte ?E SP ?c1 = Some (fail HPE_INVALID_HEADER_TOKEN ?c1)"
    by (simp add: exec_byte_run exec_state_def upd_def do_s_header_field_def TOKEN_punct fail_def)
  moreover have "fail HPE_INVALID_HEADER_TOKEN ?c1 = Error (upd (\<lambda>p. p\<lparr>errno := HPE_INVALID_HEADER_TOKEN\<rparr>) ?c1)"
    by (simp add: fail_def upd_def)
  ultimately show ?thesis unfolding loop_def by (subst exec_loop_next) (simp_all add: upd_def)
qed

lemma loop_res_header_space:
  assumes "n \<noteq> []" and "\<forall>c \<in> set n. TOKEN c \<noteq> NUL" and "nr + length n < 81920"
  shows "\<exists>c. loop (res s_header_field_start h i nr mj mi sc m up cl u) (\<lambda>_. None) a (n @ SP # r) = Some (Error c) \<and>
    errno (parser c) = HPE_INVALID_HEADER_TOKEN \<and> pos c = length (a @ n)"
proof -
  obtain ch s where n: "n = ch # s" using assms(1) by (cases n) auto
  have t: "TOKEN ch \<noteq> NUL" "\<forall>c \<in> set s. TOKEN c \<noteq> NUL" using assms(2) by (auto simp: n)
  have l: "nr < 81920" "nr + 1 + length s < 81920" using assms(3) by (simp_all add: n)
  let ?mk = "(\<lambda>_. None)(M_header_field := Some (length a))"
  obtain h1 where 1: "loop (res s_header_field_start h i nr mj mi sc m up cl u) (\<lambda>_. None) a (ch # s @ SP # r) =
      loop (res s_header_field h1 0 (nr + 1) mj mi sc m up cl u) ?mk (a @ [ch]) (s @ SP # r)" "name_inv h1 0 [TOKEN ch]"
    using loop_res_name_start [OF t(1) l(1)] by blast
  have "CHR ''C'' \<notin> set [TOKEN ch]" using TOKEN_upper [of ch] by auto
  from loop_res_name [OF t(2) 1(2) this l(2), of cl mj mi sc m up u ?mk "a @ [ch]" "SP # r"]
  obtain h2 i2 where 2: "loop (res s_header_field h1 0 (nr + 1) mj mi sc m up cl u) ?mk (a @ [ch]) (s @ SP # r) =
      loop (res s_header_field h2 i2 (nr + 1 + length s) mj mi sc m up cl u) ?mk ((a @ [ch]) @ s) (SP # r)"
    by blast
  show ?thesis
    using 1(1) 2 loop_res_name_space [OF l(2), of h2 i2 cl mj mi sc m up u ?mk "(a @ [ch]) @ s" r] by (simp add: n)
qed

lemma feed_error:
  assumes "at_response p" and "data \<noteq> []" and "loop p (\<lambda>_. None) [] data = Some (Error c)"
    and "errno (parser c) \<noteq> HPE_OK" and "pos c < length data"
  shows "feed data p = Some (False, parser c)"
proof -
  have "initial_marks (state p) = (\<lambda>_. None)"
    using assms(1) by (auto simp: at_response_def initial_marks_def url_states_def fun_eq_iff split: mark_kind.split)
  then show ?thesis
    using assms by (simp add: feed_def Let_def http_parser_execute_def finish_def error_exit_def loop_def at_response_def)
qed

lemma response_head_start:
  assumes "err \<or> (keep_alive_time cfg = 0 \<or> close) \<and> hsts_enable cfg = 0"
  shows "\<exists>A. response_head cfg date err close st r = status_text st @ CRLF @ concat (map header_line (res_headers r)) @ A"
proof (cases err)
  case True
  show ?thesis unfolding response_head_def if_P [OF True] append_Nil by blast
next
  case False
  with assms have "\<not> (keep_alive_time cfg \<noteq> 0 \<and> \<not> close)" "\<not> hsts_enable cfg \<noteq> 0" by auto
  then show ?thesis unfolding response_head_def if_not_P [OF False] by (simp only: if_False append_Nil) blast
qed

text \<open>C30: The client of the library cannot read a response of its server that starts with a header which
  the application has set: the server puts a space before the colon, and the parser stops there with
  an invalid header token.\<close>

theorem response_header_rejected:
  assumes "at_response p" and "res_headers r = (n, v) # hs"
    and "err \<or> (keep_alive_time cfg = 0 \<or> close) \<and> hsts_enable cfg = 0"
    and "n \<noteq> []" and "\<forall>c \<in> set n. TOKEN c \<noteq> NUL" and "length n \<le> 80000"
  shows "\<exists>p'. feed (response_head cfg date err close st r @ body) p = Some (False, p') \<and> errno p' = HPE_INVALID_HEADER_TOKEN"
proof -
  let ?t = "status_text st"
  have l: "length ?t + 2 < 81920" "length ?t + 2 + length n < 81920" using status_text_length [of st] assms(6) by simp_all
  have "\<exists>rest. response_head cfg date err close st r @ body = ?t @ CR # LF # n @ SP # rest"
    using response_head_start [OF assms(3), of date st r] by (auto simp: assms(2) header_line_def CRLF_def)
  then obtain rest where t: "response_head cfg date err close st r @ body = ?t @ CR # LF # n @ SP # rest" by blast
  obtain i sc where 1: "loop p (\<lambda>_. None) [] (?t @ CR # LF # n @ SP # rest) =
      loop (res s_header_field_start (header_state p) i (length ?t + 2) 1 1 sc (method p) (upgrade p) ULLONG_MAX (clear_msg (user p)))
        (\<lambda>_. None) (?t @ [CR, LF]) (n @ SP # rest)"
    using loop_res_line [OF assms(1) status_form_text l(1)] by blast
  obtain c where 2: "loop p (\<lambda>_. None) [] (?t @ CR # LF # n @ SP # rest) = Some (Error c)"
      "errno (parser c) = HPE_INVALID_HEADER_TOKEN" "pos c = length ((?t @ [CR, LF]) @ n)"
    using loop_res_header_space [OF assms(4,5) l(2)] unfolding 1 by blast
  show ?thesis unfolding t
    by (intro exI [of _ "parser c"] conjI feed_error [OF assms(1) _ 2(1)]) (simp_all add: 2)
qed

lemma response_header_rejected_witness:
  "\<exists>p'. feed (response_head \<lparr>keep_alive_time = 0, hsts_enable = 0, server_name = ''s'', send_chunk = 100\<rparr> ''d'' False False OK
        (res_header ''X-Id'' ''7'' (Response OK :: unit response)) @ ''hello'') (new_parser HTTP_RESPONSE) = Some (False, p') \<and>
     errno p' = HPE_INVALID_HEADER_TOKEN"
proof (rule response_header_rejected [of _ _ "''X-Id''" "''7''" "[]"])
  show "\<forall>c \<in> set ''X-Id''. TOKEN c \<noteq> NUL" by code_simp
qed (simp_all add: at_response_def new_parser_def http_parser_init_def res_header_def Response_def emplace_def)

end
