(* ===== verification/Mustache.thy ===== *)
theory Mustache
  imports JsonDoc Outcome Ctype
begin

text \<open>
  The template engine of \<^verbatim>\<open>suil/mustache.cpp\<close> and \<^verbatim>\<open>suil/mustache.h\<close>: the
  parser of a template into fragments and actions, and the renderer, with the access to the members
  of a JSON object of \<^verbatim>\<open>suil/json.cpp\<close>.

  A template is its text and positions in it; behind the text there is one NUL byte that may be read,
  and reading further is not defined.  The output is the text that is appended.  The text of a message
  of an exception is left out.  The template that a name of a partial stands for is a parameter; the
  rendering of a double is one as well.
\<close>

section \<open>Members of an object\<close>

definition strncmp_eq :: "string \<Rightarrow> string \<Rightarrow> nat \<Rightarrow> bool" where
  "strncmp_eq a b n \<longleftrightarrow> takeWhile (\<lambda>c. c \<noteq> NUL) (take n a) = takeWhile (\<lambda>c. c \<noteq> NUL) (take n b)"

text \<open>\<open>json_find_member\<close> with the length of the key; \<open>None\<close> is the null pointer.\<close>

fun find_member :: "(string \<times> 'n json) list \<Rightarrow> string \<Rightarrow> 'n json option" where
  "find_member [] key = None"
| "find_member ((k, v) # ms) key = (if strncmp_eq k key (length key) then Some v else find_member ms key)"

fun object_at :: "'n json \<Rightarrow> string \<Rightarrow> 'n json option outcome" where
  "object_at (JObject ms) key = Value (find_member ms key)"
| "object_at _ key = Throw OtherException"

fun object_empty :: "'n json option \<Rightarrow> bool" where
  "object_empty None \<longleftrightarrow> True"
| "object_empty (Some JNull) \<longleftrightarrow> True"
| "object_empty (Some (JString s)) \<longleftrightarrow> s = []"
| "object_empty (Some (JBool b)) \<longleftrightarrow> \<not> b"
| "object_empty (Some (JObject ms)) \<longleftrightarrow> ms = []"
| "object_empty (Some (JArray es)) \<longleftrightarrow> es = []"
| "object_empty (Some (JNumber n)) \<longleftrightarrow> False"

section \<open>A template\<close>

datatype action_type = Ignore | Tag | UnEscapeTag | OpenBlock | CloseBlock | ElseBlock | Partial

record action =
  a_tag :: action_type
  a_first :: nat
  a_last :: nat
  a_pos :: nat

definition Action :: "action_type \<Rightarrow> nat \<Rightarrow> nat \<Rightarrow> nat \<Rightarrow> action" where
  "Action t f l p = \<lparr>a_tag = t, a_first = f, a_last = l, a_pos = p\<rparr>"

record mustache =
  m_actions :: "action list"
  m_fragments :: "(nat \<times> nat) list"
  m_body :: string

definition text_of :: "string \<Rightarrow> nat \<Rightarrow> nat \<Rightarrow> string" where
  "text_of b f l = take (l - f) (drop f b)"

definition frag_String :: "mustache \<Rightarrow> nat \<times> nat \<Rightarrow> string" where
  "frag_String m fr = (if snd fr = fst fr then [] else text_of (m_body m) (fst fr) (snd fr))"

definition tag_String :: "mustache \<Rightarrow> action \<Rightarrow> string" where
  "tag_String m a = (if a_last a = a_first a then [] else text_of (m_body m) (a_first a) (a_last a))"

section \<open>The parser\<close>

definition p_next :: "string \<Rightarrow> nat \<Rightarrow> char outcome" where
  "p_next b p = (if p < length b then Value (b ! p) else if p = length b then Value NUL else Undefined)"

definition p_peek :: "string \<Rightarrow> nat \<Rightarrow> char" where
  "p_peek b p = (if p \<ge> length b then NUL else b ! p)"

definition eatSpace :: "string \<Rightarrow> nat \<Rightarrow> nat" where
  "eatSpace b p = p + length (takeWhile isspace (drop p b))"

definition tag_char :: "string \<Rightarrow> char \<Rightarrow> bool" where
  "tag_char chs n \<longleftrightarrow> isalpha n \<or> isdigit n \<or> n \<in> set chs \<or> n = NUL"

text \<open>\<open>__toLastIndex\<close>: the first and the last position of a name and the position behind its braces.\<close>

definition toLastIndex :: "string \<Rightarrow> nat \<Rightarrow> string \<Rightarrow> (nat \<times> nat \<times> nat) outcome" where
  "toLastIndex b p chs =
     (let s = eatSpace b p in
      bind_out (p_next b s) (\<lambda>n.
        if \<not> isalpha n \<and> n \<noteq> CHR ''_'' then Throw OtherException
        else let e = Suc s + length (takeWhile (tag_char chs) (drop (Suc s) b));
                 q = eatSpace b e in
          bind_out (p_next b q) (\<lambda>c.
            if c \<noteq> CHR ''}'' then Throw OtherException
            else bind_out (p_next b (q + 1)) (\<lambda>d.
              if d \<noteq> CHR ''}'' then Throw OtherException
              else if e = s then Throw OtherException
              else Value (s, e, q + 2)))))"

text \<open>The loop over a comment: the position it stops at.\<close>

fun comment_length :: "string \<Rightarrow> nat" where
  "comment_length [] = 0"
| "comment_length (c # s) = (if c \<noteq> CHR ''}'' \<and> peek s \<noteq> CHR ''}'' then Suc (comment_length s) else 0)"

text \<open>\<open>parser_ReadTag\<close>: the position behind the tag, the open blocks and the actions.\<close>

definition parser_ReadTag :: "string \<Rightarrow> nat \<Rightarrow> nat list \<Rightarrow> action list \<Rightarrow> (nat \<times> nat list \<times> action list) outcome" where
  "parser_ReadTag b p blocks acts =
     (let p = eatSpace b p; tok = p_peek b p in
      if tok = CHR ''#'' then
        map_out (\<lambda>(s, e, q). (q, blocks @ [length acts], acts @ [Action OpenBlock s e 0])) (toLastIndex b (p + 1) ''_'')
      else if tok = CHR ''/'' then
        (if blocks = [] then Throw OtherException
         else let open_tag = acts ! List.last blocks in
           bind_out (toLastIndex b (p + 1) ''_'') (\<lambda>(s, e, q).
             if text_of b (a_first open_tag) (a_last open_tag) \<noteq> text_of b s e then Throw OtherException
             else Value (q, butlast blocks, acts @ [Action CloseBlock s e (List.last blocks)])))
      else if tok = CHR ''^'' then
        map_out (\<lambda>(s, e, q). (q, blocks @ [length acts], acts @ [Action ElseBlock s e 0])) (toLastIndex b (p + 1) ''_'')
      else if tok = CHR ''!'' then
        (let start = p + 1; q = start + comment_length (drop start b) in
         bind_out (p_next b q) (\<lambda>c.
           if c \<noteq> CHR ''}'' \<and> p_peek b (q + 1) \<noteq> CHR ''}'' then Throw OtherException
           else bind_out (p_next b (q + 1)) (\<lambda>_. bind_out (p_next b (q + 2)) (\<lambda>_.
             Value (q + 3, blocks, acts @ [Action Ignore start (q + 1) 0])))))
      else if tok = CHR ''>'' then
        map_out (\<lambda>(s, e, q). (q, blocks, acts @ [Action Partial s e 0])) (toLastIndex b (p + 1) ''/._'')
      else if tok = CHR ''{'' then
        bind_out (toLastIndex b (p + 1) ''_'') (\<lambda>(s, e, q).
          bind_out (p_next b q) (\<lambda>c.
            if c \<noteq> CHR ''}'' then Throw OtherException
            else Value (q + 1, blocks, acts @ [Action UnEscapeTag s e 0])))
      else if tok = CHR ''&'' then
        map_out (\<lambda>(s, e, q). (q, blocks, acts @ [Action UnEscapeTag s e 0])) (toLastIndex b (p + 1) ''_'')
      else if tok = CHR ''='' then Throw OtherException
      else map_out (\<lambda>(s, e, q). (q, blocks, acts @ [Action Tag s e 0])) (toLastIndex b p ''_''))"

lemma toLastIndex_pos: "toLastIndex b p chs = Value (s, e, q) \<Longrightarrow> p < q"
  by (auto simp: toLastIndex_def Let_def bind_out_Value_iff eatSpace_def split: if_splits)

lemma ReadTag_pos: "parser_ReadTag b p blocks acts = Value (q, x) \<Longrightarrow> p < q"
proof -
  assume r: "parser_ReadTag b p blocks acts = Value (q, x)"
  have e: "p \<le> eatSpace b p" by (simp add: eatSpace_def)
  have l: "toLastIndex b (eatSpace b p) chs = Value (s, e, t) \<Longrightarrow> p < t"
    "toLastIndex b (Suc (eatSpace b p)) chs = Value (s, e, t) \<Longrightarrow> p < t" for chs s e t
    using toLastIndex_pos e by fastforce+
  show ?thesis using r e
    unfolding parser_ReadTag_def Let_def Suc_eq_plus1 [symmetric]
    by (auto simp: bind_out_Value_iff map_out_Value_iff split: if_splits dest!: l)
qed

text \<open>The loop of \<open>parse\<close>: the last position, the beginning of the last fragment, the blocks that are
  open, the actions and the fragments.\<close>

function parse_loop :: "string \<Rightarrow> nat \<Rightarrow> nat \<Rightarrow> nat list \<Rightarrow> action list \<Rightarrow> (nat \<times> nat) list \<Rightarrow>
    (nat \<times> nat \<times> nat list \<times> action list \<times> (nat \<times> nat) list) outcome" where
  "parse_loop b p frag blocks acts frags =
     (if p \<ge> length b then Value (p, frag, blocks, acts, frags)
      else if b ! p = CHR ''{'' \<and> p_peek b (p + 1) = CHR ''{'' then
        (case parser_ReadTag b (p + 2) blocks acts of
           Value (q, blocks, acts) \<Rightarrow> parse_loop b q q blocks acts (frags @ [(frag, p)])
         | Throw e \<Rightarrow> Throw e
         | Undefined \<Rightarrow> Undefined)
      else parse_loop b (p + 1) frag blocks acts frags)"
  by pat_completeness auto
termination
  by (relation "measure (\<lambda>(b, p, frag, blocks, acts, frags). length b - p)") (auto dest: ReadTag_pos)

declare parse_loop.simps [simp del]

fun else_closed :: "action list \<Rightarrow> bool" where
  "else_closed (a # b # as) \<longleftrightarrow> (a_tag a = ElseBlock \<longrightarrow> a_tag b = CloseBlock) \<and> else_closed (b # as)"
| "else_closed _ \<longleftrightarrow> True"

text \<open>\<open>parse\<close> and \<open>fromString\<close>\<close>

definition fromString :: "string \<Rightarrow> mustache outcome" where
  "fromString b =
     (if b = [] then Value \<lparr>m_actions = [], m_fragments = [], m_body = b\<rparr>
      else bind_out (parse_loop b 0 0 [] [] []) (\<lambda>(p, frag, blocks, acts, frags).
        if blocks \<noteq> [] then Throw OtherException
        else let frags = (if p \<noteq> frag then frags @ [(frag, p)] else frags) in
          if \<not> else_closed acts then Throw OtherException
          else Value \<lparr>m_actions = acts, m_fragments = frags, m_body = b\<rparr>))"

section \<open>The renderer\<close>

definition escape_char :: "char \<Rightarrow> string" where
  "escape_char c =
     (if c = CHR ''&'' then ''&amp;''
      else if c = CHR ''<'' then ''&lt;''
      else if c = CHR ''>'' then ''&gt;''
      else if c = CHR 0x22 then ''&quot;''
      else if c = CHR 0x27 then ''&#39;''
      else if c = CHR ''/'' then ''&#x2f;''
      else [c])"

definition escape :: "string \<Rightarrow> string" where
  "escape s = concat (map escape_char s)"

text \<open>What a double is used for: its integer part, when it has one; the double of an integer; its text.\<close>

record 'n doubles =
  d_trunc :: "'n \<Rightarrow> int option"
  d_of_int :: "int \<Rightarrow> 'n"
  d_text :: "'n \<Rightarrow> string"

definition number_text :: "'n doubles \<Rightarrow> 'n \<Rightarrow> string outcome" where
  "number_text D d =
     (case d_trunc D d of
        Some i \<Rightarrow> if - (2 ^ 31) \<le> i \<and> i < 2 ^ 31
                  then Value (if d \<noteq> d_of_int D i then d_text D d else int_text i) else Undefined
      | None \<Rightarrow> Undefined)"

text \<open>A value in a tag; the type of a null object is \<open>JSON_BOOL\<close>.\<close>

fun value_text :: "'n doubles \<Rightarrow> bool \<Rightarrow> 'n json option \<Rightarrow> string outcome" where
  "value_text D unesc None = Value ''false''"
| "value_text D unesc (Some (JBool b)) = Value (if b then ''true'' else ''false'')"
| "value_text D unesc (Some (JNumber n)) = number_text D n"
| "value_text D unesc (Some (JString s)) = Value (if unesc then s else escape s)"
| "value_text D unesc _ = Throw OtherException"

text \<open>\<open>render_Tag\<close> for the tags other than an open block: the output and the index afterwards.  \<open>partial\<close>
  renders the template of a name.\<close>

type_synonym 'n partial = "string \<Rightarrow> 'n json \<Rightarrow> string outcome"

definition render_Tag :: "'n doubles \<Rightarrow> 'n partial \<Rightarrow> mustache \<Rightarrow> action \<Rightarrow> 'n json \<Rightarrow> nat \<Rightarrow> (string \<times> nat) outcome" where
  "render_Tag D partial m act ctx index =
     (let name = tag_String m act in
      case a_tag act of
        Partial \<Rightarrow> map_out (\<lambda>t. (t, index)) (partial name ctx)
      | UnEscapeTag \<Rightarrow> map_out (\<lambda>t. (t, index)) (bind_out (object_at ctx name) (value_text D True))
      | Tag \<Rightarrow> map_out (\<lambda>t. (t, index)) (bind_out (object_at ctx name) (value_text D False))
      | ElseBlock \<Rightarrow>
          bind_out (object_at ctx name) (\<lambda>val.
            if object_empty val then
              (if index + 1 < length (m_fragments m) then Value (frag_String m (m_fragments m ! (index + 1)), index + 1)
               else Undefined)
            else Value ([], index + 1))
      | _ \<Rightarrow> Value ([], index))"

text \<open>The search for the end of a block without a value.\<close>

definition is_close :: "mustache \<Rightarrow> string \<Rightarrow> action \<Rightarrow> bool" where
  "is_close m name a \<longleftrightarrow> tag_String m a = name \<and> a_tag a = CloseBlock"

definition block_end :: "mustache \<Rightarrow> string \<Rightarrow> nat \<Rightarrow> nat" where
  "block_end m name index = index + length (takeWhile (\<lambda>a. \<not> is_close m name a) (drop index (m_actions m)))"

text \<open>The rendering up to a tag with a given name ends at once at such a tag.\<close>

definition stops :: "mustache \<Rightarrow> nat \<Rightarrow> string \<Rightarrow> bool" where
  "stops m index stop \<longleftrightarrow> index < length (m_actions m) \<and> stop \<noteq> [] \<and> tag_String m (m_actions m ! index) = stop"

definition rank :: "mustache \<Rightarrow> nat \<Rightarrow> string \<Rightarrow> nat" where
  "rank m index stop =
     (if index < length (m_fragments m) then
        (if stops m index stop then 1 else 3 * (length (m_fragments m) - index) + 3) else 0)"

text \<open>\<open>render_Internal\<close> with the open blocks of \<open>render_Tag\<close>, and the loop over the elements of an
  array.  With the value of a block neither empty nor an array the recursive call starts at the tag
  of the block itself; a block without a name would then call itself for ever.\<close>

function render_Internal :: "'n doubles \<Rightarrow> 'n partial \<Rightarrow> mustache \<Rightarrow> 'n json \<Rightarrow> nat \<Rightarrow> string \<Rightarrow> (string \<times> nat) outcome"
  and render_each :: "'n doubles \<Rightarrow> 'n partial \<Rightarrow> mustache \<Rightarrow> 'n json list \<Rightarrow> nat \<Rightarrow> string \<Rightarrow> nat \<Rightarrow> (string \<times> nat) outcome"
where
  "render_Internal D P m ctx index stop =
     (if index < length (m_fragments m) then
        (let t = frag_String m (m_fragments m ! index) in
         if index < length (m_actions m) then
           (let act = m_actions m ! index; name = tag_String m act in
            if stop \<noteq> [] \<and> name = stop then Value (t, index)
            else
              (case (if a_tag act = OpenBlock then
                       (case object_at ctx name of
                          Value val \<Rightarrow>
                            (if object_empty val then Value ([], block_end m name index)
                             else (case val of
                                 Some (JArray es) \<Rightarrow> render_each D P m es (index + 1) name index
                               | Some v \<Rightarrow> if name = [] then Undefined else render_Internal D P m v index name
                               | None \<Rightarrow> Undefined))
                        | Throw e \<Rightarrow> Throw e
                        | Undefined \<Rightarrow> Undefined)
                     else render_Tag D P m act ctx index) of
                 Value (o1, i) \<Rightarrow>
                   if i < index then Undefined
                   else (case render_Internal D P m ctx (i + 1) stop of
                           Value (o2, j) \<Rightarrow> Value (t @ o1 @ o2, j)
                         | r \<Rightarrow> r)
               | r \<Rightarrow> r))
         else (case render_Internal D P m ctx (index + 1) stop of
                 Value (o2, j) \<Rightarrow> Value (t @ o2, j)
               | r \<Rightarrow> r))
      else Value ([], index))"
| "render_each D P m [] k name i = Value ([], i)"
| "render_each D P m (e # es) k name i =
     (case render_Internal D P m e k name of
        Value (o1, j) \<Rightarrow> (case render_each D P m es k name j of Value (o2, l) \<Rightarrow> Value (o1 @ o2, l) | r \<Rightarrow> r)
      | r \<Rightarrow> r)"
  by pat_completeness auto

termination
proof (relation "measures [\<lambda>x. case x of Inl (D, P, m, ctx, index, stop) \<Rightarrow> rank m index stop
      | Inr (D, P, m, es, k, name, i) \<Rightarrow> 3 * (length (m_fragments m) - k) + 4,
     \<lambda>x. case x of Inl _ \<Rightarrow> 0 | Inr (D, P, m, es, k, name, i) \<Rightarrow> length es]", goal_cases)
qed (auto simp: rank_def stops_def)

text \<open>\<open>render\<close>, with \<open>depth\<close> calls for partials within one another on the stack; \<open>load\<close> is the template
  that the cache has under a name.\<close>

fun render :: "'n doubles \<Rightarrow> (string \<Rightarrow> mustache outcome) \<Rightarrow> nat \<Rightarrow> mustache \<Rightarrow> 'n json \<Rightarrow> string outcome" where
  "render D load 0 m ctx = map_out fst (render_Internal D (\<lambda>_ _. Undefined) m ctx 0 [])"
| "render D load (Suc depth) m ctx =
     map_out fst (render_Internal D (\<lambda>name ctx. bind_out (load name) (\<lambda>m. render D load depth m ctx)) m ctx 0 [])"

end
