(* ===== verification/MustacheParse.thy ===== *)
theory MustacheParse
  imports Mustache
begin

text \<open>
  Templates as trees, their text, and the parser on it: it gives the tags and the texts between them
  in order.
\<close>

section \<open>Templates as trees\<close>

text \<open>Every node carries the text behind its last tag: a tag of its own (a comment, a variable, a
  partial), a section with the text before its first inner node, an inverted section with its text.\<close>

datatype node =
    Leaf action_type string string
  | Section string string "node list" string
  | Inverted string string string

text \<open>The text of a tag.\<close>

fun tag_text :: "action_type \<Rightarrow> string \<Rightarrow> string" where
  "tag_text Tag n = ''{{'' @ n @ ''}}''"
| "tag_text UnEscapeTag n = ''{{{'' @ n @ ''}}}''"
| "tag_text Partial n = ''{{>'' @ n @ ''}}''"
| "tag_text Ignore n = ''{{!'' @ n @ ''}}''"
| "tag_text OpenBlock n = ''{{#'' @ n @ ''}}''"
| "tag_text CloseBlock n = ''{{/'' @ n @ ''}}''"
| "tag_text ElseBlock n = ''{{^'' @ n @ ''}}''"

text \<open>A node as the sequence of its tags with the text behind each.\<close>

type_synonym item = "action_type \<times> string \<times> string"

fun flat :: "node \<Rightarrow> item list" where
  "flat (Leaf k n a) = [(k, n, a)]"
| "flat (Section n t ns a) = (OpenBlock, n, t) # concat (map flat ns) @ [(CloseBlock, n, a)]"
| "flat (Inverted n t a) = [(ElseBlock, n, t), (CloseBlock, n, a)]"

abbreviation flats :: "node list \<Rightarrow> item list" where
  "flats ns \<equiv> concat (map flat ns)"

fun item_text :: "item \<Rightarrow> string" where
  "item_text (k, n, a) = tag_text k n @ a"

definition items_text :: "item list \<Rightarrow> string" where
  "items_text L = concat (map item_text L)"

lemma items_text_simps [simp]: "items_text [] = []" "items_text ((k, n, a) # L) = tag_text k n @ a @ items_text L"
  by (simp_all add: items_text_def)

definition template_text :: "string \<Rightarrow> node list \<Rightarrow> string" where
  "template_text t ns = t @ items_text (flats ns)"

text \<open>Names, comments and texts that the syntax can express: a text holds no two braces in a row and
  does not end with one.\<close>

definition word_char :: "char \<Rightarrow> bool" where
  "word_char c \<longleftrightarrow> isalpha c \<or> isdigit c \<or> c = CHR ''_''"

fun name_ok :: "action_type \<Rightarrow> string \<Rightarrow> bool" where
  "name_ok Ignore n \<longleftrightarrow> n \<noteq> [] \<and> CHR ''}'' \<notin> set n"
| "name_ok Partial n \<longleftrightarrow> n \<noteq> [] \<and> (isalpha (hd n) \<or> hd n = CHR ''_'') \<and> (\<forall>c \<in> set n. word_char c \<or> c \<in> set ''/.'')"
| "name_ok _ n \<longleftrightarrow> n \<noteq> [] \<and> (isalpha (hd n) \<or> hd n = CHR ''_'') \<and> (\<forall>c \<in> set n. word_char c)"

fun text_ok :: "string \<Rightarrow> bool" where
  "text_ok [] \<longleftrightarrow> True"
| "text_ok (c # s) \<longleftrightarrow> (c = CHR ''{'' \<longrightarrow> s \<noteq> [] \<and> hd s \<noteq> CHR ''{'') \<and> text_ok s"

fun item_ok :: "item \<Rightarrow> bool" where
  "item_ok (k, n, a) \<longleftrightarrow> name_ok k n \<and> text_ok a"

text \<open>The open blocks after a sequence of tags; \<open>None\<close> when a block is closed that is not the last.\<close>

fun blocks_after :: "string list \<Rightarrow> item list \<Rightarrow> string list option" where
  "blocks_after st [] = Some st"
| "blocks_after st ((k, n, a) # L) =
     (if k = OpenBlock \<or> k = ElseBlock then blocks_after (st @ [n]) L
      else if k = CloseBlock then
        (if st \<noteq> [] \<and> List.last st = n then blocks_after (butlast st) L else None)
      else blocks_after st L)"

lemma blocks_after_append: "blocks_after st L = Some st' \<Longrightarrow> blocks_after st (L @ M) = blocks_after st' M"
  by (induction st L rule: blocks_after.induct) (auto split: if_splits)

fun leaf_kind :: "action_type \<Rightarrow> bool" where
  "leaf_kind k \<longleftrightarrow> k \<in> {Ignore, Tag, UnEscapeTag, Partial}"

fun node_ok :: "node \<Rightarrow> bool" where
  "node_ok (Leaf k n a) \<longleftrightarrow> leaf_kind k \<and> name_ok k n \<and> text_ok a"
| "node_ok (Section n t ns a) \<longleftrightarrow> name_ok OpenBlock n \<and> text_ok t \<and> list_all node_ok ns \<and> text_ok a"
| "node_ok (Inverted n t a) \<longleftrightarrow> name_ok OpenBlock n \<and> text_ok t \<and> text_ok a"

lemma flat_blocks: "node_ok x \<Longrightarrow> blocks_after st (flat x) = Some st"
proof (induction x arbitrary: st)
  case (Section n t ns a)
  have "\<forall>x \<in> set ms. node_ok x \<and> (\<forall>st. blocks_after st (flat x) = Some st) \<Longrightarrow> blocks_after st (flats ms) = Some st" for ms st
    by (induction ms) (simp_all add: blocks_after_append)
  then have "blocks_after (st @ [n]) (flats ns) = Some (st @ [n])" using Section by (simp add: list_all_iff)
  then show ?case by (simp add: blocks_after_append)
qed auto

lemma flats_blocks: "list_all node_ok ns \<Longrightarrow> blocks_after st (flats ns) = Some st"
  by (induction ns) (simp_all add: flat_blocks blocks_after_append)

lemma flat_items: "node_ok x \<Longrightarrow> list_all item_ok (flat x)"
proof (induction x)
  case (Section n t ns a)
  then have "\<forall>x \<in> set ns. list_all item_ok (flat x)" by (simp add: list_all_iff)
  then have "list_all item_ok (flats ns)" by (auto simp: list_all_iff)
  with Section.prems show ?case by simp
qed auto

lemma flats_items: "list_all node_ok ns \<Longrightarrow> list_all item_ok (flats ns)"
  using flat_items by (auto simp: list_all_iff)

fun kinds_closed :: "action_type list \<Rightarrow> bool" where
  "kinds_closed (a # b # as) \<longleftrightarrow> (a = ElseBlock \<longrightarrow> b = CloseBlock) \<and> kinds_closed (b # as)"
| "kinds_closed _ \<longleftrightarrow> True"

lemma else_closed_kinds: "else_closed as = kinds_closed (map a_tag as)"
  by (induction as rule: else_closed.induct) simp_all

lemma kinds_closed_append: "kinds_closed as \<Longrightarrow> kinds_closed bs \<Longrightarrow> (as \<noteq> [] \<Longrightarrow> List.last as \<noteq> ElseBlock) \<Longrightarrow> kinds_closed (as @ bs)"
  by (induction as rule: kinds_closed.induct) (auto, cases bs, auto)

lemma flat_closed: "node_ok x \<Longrightarrow> kinds_closed (map fst (flat x)) \<and> map fst (flat x) \<noteq> [] \<and> List.last (map fst (flat x)) \<noteq> ElseBlock"
proof (induction x)
  case (Section n t ns a)
  have "list_all (\<lambda>x. kinds_closed (map fst (flat x)) \<and> map fst (flat x) \<noteq> [] \<and> List.last (map fst (flat x)) \<noteq> ElseBlock) ms \<Longrightarrow>
      kinds_closed (map fst (flats ms)) \<and> (map fst (flats ms) \<noteq> [] \<longrightarrow> List.last (map fst (flats ms)) \<noteq> ElseBlock)" for ms
    by (induction ms) (auto intro!: kinds_closed_append simp: last_append)
  then have i: "kinds_closed (map fst (flats ns))" "map fst (flats ns) \<noteq> [] \<longrightarrow> List.last (map fst (flats ns)) \<noteq> ElseBlock"
    using Section by (simp_all add: list_all_iff)
  have "kinds_closed (map fst (flats ns) @ [CloseBlock])" using i by (intro kinds_closed_append) auto
  moreover have "kinds_closed (OpenBlock # ks)" if "kinds_closed ks" for ks using that by (cases ks) auto
  ultimately show ?case by simp
qed auto

lemma flats_closed: "list_all node_ok ns \<Longrightarrow> kinds_closed (map fst (flats ns))"
proof (induction ns)
  case (Cons x ns)
  then show ?case using flat_closed [of x] by (simp, intro kinds_closed_append) simp_all
qed simp

section \<open>The parser on the text of a template\<close>

lemma text_of_middle: "text_of (p @ s @ r) (length p) (length p + length s) = s"
  by (simp add: text_of_def)

lemma next_at: "p_next (p @ c # r) (length p) = Value c"
  by (simp add: p_next_def)

lemma peek_at: "p_peek (p @ c # r) (length p) = c"
  by (simp add: p_peek_def)

lemma eatSpace_at: "\<not> isspace c \<Longrightarrow> eatSpace (p @ c # r) (length p) = length p"
  by (simp add: eatSpace_def)

text \<open>A name and its braces at a position that is given as a prefix of the text.\<close>

definition chs_of :: "action_type \<Rightarrow> string" where
  "chs_of k = (if k = Partial then ''/._'' else ''_'')"

lemma name_chars:
  assumes "name_ok k n" and "k \<noteq> Ignore"
  obtains c s where "n = c # s" and "isalpha c \<or> c = CHR ''_''" and "\<forall>x \<in> set s. tag_char (chs_of k) x"
proof (cases n)
  case (Cons c s)
  show thesis
  proof (rule that [OF Cons])
    show "isalpha c \<or> c = CHR ''_''" using assms Cons by (cases k) auto
    show "\<forall>x \<in> set s. tag_char (chs_of k) x"
      using assms Cons by (cases k) (auto simp: tag_char_def word_char_def chs_of_def)
  qed
qed (use assms in \<open>cases k; simp\<close>)

lemma brace_not: "\<not> tag_char (chs_of k) (CHR ''}'')" "\<not> isspace (CHR ''}'')" "\<not> isspace (CHR ''_'')"
  by (auto simp: tag_char_def chs_of_def isalpha_def isdigit_def isspace_def between_def ucode_def)

lemma takeWhile_all: "\<forall>x \<in> set s. P x \<Longrightarrow> \<not> P c \<Longrightarrow> takeWhile P (s @ c # r) = s"
  by (induction s) auto

lemma toLastIndex_name:
  assumes "name_ok k n" and "k \<noteq> Ignore"
  shows "toLastIndex (p @ n @ ''}}'' @ r) (length p) (chs_of k) = Value (length p, length p + length n, length p + length n + 2)"
proof -
  obtain c s where n: "n = c # s" "isalpha c \<or> c = CHR ''_''" "\<forall>x \<in> set s. tag_char (chs_of k) x"
    using name_chars [OF assms] by blast
  let ?b = "p @ n @ ''}}'' @ r"
  have b: "?b = p @ c # s @ CHR ''}'' # CHR ''}'' # r" by (simp add: n(1))
  have 1: "eatSpace ?b (length p) = length p" unfolding b
    by (rule eatSpace_at) (use n(2) alpha_not(1) brace_not(3) in auto)
  have 2: "p_next ?b (length p) = Value c" unfolding b by (rule next_at)
  have d: "drop (Suc (length p)) ?b = s @ CHR ''}'' # CHR ''}'' # r" by (simp add: n(1))
  have 3: "takeWhile (tag_char (chs_of k)) (drop (Suc (length p)) ?b) = s"
    unfolding d by (rule takeWhile_all [OF n(3) brace_not(1)])
  have e: "Suc (length p) + length s = length (p @ n)" by (simp add: n(1))
  have 4: "eatSpace ?b (length (p @ n)) = length (p @ n)"
    using eatSpace_at [OF brace_not(2), of "p @ n" "CHR ''}'' # r"] by simp
  have 5: "p_next ?b (length (p @ n)) = Value (CHR ''}'')"
    using next_at [of "p @ n" "CHR ''}''" "CHR ''}'' # r"] by simp
  have 6: "p_next ?b (length (p @ n) + 1) = Value (CHR ''}'')"
    using next_at [of "p @ n @ ''}''" "CHR ''}''" r] by simp
  show ?thesis unfolding toLastIndex_def Let_def 1 2 3 e bind_out.simps 4 5 6 using n(1,2) by simp
qed

lemma comment_length_text: "n \<noteq> [] \<Longrightarrow> CHR ''}'' \<notin> set n \<Longrightarrow> comment_length (n @ CHR ''}'' # r) = length n - 1"
proof (induction n)
  case (Cons c n)
  then show ?case by (cases n) auto
qed simp

text \<open>The tags: what the parser adds for a tag with the braces before it read.\<close>

definition tag_rest :: "action_type \<Rightarrow> string \<Rightarrow> string" where
  "tag_rest k n = drop 2 (tag_text k n)"

lemma tag_text_rest: "tag_text k n = ''{{'' @ tag_rest k n"
  by (cases k) (simp_all add: tag_rest_def)

definition blocks_name :: "string \<Rightarrow> action list \<Rightarrow> nat list \<Rightarrow> string list" where
  "blocks_name b acts blocks = map (\<lambda>i. text_of b (a_first (acts ! i)) (a_last (acts ! i))) blocks"

definition kind_name :: "string \<Rightarrow> action \<Rightarrow> action_type \<times> string" where
  "kind_name b a = (a_tag a, text_of b (a_first a) (a_last a))"

lemma blocks_name_append: "\<forall>i \<in> set blocks. i < length acts \<Longrightarrow> blocks_name b (acts @ as) blocks = blocks_name b acts blocks"
  by (simp add: blocks_name_def nth_append)

lemma ReadTag_name:
  assumes "name_ok k n" and "k \<noteq> Ignore" and r: "tag_rest k n = pre @ n @ ''}}'' @ post"
  shows "toLastIndex (p @ tag_rest k n @ r) (length p + length pre) (chs_of k) =
    Value (length p + length pre, length p + length pre + length n, length p + length pre + length n + 2)"
    and "text_of (p @ tag_rest k n @ r) (length p + length pre) (length p + length pre + length n) = n"
  using toLastIndex_name [OF assms(1,2), of "p @ pre" "post @ r"] text_of_middle [of "p @ pre" n "''}}'' @ post @ r"]
  unfolding r by (simp_all add: add.assoc)

lemma ReadTag_start:
  assumes "tag_rest k n = c # w" and "\<not> isspace c"
  shows "eatSpace (p @ tag_rest k n @ r) (length p) = length p" and "p_peek (p @ tag_rest k n @ r) (length p) = c"
  using eatSpace_at [OF assms(2), of p "w @ r"] peek_at [of p c "w @ r"] by (simp_all add: assms(1))

lemma sigil_not: "\<not> isspace (CHR ''#'')" "\<not> isspace (CHR ''/'')" "\<not> isspace (CHR ''^'')" "\<not> isspace (CHR ''!'')"
  "\<not> isspace (CHR ''>'')" "\<not> isspace (CHR ''{'')"
  by (simp_all add: isspace_def between_def ucode_def)

lemma ReadTag_item:
  assumes ok: "name_ok k n" and b: "b = p @ tag_rest k n @ r" and bl: "\<forall>i \<in> set blocks. i < length acts"
    and st: "blocks_after (blocks_name b acts blocks) [(k, n, a)] = Some st"
  shows "\<exists>blocks' act. parser_ReadTag b (length p) blocks acts = Value (length (p @ tag_rest k n), blocks', acts @ [act]) \<and>
    kind_name b act = (k, n) \<and> (\<forall>i \<in> set blocks'. i < length (acts @ [act])) \<and> blocks_name b (acts @ [act]) blocks' = st"
proof -
  let ?s = "length p + 1"
  have push: "\<forall>i \<in> set (blocks @ [length acts]). i < length (acts @ [act])" for act using bl by auto
  have same: "\<forall>i \<in> set blocks. i < length (acts @ [act])" for act using bl by auto
  show ?thesis
  proof (cases k)
    case OpenBlock
    have t: "tag_rest k n = ''#'' @ n @ ''}}'' @ []" by (simp add: OpenBlock tag_rest_def)
    note l = ReadTag_name [OF ok _ t, of p r, folded b, unfolded chs_of_def OpenBlock, simplified]
    have "p_peek b (length p) = CHR ''#''" "eatSpace b (length p) = length p"
      using ReadTag_start [of k n "CHR ''#''" "n @ ''}}''" p r] t sigil_not unfolding b by simp_all
    then have "parser_ReadTag b (length p) blocks acts = Value (length (p @ tag_rest k n), blocks @ [length acts], acts @ [Action OpenBlock ?s (?s + length n) 0])"
      using l(1) by (simp add: parser_ReadTag_def t Let_def)
    moreover have "blocks_name b (acts @ [Action OpenBlock ?s (?s + length n) 0]) (blocks @ [length acts]) = blocks_name b acts blocks @ [n]"
      using l(2) blocks_name_append [OF bl] by (simp add: blocks_name_def Action_def)
    ultimately show ?thesis using l(2) push st by (auto simp: OpenBlock kind_name_def Action_def)
  next
    case ElseBlock
    have t: "tag_rest k n = ''^'' @ n @ ''}}'' @ []" by (simp add: ElseBlock tag_rest_def)
    note l = ReadTag_name [OF ok _ t, of p r, folded b, unfolded chs_of_def ElseBlock, simplified]
    have "p_peek b (length p) = CHR ''^''" "eatSpace b (length p) = length p"
      using ReadTag_start [of k n "CHR ''^''" "n @ ''}}''" p r] t sigil_not unfolding b by simp_all
    then have "parser_ReadTag b (length p) blocks acts = Value (length (p @ tag_rest k n), blocks @ [length acts], acts @ [Action ElseBlock ?s (?s + length n) 0])"
      using l(1) by (simp add: parser_ReadTag_def t Let_def)
    moreover have "blocks_name b (acts @ [Action ElseBlock ?s (?s + length n) 0]) (blocks @ [length acts]) = blocks_name b acts blocks @ [n]"
      using l(2) blocks_name_append [OF bl] by (simp add: blocks_name_def Action_def)
    ultimately show ?thesis using l(2) push st by (auto simp: ElseBlock kind_name_def Action_def)
  next
    case CloseBlock
    have t: "tag_rest k n = ''/'' @ n @ ''}}'' @ []" by (simp add: CloseBlock tag_rest_def)
    note l = ReadTag_name [OF ok _ t, of p r, folded b, unfolded chs_of_def CloseBlock, simplified]
    have pk: "p_peek b (length p) = CHR ''/''" "eatSpace b (length p) = length p"
      using ReadTag_start [of k n "CHR ''/''" "n @ ''}}''" p r] t sigil_not unfolding b by simp_all
    have ne: "blocks \<noteq> []" and top: "List.last (blocks_name b acts blocks) = n" and st': "st = butlast (blocks_name b acts blocks)"
      using st by (auto simp: CloseBlock blocks_name_def split: if_splits)
    have "text_of b (a_first (acts ! List.last blocks)) (a_last (acts ! List.last blocks)) = n"
      using ne top by (simp add: blocks_name_def last_map)
    then have "parser_ReadTag b (length p) blocks acts =
        Value (length (p @ tag_rest k n), butlast blocks, acts @ [Action CloseBlock ?s (?s + length n) (List.last blocks)])"
      using l ne pk by (simp add: parser_ReadTag_def t Let_def)
    moreover have "\<forall>i \<in> set (butlast blocks). i < length acts" using bl by (meson in_set_butlastD)
    moreover have "blocks_name b acts (butlast blocks) = st" by (simp add: st' blocks_name_def map_butlast)
    ultimately show ?thesis using l(2) by (fastforce simp: CloseBlock kind_name_def Action_def blocks_name_append)
  next
    case Partial
    have t: "tag_rest k n = ''>'' @ n @ ''}}'' @ []" by (simp add: Partial tag_rest_def)
    note l = ReadTag_name [OF ok _ t, of p r, folded b, unfolded chs_of_def Partial, simplified]
    have "p_peek b (length p) = CHR ''>''" "eatSpace b (length p) = length p"
      using ReadTag_start [of k n "CHR ''>''" "n @ ''}}''" p r] t sigil_not unfolding b by simp_all
    then have "parser_ReadTag b (length p) blocks acts = Value (length (p @ tag_rest k n), blocks, acts @ [Action Partial ?s (?s + length n) 0])"
      using l(1) by (simp add: parser_ReadTag_def t Let_def)
    then show ?thesis using l(2) same st by (auto simp: Partial kind_name_def Action_def blocks_name_append [OF bl])
  next
    case UnEscapeTag
    have t: "tag_rest k n = ''{'' @ n @ ''}}'' @ ''}''" by (simp add: UnEscapeTag tag_rest_def)
    note l = ReadTag_name [OF ok _ t, of p r, folded b, unfolded chs_of_def UnEscapeTag, simplified]
    have pk: "p_peek b (length p) = CHR ''{''" "eatSpace b (length p) = length p"
      using ReadTag_start [of k n "CHR ''{''" "n @ ''}}}''" p r] t sigil_not unfolding b by simp_all
    have "p_next b (length (p @ ''{'' @ n @ ''}}'')) = Value (CHR ''}'')"
      using next_at [of "p @ ''{'' @ n @ ''}}''" "CHR ''}''" r] by (simp add: b t)
    then have "parser_ReadTag b (length p) blocks acts = Value (length (p @ tag_rest k n), blocks, acts @ [Action UnEscapeTag ?s (?s + length n) 0])"
      using l(1) pk by (simp add: parser_ReadTag_def t Let_def)
    then show ?thesis using l(2) same st by (auto simp: UnEscapeTag kind_name_def Action_def blocks_name_append [OF bl])
  next
    case Tag
    have t: "tag_rest k n = [] @ n @ ''}}'' @ []" by (simp add: Tag tag_rest_def)
    note l = ReadTag_name [OF ok _ t, of p r, folded b, unfolded chs_of_def Tag, simplified]
    obtain c w where c: "n = c # w" "isalpha c \<or> c = CHR ''_''" by (rule name_chars [OF ok]) (use that in \<open>auto simp: Tag\<close>)
    have u: "tag_rest k n = c # w @ ''}}''" unfolding t by (simp add: c(1))
    have "\<not> isspace c" using c(2) alpha_not(1) [of c] brace_not(3) by auto
    from ReadTag_start [OF u this, of p r, folded b] have "p_peek b (length p) = c" "eatSpace b (length p) = length p" by simp_all
    moreover have "c \<notin> set ''{}#/^!>&=''" using c(2) alpha_not(5) [of c] by auto
    ultimately have "parser_ReadTag b (length p) blocks acts = Value (length (p @ tag_rest k n), blocks, acts @ [Action Tag (length p) (length p + length n) 0])"
      using l(1) by (simp add: parser_ReadTag_def t Let_def)
    then show ?thesis using l(2) same st by (auto simp: Tag kind_name_def Action_def blocks_name_append [OF bl])
  next
    case Ignore
    have n: "n \<noteq> []" "CHR ''}'' \<notin> set n" using ok by (simp_all add: Ignore)
    have t: "tag_rest k n = ''!'' @ n @ ''}}''" by (simp add: Ignore tag_rest_def)
    have pk: "p_peek b (length p) = CHR ''!''" "eatSpace b (length p) = length p"
      using ReadTag_start [of k n "CHR ''!''" "n @ ''}}''" p r] t sigil_not unfolding b by simp_all
    obtain w c where w: "n = w @ [c]" using n(1) by (cases n rule: rev_cases) auto
    have B: "b = (p @ ''!'' @ w) @ c # CHR ''}'' # CHR ''}'' # r" unfolding b t by (simp add: w)
    have "drop (length p + 1) b = n @ CHR ''}'' # CHR ''}'' # r" by (simp add: b t)
    then have q: "comment_length (drop (length p + 1) b) = length w" using comment_length_text [OF n] w by simp
    have x: "p_next b (length (p @ ''!'' @ w)) = Value c" unfolding B by (rule next_at)
    have y: "p_next b (length ((p @ ''!'' @ w) @ [c])) = Value (CHR ''}'')" "p_peek b (length ((p @ ''!'' @ w) @ [c])) = CHR ''}''"
      using next_at [of "(p @ ''!'' @ w) @ [c]" "CHR ''}''" "CHR ''}'' # r"] peek_at [of "(p @ ''!'' @ w) @ [c]" "CHR ''}''" "CHR ''}'' # r"]
      by (simp_all add: B)
    have z: "p_next b (length ((p @ ''!'' @ w) @ [c, CHR ''}''])) = Value (CHR ''}'')"
      using next_at [of "(p @ ''!'' @ w) @ [c, CHR ''}'']" "CHR ''}''" r] by (simp add: B)
    have "parser_ReadTag b (length p) blocks acts = Value (length (p @ tag_rest k n), blocks, acts @ [Action Ignore ?s (?s + length n) 0])"
      unfolding t using pk q x y z by (simp add: parser_ReadTag_def w Let_def)
    moreover have "text_of b ?s (?s + length n) = n" using text_of_middle [of "p @ ''!''" n "''}}'' @ r"] by (simp add: b t)
    ultimately show ?thesis using same st by (auto simp: Ignore kind_name_def Action_def blocks_name_append [OF bl])
  qed
qed

lemma parse_loop_char:
  "p < length b \<Longrightarrow> \<not> (b ! p = CHR ''{'' \<and> p_peek b (p + 1) = CHR ''{'') \<Longrightarrow>
    parse_loop b p frag blocks acts frags = parse_loop b (p + 1) frag blocks acts frags"
  by (subst parse_loop.simps) (simp only: not_le [symmetric] if_False)

lemma parse_loop_tag:
  "p < length b \<Longrightarrow> b ! p = CHR ''{'' \<Longrightarrow> p_peek b (p + 1) = CHR ''{'' \<Longrightarrow>
    parser_ReadTag b (p + 2) blocks acts = Value (q, blocks', acts') \<Longrightarrow>
    parse_loop b p frag blocks acts frags = parse_loop b q q blocks' acts' (frags @ [(frag, p)])"
  by (subst parse_loop.simps) (simp only: not_le [symmetric] if_False if_True simp_thms outcome.case prod.case)

lemma parse_text:
  assumes "text_ok t"
  shows "parse_loop (p @ t @ r) (length p) frag blocks acts frags = parse_loop (p @ t @ r) (length (p @ t)) frag blocks acts frags"
  using assms
proof (induction t arbitrary: p)
  case (Cons c t)
  let ?b = "p @ (c # t) @ r"
  have "\<not> (?b ! length p = CHR ''{'' \<and> p_peek ?b (length p + 1) = CHR ''{'')"
    using Cons.prems by (cases t) (auto simp: nth_append p_peek_def)
  then have "parse_loop ?b (length p) frag blocks acts frags = parse_loop ?b (length p + 1) frag blocks acts frags"
    by (intro parse_loop_char) simp_all
  also have "\<dots> = parse_loop ?b (length (p @ c # t)) frag blocks acts frags"
    using Cons.IH [of "p @ [c]"] Cons.prems by simp
  finally show ?case .
qed simp

lemma parse_tag:
  assumes "name_ok k n" and b: "b = p @ tag_text k n @ r" and "\<forall>i \<in> set blocks. i < length acts"
    and "blocks_after (blocks_name b acts blocks) [(k, n, a)] = Some st"
  shows "\<exists>blocks' act. parse_loop b (length p) frag blocks acts frags =
      parse_loop b (length (p @ tag_text k n)) (length (p @ tag_text k n)) blocks' (acts @ [act]) (frags @ [(frag, length p)]) \<and>
    kind_name b act = (k, n) \<and> (\<forall>i \<in> set blocks'. i < length (acts @ [act])) \<and> blocks_name b (acts @ [act]) blocks' = st"
proof -
  have B: "b = (p @ ''{{'') @ tag_rest k n @ r" by (simp add: b tag_text_rest)
  obtain blocks' act where r: "parser_ReadTag b (length (p @ ''{{'')) blocks acts =
      Value (length ((p @ ''{{'') @ tag_rest k n), blocks', acts @ [act])"
    and a: "kind_name b act = (k, n)" "\<forall>i \<in> set blocks'. i < length (acts @ [act])" "blocks_name b (acts @ [act]) blocks' = st"
    using ReadTag_item [OF assms(1) B assms(3,4)] by blast
  have e: "length p < length b" "b ! length p = CHR ''{''" "p_peek b (length p + 1) = CHR ''{''"
    using peek_at [of "p @ ''{''" "CHR ''{''" "tag_rest k n @ r"] by (simp_all add: B nth_append)
  have l: "length ((p @ ''{{'') @ tag_rest k n) = length (p @ tag_text k n)" by (simp add: tag_text_rest)
  have r': "parser_ReadTag b (length p + 2) blocks acts = Value (length (p @ tag_text k n), blocks', acts @ [act])"
    using r unfolding l by simp
  have "parse_loop b (length p) frag blocks acts frags =
      parse_loop b (length (p @ tag_text k n)) (length (p @ tag_text k n)) blocks' (acts @ [act]) (frags @ [(frag, length p)])"
    by (rule parse_loop_tag [OF e r'])
  with a show ?thesis by blast
qed

lemma parse_items:
  assumes "list_all item_ok L" and "b = p @ items_text L" and "\<forall>i \<in> set blocks. i < length acts"
    and "blocks_after (blocks_name b acts blocks) L = Some st" and "frag \<le> length p"
  shows "\<exists>frag' blocks' acts' frags'. parse_loop b (length p) frag blocks acts frags =
      Value (length b, frag', blocks', acts @ acts', frags @ frags') \<and> length blocks' = length st \<and>
    map (kind_name b) acts' = map (\<lambda>(k, n, a). (k, n)) L \<and> frag' \<le> length b \<and>
    map (\<lambda>(f, l). text_of b f l) (frags' @ [(frag', length b)]) = text_of b frag (length p) # map (\<lambda>(k, n, a). a) L"
  using assms
proof (induction L arbitrary: p blocks acts frag frags)
  case Nil
  then have "parse_loop b (length p) frag blocks acts frags = Value (length b, frag, blocks, acts, frags)"
    by (subst parse_loop.simps) simp
  moreover have "length blocks = length st" using Nil.prems(4) by (auto simp: blocks_name_def)
  ultimately show ?case using Nil.prems(2,5) by (intro exI [of _ frag] exI [of _ blocks] exI [of _ "[]"]) simp
next
  case (Cons x L)
  obtain k n a where x: "x = (k, n, a)" by (cases x)
  have ok: "name_ok k n" "text_ok a" "list_all item_ok L" using Cons.prems(1) by (simp_all add: x)
  have b: "b = p @ tag_text k n @ a @ items_text L" using Cons.prems(2) by (simp add: x)
  obtain st1 where st1: "blocks_after (blocks_name b acts blocks) [(k, n, a)] = Some st1" "blocks_after st1 L = Some st"
    using Cons.prems(4) by (auto simp: x split: if_splits)
  let ?q = "p @ tag_text k n" and ?F = "frags @ [(frag, length p)]"
  obtain blocks1 act where 1: "parse_loop b (length p) frag blocks acts frags = parse_loop b (length ?q) (length ?q) blocks1 (acts @ [act]) ?F"
    "kind_name b act = (k, n)" "\<forall>i \<in> set blocks1. i < length (acts @ [act])" "blocks_name b (acts @ [act]) blocks1 = st1"
    using parse_tag [OF ok(1) b Cons.prems(3) st1(1)] by blast
  have 2: "parse_loop b (length ?q) (length ?q) blocks1 (acts @ [act]) ?F = parse_loop b (length (?q @ a)) (length ?q) blocks1 (acts @ [act]) ?F"
    using parse_text [OF ok(2), of ?q "items_text L"] by (simp add: b)
  have B: "b = (?q @ a) @ items_text L" by (simp add: b)
  obtain frag' blocks' acts' frags' where 3:
    "parse_loop b (length (?q @ a)) (length ?q) blocks1 (acts @ [act]) ?F = Value (length b, frag', blocks', (acts @ [act]) @ acts', ?F @ frags')"
    "length blocks' = length st" "map (kind_name b) acts' = map (\<lambda>(k, n, a). (k, n)) L" "frag' \<le> length b"
    "map (\<lambda>(f, l). text_of b f l) (frags' @ [(frag', length b)]) = text_of b (length ?q) (length (?q @ a)) # map (\<lambda>(k, n, a). a) L"
    using Cons.IH [OF ok(3) B 1(3), of "length ?q" ?F] st1(2) 1(4) by auto
  have "text_of b (length ?q) (length (?q @ a)) = a" using text_of_middle [of ?q a "items_text L"] by (simp add: b add.assoc)
  then show ?case using 1(1,2) 2 3
    by (intro exI [of _ frag'] exI [of _ blocks'] exI [of _ "act # acts'"] exI [of _ "(frag, length p) # frags'"]) (simp add: x)
qed

lemma tag_String_text: "tag_String m a = text_of (m_body m) (a_first a) (a_last a)"
  by (simp add: tag_String_def text_of_def)

lemma frag_String_text: "frag_String m f = text_of (m_body m) (fst f) (snd f)"
  by (simp add: frag_String_def text_of_def)

lemma kind_name_tag: "kind_name (m_body m) a = (a_tag a, tag_String m a)"
  by (simp add: kind_name_def tag_String_text)

text \<open>The fragments: a last one without text is left out.\<close>

definition trim_last :: "string list \<Rightarrow> string list" where
  "trim_last ts = (if List.last ts = [] then butlast ts else ts)"

lemma items_text_empty: "items_text L = [] \<longleftrightarrow> L = []"
  by (cases L) (auto simp: tag_text_rest)

lemma fromString_template:
  assumes "text_ok t" and "list_all node_ok ns"
  shows "\<exists>m. fromString (template_text t ns) = Value m \<and> m_body m = template_text t ns \<and>
    map (\<lambda>a. (a_tag a, tag_String m a)) (m_actions m) = map (\<lambda>(k, n, a). (k, n)) (flats ns) \<and>
    map (frag_String m) (m_fragments m) = trim_last (t # map (\<lambda>(k, n, a). a) (flats ns))"
proof (cases "template_text t ns = []")
  case True
  then have "t = []" "flats ns = []" by (simp_all add: template_text_def items_text_empty)
  then show ?thesis unfolding True by (simp only: fromString_def) (simp add: trim_last_def)
next
  case False
  let ?b = "template_text t ns"
  have b: "?b = t @ items_text (flats ns)" by (simp add: template_text_def)
  have "blocks_after (blocks_name ?b [] []) (flats ns) = Some []" using flats_blocks [OF assms(2)] by (simp add: blocks_name_def)
  then obtain frag blocks acts frags where l: "parse_loop ?b (length t) 0 [] [] [] = Value (length ?b, frag, blocks, acts, frags)"
    "length blocks = 0" "map (kind_name ?b) acts = map (\<lambda>(k, n, a). (k, n)) (flats ns)" "frag \<le> length ?b"
    "map (\<lambda>(f, l). text_of ?b f l) (frags @ [(frag, length ?b)]) = text_of ?b 0 (length t) # map (\<lambda>(k, n, a). a) (flats ns)"
    using parse_items [OF flats_items [OF assms(2)] b, of "[]" "[]" "[]" 0 "[]"] by auto
  have p: "parse_loop ?b 0 0 [] [] [] = Value (length ?b, frag, [], acts, frags)"
    using parse_text [OF assms(1), of "[]" "items_text (flats ns)" 0 "[]" "[]" "[]"] l(1,2) unfolding b by simp
  have "map a_tag acts = map fst (map (kind_name ?b) acts)" by (simp add: kind_name_def comp_def)
  also have "\<dots> = map fst (flats ns)" unfolding l(3) by (simp add: comp_def case_prod_unfold)
  finally have c: "else_closed acts" using flats_closed [OF assms(2)] by (simp add: else_closed_kinds)
  let ?m = "\<lparr>m_actions = acts, m_fragments = (if length ?b \<noteq> frag then frags @ [(frag, length ?b)] else frags), m_body = ?b\<rparr>"
  have f: "fromString ?b = Value ?m" using False p c by (simp add: fromString_def Let_def)
  have t: "text_of ?b 0 (length t) = t" using text_of_middle [of "[]" t "items_text (flats ns)"] by (simp add: b)
  have k: "map (\<lambda>a. (a_tag a, tag_String ?m a)) (m_actions ?m) = map (\<lambda>(k, n, a). (k, n)) (flats ns)"
    using l(3) unfolding kind_name_def tag_String_text by simp
  have g: "map (\<lambda>(f, l). text_of ?b f l) fs = map (frag_String ?m) fs" for fs
    unfolding frag_String_text by (simp add: case_prod_unfold)
  have e: "text_of ?b frag (length ?b) = [] \<longleftrightarrow> length ?b = frag" using l(4) by (simp add: text_of_def)
  have "map (frag_String ?m) (m_fragments ?m) = trim_last (map (frag_String ?m) (frags @ [(frag, length ?b)]))"
    using e by (simp add: trim_last_def frag_String_text)
  also have "\<dots> = trim_last (t # map (\<lambda>(k, n, a). a) (flats ns))" using l(5) unfolding g t by simp
  finally show ?thesis using f k by (intro exI [of _ ?m]) simp
qed

end
