(* ===== verification/MustacheRender.thy ===== *)
theory MustacheRender
  imports MustacheParse
begin

text \<open>
  The meaning of a template as a tree, and the renderer on a parsed template.
\<close>

section \<open>The meaning of a template\<close>

fun each :: "('e \<Rightarrow> string outcome) \<Rightarrow> 'e list \<Rightarrow> string outcome" where
  "each f [] = Value []"
| "each f (e # es) = bind_out (f e) (\<lambda>o1. map_out (\<lambda>o2. o1 @ o2) (each f es))"

fun leaf_out :: "'n doubles \<Rightarrow> 'n partial \<Rightarrow> action_type \<Rightarrow> string \<Rightarrow> 'n json \<Rightarrow> string outcome" where
  "leaf_out D P Tag n ctx = bind_out (object_at ctx n) (value_text D False)"
| "leaf_out D P UnEscapeTag n ctx = bind_out (object_at ctx n) (value_text D True)"
| "leaf_out D P Partial n ctx = P n ctx"
| "leaf_out D P _ n ctx = Value []"

text \<open>\<open>sem D P ctx prev ns\<close> is the text \<open>prev\<close>, which stands before the nodes, and what the nodes give.
  A section whose value is neither empty nor an array gives the text before it once more, and its
  nodes see the members of the object outside.\<close>

function sem :: "'n doubles \<Rightarrow> 'n partial \<Rightarrow> 'n json \<Rightarrow> string \<Rightarrow> node list \<Rightarrow> string outcome" where
  "sem D P ctx prev [] = Value prev"
| "sem D P ctx prev (Leaf k n a # ns) =
     bind_out (leaf_out D P k n ctx) (\<lambda>o1. map_out (\<lambda>o2. prev @ o1 @ o2) (sem D P ctx a ns))"
| "sem D P ctx prev (Inverted n t a # ns) =
     bind_out (object_at ctx n) (\<lambda>v.
       map_out (\<lambda>o2. prev @ (if object_empty v then t else []) @ o2) (sem D P ctx a ns))"
| "sem D P ctx prev (Section n t ms a # ns) =
     bind_out (object_at ctx n) (\<lambda>v.
       bind_out (if object_empty v then Value []
                 else case v of
                     Some (JArray es) \<Rightarrow> each (\<lambda>e. sem D P e t ms) es
                   | _ \<Rightarrow> map_out (\<lambda>o1. prev @ o1) (sem D P ctx t ms)) (\<lambda>o1.
         map_out (\<lambda>o2. prev @ o1 @ o2) (sem D P ctx a ns)))"
  by pat_completeness auto
termination
  by (relation "measure (\<lambda>(D, P, ctx, prev, ns). size_list size ns)") auto

text \<open>No tag inside a section has the name of the section.\<close>

abbreviation names :: "item list \<Rightarrow> string set" where
  "names L \<equiv> (\<lambda>x. fst (snd x)) ` set L"

fun scoped :: "node \<Rightarrow> bool" where
  "scoped (Section n t ns a) \<longleftrightarrow> n \<notin> names (flats ns) \<and> list_all scoped ns"
| "scoped _ \<longleftrightarrow> True"

definition template_ok :: "string \<Rightarrow> node list \<Rightarrow> bool" where
  "template_ok t ns \<longleftrightarrow> text_ok t \<and> list_all node_ok ns \<and> list_all scoped ns"

section \<open>The renderer on the sequence of tags\<close>

definition frag_at :: "mustache \<Rightarrow> nat \<Rightarrow> string" where
  "frag_at m i = (if i < length (m_fragments m) then frag_String m (m_fragments m ! i) else [])"

text \<open>The tags of a sequence stand at a position of a template.\<close>

fun occurs :: "mustache \<Rightarrow> nat \<Rightarrow> string \<Rightarrow> item list \<Rightarrow> bool" where
  "occurs m i prev [] \<longleftrightarrow> frag_at m i = prev"
| "occurs m i prev ((k, n, a) # L) \<longleftrightarrow> frag_at m i = prev \<and> i < length (m_actions m) \<and> i < length (m_fragments m) \<and>
     a_tag (m_actions m ! i) = k \<and> tag_String m (m_actions m ! i) = n \<and> occurs m (i + 1) a L"

fun last_text :: "string \<Rightarrow> item list \<Rightarrow> string" where
  "last_text prev [] = prev"
| "last_text prev ((k, n, a) # L) = last_text a L"

lemma occurs_append: "occurs m i prev (L @ M) \<longleftrightarrow> occurs m i prev L \<and> occurs m (i + length L) (last_text prev L) M"
proof (induction L arbitrary: i prev)
  case Nil
  show ?case by (cases M rule: list.exhaust) (auto elim: occurs.elims)
qed auto

text \<open>A tag, as \<open>render_Internal\<close> renders it, and what follows it.\<close>

definition tag_out :: "'n doubles \<Rightarrow> 'n partial \<Rightarrow> mustache \<Rightarrow> 'n json \<Rightarrow> nat \<Rightarrow> (string \<times> nat) outcome" where
  "tag_out D P m ctx i =
     (let act = m_actions m ! i; name = tag_String m act in
      if a_tag act = OpenBlock then
        bind_out (object_at ctx name) (\<lambda>val.
          if object_empty val then Value ([], block_end m name i)
          else case val of
              Some (JArray es) \<Rightarrow> render_each D P m es (i + 1) name i
            | Some v \<Rightarrow> if name = [] then Undefined else render_Internal D P m v i name
            | None \<Rightarrow> Undefined)
      else render_Tag D P m act ctx i)"

definition render_rest :: "'n doubles \<Rightarrow> 'n partial \<Rightarrow> mustache \<Rightarrow> 'n json \<Rightarrow> nat \<Rightarrow> string \<Rightarrow> (string \<times> nat) outcome" where
  "render_rest D P m ctx i stop =
     (if i < length (m_fragments m) then
        (if i < length (m_actions m) then
           (if stops m i stop then Value ([], i)
            else bind_out (tag_out D P m ctx i) (\<lambda>(o1, j).
              if j < i then Undefined
              else map_out (\<lambda>(o2, l). (o1 @ o2, l)) (render_Internal D P m ctx (j + 1) stop)))
         else render_Internal D P m ctx (i + 1) stop)
      else Value ([], i))"

declare render_Internal.simps [simp del]

lemma case_outcome_bind:
  "(case x of Value a \<Rightarrow> f a | Throw e \<Rightarrow> Throw e | Undefined \<Rightarrow> Undefined) = bind_out x f"
  by (cases x) simp_all

lemma render_split: "render_Internal D P m ctx i stop = map_out (\<lambda>(o1, j). (frag_at m i @ o1, j)) (render_rest D P m ctx i stop)"
proof (cases "i < length (m_fragments m)")
  case f: True
  show ?thesis
  proof (cases "i < length (m_actions m)")
    case a: True
    show ?thesis
    proof (cases "stops m i stop")
      case True
      with f a show ?thesis by (subst render_Internal.simps) (simp add: render_rest_def frag_at_def stops_def Let_def)
    next
      case False
      then have s: "\<not> (stop \<noteq> [] \<and> tag_String m (m_actions m ! i) = stop)" using a by (auto simp: stops_def)
      have "render_Internal D P m ctx i stop =
          (case tag_out D P m ctx i of
             Value (o1, j) \<Rightarrow>
               if j < i then Undefined
               else (case render_Internal D P m ctx (j + 1) stop of
                       Value (o2, l) \<Rightarrow> Value (frag_at m i @ o1 @ o2, l)
                     | Throw e \<Rightarrow> Throw e
                     | Undefined \<Rightarrow> Undefined)
           | Throw e \<Rightarrow> Throw e
           | Undefined \<Rightarrow> Undefined)"
        by (subst render_Internal.simps) (simp only: f a s if_True if_False Let_def tag_out_def case_outcome_bind frag_at_def)
      moreover have "render_rest D P m ctx i stop = bind_out (tag_out D P m ctx i) (\<lambda>(o1, j).
          if j < i then Undefined else map_out (\<lambda>(o2, l). (o1 @ o2, l)) (render_Internal D P m ctx (j + 1) stop))"
        using f a False by (simp add: render_rest_def)
      ultimately show ?thesis by (cases "tag_out D P m ctx i") (auto split: outcome.splits)
    qed
  qed (use f in \<open>subst render_Internal.simps, auto simp: render_rest_def frag_at_def split: outcome.splits\<close>)
qed (subst render_Internal.simps, simp add: render_rest_def frag_at_def)

lemma rest_step:
  assumes "occurs m i prev ((k, n, a) # L)" and "stop = [] \<or> n \<noteq> stop"
  shows "render_rest D P m ctx i stop = bind_out (tag_out D P m ctx i) (\<lambda>(o1, j).
    if j < i then Undefined else map_out (\<lambda>(o2, l). (o1 @ o2, l)) (render_Internal D P m ctx (j + 1) stop))"
  using assms by (auto simp: render_rest_def stops_def)

lemma render_step:
  assumes "occurs m i prev ((k, n, a) # L)" and "stop = [] \<or> n \<noteq> stop" and "tag_out D P m ctx i = map_out (\<lambda>o1. (o1, j)) x" and "i \<le> j"
  shows "render_Internal D P m ctx i stop =
    bind_out x (\<lambda>o1. map_out (\<lambda>(o2, l). (prev @ o1 @ o2, l)) (render_Internal D P m ctx (j + 1) stop))"
proof -
  have "frag_at m i = prev" using assms(1) by simp
  then show ?thesis unfolding render_split [of D P m ctx i] rest_step [OF assms(1,2)] assms(3)
    using assms(4) by (simp add: out_algebra case_prod_unfold)
qed

lemma render_each_all:
  assumes "\<And>e. e \<in> set es \<Longrightarrow> render_Internal D P m e k name = map_out (\<lambda>o1. (o1, j)) (f e)"
  shows "render_each D P m es k name i = map_out (\<lambda>o1. (o1, if es = [] then i else j)) (each f es)"
  using assms
proof (induction es arbitrary: i)
  case (Cons e es)
  have "render_Internal D P m e k name = map_out (\<lambda>o1. (o1, j)) (f e)" by (rule Cons.prems) simp
  moreover have "render_each D P m es k name j = map_out (\<lambda>o1. (o1, j)) (each f es)"
    using Cons.IH [of j] Cons.prems by simp
  ultimately show ?case by (cases "f e"; cases "each f es") simp_all
qed simp

lemma render_stop:
  assumes "occurs m i prev ((k, n, a) # L)" and "n \<noteq> []"
  shows "render_rest D P m ctx i n = Value ([], i)"
  using assms by (simp add: render_rest_def stops_def)

lemma block_end_eq:
  assumes "occurs m i prev (L @ (CloseBlock, n, a) # M)" and "\<forall>x \<in> set L. fst x \<noteq> CloseBlock \<or> fst (snd x) \<noteq> n"
  shows "block_end m n i = i + length L"
  using assms
proof (induction L arbitrary: i prev)
  case Nil
  then have "drop i (m_actions m) = m_actions m ! i # drop (Suc i) (m_actions m)" "is_close m n (m_actions m ! i)"
    by (auto simp: Cons_nth_drop_Suc is_close_def)
  then show ?case by (simp add: block_end_def)
next
  case (Cons x L)
  obtain k n' a' where x: "x = (k, n', a')" by (cases x)
  have o: "occurs m (i + 1) a' (L @ (CloseBlock, n, a) # M)" "i < length (m_actions m)" "tag_String m (m_actions m ! i) = n'" "a_tag (m_actions m ! i) = k"
    using Cons.prems(1) by (simp_all add: x)
  have c: "k \<noteq> CloseBlock \<or> n' \<noteq> n" "\<forall>x \<in> set L. fst x \<noteq> CloseBlock \<or> fst (snd x) \<noteq> n" using Cons.prems(2) by (auto simp: x)
  from Cons.IH [OF o(1) c(2)] have e: "block_end m n (i + 1) = i + 1 + length L" by simp
  have "drop i (m_actions m) = m_actions m ! i # drop (Suc i) (m_actions m)" using o(2) by (simp add: Cons_nth_drop_Suc)
  moreover have "\<not> is_close m n (m_actions m ! i)" using o(3,4) c(1) by (auto simp: is_close_def)
  ultimately show ?case using e by (simp add: block_end_def)
qed

lemma nodes_induct [case_names Nil Leaf Inverted Section]:
  assumes "P []" and "\<And>k n a ns. P ns \<Longrightarrow> P (Leaf k n a # ns)" and "\<And>n t a ns. P ns \<Longrightarrow> P (Inverted n t a # ns)"
    and "\<And>n t ms a ns. P ms \<Longrightarrow> P ns \<Longrightarrow> P (Section n t ms a # ns)"
  shows "P ns"
proof (induction "size_list size ns" arbitrary: ns rule: less_induct)
  case less
  show ?case
  proof (cases ns)
    case (Cons x rest)
    have "P rest" by (rule less.hyps) (simp add: Cons)
    moreover have "P ms" if "x = Section n t ms a" for n t ms a by (rule less.hyps) (simp add: Cons that)
    ultimately show ?thesis unfolding Cons using assms(2-4) by (cases x) auto
  qed (use assms(1) in simp)
qed

lemma occurs_first: "occurs m i prev ((k, n, a) # L) \<Longrightarrow> a_tag (m_actions m ! i) = k \<and> tag_String m (m_actions m ! i) = n"
  by simp

lemma tag_out_leaf:
  assumes "occurs m i prev ((k, n, a) # L)" and "leaf_kind k"
  shows "tag_out D P m ctx i = map_out (\<lambda>o1. (o1, i)) (leaf_out D P k n ctx)"
  using occurs_first [OF assms(1)] assms(2) by (cases k) (simp_all add: tag_out_def render_Tag_def)

lemma tag_out_close:
  assumes "occurs m i prev ((CloseBlock, n, a) # L)"
  shows "tag_out D P m ctx i = Value ([], i)"
  using occurs_first [OF assms] by (simp add: tag_out_def render_Tag_def)

lemma tag_out_else:
  assumes "occurs m i prev ((ElseBlock, n, t) # (CloseBlock, n, a) # L)"
  shows "tag_out D P m ctx i = map_out (\<lambda>o1. (o1, i + 1)) (map_out (\<lambda>v. if object_empty v then t else []) (object_at ctx n))"
proof -
  have f: "i + 1 < length (m_fragments m)" "frag_String m (m_fragments m ! (i + 1)) = t"
    using assms by (auto simp: frag_at_def)
  show ?thesis
    using occurs_first [OF assms] f by (cases "object_at ctx n") (simp_all add: tag_out_def render_Tag_def)
qed

text \<open>The renderer on the tags of nodes: what the nodes mean, and then what follows them.\<close>

lemma render_sem:
  assumes "occurs m i prev (flats ns)" and "list_all scoped ns" and "list_all node_ok ns"
    and "stop = [] \<or> stop \<notin> names (flats ns)"
  shows "render_Internal D P m ctx i stop = bind_out (sem D P ctx prev ns) (\<lambda>o1.
    map_out (\<lambda>(o2, l). (o1 @ o2, l)) (render_rest D P m ctx (i + length (flats ns)) stop))"
  using assms
proof (induction ns arbitrary: ctx prev i stop rule: nodes_induct)
  case Nil
  then show ?case by (simp add: render_split [of D P m ctx i])
next
  case (Leaf k n a ns)
  have o: "occurs m i prev ((k, n, a) # flats ns)" "occurs m (i + 1) a (flats ns)" using Leaf.prems(1) by simp_all
  have st: "stop = [] \<or> n \<noteq> stop" "stop = [] \<or> stop \<notin> names (flats ns)" using Leaf.prems(4) by auto
  have lk: "leaf_kind k" using Leaf.prems(3) by simp
  note step = render_step [OF o(1) st(1) tag_out_leaf [OF o(1) lk] order_refl, of D P ctx]
  have "render_Internal D P m ctx (i + 1) stop = bind_out (sem D P ctx a ns) (\<lambda>o1.
      map_out (\<lambda>(o2, l). (o1 @ o2, l)) (render_rest D P m ctx (i + 1 + length (flats ns)) stop))"
    using Leaf.prems(2,3) by (intro Leaf.IH [OF o(2)] st(2)) simp_all
  then show ?case unfolding step by (simp add: out_algebra case_prod_unfold)
next
  case (Inverted n t a ns)
  have o: "occurs m i prev ((ElseBlock, n, t) # (CloseBlock, n, a) # flats ns)" "occurs m (i + 1 + 1) a (flats ns)" using Inverted.prems(1) by simp_all
  have st: "stop = [] \<or> n \<noteq> stop" "stop = [] \<or> stop \<notin> names (flats ns)" using Inverted.prems(4) by auto
  note step = render_step [OF o(1) st(1) tag_out_else [OF o(1)], of D P ctx]
  have "render_Internal D P m ctx (i + 1 + 1) stop = bind_out (sem D P ctx a ns) (\<lambda>o1.
      map_out (\<lambda>(o2, l). (o1 @ o2, l)) (render_rest D P m ctx (i + 1 + 1 + length (flats ns)) stop))"
    using Inverted.prems(2,3) by (intro Inverted.IH [OF o(2)] st(2)) simp_all
  then show ?case using step by (simp add: out_algebra case_prod_unfold)
next
  case (Section n t ms a ns)
  let ?k = "i + 1 + length (flats ms)"
  have o: "occurs m i prev ((OpenBlock, n, t) # flats ms @ (CloseBlock, n, a) # flats ns)" using Section.prems(1) by simp
  have o1: "occurs m (i + 1) t (flats ms)" and oc: "occurs m ?k (last_text t (flats ms)) ((CloseBlock, n, a) # flats ns)"
    and o2: "occurs m (?k + 1) a (flats ns)"
    using o by (simp_all add: occurs_append)
  have n: "n \<noteq> []" "n \<notin> names (flats ms)" "list_all scoped ms" "list_all node_ok ms" "list_all scoped ns" "list_all node_ok ns"
    using Section.prems(2,3) by simp_all
  have st: "stop = [] \<or> n \<noteq> stop" "stop = [] \<or> stop \<notin> names (flats ms)" "stop = [] \<or> stop \<notin> names (flats ns)"
    using Section.prems(4) by auto
  have f: "frag_at m i = prev" using o by simp
  have rest: "render_Internal D P m ctx (?k + 1) stop = bind_out (sem D P ctx a ns) (\<lambda>o1.
      map_out (\<lambda>(o2, l). (o1 @ o2, l)) (render_rest D P m ctx (?k + 1 + length (flats ns)) stop))"
    using n(5,6) by (intro Section.IH(2) [OF o2] st(3)) simp_all
  have len: "i + length (flats (Section n t ms a # ns)) = ?k + 1 + length (flats ns)" by simp
  note step = render_step [OF o st(1), of D P ctx]
  show ?case
  proof (cases "object_at ctx n")
    case (Value v)
    consider (empty) "object_empty v" | (array) es where "v = Some (JArray es)" "es \<noteq> []"
      | (other) w where "v = Some w" "\<not> object_empty v" "\<forall>es. w \<noteq> JArray es"
      by (cases v rule: object_empty.cases) auto
    then show ?thesis
    proof cases
      case empty
      have O: "occurs m i prev (((OpenBlock, n, t) # flats ms) @ (CloseBlock, n, a) # flats ns)" using o by simp
      have "\<forall>x \<in> set ((OpenBlock, n, t) # flats ms). fst x \<noteq> CloseBlock \<or> fst (snd x) \<noteq> n" using n(2) by auto
      from block_end_eq [OF O this] have "block_end m n i = ?k" by simp
      then have "tag_out D P m ctx i = map_out (\<lambda>o1. (o1, ?k)) (Value [])"
        using occurs_first [OF o] Value empty by (simp add: tag_out_def)
      from step [OF this] rest show ?thesis unfolding len using Value empty by (simp add: out_algebra case_prod_unfold)
    next
      case array
      have "render_Internal D P m e (i + 1) n = map_out (\<lambda>o1. (o1, ?k)) (sem D P e t ms)" if "e \<in> set es" for e
      proof -
        have "render_Internal D P m e (i + 1) n = bind_out (sem D P e t ms) (\<lambda>o1.
            map_out (\<lambda>(o2, l). (o1 @ o2, l)) (render_rest D P m e ?k n))"
          using n by (intro Section.IH(1) [OF o1]) simp_all
        then show ?thesis unfolding render_stop [OF oc n(1)] by (cases "sem D P e t ms") simp_all
      qed
      from render_each_all [of es, OF this] have "tag_out D P m ctx i = map_out (\<lambda>o1. (o1, ?k)) (each (\<lambda>e. sem D P e t ms) es)"
        using occurs_first [OF o] Value array by (simp add: tag_out_def)
      from step [OF this] rest show ?thesis unfolding len using Value array by (simp add: out_algebra case_prod_unfold)
    next
      case other
      have "render_rest D P m w i n = Value ([], i)" by (rule render_stop [OF o n(1)])
      then have "tag_out D P m ctx i = map_out (\<lambda>o1. (o1, i)) (Value prev)"
        using occurs_first [OF o] Value other n(1) f by (cases w) (simp_all add: tag_out_def render_split [of D P m _ i])
      note s1 = step [OF this order_refl]
      have "render_Internal D P m ctx (i + 1) stop = bind_out (sem D P ctx t ms) (\<lambda>o1.
          map_out (\<lambda>(o2, l). (o1 @ o2, l)) (render_rest D P m ctx ?k stop))"
        using n by (intro Section.IH(1) [OF o1] st(2)) simp_all
      moreover have "render_rest D P m ctx ?k stop = render_Internal D P m ctx (?k + 1) stop"
        unfolding rest_step [OF oc st(1)] tag_out_close [OF oc] by (simp add: case_prod_unfold) (cases "render_Internal D P m ctx (Suc ?k) stop"; simp)
      ultimately show ?thesis unfolding len s1 using rest Value other
        by (cases w) (simp_all add: out_algebra case_prod_unfold)
    qed
  qed (use step in \<open>simp_all add: render_split [of D P m ctx i] rest_step [OF o st(1)] tag_out_def occurs_first [OF o]\<close>)
qed

end
