(* ===== verification/MustacheSafe.thy ===== *)
theory MustacheSafe
  imports MustacheRender
begin

text \<open>
  What holds of every template that the parser accepts, and of rendering it.
\<close>

section \<open>Where a tag ends\<close>

lemma eatSpace_le: "p \<le> length b \<Longrightarrow> p \<le> eatSpace b p \<and> eatSpace b p \<le> length b"
  using length_takeWhile_le [of isspace "drop p b"] by (simp add: eatSpace_def)

lemma eatSpace_ge: "p \<le> eatSpace b p"
  by (simp add: eatSpace_def)

lemma p_next_defined: "p \<le> length b \<Longrightarrow> p_next b p \<noteq> Undefined"
  by (simp add: p_next_def)

lemma p_next_Value: "p_next b p = Value c \<Longrightarrow> c \<noteq> NUL \<Longrightarrow> p < length b \<and> b ! p = c"
  by (auto simp: p_next_def split: if_splits)

lemma toLastIndex_defined:
  assumes "p \<le> length b"
  shows "toLastIndex b p chs \<noteq> Undefined"
    and "toLastIndex b p chs = Value (s, e, q) \<Longrightarrow> p \<le> s \<and> s < e \<and> e < q \<and> q \<le> length b"
proof -
  let ?s = "eatSpace b p" and ?e = "Suc (eatSpace b p) + length (takeWhile (tag_char chs) (drop (Suc (eatSpace b p)) b))"
  let ?q = "eatSpace b ?e"
  have s: "p \<le> ?s" "?s \<le> length b" using eatSpace_le [OF assms] by simp_all
  show "toLastIndex b p chs \<noteq> Undefined"
  proof (cases "p_next b ?s")
    case (Value n)
    show ?thesis
    proof (cases "isalpha n \<or> n = CHR ''_''")
      case True
      then have l: "?s < length b" using p_next_Value [OF Value] alpha_not(3) by auto
      have e: "?e \<le> length b" using l length_takeWhile_le [of "tag_char chs" "drop (Suc ?s) b"] by simp
      have q: "?q \<le> length b" using eatSpace_le [OF e] by simp
      show ?thesis
      proof (cases "p_next b ?q")
        case Value': (Value c)
        then show ?thesis using Value True p_next_Value [OF Value'] p_next_defined [of "?q + 1" b]
          by (cases "p_next b (?q + 1)") (auto simp: toLastIndex_def Let_def)
      qed (use p_next_defined [OF q] Value True in \<open>auto simp: toLastIndex_def Let_def\<close>)
    qed (use Value in \<open>auto simp: toLastIndex_def Let_def\<close>)
  qed (use p_next_defined [OF s(2)] in \<open>auto simp: toLastIndex_def Let_def\<close>)
  assume "toLastIndex b p chs = Value (s, e, q)"
  then obtain n c d where v: "s = ?s" "e = ?e" "q = ?q + 2" "p_next b (?q + 1) = Value d" "d = CHR ''}''"
    by (auto simp: toLastIndex_def Let_def bind_out_Value_iff split: if_splits)
  have "?q + 1 < length b" using p_next_Value [OF v(4)] v(5) by simp
  then show "p \<le> s \<and> s < e \<and> e < q \<and> q \<le> length b"
    using v(1-3) s(1) eatSpace_ge [of ?e b] by simp
qed

text \<open>The end of a comment.\<close>

lemma comment_length_le: "comment_length s \<le> length s"
  by (induction s) auto

lemma comment_stop:
  assumes "comment_length s < length s"
  shows "s ! comment_length s = CHR ''}'' \<and> comment_length s = 0 \<or>
    comment_length s + 1 < length s \<and> s ! (comment_length s + 1) = CHR ''}''"
  using assms
proof (induction s)
  case (Cons c s)
  show ?case
  proof (cases "c \<noteq> CHR ''}'' \<and> peek s \<noteq> CHR ''}''")
    case True
    then have "comment_length s < length s" using Cons.prems by simp
    from Cons.IH [OF this] show ?thesis
    proof
      assume a: "s ! comment_length s = CHR ''}'' \<and> comment_length s = 0"
      then have "peek s = CHR ''}''" using \<open>comment_length s < length s\<close> by (cases s) auto
      with True show ?thesis by simp
    qed (use True in simp)
  next
    case False
    then show ?thesis by (cases s) auto
  qed
qed simp

section \<open>The parser never reads behind the end\<close>

definition act_ok :: "nat \<Rightarrow> action \<Rightarrow> bool" where
  "act_ok l a \<longleftrightarrow> a_first a < a_last a \<and> a_last a \<le> l"

definition opens :: "action \<Rightarrow> bool" where
  "opens a \<longleftrightarrow> a_tag a = OpenBlock \<or> a_tag a = ElseBlock"

text \<open>The blocks that are open are actions; an action that opens a block is open or has one behind it.\<close>

definition blocks_ok :: "nat list \<Rightarrow> action list \<Rightarrow> bool" where
  "blocks_ok blocks acts \<longleftrightarrow> (\<forall>i < length acts. opens (acts ! i) \<longrightarrow> i \<in> set blocks \<or> i + 1 < length acts)"

lemma blocks_ok_push: "blocks_ok blocks acts \<Longrightarrow> blocks_ok (blocks @ [length acts]) (acts @ [a])"
  by (auto simp: blocks_ok_def nth_append less_Suc_eq)

lemma blocks_ok_other: "blocks_ok blocks acts \<Longrightarrow> \<not> opens a \<Longrightarrow> blocks_ok blocks' (acts @ [a])"
  by (auto simp: blocks_ok_def nth_append less_Suc_eq)

definition ends_in_comment :: "string \<Rightarrow> bool" where
  "ends_in_comment b \<longleftrightarrow> (\<exists>t. b = t @ ''!}'')"

lemma ReadTag_comment:
  assumes "p < length b" and "p_peek b p = CHR ''!''" and q: "q = p + 1 + comment_length (drop (p + 1) b)"
    and c: "p_next b q = Value c" and t: "c = CHR ''}'' \<or> p_peek b (q + 1) = CHR ''}''"
  shows "q < length b" and "p_next b (q + 1) \<noteq> Undefined" and "p_next b (q + 2) = Undefined \<Longrightarrow> ends_in_comment b"
proof -
  show l: "q < length b"
  proof (rule ccontr)
    assume "\<not> q < length b"
    then have "p_peek b (q + 1) = NUL" "c = NUL" using c by (auto simp: p_peek_def p_next_def split: if_splits)
    with t show False by simp
  qed
  then show "p_next b (q + 1) \<noteq> Undefined" by (intro p_next_defined) simp
  assume "p_next b (q + 2) = Undefined"
  then have e: "q + 1 = length b" using l by (auto simp: p_next_def split: if_splits)
  let ?s = "drop (p + 1) b"
  have n: "comment_length ?s + 1 = length ?s" using e q by simp
  then have s: "?s ! comment_length ?s = CHR ''}''" "comment_length ?s = 0" using comment_stop [of ?s] by auto
  have "length ?s = 1" using n s(2) by simp
  then obtain x where x: "?s = [x]" by (metis One_nat_def length_0_conv length_Suc_conv)
  have "?s = ''}''" using s unfolding x by (simp split: if_splits)
  moreover have "b ! p = CHR ''!''" using assms(1,2) by (simp add: p_peek_def)
  ultimately have "drop p b = ''!}''" using assms(1) by (simp add: Cons_nth_drop_Suc [symmetric])
  then show "ends_in_comment b" unfolding ends_in_comment_def by (metis append_take_drop_id)
qed

lemma act_ok_Action: "s < e \<Longrightarrow> e \<le> l \<Longrightarrow> act_ok l (Action k s e i)"
  by (simp add: act_ok_def Action_def)

text \<open>What reading a tag does to the blocks and the actions.\<close>

definition read_ok :: "string \<Rightarrow> nat list \<Rightarrow> action list \<Rightarrow> nat list \<Rightarrow> action list \<Rightarrow> bool" where
  "read_ok b blocks acts blocks' acts' \<longleftrightarrow>
     (\<exists>a. acts' = acts @ [a] \<and> act_ok (length b) a \<and>
        (if opens a then blocks' = blocks @ [length acts] else set blocks' \<subseteq> set blocks))"

lemma read_okI:
  assumes "s < e" and "e \<le> length b" and "set blocks' \<subseteq> set blocks" and "k \<noteq> OpenBlock" and "k \<noteq> ElseBlock"
  shows "read_ok b blocks acts blocks' (acts @ [Action k s e i])"
  using assms unfolding read_ok_def by (intro exI [of _ "Action k s e i"]) (auto simp: opens_def Action_def act_ok_def)

lemma ReadTag_ok:
  assumes "p \<le> length b"
  shows "parser_ReadTag b p blocks acts = Undefined \<Longrightarrow> ends_in_comment b"
    and "parser_ReadTag b p blocks acts = Value (q, blocks', acts') \<Longrightarrow> read_ok b blocks acts blocks' acts'"
proof -
  let ?p = "eatSpace b p" and ?c = "p_peek b (eatSpace b p)"
  have l: "?p \<le> length b" using eatSpace_le [OF assms] by simp
  have l1: "?p + 1 \<le> length b" if "?c \<noteq> NUL" using that l by (auto simp: p_peek_def split: if_splits)
  note t = toLastIndex_defined(1) [OF l] toLastIndex_defined(2) [OF l]
  have t1: "toLastIndex b (?p + 1) chs \<noteq> Undefined"
    "toLastIndex b (?p + 1) chs = Value (s, e, r) \<Longrightarrow> s < e \<and> e \<le> length b \<and> r \<le> length b" if "?c \<noteq> NUL" for chs s e r
    using toLastIndex_defined [OF l1 [OF that]] by fastforce+
  consider (comment) "?c = CHR ''!''" | (unescape) "?c = CHR ''{''" | (close) "?c = CHR ''/''" | (throws) "?c = CHR ''=''"
    | (push) "?c = CHR ''#'' \<or> ?c = CHR ''^''" | (name) "?c = CHR ''>'' \<or> ?c = CHR ''&''" | (tag) "?c \<notin> set ''#/^!>{&=''"
    by auto
  then have "(parser_ReadTag b p blocks acts = Undefined \<longrightarrow> ends_in_comment b) \<and>
    (parser_ReadTag b p blocks acts = Value (q, blocks', acts') \<longrightarrow> read_ok b blocks acts blocks' acts')"
  proof cases
    case name
    then have n: "?c \<noteq> NUL" by auto
    show ?thesis using name t1 [OF n, of "if ?c = CHR ''>'' then ''/._'' else ''_''"]
      by (cases "toLastIndex b (?p + 1) (if ?c = CHR ''>'' then ''/._'' else ''_'')")
        (auto simp: parser_ReadTag_def Let_def read_ok_def opens_def Action_def act_ok_def)
  next
    case push
    then have n: "?c \<noteq> NUL" by auto
    show ?thesis using push t1 [OF n, of "''_''"]
      by (cases "toLastIndex b (?p + 1) ''_''") (auto simp: parser_ReadTag_def Let_def read_ok_def opens_def Action_def act_ok_def)
  next
    case tag
    then show ?thesis using t [of "''_''"]
      by (cases "toLastIndex b ?p ''_''") (auto simp: parser_ReadTag_def Let_def read_ok_def opens_def Action_def act_ok_def)
  next
    case throws
    then show ?thesis by (simp add: parser_ReadTag_def Let_def)
  next
    case close
    then have n: "?c \<noteq> NUL" by simp
    have sub: "set (butlast blocks) \<subseteq> set blocks" by (auto dest: in_set_butlastD)
    show ?thesis using close t1 [OF n, of "''_''"] sub
      by (cases "toLastIndex b (?p + 1) ''_''") (auto simp: parser_ReadTag_def Let_def split: if_splits intro!: read_okI)
  next
    case unescape
    then have n: "?c \<noteq> NUL" by simp
    show ?thesis
    proof (cases "toLastIndex b (?p + 1) ''_''")
      case (Value x)
      obtain s e r where x: "x = (s, e, r)" by (cases x)
      have r: "s < e" "e \<le> length b" "r \<le> length b" using t1(2) [OF n] Value x by auto
      show ?thesis using unescape Value x r p_next_defined [OF r(3)]
        by (cases "p_next b r") (auto simp: parser_ReadTag_def Let_def split: if_splits intro!: read_okI)
    qed (use unescape t1(1) [OF n] in \<open>auto simp: parser_ReadTag_def Let_def\<close>)
  next
    case comment
    then have n: "?p < length b" using l1 by simp
    let ?q = "?p + 1 + comment_length (drop (?p + 1) b)"
    have q: "?q \<le> length b" using n comment_length_le [of "drop (?p + 1) b"] by simp
    show ?thesis
    proof (cases "p_next b ?q")
      case (Value c)
      show ?thesis
      proof (cases "c = CHR ''}'' \<or> p_peek b (?q + 1) = CHR ''}''")
        case True
        note k = ReadTag_comment [OF n comment refl Value True]
        show ?thesis using comment Value True k
          by (cases "p_next b (?q + 1)"; cases "p_next b (?q + 2)")
            (auto simp: parser_ReadTag_def Let_def split: if_splits intro!: read_okI)
      qed (use comment Value in \<open>auto simp: parser_ReadTag_def Let_def\<close>)
    qed (use comment p_next_defined [OF q] in \<open>auto simp: parser_ReadTag_def Let_def\<close>)
  qed
  then show "parser_ReadTag b p blocks acts = Undefined \<Longrightarrow> ends_in_comment b"
    and "parser_ReadTag b p blocks acts = Value (q, blocks', acts') \<Longrightarrow> read_ok b blocks acts blocks' acts'" by blast+
qed

definition frags_ok :: "nat \<Rightarrow> (nat \<times> nat) list \<Rightarrow> bool" where
  "frags_ok l frags \<longleftrightarrow> (\<forall>x \<in> set frags. fst x \<le> snd x \<and> snd x \<le> l)"

definition loop_inv :: "string \<Rightarrow> nat \<Rightarrow> nat \<Rightarrow> nat list \<Rightarrow> action list \<Rightarrow> (nat \<times> nat) list \<Rightarrow> bool" where
  "loop_inv b p frag blocks acts frags \<longleftrightarrow> frag \<le> p \<and> (p \<le> length b \<or> p = frag) \<and> length frags = length acts \<and>
     list_all (act_ok (length b)) acts \<and> blocks_ok blocks acts \<and> frags_ok (length b) frags"

lemma blocks_ok_read:
  assumes "blocks_ok blocks acts" and "read_ok b blocks acts blocks' acts'"
  shows "blocks_ok blocks' acts' \<and> length acts' = length acts + 1 \<and> (list_all (act_ok (length b)) acts \<longrightarrow> list_all (act_ok (length b)) acts')"
proof -
  obtain a where a: "acts' = acts @ [a]" "act_ok (length b) a" "if opens a then blocks' = blocks @ [length acts] else set blocks' \<subseteq> set blocks"
    using assms(2) unfolding read_ok_def by blast
  have "blocks_ok blocks' acts'"
    unfolding a(1) using a(3) assms(1) by (cases "opens a") (simp_all add: blocks_ok_push blocks_ok_other)
  then show ?thesis using a(1,2) by simp
qed

lemma parse_loop_ok:
  assumes "loop_inv b p frag blocks acts frags"
  shows "(parse_loop b p frag blocks acts frags = Undefined \<longrightarrow> ends_in_comment b) \<and>
    (\<forall>p' frag' blocks' acts' frags'. parse_loop b p frag blocks acts frags = Value (p', frag', blocks', acts', frags') \<longrightarrow>
      loop_inv b p' frag' blocks' acts' frags')"
  using assms
proof (induction b p frag blocks acts frags rule: parse_loop.induct)
  case (1 b p frag blocks acts frags)
  consider (eof) "length b \<le> p" | (tag) "p < length b" "b ! p = CHR ''{''" "p_peek b (p + 1) = CHR ''{''"
    | (char) "p < length b" "\<not> (b ! p = CHR ''{'' \<and> p_peek b (p + 1) = CHR ''{'')"
    by fastforce
  then show ?case
  proof cases
    case eof
    then show ?thesis using "1.prems" by (subst (1 2) parse_loop.simps) simp
  next
    case tag
    then have l: "p + 2 \<le> length b" by (auto simp: p_peek_def split: if_splits)
    note r = ReadTag_ok [OF l, of blocks acts]
    show ?thesis
    proof (cases "parser_ReadTag b (p + 2) blocks acts")
      case (Value x)
      obtain q blocks' acts' where x: "x = (q, blocks', acts')" by (cases x)
      have "frags_ok (length b) (frags @ [(frag, p)])" using "1.prems" tag(1) by (simp add: loop_inv_def frags_ok_def)
      then have "loop_inv b q q blocks' acts' (frags @ [(frag, p)])"
        using blocks_ok_read [OF _ r(2) [OF Value [unfolded x]]] "1.prems" by (simp add: loop_inv_def)
      from "1.IH"(1) [OF _ _ Value [unfolded x] refl refl this] tag
      show ?thesis unfolding parse_loop_tag [OF tag Value [unfolded x]] by simp
    next
      case (Throw e)
      then have "parse_loop b p frag blocks acts frags = Throw e" using tag by (subst parse_loop.simps) simp
      then show ?thesis by simp
    next
      case Undefined
      then have "parse_loop b p frag blocks acts frags = Undefined" using tag by (subst parse_loop.simps) simp
      then show ?thesis using r(1) [OF Undefined] by simp
    qed
  next
    case char
    have "loop_inv b (p + 1) frag blocks acts frags" using "1.prems" char(1) by (simp add: loop_inv_def)
    from "1.IH"(2) [OF _ char(2) this] char(1) show ?thesis unfolding parse_loop_char [OF char] by simp
  qed
qed

text \<open>A template as the parser makes it.\<close>

definition wf_mustache :: "mustache \<Rightarrow> bool" where
  "wf_mustache m \<longleftrightarrow> length (m_actions m) \<le> length (m_fragments m) \<and> length (m_fragments m) \<le> length (m_actions m) + 1 \<and>
     list_all (act_ok (length (m_body m))) (m_actions m) \<and> frags_ok (length (m_body m)) (m_fragments m) \<and>
     (\<forall>i < length (m_actions m). opens (m_actions m ! i) \<longrightarrow> i + 1 < length (m_actions m)) \<and> else_closed (m_actions m)"

lemma fromString_ok:
  shows "fromString b = Undefined \<Longrightarrow> ends_in_comment b"
    and "fromString b = Value m \<Longrightarrow> wf_mustache m \<and> m_body m = b"
proof -
  have i: "loop_inv b 0 0 [] [] []" by (simp add: loop_inv_def frags_ok_def blocks_ok_def)
  note l = parse_loop_ok [OF i]
  show "ends_in_comment b" if "fromString b = Undefined"
    using that l unfolding fromString_def
    by (cases "parse_loop b 0 0 [] [] []") (auto simp: Let_def split: if_splits prod.splits)
  assume m: "fromString b = Value m"
  show "wf_mustache m \<and> m_body m = b"
  proof (cases "b = []")
    case True
    then show ?thesis using m by (auto simp: fromString_def wf_mustache_def frags_ok_def)
  next
    case False
    then obtain p frag acts frags where r: "parse_loop b 0 0 [] [] [] = Value (p, frag, [], acts, frags)" "else_closed acts"
      "m = \<lparr>m_actions = acts, m_fragments = (if p \<noteq> frag then frags @ [(frag, p)] else frags), m_body = b\<rparr>"
      using m by (auto simp: fromString_def bind_out_Value_iff Let_def split: if_splits)
    have "loop_inv b p frag [] acts frags" using l r(1) by blast
    then show ?thesis using r(2,3) by (auto simp: loop_inv_def wf_mustache_def frags_ok_def blocks_ok_def)
  qed
qed

section \<open>Rendering a parsed template\<close>

lemma wf_else: "wf_mustache m \<Longrightarrow> i < length (m_actions m) \<Longrightarrow> a_tag (m_actions m ! i) = ElseBlock \<Longrightarrow> i + 1 < length (m_fragments m)"
  by (force simp: wf_mustache_def opens_def)

lemma wf_name: "wf_mustache m \<Longrightarrow> a \<in> set (m_actions m) \<Longrightarrow> tag_String m a \<noteq> []"
  by (auto simp: wf_mustache_def list_all_iff act_ok_def tag_String_text text_of_def)

lemma value_text_defined: "(\<And>n. number_text D n \<noteq> Undefined) \<Longrightarrow> value_text D u v \<noteq> Undefined"
  by (cases v) (auto split: option.splits, case_tac a, auto)

lemma object_at_defined: "object_at ctx n \<noteq> Undefined"
  by (cases ctx) simp_all

definition partial_names :: "mustache \<Rightarrow> string set" where
  "partial_names m = tag_String m ` {a \<in> set (m_actions m). a_tag a = Partial}"

lemma render_Tag_defined:
  assumes "wf_mustache m" and "i < length (m_actions m)" and "\<And>n. number_text D n \<noteq> Undefined"
    and "\<And>name ctx. name \<in> partial_names m \<Longrightarrow> P name ctx \<noteq> Undefined"
  shows "render_Tag D P m (m_actions m ! i) ctx i \<noteq> Undefined"
    and "render_Tag D P m (m_actions m ! i) ctx i = Value (o1, j) \<Longrightarrow> i \<le> j"
proof -
  let ?a = "m_actions m ! i"
  have v: "bind_out (object_at ctx n) (value_text D u) \<noteq> Undefined" for n u
    using object_at_defined [of ctx n] value_text_defined [OF assms(3)] by (cases "object_at ctx n") auto
  have d: "map_out f x \<noteq> Undefined" if "x \<noteq> Undefined" for f :: "string \<Rightarrow> string \<times> nat" and x using that by (cases x) auto
  have p: "tag_String m ?a \<in> partial_names m" if "a_tag ?a = Partial" using that assms(2) by (auto simp: partial_names_def)
  show "render_Tag D P m ?a ctx i \<noteq> Undefined"
    using wf_else [OF assms(1,2)] object_at_defined [of ctx "tag_String m ?a"] d [OF v] d [OF assms(4) [OF p]]
      d [OF value_text_defined [OF assms(3)]]
    by (cases "a_tag ?a"; cases "object_at ctx (tag_String m ?a)") (auto simp: render_Tag_def)
  show "render_Tag D P m ?a ctx i = Value (o1, j) \<Longrightarrow> i \<le> j"
    by (auto simp: render_Tag_def Let_def map_out_Value_iff bind_out_Value_iff split: action_type.splits if_splits)
qed

text \<open>Defined, and the index does not go back.\<close>

definition forward :: "nat \<Rightarrow> (string \<times> nat) outcome \<Rightarrow> bool" where
  "forward i r \<longleftrightarrow> r \<noteq> Undefined \<and> (\<forall>o1 j. r = Value (o1, j) \<longrightarrow> i \<le> j)"

lemma forward_simps [simp]: "forward i (Value (o1, j)) \<longleftrightarrow> i \<le> j" "forward i (Throw e)" "\<not> forward i Undefined"
  by (auto simp: forward_def)

lemma forward_map: "forward i (map_out (\<lambda>(o2, j). (f o2, j)) r) \<longleftrightarrow> forward i r"
  by (cases r) (auto simp: forward_def)

lemma forward_bind: "forward i r \<Longrightarrow> (\<And>o1 j. i \<le> j \<Longrightarrow> forward i (g (o1, j))) \<Longrightarrow> forward i (bind_out r g)"
  by (cases r) auto

lemma forward_each:
  assumes "\<And>e. forward k (render_Internal D P m e k name)" and "i \<le> k"
  shows "forward i (render_each D P m es k name i)"
proof -
  have "forward i (render_each D P m es k name l)" if "i \<le> l" for l
    using that
  proof (induction es arbitrary: l)
    case (Cons e es)
    have f: "forward k (render_Internal D P m e k name)" by (rule assms(1))
    show ?case
    proof (cases "render_Internal D P m e k name")
      case (Value x)
      obtain o1 j where x: "x = (o1, j)" by (cases x)
      have "i \<le> j" using f Value x assms(2) by simp
      from Cons.IH [OF this] show ?thesis by (cases "render_each D P m es k name j") (auto simp: Value x)
    qed (use f in simp_all)
  qed simp
  then show ?thesis by simp
qed

lemma render_total:
  assumes wf: "wf_mustache m" and n: "\<And>n. number_text D n \<noteq> Undefined" and P: "\<And>name ctx. name \<in> partial_names m \<Longrightarrow> P name ctx \<noteq> Undefined"
  shows "forward i (render_Internal D P m ctx i stop)"
proof (induction "length (m_fragments m) - i" arbitrary: i ctx stop rule: less_induct)
  case less
  show ?case
  proof (cases "i < length (m_actions m) \<and> i < length (m_fragments m) \<and> \<not> stops m i stop")
    case True
    then have i: "i < length (m_actions m)" "i < length (m_fragments m)" "\<not> stops m i stop" by simp_all
    let ?a = "m_actions m ! i"
    let ?n = "tag_String m ?a"
    have name: "?n \<noteq> []" using wf_name [OF wf] i(1) by simp
    have later: "forward i (render_Internal D P m ctx j stop)" if "i < j" for j ctx stop
    proof -
      have "forward j (render_Internal D P m ctx j stop)" by (rule less) (use that i(2) in simp)
      then show ?thesis using that by (auto simp: forward_def)
    qed
    have "forward i (tag_out D P m ctx i)"
    proof (cases "a_tag ?a = OpenBlock")
      case True
      show ?thesis
      proof (cases "object_at ctx ?n")
        case (Value v)
        have "forward i (render_each D P m es (i + 1) ?n i)" for es
          by (rule forward_each) (use less i(2) in simp_all)
        moreover have "forward i (render_Internal D P m w i ?n)" for w
          using i name by (simp add: render_split [of D P m w i] render_rest_def stops_def)
        moreover have "i \<le> block_end m ?n i" by (simp add: block_end_def)
        ultimately show ?thesis using Value True name by (auto simp: tag_out_def Let_def split: option.splits json.splits)
      qed (use True object_at_defined [of ctx ?n] in \<open>simp_all add: tag_out_def\<close>)
    next
      case False
      then show ?thesis using render_Tag_defined [OF wf i(1) n P] by (simp add: tag_out_def forward_def)
    qed
    then show ?thesis
      using i later unfolding render_split [of D P m ctx i stop] render_rest_def
      by (simp add: forward_map) (intro forward_bind, auto simp: forward_map)
  next
    case False
    show ?thesis
    proof (cases "i < length (m_fragments m) \<and> \<not> i < length (m_actions m)")
      case True
      then have "length (m_fragments m) - (i + 1) < length (m_fragments m) - i" by linarith
      then have "forward (i + 1) (render_Internal D P m ctx (i + 1) stop)" by (rule less)
      then have "forward i (render_Internal D P m ctx (i + 1) stop)" by (auto simp: forward_def)
      then show ?thesis using True by (simp add: render_split [of D P m ctx i stop] render_rest_def forward_map)
    qed (use False in \<open>auto simp: render_split [of D P m ctx i stop] render_rest_def\<close>)
  qed
qed

end
