(* ===== verification/MustacheProps.thy ===== *)
theory MustacheProps
  imports MustacheSafe
begin

text \<open>
  The properties of the template engine.
\<close>

section \<open>Parsing and rendering\<close>

text \<open>The partials of \<open>render\<close>.\<close>

definition partials :: "'n doubles \<Rightarrow> (string \<Rightarrow> mustache outcome) \<Rightarrow> nat \<Rightarrow> 'n partial" where
  "partials D load depth = (case depth of
     0 \<Rightarrow> \<lambda>_ _. Undefined
   | Suc d \<Rightarrow> \<lambda>name ctx. bind_out (load name) (\<lambda>m. render D load d m ctx))"

lemma render_partials: "render D load depth m ctx = map_out fst (render_Internal D (partials D load depth) m ctx 0 [])"
  by (cases depth) (simp_all add: partials_def)

lemma occurs_all:
  assumes "frag_at m i = prev" and "\<And>j. j < length L \<Longrightarrow> i + j < length (m_actions m) \<and> i + j < length (m_fragments m) \<and>
    (a_tag (m_actions m ! (i + j)), tag_String m (m_actions m ! (i + j))) = (fst (L ! j), fst (snd (L ! j))) \<and>
    frag_at m (i + j + 1) = snd (snd (L ! j))"
  shows "occurs m i prev L"
  using assms
proof (induction L arbitrary: i prev)
  case (Cons x L)
  obtain k n a where x: "x = (k, n, a)" by (cases x)
  have "occurs m (i + 1) a L"
    using Cons.prems(2) [of 0] Cons.prems(2) [of "Suc j" for j] by (intro Cons.IH) (auto simp: x)
  then show ?case using Cons.prems(1) Cons.prems(2) [of 0] by (simp add: x)
qed simp

lemma trim_last_nth:
  assumes "ts \<noteq> []"
  shows "length ts - 1 \<le> length (trim_last ts)" and "length (trim_last ts) \<le> length ts"
    and "i < length (trim_last ts) \<Longrightarrow> trim_last ts ! i = ts ! i"
    and "i < length ts \<Longrightarrow> \<not> i < length (trim_last ts) \<Longrightarrow> ts ! i = []"
proof -
  show "length ts - 1 \<le> length (trim_last ts)" "length (trim_last ts) \<le> length ts" by (simp_all add: trim_last_def)
  show "i < length (trim_last ts) \<Longrightarrow> trim_last ts ! i = ts ! i" by (simp add: trim_last_def nth_butlast split: if_splits)
  assume "i < length ts" "\<not> i < length (trim_last ts)"
  then have "i = length ts - 1" "List.last ts = []" by (auto simp: trim_last_def split: if_splits)
  then show "ts ! i = []" using assms by (simp add: last_conv_nth)
qed

lemma parsed_occurs:
  assumes a: "map (\<lambda>a. (a_tag a, tag_String m a)) (m_actions m) = map (\<lambda>(k, n, a). (k, n)) L"
    and f: "map (frag_String m) (m_fragments m) = trim_last (t # map (\<lambda>(k, n, a). a) L)"
  shows "occurs m 0 t L" and "length (m_actions m) = length L" and "length L \<le> length (m_fragments m)"
    and "length (m_fragments m) \<le> length L + 1"
proof -
  let ?ts = "t # map (\<lambda>(k, n, a). a) L"
  show la: "length (m_actions m) = length L" using arg_cong [OF a, of length] by simp
  have lf: "length (m_fragments m) = length (trim_last ?ts)" using arg_cong [OF f, of length] by simp
  then show "length L \<le> length (m_fragments m)" "length (m_fragments m) \<le> length L + 1"
    using trim_last_nth(1,2) [of ?ts] by simp_all
  have at: "frag_at m i = ?ts ! i" if "i \<le> length L" for i
  proof (cases "i < length (m_fragments m)")
    case True
    then have "frag_String m (m_fragments m ! i) = trim_last ?ts ! i" by (metis f nth_map)
    then show ?thesis using True trim_last_nth(3) [of ?ts i] lf by (simp add: frag_at_def)
  next
    case False
    then show ?thesis using trim_last_nth(4) [of ?ts i] that lf by (simp add: frag_at_def)
  qed
  show "occurs m 0 t L"
  proof (rule occurs_all)
    show "frag_at m 0 = t" using at [of 0] by simp
    fix j assume j: "j < length L"
    have "(a_tag (m_actions m ! j), tag_String m (m_actions m ! j)) = (\<lambda>(k, n, a). (k, n)) (L ! j)"
      using j la by (metis (no_types, lifting) a nth_map)
    moreover have "frag_at m (j + 1) = snd (snd (L ! j))" using at [of "j + 1"] j by (simp add: case_prod_unfold)
    ultimately show "0 + j < length (m_actions m) \<and> 0 + j < length (m_fragments m) \<and>
        (a_tag (m_actions m ! (0 + j)), tag_String m (m_actions m ! (0 + j))) = (fst (L ! j), fst (snd (L ! j))) \<and>
        frag_at m (0 + j + 1) = snd (snd (L ! j))"
      using j la lf trim_last_nth(1) [of ?ts] by (simp add: case_prod_unfold)
  qed
qed

lemma render_template:
  assumes "template_ok t ns"
  shows "\<exists>m. fromString (template_text t ns) = Value m \<and>
    (\<forall>D load depth (ctx :: 'n json). render D load depth m ctx = sem D (partials D load depth) ctx t ns)"
proof -
  have ok: "text_ok t" "list_all node_ok ns" "list_all scoped ns" using assms by (simp_all add: template_ok_def)
  obtain m where m: "fromString (template_text t ns) = Value m"
    "map (\<lambda>a. (a_tag a, tag_String m a)) (m_actions m) = map (\<lambda>(k, n, a). (k, n)) (flats ns)"
    "map (frag_String m) (m_fragments m) = trim_last (t # map (\<lambda>(k, n, a). a) (flats ns))"
    using fromString_template [OF ok(1,2)] by blast
  note o = parsed_occurs [OF m(2,3)]
  have "render D load depth m ctx = sem D (partials D load depth) ctx t ns" for D load depth and ctx :: "'n json"
  proof -
    let ?P = "partials D load depth"
    have e: "map_out fst (render_rest D ?P m ctx (length (flats ns)) []) = Value []"
      using o(2,4) by (auto simp: render_rest_def render_Internal.simps)
    have "render D load depth m ctx = bind_out (sem D ?P ctx t ns) (\<lambda>o1.
        map_out (\<lambda>o2. o1 @ o2) (map_out fst (render_rest D ?P m ctx (length (flats ns)) [])))"
      unfolding render_partials render_sem [OF o(1) ok(3,2), of "[]" D ?P ctx, simplified]
      by (simp add: out_algebra case_prod_unfold)
    also have "\<dots> = sem D ?P ctx t ns" unfolding e by simp
    finally show ?thesis .
  qed
  with m(1) show ?thesis by blast
qed

text \<open>C4: The text of a template whose sections hold no tag of their own name is parsed, and the result
  is rendered with every object to what the tree of the template means with it.\<close>

theorem template_renders:
  assumes "template_ok t ns"
  shows "\<exists>m. fromString (template_text t ns) = Value m \<and>
    (\<forall>D load depth (ctx :: 'n json). render D load depth m ctx = sem D (partials D load depth) ctx t ns)"
  using assms by (rule render_template)

text \<open>Doubles that are integers.\<close>

definition int_doubles :: "int doubles" where
  "int_doubles = \<lparr>d_trunc = Some, d_of_int = (\<lambda>i. i), d_text = int_text\<rparr>"

definition no_partials :: "string \<Rightarrow> mustache outcome" where
  "no_partials name = Throw KeyNotFound"

lemma template_renders_witness:
  "\<exists>m. fromString ''Hi {{#us}}<{{n}}> {{/us}}{{^ok}}no{{/ok}}.'' = Value m \<and>
    render int_doubles no_partials 0 m
      (JObject [(''us'', JArray [JObject [(''n'', JString ''a&b'')], JObject [(''n'', JNumber 7)]])]) = Value ''Hi <a&amp;b> <7> no.''"
proof -
  let ?ns = "[Section ''us'' ''<'' [Leaf Tag ''n'' ''> ''] [], Inverted ''ok'' ''no'' ''.'']"
  let ?ctx = "JObject [(''us'', JArray [JObject [(''n'', JString ''a&b'')], JObject [(''n'', JNumber 7)]])] :: int json"
  have "template_ok ''Hi '' ?ns" unfolding template_ok_def by (intro conjI; code_simp)
  from template_renders [OF this] obtain m where m: "fromString (template_text ''Hi '' ?ns) = Value m"
    "\<forall>D load depth (ctx :: int json). render D load depth m ctx = sem D (partials D load depth) ctx ''Hi '' ?ns" by blast
  have t: "template_text ''Hi '' ?ns = ''Hi {{#us}}<{{n}}> {{/us}}{{^ok}}no{{/ok}}.''" by (simp add: template_text_def)
  have "dec_text 7 = ''7''" by code_simp
  then have "number_text int_doubles 7 = Value ''7''" by (simp add: number_text_def int_doubles_def int_text_def)
  then have "sem int_doubles (partials int_doubles no_partials 0) ?ctx ''Hi '' ?ns = Value ''Hi <a&amp;b> <7> no.''"
    by (simp add: strncmp_eq_def escape_def escape_char_def)
  then show ?thesis using m unfolding t by (intro exI [of _ m]) simp
qed

section \<open>The standard meaning\<close>







section \<open>Where the code differs\<close>

definition is_array :: "'n json \<Rightarrow> bool" where
  "is_array v = (case v of JArray _ \<Rightarrow> True | _ \<Rightarrow> False)"

text \<open>C24: A section whose value is an object, a number, a text or true repeats the text before it, and
  the object of the section is not what its tags see.\<close>

theorem section_repeats:
  assumes "text_ok t" and "text_ok u" and "text_ok a" and "name_ok OpenBlock n"
    and "object_at (ctx :: 'n json) n = Value (Some v)" and "\<not> object_empty (Some v)" and "\<not> is_array v"
    and "name_ok Tag x" and "x \<noteq> n" and "object_at ctx x = Value (Some (JString s))"
  shows "\<exists>m. fromString (t @ tag_text OpenBlock n @ tag_text UnEscapeTag x @ u @ tag_text CloseBlock n @ a) = Value m \<and>
    render D load depth m ctx = Value (t @ t @ s @ u @ a)"
proof -
  let ?ns = "[Section n [] [Leaf UnEscapeTag x u] a]"
  have "name_ok UnEscapeTag x" using assms(8) by simp
  then have "template_ok t ?ns" using assms(1-4,9) by (auto simp: template_ok_def)
  from render_template [OF this] obtain m where m: "fromString (template_text t ?ns) = Value m"
    "render D load depth m ctx = sem D (partials D load depth) ctx t ?ns" by blast
  have "sem D (partials D load depth) ctx t ?ns = Value (t @ t @ s @ u @ a)"
    using assms(5-7,10) by (cases v) (simp_all add: is_array_def)
  moreover have "template_text t ?ns = t @ tag_text OpenBlock n @ tag_text UnEscapeTag x @ u @ tag_text CloseBlock n @ a"
    by (simp add: template_text_def)
  ultimately show ?thesis using m by (intro exI [of _ m]) simp
qed

lemma section_repeats_witness:
  "\<exists>m. fromString ''Hi {{#p}}{{{n}}}{{/p}}!'' = Value m \<and>
    render int_doubles no_partials 0 m (JObject [(''n'', JString ''out''), (''p'', JObject [(''n'', JString ''in'')])]) = Value ''Hi Hi out!''"
proof -
  let ?ctx = "JObject [(''n'', JString ''out''), (''p'', JObject [(''n'', JString ''in'')])] :: int json"
  have "text_ok ''Hi ''" "text_ok []" "text_ok ''!''" "name_ok OpenBlock ''p''" "name_ok Tag ''n''" "''n'' \<noteq> ''p''"
    by code_simp+
  moreover have "object_at ?ctx ''p'' = Value (Some (JObject [(''n'', JString ''in'')]))" "object_at ?ctx ''n'' = Value (Some (JString ''out''))"
    by (simp_all add: strncmp_eq_def)
  ultimately show ?thesis
    using section_repeats [of "''Hi ''" "[]" "''!''" "''p''" ?ctx "JObject [(''n'', JString ''in'')]" "''n''" "''out''"
        int_doubles no_partials 0] by (simp add: is_array_def)
qed

text \<open>A tag shows the first member of the object whose name begins with the name of the tag.\<close>

theorem tag_prefix:
  assumes "name_ok Tag n" and "ctx = JObject ((n @ r, JString s) # (n, w) # ms)"
  shows "\<exists>m. fromString (tag_text Tag n) = Value m \<and> render D load depth m ctx = Value (escape s)"
proof -
  have "template_ok [] [Leaf Tag n []]" using assms(1) by (simp add: template_ok_def)
  from render_template [OF this] obtain m where m: "fromString (template_text [] [Leaf Tag n []]) = Value m"
    "render D load depth m ctx = sem D (partials D load depth) ctx [] [Leaf Tag n []]" by blast
  moreover have "sem D (partials D load depth) ctx [] [Leaf Tag n []] = Value (escape s)"
    by (simp add: assms(2) strncmp_eq_def)
  moreover have "template_text [] [Leaf Tag n []] = tag_text Tag n" by (simp add: template_text_def)
  ultimately show ?thesis by (intro exI [of _ m]) simp
qed

lemma tag_prefix_witness:
  "\<exists>m. fromString ''{{id}}'' = Value m \<and>
    render int_doubles no_partials 0 m (JObject [(''idle'', JString ''yes''), (''id'', JNumber 4)]) = Value ''yes''"
proof -
  have "name_ok Tag ''id''" by code_simp
  from tag_prefix [OF this, of "JObject [(''idle'', JString ''yes''), (''id'', JNumber 4)]" "''le''" "''yes''" "JNumber 4" "[]"
      int_doubles no_partials 0]
  show ?thesis by (simp add: escape_def escape_char_def)
qed

text \<open>A partial that contains itself never gives a text: however deep the stack, it is exhausted.\<close>

theorem partial_forever:
  assumes "name_ok Partial n" and "text_ok t" and "text_ok a"
    and "load n = fromString (t @ tag_text Partial n @ a)" and "load n = Value m"
  shows "render D load depth m (ctx :: 'n json) = Undefined"
proof -
  let ?ns = "[Leaf Partial n a]"
  have "template_ok t ?ns" using assms(1-3) by (simp add: template_ok_def)
  moreover have "template_text t ?ns = t @ tag_text Partial n @ a" by (simp add: template_text_def)
  ultimately have r: "render D load depth m ctx = sem D (partials D load depth) ctx t ?ns" for depth
    using render_template [of t ?ns] assms(4,5) by fastforce
  show ?thesis
  proof (induction depth)
    case 0
    show ?case unfolding r by (simp add: partials_def)
  next
    case (Suc depth)
    have "partials D load (Suc depth) n ctx = render D load depth m ctx" using assms(5) by (simp add: partials_def)
    with Suc show ?case unfolding r [of "Suc depth"] by simp
  qed
qed

lemma partial_forever_witness:
  "\<exists>m. fromString ''x{{>a.b}}y'' = Value m \<and> render int_doubles (\<lambda>_. fromString ''x{{>a.b}}y'') 1000 m JNull = Undefined"
proof -
  have ok: "name_ok Partial ''a.b''" "text_ok ''x''" "text_ok ''y''" by code_simp+
  let ?load = "\<lambda>_ :: string. fromString ''x{{>a.b}}y''"
  have "template_ok ''x'' [Leaf Partial ''a.b'' ''y'']" using ok by (simp add: template_ok_def)
  from render_template [OF this] obtain m where m: "fromString ''x{{>a.b}}y'' = Value m" by (auto simp: template_text_def)
  moreover have "render int_doubles ?load 1000 m JNull = Undefined"
    by (rule partial_forever [of "''a.b''" "''x''" "''y''"]) (use ok m in simp_all)
  ultimately show ?thesis by blast
qed

section \<open>Safety\<close>

text \<open>C9: The parser reads behind the end of a template only when the template ends with the two
  characters of an empty comment.  A template it accepts has its tags and fragments inside its text, a
  fragment before every tag, and the end of the block right behind every inverted block.\<close>

theorem template_parse_safe:
  "(fromString b = Undefined \<longrightarrow> ends_in_comment b) \<and> (\<forall>m. fromString b = Value m \<longrightarrow> wf_mustache m \<and> m_body m = b)"
  using fromString_ok by blast

lemma template_parse_safe_witness: "fromString ''{{!}'' = Undefined \<and> ends_in_comment ''{{!}''"
proof -
  have "fromString ''{{!}'' = Undefined" by code_simp
  with template_parse_safe [of "''{{!}''"] show ?thesis by blast
qed



section \<open>Comments\<close>

text \<open>A comment at the end of a template may lack one of its braces: it is accepted all the same.\<close>

theorem comment_unclosed:
  assumes "text_ok t" and "c \<noteq> []" and "CHR ''}'' \<notin> set c"
  shows "\<exists>m. fromString (t @ ''{{!'' @ c @ ''}'') = Value m \<and> render D load depth m (ctx :: 'n json) = Value t"
proof -
  let ?b = "t @ ''{{!'' @ c @ ''}''" and ?p = "length t"
  obtain w x where c: "c = w @ [x]" using assms(2) by (cases c rule: rev_cases) auto
  have "parse_loop ?b 0 0 [] [] [] = parse_loop ?b ?p 0 [] [] []"
    using parse_text [OF assms(1), of "[]" "''{{!'' @ c @ ''}''" 0 "[]" "[]" "[]"] by simp
  moreover have e: "?p < length ?b" "?b ! ?p = CHR ''{''" "p_peek ?b (?p + 1) = CHR ''{''"
    using peek_at [of "t @ ''{''" "CHR ''{''" "''!'' @ c @ ''}''"] by (simp_all add: nth_append)
  moreover have "parser_ReadTag ?b (?p + 2) [] [] = Value (length ?b + 1, [], [Action Ignore (?p + 3) (length ?b - 1) 0])"
  proof -
    have B: "?b = (t @ ''{{!'' @ w) @ x # CHR ''}'' # []" by (simp add: c)
    have p: "p_peek ?b (?p + 2) = CHR ''!''" "eatSpace ?b (?p + 2) = ?p + 2"
      using peek_at [of "t @ ''{{''" "CHR ''!''" "c @ ''}''"] eatSpace_at [OF sigil_not(4), of "t @ ''{{''" "c @ ''}''"] by simp_all
    have "drop (?p + 3) ?b = c @ CHR ''}'' # []" by simp
    then have q: "comment_length (drop (?p + 3) ?b) = length w" using comment_length_text [OF assms(2,3)] c by simp
    have pos: "?p + 3 + length w = length (t @ ''{{!'' @ w)" "?p + 3 + length w + 1 = length (t @ ''{{!'' @ c)" by (simp_all add: c)
    have n: "p_next ?b (?p + 3 + length w) = Value x" unfolding pos(1) B by (rule next_at)
    have k: "p_peek ?b (?p + 3 + length w + 1) = CHR ''}''" "p_next ?b (?p + 3 + length w + 1) = Value (CHR ''}'')"
      using peek_at [of "t @ ''{{!'' @ c" "CHR ''}''" "[]"] next_at [of "t @ ''{{!'' @ c" "CHR ''}''" "[]"] unfolding pos(2) by simp_all
    have "p_next ?b (?p + 3 + length w + 2) = Value NUL" by (simp add: p_next_def c)
    then show ?thesis using p q n k by (simp add: parser_ReadTag_def Let_def c numeral_3_eq_3)
  qed
  moreover have "parse_loop ?b (length ?b + 1) (length ?b + 1) [] acts fs = Value (length ?b + 1, length ?b + 1, [], acts, fs)" for acts fs
    by (subst parse_loop.simps) simp
  ultimately have f: "fromString ?b = Value \<lparr>m_actions = [Action Ignore (?p + 3) (length ?b - 1) 0], m_fragments = [(0, ?p)], m_body = ?b\<rparr>"
    (is "_ = Value ?m") using parse_loop_tag [OF e] by (simp add: fromString_def)
  have "render D load depth ?m ctx = Value t"
    unfolding render_partials
    by (simp add: render_split render_rest_def stops_def tag_out_def render_Tag_def Action_def frag_at_def frag_String_text text_of_def)
  with f show ?thesis by blast
qed

lemma comment_unclosed_witness:
  "\<exists>m. fromString ''a {{!todo}'' = Value m \<and> render int_doubles no_partials 0 m JNull = Value ''a ''"
  using comment_unclosed [of "''a ''" "''todo''" int_doubles no_partials 0 JNull] by simp

section \<open>Escaping\<close>

text \<open>What a browser makes of the entities.\<close>

fun unescape :: "string \<Rightarrow> string" where
  "unescape [] = []"
| "unescape (c # s) =
     (if c \<noteq> CHR ''&'' then c # unescape s
      else if take 4 s = ''amp;'' then CHR ''&'' # unescape (drop 4 s)
      else if take 3 s = ''lt;'' then CHR ''<'' # unescape (drop 3 s)
      else if take 3 s = ''gt;'' then CHR ''>'' # unescape (drop 3 s)
      else if take 5 s = ''quot;'' then CHR 0x22 # unescape (drop 5 s)
      else if take 4 s = ''#39;'' then CHR 0x27 # unescape (drop 4 s)
      else if take 5 s = ''#x2f;'' then CHR ''/'' # unescape (drop 5 s)
      else c # unescape s)"

lemma unescape_char: "unescape (escape_char c @ s) = c # unescape s"
  by (simp add: escape_char_def)

text \<open>C25: Escaped text holds no character that begins or ends markup, and shows as what it was.\<close>

theorem escape_roundtrip:
  "unescape (escape s) = s \<and> set (escape s) \<inter> {CHR ''<'', CHR ''>'', CHR 0x22, CHR 0x27, CHR ''/''} = {}"
proof (induction s)
  case (Cons c s)
  have "set (escape_char c) \<inter> {CHR ''<'', CHR ''>'', CHR 0x22, CHR 0x27, CHR ''/''} = {}"
    by (simp add: escape_char_def)
  with Cons show ?case by (auto simp: escape_def unescape_char)
qed (simp add: escape_def)

end
