(* ===== verification/WebSock.thy ===== *)
theory WebSock
  imports Server Base64
begin

text \<open>
  The web sockets of \<^verbatim>\<open>suil/http/wsock.cpp\<close> and \<^verbatim>\<open>suil/http/wsock.h\<close>: the
  handshake, the frames that are received and sent, and the loop that serves a socket.

  The bytes that arrive are a list, the socket takes the first bytes of what it is given, and the
  machine stores the low byte of a number first.  The message buffer is the \<open>OBuffer\<close> of the theory
  Buffer.  SHA-1, the handlers of the application and the state of the socket are parameters.
\<close>

section \<open>The header of a frame\<close>

definition CONT :: nat where "CONT = 0"
definition TEXT :: nat where "TEXT = 1"
definition BINARY :: nat where "BINARY = 2"
definition CLOSE :: nat where "CLOSE = 8"
definition PING :: nat where "PING = 9"
definition PONG :: nat where "PONG = 10"

lemmas ws_ops = CONT_def TEXT_def BINARY_def CLOSE_def PING_def PONG_def

record ws_header =
  h_opcode :: nat
  h_rsv3 :: bool
  h_rsv2 :: bool
  h_rsv1 :: bool
  h_fin :: bool
  h_len :: nat
  h_mask :: bool
  h_payload :: nat
  h_vmask :: string

text \<open>The bit fields of the first two bytes.\<close>

definition header_of :: "char \<Rightarrow> char \<Rightarrow> ws_header" where
  "header_of a b = \<lparr>h_opcode = ucode a mod 16, h_rsv3 = odd (ucode a div 16), h_rsv2 = odd (ucode a div 32),
     h_rsv1 = odd (ucode a div 64), h_fin = odd (ucode a div 128), h_len = ucode b mod 128, h_mask = odd (ucode b div 128),
     h_payload = 0, h_vmask = replicate 4 NUL\<rparr>"

text \<open>\<open>utils::read\<close> and \<open>utils::write\<close> copy the memory of a number.\<close>

fun read_num :: "string \<Rightarrow> nat" where
  "read_num [] = 0"
| "read_num (c # s) = ucode c + 256 * read_num s"

fun write_num :: "nat \<Rightarrow> nat \<Rightarrow> string" where
  "write_num 0 n = []"
| "write_num (Suc k) n = char_of (n mod 256) # write_num k (n div 256)"

section \<open>Receiving\<close>

text \<open>\<open>sock.receive\<close> of a number of bytes, and what is left of the input.\<close>

definition sock_receive :: "nat \<Rightarrow> string \<Rightarrow> (string \<times> string) option" where
  "sock_receive n input = (if n \<le> length input then Some (take n input, drop n input) else None)"

definition op_accepted :: "ws_header \<Rightarrow> bool" where
  "op_accepted h \<longleftrightarrow>
     (if h_opcode h = CONT \<or> h_opcode h = TEXT \<or> h_opcode h = BINARY then True
      else if h_opcode h = CLOSE \<or> h_opcode h = PING \<or> h_opcode h = PONG then \<not> (h_len h > 125 \<or> \<not> h_fin h)
      else False)"

definition receive_mask :: "ws_header \<Rightarrow> string \<Rightarrow> (ws_header \<times> string) option" where
  "receive_mask h input =
     (case sock_receive 4 input of
        None \<Rightarrow> None
      | Some (m, input) \<Rightarrow> Some (h\<lparr>h_vmask := m\<rparr>, input))"

definition receive_opcode :: "string \<Rightarrow> (ws_header \<times> string) option" where
  "receive_opcode input =
     (case sock_receive 2 input of
        None \<Rightarrow> None
      | Some (hd2, input) \<Rightarrow>
          let h = header_of (hd2 ! 0) (hd2 ! 1) in
          if \<not> h_mask h then None
          else if h_rsv1 h \<or> h_rsv2 h \<or> h_rsv3 h then None
          else if \<not> op_accepted h then None
          else let extra_bytes = (if h_len h = 126 then 2 else if h_len h = 127 then 8 else 0) in
            if extra_bytes \<noteq> 0 then
              (case sock_receive (extra_bytes - 1) input of
                 None \<Rightarrow> None
               | Some (t, input) \<Rightarrow> receive_mask (h\<lparr>h_payload := read_num (char_of (h_len h) # t)\<rparr>) input)
            else receive_mask (h\<lparr>h_payload := h_len h\<rparr>) input)"

text \<open>\<open>buf[i] ^= h.v_mask[i % 4]\<close>\<close>

definition xor_char :: "char \<Rightarrow> char \<Rightarrow> char" where
  "xor_char c d = char_of (xor (ucode c) (ucode d))"

definition unmask :: "string \<Rightarrow> string \<Rightarrow> string" where
  "unmask m s = map (\<lambda>i. xor_char (s ! i) (m ! (i mod 4))) [0..<length s]"

text \<open>\<open>receive_frame\<close> into an empty buffer: the bytes are put into its memory as they arrive; \<open>None\<close> when
  fewer arrive than the header says.\<close>

definition receive_frame :: "string \<Rightarrow> obuffer \<Rightarrow> (ws_header \<times> obuffer \<times> string) option outcome" where
  "receive_frame input b =
     (case receive_opcode input of
        None \<Rightarrow> Value None
      | Some (h, input) \<Rightarrow>
          let l = h_payload h; b1 = reserve ((l + 2) mod 2 ^ 64) b; d = take l input in
          (case m_data b1 of
             None \<Rightarrow> Undefined
           | Some m \<Rightarrow>
               if length d > length m then Undefined
               else if length d < l then Value None
               else bind_out (wr_all m 0 (unmask (h_vmask h) d)) (\<lambda>m.
                 map_out (\<lambda>b2. Some (h, b2, drop l input)) (seek (int l) (b1\<lparr>m_data := Some m\<rparr>)))))"

section \<open>Sending\<close>

text \<open>What a socket has sent, the calls of the output so far, and \<open>end_session\<close>.\<close>

record wsock =
  w_out :: string
  w_calls :: nat
  w_end :: bool

definition payload_1 :: "nat \<Rightarrow> nat" where
  "payload_1 sz = (if sz > 125 then (if sz < 65535 then 126 else 127) else sz)"

definition frame_head :: "nat \<Rightarrow> nat \<Rightarrow> string" where
  "frame_head op sz =
     [char_of (op mod 16 + 128), char_of (payload_1 sz mod 128)] @
     (if payload_1 sz > 125 then (if payload_1 sz = 126 then write_num 2 sz else write_num 8 sz) else [])"

definition sock_send :: "(nat \<Rightarrow> string \<Rightarrow> nat) \<Rightarrow> string \<Rightarrow> wsock \<Rightarrow> nat \<times> wsock" where
  "sock_send accept d w =
     (let rc = min (accept (w_calls w) d) (length d) in
      (rc, w\<lparr>w_out := w_out w @ take rc d, w_calls := Suc (w_calls w)\<rparr>))"

definition ws_send :: "(nat \<Rightarrow> string \<Rightarrow> nat) \<Rightarrow> string \<Rightarrow> nat \<Rightarrow> wsock \<Rightarrow> bool \<times> wsock" where
  "ws_send accept data op w =
     (if w_end w then (False, w)
      else case sock_send accept (frame_head op (length data)) w of (rc, w) \<Rightarrow>
        if rc \<noteq> length (frame_head op (length data)) then (False, w)
        else case sock_send accept data w of (rc, w) \<Rightarrow> (rc = length data, w))"

text \<open>\<open>bsend\<close> starts every call at the first byte of the data.\<close>

function bsend_loop :: "(nat \<Rightarrow> string \<Rightarrow> nat) \<Rightarrow> string \<Rightarrow> nat \<Rightarrow> wsock \<Rightarrow> bool \<times> wsock" where
  "bsend_loop accept data tsent w =
     (case sock_send accept data w of (nsent, w) \<Rightarrow>
        if nsent = 0 then (False, w)
        else if tsent + nsent < length data then bsend_loop accept data (tsent + nsent) w
        else (True, w))"
  by pat_completeness auto
termination
  by (relation "measure (\<lambda>(accept, data, tsent, w). length data - tsent)") auto

declare bsend_loop.simps [simp del]

definition ws_bsend :: "(nat \<Rightarrow> bool) \<Rightarrow> (nat \<Rightarrow> string \<Rightarrow> nat) \<Rightarrow> string \<Rightarrow> wsock \<Rightarrow> bool \<times> wsock" where
  "ws_bsend isopen accept data w = (if \<not> isopen (w_calls w) then (False, w) else bsend_loop accept data 0 w)"

text \<open>The frame of \<open>broadcast\<close>.\<close>

definition broadcast_frame :: "string \<Rightarrow> nat \<Rightarrow> string" where
  "broadcast_frame data op = frame_head op (length data) @ data"

section \<open>Serving a socket\<close>

text \<open>The handlers of an application; they change its state and may send on the socket or close it.\<close>

record 's ws_api =
  onConnect :: "('s \<times> wsock \<Rightarrow> bool \<times> 's \<times> wsock) option"
  onMessage :: "(string \<Rightarrow> nat \<Rightarrow> 's \<times> wsock \<Rightarrow> 's \<times> wsock) option"
  onClose :: "('s \<times> wsock \<Rightarrow> 's \<times> wsock) option"
  onDisconnect :: "('s \<Rightarrow> 's) option"

definition end_session :: "'s \<times> wsock \<Rightarrow> 's \<times> wsock" where
  "end_session x = (fst x, (snd x)\<lparr>w_end := True\<rparr>)"

text \<open>The message as the handler sees it, with the terminator put behind it.\<close>

definition call_message :: "'s ws_api \<Rightarrow> obuffer \<Rightarrow> nat \<Rightarrow> 's \<times> wsock \<Rightarrow> ('s \<times> wsock) outcome" where
  "call_message api b op x =
     (case onMessage api of
        None \<Rightarrow> Value x
      | Some f \<Rightarrow> map_out (\<lambda>b. f (map the (contents b)) op x) (as_cstr b))"

text \<open>The switch over the opcode: a pong or a continuation falls through to the message handler.\<close>

definition dispatch :: "'s ws_api \<Rightarrow> (nat \<Rightarrow> string \<Rightarrow> nat) \<Rightarrow> ws_header \<Rightarrow> obuffer \<Rightarrow> 's \<times> wsock \<Rightarrow> ('s \<times> wsock) outcome" where
  "dispatch api accept h b x =
     (if h_opcode h = PONG \<or> h_opcode h = CONT then call_message api b (h_opcode h) (end_session x)
      else if h_opcode h = TEXT \<or> h_opcode h = BINARY then call_message api b (h_opcode h) x
      else if h_opcode h = CLOSE then
        Value (case onClose api of None \<Rightarrow> end_session x | Some f \<Rightarrow> f (end_session x))
      else if h_opcode h = PING then
        Value (fst x, snd (ws_send accept (map the (contents b)) PONG (snd x)))
      else Value (end_session x))"

lemma receive_mask_shorter: "receive_mask h input = Some (h', rest) \<Longrightarrow> length rest \<le> length input"
  by (auto simp: receive_mask_def sock_receive_def split: if_splits)

lemma receive_opcode_shorter: "receive_opcode input = Some (h, rest) \<Longrightarrow> length rest < length input"
  by (auto simp: receive_opcode_def sock_receive_def Let_def split: if_splits dest!: receive_mask_shorter)

lemma receive_frame_shorter:
  assumes "receive_frame input b = Value (Some (h, b', rest))"
  shows "length rest < length input"
proof -
  obtain h' input' where o: "receive_opcode input = Some (h', input')"
    using assms by (auto simp: receive_frame_def split: option.splits)
  have "length rest \<le> length input'"
    using assms unfolding receive_frame_def o by (auto simp: Let_def bind_out_Value_iff map_out_Value_iff split: option.splits if_splits)
  with receive_opcode_shorter [OF o] show ?thesis by simp
qed

text \<open>The loop of \<open>handle\<close>; \<open>isopen k\<close> is the state of the socket after \<open>k\<close> frames.\<close>

function ws_loop :: "'s ws_api \<Rightarrow> (nat \<Rightarrow> bool) \<Rightarrow> (nat \<Rightarrow> string \<Rightarrow> nat) \<Rightarrow> nat \<Rightarrow> string \<Rightarrow> 's \<times> wsock \<Rightarrow> ('s \<times> wsock) outcome" where
  "ws_loop api isopen accept k input x =
     (if w_end (snd x) \<or> \<not> isopen k then Value x
      else case receive_frame input empty_buffer of
             Value (Some (h, b, rest)) \<Rightarrow>
               (case dispatch api accept h b x of
                  Value x \<Rightarrow> ws_loop api isopen accept (Suc k) rest x
                | Throw e \<Rightarrow> Throw e
                | Undefined \<Rightarrow> Undefined)
           | Value None \<Rightarrow> Value (end_session x)
           | Throw e \<Rightarrow> Throw e
           | Undefined \<Rightarrow> Undefined)"
  by pat_completeness auto
termination
  by (relation "measure (\<lambda>(api, isopen, accept, k, input, x). length input)") (auto dest: receive_frame_shorter)

declare ws_loop.simps [simp del]

definition ws_handle :: "'s ws_api \<Rightarrow> (nat \<Rightarrow> bool) \<Rightarrow> (nat \<Rightarrow> string \<Rightarrow> nat) \<Rightarrow> string \<Rightarrow> 's \<times> wsock \<Rightarrow> ('s \<times> wsock) outcome" where
  "ws_handle api isopen accept input x =
     (case (case onConnect api of None \<Rightarrow> (True, x) | Some f \<Rightarrow> f x) of (ok, x) \<Rightarrow>
        if \<not> ok then Value x
        else map_out (\<lambda>(s, w). ((case onDisconnect api of None \<Rightarrow> s | Some f \<Rightarrow> f s), w))
               (ws_loop api isopen accept 0 input x))"

section \<open>The handshake\<close>

definition WS_SERVER_RESPONSE :: string where
  "WS_SERVER_RESPONSE = ''258EAFA5-E914-47DA-95CA-C5AB0DC85B11''"

text \<open>\<open>key\<close> and \<open>version\<close> are the two headers of the request, empty when it has them not; \<open>p\<close> is the handler
  of the protocol.\<close>

definition handshake :: "(string \<Rightarrow> string) \<Rightarrow> 'p \<Rightarrow> string \<Rightarrow> string \<Rightarrow> 'p response \<Rightarrow> (nat \<times> 'p response) outcome" where
  "handshake sha1 p key version r =
     (if key = [] then Value (BAD_REQUEST, r)
      else if version = [] \<or> version \<noteq> ''13'' then Value (BAD_REQUEST, res_header ''Sec-WebSocket-Version'' ''13'' r)
      else map_out (\<lambda>b. (SWITCHING_PROTOCOLS,
          end_proto p (res_header ''Sec-WebSocket-Accept'' (map the (contents b))
            (res_header ''Connection'' ''Upgrade'' (res_header ''Upgrade'' ''WebSocket'' r)))))
        (b64_encode (sha1 (key @ WS_SERVER_RESPONSE)) empty_buffer))"

definition ws_handshake :: "(string \<Rightarrow> string) \<Rightarrow> 'p \<Rightarrow> string \<Rightarrow> string \<Rightarrow> 'p response \<Rightarrow> 'p response outcome" where
  "ws_handshake sha1 p key version r = map_out (\<lambda>(st, r). end_status st r) (handshake sha1 p key version r)"

end
