(* ===== verification/WebSockSpec.thy ===== *)
theory WebSockSpec
  imports WebSock
begin

text \<open>
  What the web sockets receive and send, beside the frames of RFC 6455.
\<close>

lemma ucode_char_of_rem: "ucode (char_of (n :: nat)) = n mod 256"
  by (simp add: ucode_def)

section \<open>Masking\<close>

lemma xor_less: "(xor (ucode c) (ucode d) :: nat) < 256"
proof -
  have "take_bit 8 (ucode c) = ucode c" "take_bit 8 (ucode d) = ucode d"
    using ucode_less [of c] ucode_less [of d] by (simp_all add: take_bit_nat_eq_self)
  then have "take_bit 8 (xor (ucode c) (ucode d)) = xor (ucode c) (ucode d)" by (simp only: take_bit_xor)
  moreover have "take_bit 8 (xor (ucode c) (ucode d)) < 2 ^ 8" by (rule take_bit_nat_less_exp)
  ultimately show ?thesis by simp
qed

lemma xor_char_twice: "xor_char (xor_char c d) d = c"
  using xor_less [of c d] by (simp add: xor_char_def ucode_char_of xor.assoc)

lemma length_unmask [simp]: "length (unmask m s) = length s"
  by (simp add: unmask_def)

lemma unmask_twice: "unmask m (unmask m s) = s"
  by (rule nth_equalityI) (simp_all add: unmask_def xor_char_twice)

text \<open>How a client masks: the bytes of the key are used in turn, over and over.\<close>

fun client_mask :: "string \<Rightarrow> string \<Rightarrow> string" where
  "client_mask m [] = []"
| "client_mask m (c # s) = xor_char c (hd m) # client_mask (rotate1 m) s"

lemma unmask_Cons:
  assumes "length m = 4"
  shows "unmask m (c # s) = xor_char c (hd m) # unmask (rotate1 m) s"
proof -
  have "m \<noteq> []" using assms by auto
  moreover have "rotate1 m ! (i mod 4) = m ! (Suc i mod 4)" for i
    using nth_rotate1 [of "i mod 4" m] assms by (simp add: mod_Suc_eq)
  ultimately show ?thesis
    by (simp add: unmask_def upt_conv_Cons map_Suc_upt [symmetric] hd_conv_nth comp_def del: upt_Suc)
qed

lemma client_mask_unmask: "length m = 4 \<Longrightarrow> client_mask m s = unmask m s"
  by (induction s arbitrary: m) (simp add: unmask_def, simp add: unmask_Cons)

section \<open>Receiving\<close>

text \<open>A frame of a client with a short payload.\<close>

definition client_frame :: "bool \<Rightarrow> nat \<Rightarrow> string \<Rightarrow> string \<Rightarrow> string" where
  "client_frame fin op m data = [char_of ((if fin then 128 else 0) + op), char_of (128 + length data)] @ m @ client_mask m data"

lemma header_of_first:
  assumes "op < 16" and "n < 128"
  shows "header_of (char_of ((if fin then 128 else 0) + op)) (char_of (128 + n)) =
    \<lparr>h_opcode = op, h_rsv3 = False, h_rsv2 = False, h_rsv1 = False, h_fin = fin, h_len = n, h_mask = True, h_payload = 0,
     h_vmask = replicate 4 NUL\<rparr>"
proof -
  have u: "ucode (char_of ((if fin then 128 else 0) + op)) = (if fin then 128 else 0) + op" "ucode (char_of (128 + n)) = 128 + n"
    using assms by (simp_all add: ucode_char_of)
  have d: "(128 + op) div 16 = 8" "(128 + op) div 32 = 4" "(128 + op) div 64 = 2" "(128 + op) div 128 = 1"
    "op div 16 = 0" "op div 32 = 0" "op div 64 = 0" "op div 128 = 0" "(128 + op) mod 16 = op" "op mod 16 = op"
    using assms(1) by (simp_all add: div_add1_eq mod_add_eq [symmetric])
  have e: "(128 + n) mod 128 = n" "(128 + n) div 128 = 1" using assms(2) by simp_all
  show ?thesis unfolding header_of_def u e by (cases fin) (simp_all only: if_True if_False add_0 d, simp_all)
qed

text \<open>The opcodes, and when a control frame is one.\<close>

definition op_ok :: "bool \<Rightarrow> nat \<Rightarrow> bool" where
  "op_ok fin op \<longleftrightarrow> op \<in> {CONT, TEXT, BINARY} \<or> op \<in> {CLOSE, PING, PONG} \<and> fin"

lemma receive_header:
  assumes "op_ok fin op" and "n \<le> 125" and "length m = 4"
  shows "receive_opcode ([char_of ((if fin then 128 else 0) + op), char_of (128 + n)] @ m @ rest) =
    Some (\<lparr>h_opcode = op, h_rsv3 = False, h_rsv2 = False, h_rsv1 = False, h_fin = fin, h_len = n, h_mask = True, h_payload = n,
      h_vmask = m\<rparr>, rest)"
proof -
  have "op < 16" using assms(1) by (auto simp: op_ok_def ws_ops)
  note h = header_of_first [OF this, of n fin]
  show ?thesis using assms h
    by (auto simp: receive_opcode_def sock_receive_def Let_def op_accepted_def receive_mask_def op_ok_def ws_ops)
qed

lemma reserve_empty:
  assumes "n \<le> 2 ^ 31" and "0 < n"
  shows "\<exists>m. m_data (reserve n empty_buffer) = Some m \<and> buf_ok (reserve n empty_buffer) \<and> n \<le> m_size (reserve n empty_buffer) \<and>
    m_offset (reserve n empty_buffer) = 0 \<and> contents (reserve n empty_buffer) = []"
proof -
  have b: "buf_ok empty_buffer" "m_offset empty_buffer = 0" "contents empty_buffer = []"
    by (simp_all add: buf_ok_def empty_buffer_def contents_def)
  have "room n empty_buffer" using assms(1) by (simp add: room_def empty_buffer_def)
  from reserve_ok [OF b(1) this] show ?thesis using assms(2) b by auto
qed

lemma receive_payload:
  assumes "receive_opcode input = Some (h, unmask (h_vmask h) data @ rest)" and "h_payload h = length data" and "length data \<le> 2 ^ 30"
  shows "\<exists>b. receive_frame input empty_buffer = Value (Some (h, b, rest)) \<and> contents b = known data \<and> buf_ok b \<and>
    m_offset b = length data \<and> m_offset b < m_size b \<and> m_data b \<noteq> None"
proof -
  let ?l = "length data" and ?b = "reserve (length data + 2) empty_buffer"
  have mod: "(?l + 2) mod 2 ^ 64 = ?l + 2" using assms(3) by simp
  obtain m where m: "m_data ?b = Some m" "buf_ok ?b" "?l + 2 \<le> m_size ?b" "m_offset ?b = 0" "contents ?b = []"
    using reserve_empty [of "?l + 2"] assms(3) by auto
  have lm: "?l \<le> length m" using m(1-3) by (simp add: buf_ok_def)
  have t: "take ?l (unmask (h_vmask h) data @ rest) = unmask (h_vmask h) data" "drop ?l (unmask (h_vmask h) data @ rest) = rest" by simp_all
  obtain m' where w: "wr_all m 0 data = Value m'" "buf_ok (?b\<lparr>m_data := Some m', m_offset := ?l\<rparr>)"
    "contents (?b\<lparr>m_data := Some m', m_offset := ?l\<rparr>) = known data"
    using write_ok [OF m(2,1), of data] m(3-5) by auto
  have s: "seek (int ?l) (?b\<lparr>m_data := Some m'\<rparr>) = Value (?b\<lparr>m_data := Some m', m_offset := ?l\<rparr>)"
    using m(3,4) by (simp add: seek_def bseek_def)
  have "receive_frame input empty_buffer = Value (Some (h, ?b\<lparr>m_data := Some m', m_offset := ?l\<rparr>, rest))"
    unfolding receive_frame_def assms(1) option.case prod.case Let_def assms(2) mod m(1) t unmask_twice w(1) bind_out.simps s
    using lm by simp
  with w(2,3) m(3) show ?thesis by (intro exI [of _ "?b\<lparr>m_data := Some m', m_offset := ?l\<rparr>"]) simp
qed

text \<open>C26: A frame of a client with at most 125 bytes is received as it was sent, and the bytes behind it
  are left for the next.\<close>

theorem ws_receive:
  assumes "op_ok fin op" and "length m = 4" and "length data \<le> 125"
  shows "\<exists>h b. receive_frame (client_frame fin op m data @ rest) empty_buffer = Value (Some (h, b, rest)) \<and>
    h_opcode h = op \<and> h_fin h = fin \<and> contents b = known data"
proof -
  let ?h = "\<lparr>h_opcode = op, h_rsv3 = False, h_rsv2 = False, h_rsv1 = False, h_fin = fin, h_len = length data, h_mask = True,
      h_payload = length data, h_vmask = m\<rparr>"
  have "receive_opcode (client_frame fin op m data @ rest) = Some (?h, unmask (h_vmask ?h) data @ rest)"
    using receive_header [OF assms(1,3,2), of "unmask m data @ rest"] assms(2) by (simp add: client_frame_def client_mask_unmask)
  from receive_payload [OF this] assms(3) show ?thesis by (intro exI [of _ ?h]) auto
qed

lemma ws_receive_witness:
  "\<exists>h b. receive_frame (client_frame True 1 ''mask'' ''hello'' @ ''rest'') empty_buffer = Value (Some (h, b, ''rest'')) \<and>
    h_opcode h = 1 \<and> contents b = known ''hello''"
proof -
  have "op_ok True 1" by (simp add: op_ok_def ws_ops)
  from ws_receive [OF this, of "''mask''" "''hello''" "''rest''"] show ?thesis by auto
qed

text \<open>C28: What is received is a frame that is masked, without a reserved bit, with a known opcode, whole
  and short when it controls the connection; a header takes at least six bytes.\<close>

theorem ws_accepts:
  assumes "receive_opcode input = Some (h, rest)"
  shows "h_mask h \<and> \<not> h_rsv1 h \<and> \<not> h_rsv2 h \<and> \<not> h_rsv3 h \<and> op_ok (h_fin h) (h_opcode h) \<and>
    (h_opcode h \<ge> CLOSE \<longrightarrow> h_payload h \<le> 125) \<and> length (h_vmask h) = 4 \<and> length rest + 6 \<le> length input"
  using assms
  by (auto simp: receive_opcode_def sock_receive_def Let_def op_accepted_def receive_mask_def op_ok_def ws_ops split: if_splits)

lemma ws_accepts_witness:
  "\<exists>h. receive_opcode (client_frame True 9 ''mask'' [] @ ''x'') = Some (h, ''x'') \<and> h_opcode h = 9 \<and> h_mask h"
proof -
  have o: "op_ok True 9" by (simp add: op_ok_def ws_ops)
  have "receive_opcode (client_frame True 9 ''mask'' [] @ ''x'') =
      Some (\<lparr>h_opcode = 9, h_rsv3 = False, h_rsv2 = False, h_rsv1 = False, h_fin = True, h_len = 0, h_mask = True, h_payload = 0,
        h_vmask = ''mask''\<rparr>, ''x'')" (is "_ = Some (?h, _)")
    using receive_header [OF o, of 0 "''mask''" "''x''"] by (simp add: client_frame_def)
  with ws_accepts [OF this] show ?thesis by (intro exI [of _ ?h]) simp
qed

section \<open>Long frames\<close>

text \<open>The length of a frame with 126 to 65535 bytes is not read from its two bytes: the first of them
  counts 256 and the code 126 is added, and the second is taken for the first byte of the mask.\<close>

theorem ws_extended_length:
  assumes "op_ok fin op" and "op < CLOSE" and "n < 2 ^ 16" and "length m = 4"
  shows "\<exists>h. receive_opcode ([char_of ((if fin then 128 else 0) + op), char_of (254 :: nat), char_of (n div 256), char_of (n mod 256)] @ m @ rest) =
      Some (h, drop 3 m @ rest) \<and> h_payload h = 126 + 256 * (n div 256) \<and> h_vmask h = char_of (n mod 256) # take 3 m"
proof -
  have o: "op < 16" using assms(2) by (simp add: ws_ops)
  have d: "n div 256 < 256" using assms(3) by simp
  have h: "header_of (char_of ((if fin then 128 else 0) + op)) (char_of (254 :: nat)) =
    \<lparr>h_opcode = op, h_rsv3 = False, h_rsv2 = False, h_rsv1 = False, h_fin = fin, h_len = 126, h_mask = True, h_payload = 0,
     h_vmask = replicate 4 NUL\<rparr>"
    using header_of_first [OF o, of 126 fin] by simp
  have a: "op = CONT \<or> op = TEXT \<or> op = BINARY" using assms(1,2) by (auto simp: op_ok_def ws_ops)
  obtain m1 m2 m3 m4 where m: "m = [m1, m2, m3, m4]" using assms(4) by (auto simp: numeral_eq_Suc length_Suc_conv)
  have "ucode (char_of (126 :: nat)) = 126" "ucode (char_of (n div 256)) = n div 256" using d by (simp_all add: ucode_char_of)
  then show ?thesis using h a
    by (auto simp: receive_opcode_def sock_receive_def Let_def op_accepted_def receive_mask_def m)
qed

lemma ws_extended_length_witness:
  "\<exists>h. receive_opcode ([char_of (128 + 1 :: nat), char_of (254 :: nat), char_of (300 div 256 :: nat), char_of (300 mod 256 :: nat)] @ ''mask'' @ []) =
    Some (h, ''k'') \<and> h_payload h = 382"
proof -
  have "op_ok True 1" "(1 :: nat) < CLOSE" by (simp_all add: op_ok_def ws_ops)
  from ws_extended_length [OF this, of 300 "''mask''" "[]"] show ?thesis by auto
qed

lemma read_num_less: "read_num s < 256 ^ length s"
proof (induction s)
  case (Cons c s)
  have "ucode c < 256" by (rule ucode_less)
  with Cons have "ucode c + 256 * read_num s < 256 + 256 * read_num s" "256 + 256 * read_num s \<le> 256 * 256 ^ length s" by simp_all
  then have "ucode c + 256 * read_num s < 256 * 256 ^ length s" by (rule less_le_trans)
  then show ?case by simp
qed simp

lemma receive_long:
  assumes "op_ok fin op" and "op < CLOSE" and "length t = 7" and "length m = 4"
  shows "\<exists>h. receive_opcode ([char_of ((if fin then 128 else 0) + op), char_of (255 :: nat)] @ t @ m @ data) = Some (h, data) \<and>
    h_payload h = 127 + 256 * read_num t"
proof -
  have o: "op < 16" using assms(2) by (simp add: ws_ops)
  have h: "header_of (char_of ((if fin then 128 else 0) + op)) (char_of (255 :: nat)) =
    \<lparr>h_opcode = op, h_rsv3 = False, h_rsv2 = False, h_rsv1 = False, h_fin = fin, h_len = 127, h_mask = True, h_payload = 0,
     h_vmask = replicate 4 NUL\<rparr>"
    using header_of_first [OF o, of 127 fin] by simp
  have a: "op = CONT \<or> op = TEXT \<or> op = BINARY" using assms(1,2) by (auto simp: op_ok_def ws_ops)
  have u: "ucode (char_of (127 :: nat)) = 127" by (simp add: ucode_char_of)
  show ?thesis using h a u assms(3,4) by (auto simp: receive_opcode_def sock_receive_def Let_def op_accepted_def receive_mask_def)
qed

lemma align_less: "align n < 8"
  by (simp add: align_def)

lemma below_boundary:
  assumes "k mod 256 = 129" and "k < 4294967296"
  shows "k + 8 < (4294967296 :: nat)"
proof -
  have "k div 256 < 16777216" using assms(2) by (simp add: less_mult_imp_div_less)
  then show ?thesis using div_mult_mod_eq [of k 256] assms(1) by linarith
qed

lemma reserve_wrapped:
  assumes "v < 2 ^ 56"
  shows "\<exists>k. m_data (reserve ((127 + 256 * v + 2) mod 2 ^ 64) empty_buffer) = Some (realloc None k) \<and> k \<le> (129 + 256 * v) mod 2 ^ 32 + 8"
proof -
  let ?N = "(129 + 256 * v) mod 2 ^ 32"
  have "127 + 256 * v + 2 < 2 ^ 64" using assms by simp
  then have "(127 + 256 * v + 2) mod 2 ^ 64 = 127 + 256 * v + 2" by (rule mod_less)
  then have mod: "(127 + 256 * v + 2) mod 2 ^ 64 = 129 + 256 * v" by linarith
  have "(256 :: nat) dvd 2 ^ 32" by simp
  then have "?N mod 256 = (129 + 256 * v) mod 256" by (rule mod_mod_cancel)
  also have "\<dots> = 129" by simp
  finally have n: "?N + 8 < 4294967296" by (rule below_boundary) simp
  have "reserve (129 + 256 * v) empty_buffer = grow ?N empty_buffer"
    by (simp add: reserve_def capacity_def empty_buffer_def u32_def)
  moreover have "m_data (grow ?N empty_buffer) = Some (realloc None (?N + align ?N + 1))"
    using n align_less [of ?N] by (simp add: grow_def empty_buffer_def Let_def)
  ultimately show ?thesis unfolding mod using align_less [of ?N] by (intro exI [of _ "?N + align ?N + 1"]) simp
qed

text \<open>C27: With the eight byte form of the length a peer writes behind the message buffer: the size of the
  buffer is computed with 32 bits and the bytes that arrive are counted with 64.\<close>

theorem ws_length_overflow:
  assumes "op_ok fin op" and "op < CLOSE" and "length t = 7" and "length m = 4"
    and "length data \<le> 127 + 256 * read_num t" and "(129 + 256 * read_num t) mod 2 ^ 32 + 8 < length data"
  shows "receive_frame ([char_of ((if fin then 128 else 0) + op), char_of (255 :: nat)] @ t @ m @ data) empty_buffer = Undefined"
proof -
  let ?v = "read_num t" and ?N = "(129 + 256 * read_num t) mod 2 ^ 32"
  obtain h where r: "receive_opcode ([char_of ((if fin then 128 else 0) + op), char_of (255 :: nat)] @ t @ m @ data) = Some (h, data)"
    "h_payload h = 127 + 256 * ?v"
    using receive_long [OF assms(1-4), of data] by blast
  have v: "?v < 2 ^ 56" using read_num_less [of t] assms(3) by simp
  from reserve_wrapped [OF v] obtain k where
    b: "m_data (reserve ((127 + 256 * ?v + 2) mod 2 ^ 64) empty_buffer) = Some (realloc None k)" "k \<le> ?N + 8" by blast
  have "take (127 + 256 * ?v) data = data" using assms(5) by simp
  moreover have "length (realloc None k) < length data" using assms(6) b(2) by simp
  ultimately show ?thesis unfolding receive_frame_def r(1) option.case prod.case Let_def r(2) b(1) by simp
qed

text \<open>A frame that says it has 256 + 127 bytes and 2 to the power of 32 more: the buffer has 392.\<close>

lemma ws_length_overflow_witness:
  "receive_frame ([char_of (128 + 2 :: nat), char_of (255 :: nat)] @ [char_of (1 :: nat), NUL, NUL, char_of (1 :: nat), NUL, NUL, NUL] @ ''mask'' @ replicate 400 (CHR ''A'')) empty_buffer = Undefined"
proof -
  let ?t = "[char_of (1 :: nat), NUL, NUL, char_of (1 :: nat), NUL, NUL, NUL] :: string"
  have o: "op_ok True 2" "(2 :: nat) < CLOSE" by (simp_all add: op_ok_def ws_ops)
  have v: "read_num ?t = 16777217" by (simp add: ucode_char_of_rem ucode_def)
  show ?thesis
    using ws_length_overflow [OF o, of ?t "''mask''" "replicate 400 (CHR ''A'')"] unfolding v by simp
qed

section \<open>Sending\<close>

text \<open>How a peer reads the frames of a server: not masked, the length with its high byte first.\<close>

fun net_num :: "string \<Rightarrow> nat" where
  "net_num [] = 0"
| "net_num (c # s) = ucode c * 256 ^ length s + net_num s"

definition peer_length :: "string \<Rightarrow> nat \<times> string" where
  "peer_length s =
     (if ucode (s ! 1) = 126 then (net_num (take 2 (drop 2 s)), drop 4 s)
      else if ucode (s ! 1) = 127 then (net_num (take 8 (drop 2 s)), drop 10 s)
      else (ucode (s ! 1), drop 2 s))"

definition peer_frame :: "string \<Rightarrow> nat \<times> string \<times> string" where
  "peer_frame s = (case peer_length s of (n, s') \<Rightarrow> (ucode (s ! 0) mod 16, take n s', drop n s'))"

lemma ws_send_all:
  assumes "\<And>k s. accept k s \<ge> length s" and "\<not> w_end w"
  shows "\<exists>w'. ws_send accept data op w = (True, w') \<and> w_out w' = w_out w @ frame_head op (length data) @ data \<and> \<not> w_end w'"
  using assms by (simp add: ws_send_def sock_send_def Let_def min_absorb2)

text \<open>What a socket sends, and broadcasts, with at most 125 bytes is one frame for the peer, with the
  opcode and the bytes that were given.\<close>

theorem ws_send_short:
  assumes "\<And>k s. accept k s \<ge> length s" and "\<not> w_end w" and "length data \<le> 125" and "op < 16"
  shows "\<exists>w' f. ws_send accept data op w = (True, w') \<and> w_out w' = w_out w @ f \<and> f = broadcast_frame data op \<and>
    peer_frame (f @ rest) = (op, data, rest)"
proof -
  obtain w' where w: "ws_send accept data op w = (True, w')" "w_out w' = w_out w @ frame_head op (length data) @ data"
    using ws_send_all [where accept = accept, OF assms(1,2)] by blast
  have u: "ucode (char_of (op + 128)) = op + 128" "ucode (char_of (length data)) = length data" "(op + 128) mod 16 = op"
    using assms(3,4) by (simp_all add: ucode_char_of mod_add_eq [symmetric])
  have "frame_head op (length data) = [char_of (op + 128), char_of (length data)]"
    using assms(3,4) by (simp add: frame_head_def payload_1_def)
  then have "peer_frame ((frame_head op (length data) @ data) @ rest) = (op, data, rest)"
    using assms(3) u by (simp add: peer_frame_def peer_length_def)
  with w show ?thesis by (intro exI [of _ w'] exI [of _ "frame_head op (length data) @ data"]) (simp add: broadcast_frame_def)
qed

lemma ws_send_short_witness:
  "\<exists>w' f. ws_send (\<lambda>_ s. length s) ''hi'' TEXT \<lparr>w_out = [], w_calls = 0, w_end = False\<rparr> = (True, w') \<and> w_out w' = f \<and>
    peer_frame (f @ ''z'') = (TEXT, ''hi'', ''z'')"
  using ws_send_short [of "\<lambda>_ s. length s" "\<lparr>w_out = [], w_calls = 0, w_end = False\<rparr>" "''hi''" TEXT "''z''"]
  by (auto simp: ws_ops)

text \<open>The length of a longer frame is sent with its low byte first: a peer reads another number.\<close>

theorem ws_send_swapped:
  assumes "125 < length data" and "length data < 65535" and "op < 16"
  shows "fst (peer_length (broadcast_frame data op)) = (length data mod 256) * 256 + length data div 256"
proof -
  have d: "length data div 256 < 256" using assms(2) by simp
  have "payload_1 (length data) = 126" using assms(1,2) by (simp add: payload_1_def)
  then show ?thesis
    using d by (simp add: broadcast_frame_def frame_head_def peer_length_def numeral_2_eq_2 ucode_char_of_rem)
qed

lemma ws_send_swapped_witness: "fst (peer_length (broadcast_frame (replicate 300 (CHR ''x'')) BINARY)) = 11265"
  using ws_send_swapped [of "replicate 300 (CHR ''x'')" BINARY] by (simp add: ws_ops)

text \<open>C29: When the socket takes less than it is given, \<open>bsend\<close> sends the beginning of the data again and
  again and reports success.\<close>

theorem bsend_repeats:
  assumes "0 < n" and "n < length data" and "\<And>k. accept k data = n" and "isopen (w_calls w)"
  shows "\<exists>w' r. ws_bsend isopen accept data w = (True, w') \<and> w_out w' = w_out w @ concat (replicate (Suc (Suc r)) (take n data))"
proof -
  have loop: "\<exists>w' r. bsend_loop accept data k w = (True, w') \<and> w_out w' = w_out w @ concat (replicate (Suc r) (take n data)) \<and>
      (k + n < length data \<longrightarrow> r > 0)" for k w
  proof (induction "length data - k" arbitrary: k w rule: less_induct)
    case less
    let ?w = "w\<lparr>w_out := w_out w @ take n data, w_calls := Suc (w_calls w)\<rparr>"
    have s: "sock_send accept data w = (n, ?w)" using assms(2,3) by (simp add: sock_send_def Let_def)
    show ?case
    proof (cases "k + n < length data")
      case True
      have "length data - (k + n) < length data - k" using True assms(1) by simp
      from less [OF this, of ?w] obtain w' r where "bsend_loop accept data (k + n) ?w = (True, w')"
        "w_out w' = w_out ?w @ concat (replicate (Suc r) (take n data))" by blast
      then show ?thesis using True assms(1) s
        by (intro exI [of _ w'] exI [of _ "Suc r"]) (subst bsend_loop.simps, simp)
    next
      case False
      then show ?thesis using assms(1) s by (intro exI [of _ ?w] exI [of _ 0]) (subst bsend_loop.simps, simp)
    qed
  qed
  from loop [of 0 w] assms(2) obtain w' r where "bsend_loop accept data 0 w = (True, w')"
    "w_out w' = w_out w @ concat (replicate (Suc r) (take n data))" "r > 0" by auto
  then show ?thesis using assms(4) by (intro exI [of _ w'] exI [of _ "r - 1"]) (simp add: ws_bsend_def)
qed

lemma bsend_repeats_witness:
  "\<exists>w' r. ws_bsend (\<lambda>_. True) (\<lambda>_ _. 2) ''abc'' \<lparr>w_out = [], w_calls = 0, w_end = False\<rparr> = (True, w') \<and>
    w_out w' = concat (replicate (Suc (Suc r)) ''ab'')"
  using bsend_repeats [of 2 "''abc''" "\<lambda>_ _. 2" "\<lambda>_. True" "\<lparr>w_out = [], w_calls = 0, w_end = False\<rparr>"] by (simp add: numeral_2_eq_2)

section \<open>Serving\<close>

text \<open>A pong, which a peer may send at any time, is given to the message handler and ends the session;
  what arrives behind it is not read.\<close>

theorem ws_pong_message:
  assumes "\<not> w_end (snd x)" and "isopen k" and "onMessage api = Some f" and "length m = 4" and "length data \<le> 125"
    and "\<And>y. w_end (snd y) \<Longrightarrow> w_end (snd (f data PONG y))"
  shows "ws_loop api isopen accept k (client_frame True PONG m data @ rest) x = Value (f data PONG (end_session x))"
proof -
  let ?h = "\<lparr>h_opcode = PONG, h_rsv3 = False, h_rsv2 = False, h_rsv1 = False, h_fin = True, h_len = length data, h_mask = True,
      h_payload = length data, h_vmask = m\<rparr>"
  have "op_ok True PONG" by (simp add: op_ok_def)
  from receive_header [OF this assms(5,4), of "unmask m data @ rest"]
  have "receive_opcode (client_frame True PONG m data @ rest) = Some (?h, unmask (h_vmask ?h) data @ rest)"
    using assms(4) by (simp add: client_frame_def client_mask_unmask)
  from receive_payload [OF this] assms(5) obtain b where
    b: "receive_frame (client_frame True PONG m data @ rest) empty_buffer = Value (Some (?h, b, rest))" "contents b = known data" "buf_ok b"
      "m_offset b = length data" "m_offset b < m_size b" "m_data b \<noteq> None" by auto
  obtain mem where mem: "m_data b = Some mem" "length mem = m_size b + 1" "take (length data) mem = known data"
    using b(2-6) by (auto simp: buf_ok_def contents_def)
  have c: "as_cstr b = Value (b\<lparr>m_data := Some (mem[length data := Some NUL])\<rparr>)"
    using b(4,5) mem by (simp add: as_cstr_def wr_def)
  have "contents (b\<lparr>m_data := Some (mem[length data := Some NUL])\<rparr>) = known data"
    using b(4) mem(3) by (simp add: contents_def)
  then have "call_message api b PONG y = Value (f data PONG y)" for y
    using assms(3) c by (simp add: call_message_def known_def comp_def)
  then have "dispatch api accept ?h b x = Value (f data PONG (end_session x))" by (simp add: dispatch_def)
  moreover have "w_end (snd (f data PONG (end_session x)))" by (rule assms(6)) (simp add: end_session_def)
  then have "ws_loop api isopen accept (Suc k) rest (f data PONG (end_session x)) = Value (f data PONG (end_session x))"
    by (subst ws_loop.simps) simp
  ultimately show ?thesis using b(1) assms(1,2) by (subst ws_loop.simps) simp
qed

lemma ws_pong_message_witness:
  "ws_loop \<lparr>onConnect = None, onMessage = Some (\<lambda>s op (l, w). (l @ [(s, op)], w)), onClose = None, onDisconnect = None\<rparr>
      (\<lambda>_. True) (\<lambda>_ s. length s) 0 (client_frame True PONG ''mask'' ''hb'' @ client_frame True TEXT ''mask'' ''lost'')
      ([], \<lparr>w_out = [], w_calls = 0, w_end = False\<rparr>) =
    Value ([(''hb'', PONG)], \<lparr>w_out = [], w_calls = 0, w_end = True\<rparr>)"
  by (subst ws_pong_message [where f = "\<lambda>s op (l, w). (l @ [(s, op)], w)"]) (simp_all add: end_session_def case_prod_unfold)

section \<open>The handshake\<close>

text \<open>The handshake asks for a key and for version 13, and answers with the encoded digest of the key and
  the number of the protocol, once more with the status 101.\<close>

theorem ws_handshake_accept:
  assumes "length (sha1 (key @ WS_SERVER_RESPONSE)) \<le> 2 ^ 28"
  shows "if key = [] then ws_handshake sha1 p key version (Response OK) = Value (end_status BAD_REQUEST (Response OK))
    else if version \<noteq> ''13'' then
      \<exists>r. ws_handshake sha1 p key version (Response OK) = Value r \<and> res_status r = BAD_REQUEST \<and>
        res_headers r = [(''Sec-WebSocket-Version'', ''13'')] \<and> res_proto r = None
    else \<exists>r. ws_handshake sha1 p key version (Response OK) = Value r \<and> res_status r = SWITCHING_PROTOCOLS \<and> res_proto r = Some p \<and>
      res_completed r \<and> res_headers r = [(''Upgrade'', ''WebSocket''), (''Connection'', ''Upgrade''),
        (''Sec-WebSocket-Accept'', b64_text (sha1 (key @ WS_SERVER_RESPONSE)))]"
proof -
  let ?d = "sha1 (key @ WS_SERVER_RESPONSE)"
  have "buf_ok empty_buffer" by (simp add: buf_ok_def empty_buffer_def)
  moreover have "(length ?d + 2) div 3 * 4 \<le> 2 * length ?d + 4" by simp
  then have "room (2 + (length ?d + 2) div 3 * 4) empty_buffer" using assms by (simp add: room_def empty_buffer_def)
  ultimately obtain b where b: "b64_encode ?d empty_buffer = Value b" "contents b = known (b64_text ?d)"
    using b64_encode_contents by blast
  have "map the (contents b) = b64_text ?d" by (simp add: b(2) known_def comp_def)
  then show ?thesis using b(1)
    by (auto simp: ws_handshake_def handshake_def end_status_def set_status_def end_proto_def res_header_def emplace_def Response_def
      OK_def BAD_REQUEST_def SWITCHING_PROTOCOLS_def)
qed

lemma ws_handshake_accept_witness:
  "\<exists>r. ws_handshake (\<lambda>_. ''Man'') () ''key'' ''13'' (Response OK) = Value r \<and>
    res_headers r = [(''Upgrade'', ''WebSocket''), (''Connection'', ''Upgrade''), (''Sec-WebSocket-Accept'', ''TWFu'')]"
proof -
  have "b64_text ''Man'' = ''TWFu''" by (simp add: digits64_def group24_def ucode_def b64table_def)
  with ws_handshake_accept [of "\<lambda>_. ''Man''" "''key''" "()" "''13''"] show ?thesis by auto
qed

end
