(* ===== verification/Spec2Isabelle.thy ===== *)
theory Spec2Isabelle
  imports JsonDoc HttpUrl HttpFeed Board RouterProps ServerParse MustacheProps WebSockSpec
begin

text \<open>
  A verification of the JSON, HTTP and text code of the suil framework.
\<close>

end
